(* ===== verification/Prelude.thy ===== *)
theory Prelude
  imports Main "HOL-Library.AList" "HOL-Library.Multiset" "HOL-Library.Word" "HOL-Library.Signed_Division"
begin

text \<open>
  What the components share: hash maps and hash sets, the fallible arithmetic of \<open>usize\<close>, and
  the generic lemmas on lists, association lists and sorting.

  A Rust hash map (\<open>std::collections::HashMap\<close>, and \<open>AHashMap\<close>, which is the same map with
  another hasher) is the list of its entries in the order its iterator yields them. That order is
  not specified by the library, so nothing fixes it in the initial state of a theorem: statements
  range over every such list with distinct keys, and results are stated through lookups
  (\<^const>\<open>map_of\<close>), sets or multisets. A hash set is likewise the list of its elements.
\<close>

named_theorems hm_simps "lookups and key sets of the hash map operations"
named_theorems hm_intros "well-formedness of the hash map operations"

type_synonym byte = "8 word"
type_synonym bytes = "byte list"
type_synonym instant = nat
type_synonym duration = nat

subsection \<open>Hash maps\<close>

text \<open>Lookups stay lookups: the library would turn them into membership in the list of entries.\<close>

declare map_of_eq_Some_iff [simp del]

type_synonym ('k, 'v) hmap = "('k \<times> 'v) list"

abbreviation hm_keys :: "('k, 'v) hmap \<Rightarrow> 'k set" where
  "hm_keys m \<equiv> fst ` set m"

abbreviation hm_wf :: "('k, 'v) hmap \<Rightarrow> bool" where
  "hm_wf m \<equiv> distinct (map fst m)"

abbreviation hm_insert :: "'k \<Rightarrow> 'v \<Rightarrow> ('k, 'v) hmap \<Rightarrow> ('k, 'v) hmap" where
  "hm_insert k v m \<equiv> AList.update k v m"

abbreviation hm_remove :: "'k \<Rightarrow> ('k, 'v) hmap \<Rightarrow> ('k, 'v) hmap" where
  "hm_remove k m \<equiv> AList.delete k m"

text \<open>\<open>if let Some(v) = m.get_mut(k)\<close> followed by an update of \<open>*v\<close>.\<close>

definition hm_modify :: "'k \<Rightarrow> ('v \<Rightarrow> 'v) \<Rightarrow> ('k, 'v) hmap \<Rightarrow> ('k, 'v) hmap" where
  "hm_modify k f m = (case map_of m k of None \<Rightarrow> m | Some v \<Rightarrow> hm_insert k (f v) m)"

text \<open>\<open>m.entry(k).or_insert(d)\<close> followed by an update of the entry.\<close>

definition hm_entry :: "'k \<Rightarrow> 'v \<Rightarrow> ('v \<Rightarrow> 'v) \<Rightarrow> ('k, 'v) hmap \<Rightarrow> ('k, 'v) hmap" where
  "hm_entry k d f m = hm_insert k (f (case map_of m k of None \<Rightarrow> d | Some v \<Rightarrow> v)) m"

text \<open>\<open>for (k, v) in m.iter_mut()\<close> with an update of every value.\<close>

definition hm_map_values :: "('k \<Rightarrow> 'v \<Rightarrow> 'v) \<Rightarrow> ('k, 'v) hmap \<Rightarrow> ('k, 'v) hmap" where
  "hm_map_values f m = map (\<lambda>(k, v). (k, f k v)) m"

lemma map_of_hm_insert [simp, hm_simps]: "map_of (hm_insert k v m) = (map_of m)(k \<mapsto> v)"
  by (rule AList.update_conv')

lemma map_of_hm_remove [simp, hm_simps]: "map_of (hm_remove k m) = (map_of m)(k := None)"
  by (rule AList.delete_conv')

lemma map_of_hm_modify [hm_simps]:
  "map_of (hm_modify k f m) = (map_of m)(k := map_option f (map_of m k))"
  by (auto simp: hm_modify_def fun_eq_iff split: option.splits)

lemma map_of_hm_entry [hm_simps]:
  "map_of (hm_entry k d f m) = (map_of m)(k \<mapsto> f (case map_of m k of None \<Rightarrow> d | Some v \<Rightarrow> v))"
  by (simp add: hm_entry_def)

lemma map_of_hm_map_values [hm_simps]:
  "map_of (hm_map_values f m) k = map_option (f k) (map_of m k)"
  by (induction m) (auto simp: hm_map_values_def)

lemma hm_keys_dom: "hm_keys m = dom (map_of m)"
  by (simp add: dom_map_of_conv_image_fst)

lemma hm_keys_insert [simp, hm_simps]: "hm_keys (hm_insert k v m) = insert k (hm_keys m)"
  by (simp add: AList.dom_update)

lemma hm_keys_remove [simp, hm_simps]: "hm_keys (hm_remove k m) = hm_keys m - {k}"
  by (auto simp: hm_keys_dom)

lemma hm_keys_modify [simp, hm_simps]: "hm_keys (hm_modify k f m) = hm_keys m"
proof (cases "map_of m k")
  case None
  then show ?thesis by (simp add: hm_modify_def)
next
  case (Some v)
  then have "k \<in> hm_keys m" by (auto simp: hm_keys_dom)
  with Some show ?thesis by (simp add: hm_modify_def insert_absorb)
qed

lemma hm_keys_entry [simp, hm_simps]: "hm_keys (hm_entry k d f m) = insert k (hm_keys m)"
  by (simp add: hm_entry_def)

lemma map_fst_hm_map_values [simp]: "map fst (hm_map_values f m) = map fst m"
  by (induction m) (auto simp: hm_map_values_def)

lemma hm_keys_map_values [simp, hm_simps]: "hm_keys (hm_map_values f m) = hm_keys m"
  by (metis list.set_map map_fst_hm_map_values)

lemma hm_wf_insert [simp, intro, hm_intros]: "hm_wf m \<Longrightarrow> hm_wf (hm_insert k v m)"
  by (rule AList.distinct_update)

lemma hm_wf_remove [simp, intro, hm_intros]: "hm_wf m \<Longrightarrow> hm_wf (hm_remove k m)"
  by (rule AList.distinct_delete)

lemma hm_wf_modify [simp, intro, hm_intros]: "hm_wf m \<Longrightarrow> hm_wf (hm_modify k f m)"
  by (simp add: hm_modify_def split: option.split)

lemma hm_wf_entry [simp, intro, hm_intros]: "hm_wf m \<Longrightarrow> hm_wf (hm_entry k d f m)"
  by (simp add: hm_entry_def)

lemma hm_wf_filter [simp, intro, hm_intros]: "hm_wf m \<Longrightarrow> hm_wf (filter P m)"
  by (simp add: distinct_map_filter)

lemma hm_get_mem: "hm_wf m \<Longrightarrow> (k, v) \<in> set m \<longleftrightarrow> map_of m k = Some v"
  by (simp add: map_of_eq_Some_iff)

lemma hm_get_None: "map_of m k = None \<longleftrightarrow> k \<notin> hm_keys m"
  by (simp add: map_of_eq_None_iff)

lemma hm_get_notin [simp]: "k \<notin> hm_keys m \<Longrightarrow> map_of m k = None"
  by (simp add: hm_get_None)

lemma hm_get_key: "map_of m k = Some v \<Longrightarrow> k \<in> hm_keys m"
  by (metis hm_get_None option.simps(3))

lemma hm_insert_fresh: "k \<notin> hm_keys m \<Longrightarrow> hm_insert k v m = m @ [(k, v)]"
  by (induction m) auto

lemma map_of_hm_filter:
  "hm_wf m \<Longrightarrow> map_of (filter (\<lambda>(k, v). P k v) m) k =
     (case map_of m k of None \<Rightarrow> None | Some v \<Rightarrow> if P k v then Some v else None)"
proof (induction m)
  case Nil
  then show ?case by simp
next
  case (Cons kv m)
  obtain a b where kv: "kv = (a, b)" by (cases kv)
  have "map_of m k = None" if "k = a"
    using Cons.prems that kv by (auto simp: map_of_eq_None_iff)
  with Cons kv show ?case by (auto split: option.splits)
qed

lemma hm_size_keys: "hm_wf m \<Longrightarrow> length m = card (hm_keys m)"
  by (metis distinct_card length_map list.set_map)

subsection \<open>Hash sets\<close>

abbreviation hs_insert :: "'a \<Rightarrow> 'a list \<Rightarrow> 'a list" where
  "hs_insert x s \<equiv> List.insert x s"

abbreviation hs_remove :: "'a \<Rightarrow> 'a list \<Rightarrow> 'a list" where
  "hs_remove x s \<equiv> removeAll x s"

text \<open>Collecting an iterator into a hash set.\<close>

definition hs_of_list :: "'a list \<Rightarrow> 'a list" where
  "hs_of_list xs = fold List.insert xs []"

lemma set_fold_hs_insert [simp]: "set (fold List.insert xs s) = set s \<union> set xs"
  by (induction xs arbitrary: s) auto

lemma distinct_fold_hs_insert [simp, intro]: "distinct s \<Longrightarrow> distinct (fold List.insert xs s)"
  by (induction xs arbitrary: s) auto

lemma set_hs_of_list [simp]: "set (hs_of_list xs) = set xs"
  by (simp add: hs_of_list_def)

lemma distinct_hs_of_list [simp, intro]: "distinct (hs_of_list xs)"
  by (simp add: hs_of_list_def)

subsection \<open>Fallible arithmetic\<close>

text \<open>
  Subtraction of \<open>usize\<close> values. Below zero it panics where overflow checks are on (\<open>None\<close>) and
  wraps around modulo \<open>2 ^ 64\<close> where they are off, as in the release profiles of the workspace.
\<close>

definition usize_sub :: "bool \<Rightarrow> nat \<Rightarrow> nat \<Rightarrow> nat option" where
  "usize_sub overflow_checks a b =
     (if b \<le> a then Some (a - b)
      else if overflow_checks then None
      else Some (2 ^ 64 + a - b))"

lemma usize_sub_ok [simp]: "b \<le> a \<Longrightarrow> usize_sub oc a b = Some (a - b)"
  by (simp add: usize_sub_def)

lemma usize_sub_panic [simp]: "a < b \<Longrightarrow> usize_sub True a b = None"
  by (simp add: usize_sub_def)

text \<open>An array access; \<open>None\<close> is a panic.\<close>

definition arr_at :: "'a list \<Rightarrow> nat \<Rightarrow> 'a option" where
  "arr_at xs i = (if i < length xs then Some (xs ! i) else None)"

subsection \<open>Lists\<close>

lemma sum_list_filter_split:
  fixes f :: "'a \<Rightarrow> nat"
  shows "sum_list (map f xs) =
    sum_list (map f (filter P xs)) + sum_list (map f (filter (\<lambda>x. \<not> P x) xs))"
  by (induction xs) auto

lemma sum_list_map_mset:
  fixes f :: "'a \<Rightarrow> nat"
  assumes "mset xs = mset ys"
  shows "sum_list (map f xs) = sum_list (map f ys)"
  by (metis assms mset_map sum_mset_sum_list)

lemma fold_invariant:
  assumes "P s" and "\<And>x s. x \<in> set xs \<Longrightarrow> P s \<Longrightarrow> P (f x s)"
  shows "P (fold f xs s)"
  using assms by (induction xs arbitrary: s) auto

subsection \<open>Results\<close>

text \<open>The \<open>?\<close> operator, and a \<open>for\<close> loop whose body ends early on an error.\<close>

definition result_bind :: "'e + 'a \<Rightarrow> ('a \<Rightarrow> 'e + 'b) \<Rightarrow> 'e + 'b" where
  "result_bind r f = (case r of Inl e \<Rightarrow> Inl e | Inr a \<Rightarrow> f a)"

fun fold_result :: "('x \<Rightarrow> 's \<Rightarrow> 'e + 's) \<Rightarrow> 'x list \<Rightarrow> 's \<Rightarrow> 'e + 's" where
  "fold_result f [] s = Inr s"
| "fold_result f (x # xs) s = result_bind (f x s) (fold_result f xs)"

definition ok_or :: "'e \<Rightarrow> 'a option \<Rightarrow> 'e + 'a" where
  "ok_or e x = (case x of None \<Rightarrow> Inl e | Some a \<Rightarrow> Inr a)"

lemma result_bind_simps [simp]: "result_bind (Inl e) f = Inl e" "result_bind (Inr a) f = f a"
  by (simp_all add: result_bind_def)

lemma ok_or_simps [simp]: "ok_or e None = Inl e" "ok_or e (Some a) = Inr a"
  by (simp_all add: ok_or_def)

lemma fold_result_Inr:
  assumes "\<And>x s. x \<in> set xs \<Longrightarrow> f x s = Inr (g x s)"
  shows "fold_result f xs s = Inr (fold g xs s)"
  using assms by (induction xs arbitrary: s) auto

lemma fold_result_invariant:
  assumes "fold_result f xs s = Inr s'" and "P s"
    and "\<And>x s s'. x \<in> set xs \<Longrightarrow> P s \<Longrightarrow> f x s = Inr s' \<Longrightarrow> P s'"
  shows "P s'"
  using assms
proof (induction xs arbitrary: s)
  case Nil
  then show ?case by simp
next
  case (Cons x xs)
  from Cons.prems(1) obtain t where t: "f x s = Inr t" and rest: "fold_result f xs t = Inr s'"
    by (cases "f x s") auto
  have "P t" by (rule Cons.prems(3)[OF _ Cons.prems(2) t]) simp
  from rest this show ?case by (rule Cons.IH) (use Cons.prems(3) in auto)
qed

end
