(* ===== verification/Message.thy ===== *)
theory Message
  imports Prelude
begin

text \<open>
  Bitswap messages: \<open>iroh-bitswap/src/message.rs\<close>, \<open>block.rs\<close> and \<open>prefix.rs\<close>.

  The message is a record of the source's fields. Its wire form, the structures that \<open>prost\<close>
  generates from \<open>bitswap_pb.proto\<close>, is given by the records \<open>pb_entry\<close> to \<open>pb_message\<close>; an enum
  field of them is an \<open>i32\<close>. The crates \<open>cid\<close>, \<open>multihash\<close> and \<open>unsigned_varint\<close> are parameters,
  collected in the record \<open>cid_ops\<close>; what the round trip needs of them is \<open>cid_laws\<close>. The encoded
  size of a protobuf structure is the parameter \<open>elen\<close>.
\<close>

subsection \<open>Data\<close>

type_synonym u64 = "64 word"

type_synonym priority = int

datatype want_type = WantBlock | WantHave

lemma want_type_neq [simp]: "t \<noteq> WantHave \<longleftrightarrow> t = WantBlock" "t \<noteq> WantBlock \<longleftrightarrow> t = WantHave"
  by (cases t; simp)+

datatype block_presence_type = Have | DontHave

datatype bitswap_error =
    ErrProtobuf
  | ErrCid
  | ErrMultihash
  | InvalidBlockPresenceType int
  | InvalidWantType int

record 'cid block =
  b_cid :: 'cid
  b_data :: bytes

record 'cid block_presence =
  bp_cid :: 'cid
  bp_typ :: block_presence_type

record 'cid msg_entry =
  me_cid :: 'cid
  me_priority :: priority
  me_want_type :: want_type
  me_cancel :: bool
  me_send_dont_have :: bool

record 'cid bitswap_message =
  msg_full :: bool
  msg_wantlist :: "('cid, 'cid msg_entry) hmap"
  msg_blocks :: "('cid, 'cid block) hmap"
  msg_block_presences :: "('cid, block_presence_type) hmap"
  msg_pending_bytes :: int

record pb_entry =
  pbe_block :: bytes
  pbe_priority :: int
  pbe_cancel :: bool
  pbe_want_type :: int
  pbe_send_dont_have :: bool

record pb_wantlist =
  pbw_entries :: "pb_entry list"
  pbw_full :: bool

record pb_block =
  pbb_prefix :: bytes
  pbb_data :: bytes

record pb_block_presence =
  pbp_cid :: bytes
  pbp_type :: int

record pb_message =
  pbm_wantlist :: "pb_wantlist option"
  pbm_blocks :: "bytes list"
  pbm_payload :: "pb_block list"
  pbm_block_presences :: "pb_block_presence list"
  pbm_pending_bytes :: int

subsection \<open>The crates the code calls\<close>

text \<open>
  A CID version and a multihash code are represented by their numbers; \<open>version_known\<close> and
  \<open>code_known\<close> say whether \<open>Version::try_from\<close> and \<open>Code::try_from\<close> accept the number.
\<close>

record ('cid, 'mh) cid_ops =
  cid_to_bytes :: "'cid \<Rightarrow> bytes"
  cid_try_from :: "bytes \<Rightarrow> 'cid option"
  cid_version :: "'cid \<Rightarrow> u64"
  cid_codec :: "'cid \<Rightarrow> u64"
  cid_hash :: "'cid \<Rightarrow> 'mh"
  cid_new :: "u64 \<Rightarrow> u64 \<Rightarrow> 'mh \<Rightarrow> 'cid option"
  version_known :: "u64 \<Rightarrow> bool"
  mh_code :: "'mh \<Rightarrow> u64"
  mh_digest_len :: "'mh \<Rightarrow> nat"
  code_known :: "u64 \<Rightarrow> bool"
  code_digest :: "u64 \<Rightarrow> bytes \<Rightarrow> 'mh"
  code_sha2_256 :: u64
  varint_encode :: "u64 \<Rightarrow> bytes"
  varint_decode_u64 :: "bytes \<Rightarrow> (u64 \<times> bytes) option"
  varint_decode_usize :: "bytes \<Rightarrow> (nat \<times> bytes) option"

text \<open>
  What the code relies on: a CID is read back from its bytes, and rebuilt from its version, codec
  and hash; a variable-length integer is read back with the bytes after it left over.
\<close>

definition cid_laws :: "('cid, 'mh) cid_ops \<Rightarrow> bool" where
  "cid_laws ops \<longleftrightarrow>
     (\<forall>c. cid_try_from ops (cid_to_bytes ops c) = Some c) \<and>
     (\<forall>c. cid_new ops (cid_version ops c) (cid_codec ops c) (cid_hash ops c) = Some c) \<and>
     (\<forall>c. version_known ops (cid_version ops c)) \<and>
     (\<forall>c. mh_digest_len ops (cid_hash ops c) < 2 ^ 64) \<and>
     (\<forall>n rest. varint_decode_u64 ops (varint_encode ops n @ rest) = Some (n, rest)) \<and>
     (\<forall>n rest. varint_decode_usize ops (varint_encode ops n @ rest) = Some (unat n, rest))"

subsection \<open>Enumerations on the wire\<close>

fun want_type_into :: "want_type \<Rightarrow> int" where
  "want_type_into WantBlock = 0"
| "want_type_into WantHave = 1"

definition want_type_try_from :: "int \<Rightarrow> bitswap_error + want_type" where
  "want_type_try_from n =
     (if n = 0 then Inr WantBlock else if n = 1 then Inr WantHave else Inl (InvalidWantType n))"

fun presence_type_into :: "block_presence_type \<Rightarrow> int" where
  "presence_type_into Have = 0"
| "presence_type_into DontHave = 1"

definition presence_type_try_from :: "int \<Rightarrow> bitswap_error + block_presence_type" where
  "presence_type_try_from n =
     (if n = 0 then Inr Have else if n = 1 then Inr DontHave
      else Inl (InvalidBlockPresenceType n))"

subsection \<open>Prefixes\<close>

record prefix =
  p_version :: u64
  p_codec :: u64
  p_mh_type :: u64
  p_mh_len :: nat

definition Prefix_new :: "('cid, 'mh) cid_ops \<Rightarrow> bytes \<Rightarrow> bitswap_error + prefix" where
  "Prefix_new ops data =
     result_bind (ok_or ErrCid (varint_decode_u64 ops data)) (\<lambda>(raw_version, remain1).
     if \<not> version_known ops raw_version then Inl ErrCid else
     result_bind (ok_or ErrCid (varint_decode_u64 ops remain1)) (\<lambda>(codec, remain2).
     result_bind (ok_or ErrCid (varint_decode_u64 ops remain2)) (\<lambda>(mh_type, remain3).
     result_bind (ok_or ErrCid (varint_decode_usize ops remain3)) (\<lambda>(mh_len, _).
     if \<not> code_known ops mh_type then Inl ErrMultihash else
     Inr \<lparr>p_version = raw_version, p_codec = codec, p_mh_type = mh_type, p_mh_len = mh_len\<rparr>))))"

definition Prefix_to_bytes :: "('cid, 'mh) cid_ops \<Rightarrow> prefix \<Rightarrow> bytes" where
  "Prefix_to_bytes ops p =
     varint_encode ops (p_version p) @ varint_encode ops (p_codec p) @
     varint_encode ops (p_mh_type p) @ varint_encode ops (of_nat (p_mh_len p))"

definition Prefix_to_cid :: "('cid, 'mh) cid_ops \<Rightarrow> prefix \<Rightarrow> bytes \<Rightarrow> bitswap_error + 'cid" where
  "Prefix_to_cid ops p data =
     ok_or ErrCid (cid_new ops (p_version p) (p_codec p) (code_digest ops (p_mh_type p) data))"

text \<open>\<open>Prefix::from\<close> panics (\<open>None\<close>) on a hash function the \<open>multihash\<close> crate does not know.\<close>

definition Prefix_from :: "('cid, 'mh) cid_ops \<Rightarrow> 'cid \<Rightarrow> prefix option" where
  "Prefix_from ops c =
     (if code_known ops (mh_code ops (cid_hash ops c)) then
        Some \<lparr>p_version = cid_version ops c, p_codec = cid_codec ops c,
              p_mh_type = mh_code ops (cid_hash ops c),
              p_mh_len = mh_digest_len ops (cid_hash ops c)\<rparr>
      else None)"

subsection \<open>Blocks\<close>

definition Block_new :: "bytes \<Rightarrow> 'cid \<Rightarrow> 'cid block" where
  "Block_new data c = \<lparr>b_cid = c, b_data = data\<rparr>"

definition Block_from_v0_data :: "('cid, 'mh) cid_ops \<Rightarrow> ('mh \<Rightarrow> 'cid option) \<Rightarrow> bytes \<Rightarrow>
    bitswap_error + 'cid block" where
  "Block_from_v0_data ops new_v0 data =
     result_bind (ok_or ErrCid (new_v0 (code_digest ops (code_sha2_256 ops) data)))
       (\<lambda>c. Inr (Block_new data c))"

text \<open>\<open>iroh_util::verify_hash\<close>: \<open>None\<close> for an unknown hash function.\<close>

definition verify_hash :: "('cid, 'mh) cid_ops \<Rightarrow> 'cid \<Rightarrow> bytes \<Rightarrow> bool option" where
  "verify_hash ops c data =
     (let code = mh_code ops (cid_hash ops c) in
      if code_known ops code then Some (code_digest ops code data = cid_hash ops c) else None)"

subsection \<open>Messages\<close>

definition pb_of_entry :: "('cid, 'mh) cid_ops \<Rightarrow> 'cid msg_entry \<Rightarrow> pb_entry" where
  "pb_of_entry ops e =
     \<lparr>pbe_block = cid_to_bytes ops (me_cid e), pbe_priority = me_priority e,
      pbe_cancel = me_cancel e, pbe_want_type = want_type_into (me_want_type e),
      pbe_send_dont_have = me_send_dont_have e\<rparr>"

definition pb_of_presence :: "('cid, 'mh) cid_ops \<Rightarrow> 'cid block_presence \<Rightarrow> pb_block_presence" where
  "pb_of_presence ops bp =
     \<lparr>pbp_cid = cid_to_bytes ops (bp_cid bp), pbp_type = presence_type_into (bp_typ bp)\<rparr>"

definition BlockPresence_encoded_len_for_cid ::
    "('cid, 'mh) cid_ops \<Rightarrow> (pb_block_presence \<Rightarrow> nat) \<Rightarrow> 'cid \<Rightarrow> nat" where
  "BlockPresence_encoded_len_for_cid ops plen c =
     plen \<lparr>pbp_cid = cid_to_bytes ops c, pbp_type = presence_type_into Have\<rparr>"

definition BitswapMessage_new :: "bool \<Rightarrow> 'cid bitswap_message" where
  "BitswapMessage_new full =
     \<lparr>msg_full = full, msg_wantlist = [], msg_blocks = [], msg_block_presences = [],
      msg_pending_bytes = 0\<rparr>"

definition BitswapMessage_clear :: "bool \<Rightarrow> 'cid bitswap_message \<Rightarrow> 'cid bitswap_message" where
  "BitswapMessage_clear full m =
     m\<lparr>msg_full := full, msg_wantlist := [], msg_blocks := [], msg_block_presences := [],
       msg_pending_bytes := 0\<rparr>"

definition BitswapMessage_verify_blocks ::
    "('cid, 'mh) cid_ops \<Rightarrow> 'cid bitswap_message \<Rightarrow> 'cid bitswap_message" where
  "BitswapMessage_verify_blocks ops m =
     m\<lparr>msg_blocks := filter (\<lambda>(_, b). case verify_hash ops (b_cid b) (b_data b) of
                                  Some ok \<Rightarrow> ok | None \<Rightarrow> False) (msg_blocks m)\<rparr>"

definition BitswapMessage_is_empty :: "'cid bitswap_message \<Rightarrow> bool" where
  "BitswapMessage_is_empty m \<longleftrightarrow>
     msg_blocks m = [] \<and> msg_wantlist m = [] \<and> msg_block_presences m = []"

definition BitswapMessage_wantlist :: "'cid bitswap_message \<Rightarrow> 'cid msg_entry list" where
  "BitswapMessage_wantlist m = map snd (msg_wantlist m)"

definition BitswapMessage_blocks :: "'cid bitswap_message \<Rightarrow> 'cid block list" where
  "BitswapMessage_blocks m = map snd (msg_blocks m)"

definition BitswapMessage_block_presences :: "'cid bitswap_message \<Rightarrow> 'cid block_presence list" where
  "BitswapMessage_block_presences m =
     map (\<lambda>(c, t). \<lparr>bp_cid = c, bp_typ = t\<rparr>) (msg_block_presences m)"

definition get_block_presence_by_type :: "block_presence_type \<Rightarrow> 'cid bitswap_message \<Rightarrow> 'cid list" where
  "get_block_presence_by_type typ m =
     map fst (filter (\<lambda>(_, t). t = typ) (msg_block_presences m))"

definition BitswapMessage_haves :: "'cid bitswap_message \<Rightarrow> 'cid list" where
  "BitswapMessage_haves m = get_block_presence_by_type Have m"

definition BitswapMessage_dont_haves :: "'cid bitswap_message \<Rightarrow> 'cid list" where
  "BitswapMessage_dont_haves m = get_block_presence_by_type DontHave m"

definition BitswapMessage_remove :: "'cid \<Rightarrow> 'cid bitswap_message \<Rightarrow> 'cid bitswap_message" where
  "BitswapMessage_remove c m = m\<lparr>msg_wantlist := hm_remove c (msg_wantlist m)\<rparr>"

text \<open>The new message and the encoded size of the entry that was added, 0 for an update.\<close>

definition merge_entry :: "priority \<Rightarrow> bool \<Rightarrow> want_type \<Rightarrow> bool \<Rightarrow> 'cid msg_entry \<Rightarrow> 'cid msg_entry" where
  "merge_entry priority cancel wt sdh e =
     (let e1 = (if me_want_type e = wt then e\<lparr>me_priority := priority\<rparr> else e);
          e2 = (if cancel then e1\<lparr>me_cancel := cancel\<rparr> else e1);
          e3 = (if sdh then e2\<lparr>me_send_dont_have := sdh\<rparr> else e2)
      in if wt = WantBlock \<and> me_want_type e3 = WantHave then e3\<lparr>me_want_type := wt\<rparr> else e3)"

definition add_full_entry ::
    "('cid, 'mh) cid_ops \<Rightarrow> (pb_entry \<Rightarrow> nat) \<Rightarrow> 'cid \<Rightarrow> priority \<Rightarrow> bool \<Rightarrow> want_type \<Rightarrow> bool \<Rightarrow>
      'cid bitswap_message \<Rightarrow> 'cid bitswap_message \<times> nat" where
  "add_full_entry ops elen c priority cancel wt sdh m =
     (case map_of (msg_wantlist m) c of
        Some e \<Rightarrow>
          (m\<lparr>msg_wantlist := hm_insert c (merge_entry priority cancel wt sdh e) (msg_wantlist m)\<rparr>, 0)
      | None \<Rightarrow>
          (let e = \<lparr>me_cid = c, me_priority = priority, me_want_type = wt, me_cancel = cancel,
                    me_send_dont_have = sdh\<rparr>
           in (m\<lparr>msg_wantlist := hm_insert c e (msg_wantlist m)\<rparr>, elen (pb_of_entry ops e))))"

definition BitswapMessage_cancel ::
    "('cid, 'mh) cid_ops \<Rightarrow> (pb_entry \<Rightarrow> nat) \<Rightarrow> 'cid \<Rightarrow> 'cid bitswap_message \<Rightarrow>
      'cid bitswap_message \<times> nat" where
  "BitswapMessage_cancel ops elen c m = add_full_entry ops elen c 0 True WantBlock False m"

definition BitswapMessage_add_entry ::
    "('cid, 'mh) cid_ops \<Rightarrow> (pb_entry \<Rightarrow> nat) \<Rightarrow> 'cid \<Rightarrow> priority \<Rightarrow> want_type \<Rightarrow> bool \<Rightarrow>
      'cid bitswap_message \<Rightarrow> 'cid bitswap_message \<times> nat" where
  "BitswapMessage_add_entry ops elen c priority wt sdh m =
     add_full_entry ops elen c priority False wt sdh m"

definition BitswapMessage_add_block :: "'cid block \<Rightarrow> 'cid bitswap_message \<Rightarrow> 'cid bitswap_message" where
  "BitswapMessage_add_block b m =
     m\<lparr>msg_block_presences := hm_remove (b_cid b) (msg_block_presences m),
       msg_blocks := hm_insert (b_cid b) b (msg_blocks m)\<rparr>"

definition BitswapMessage_add_block_presence ::
    "'cid \<Rightarrow> block_presence_type \<Rightarrow> 'cid bitswap_message \<Rightarrow> 'cid bitswap_message" where
  "BitswapMessage_add_block_presence c typ m =
     (if c \<in> hm_keys (msg_blocks m) then m
      else m\<lparr>msg_block_presences := hm_insert c typ (msg_block_presences m)\<rparr>)"

definition BitswapMessage_add_have :: "'cid \<Rightarrow> 'cid bitswap_message \<Rightarrow> 'cid bitswap_message" where
  "BitswapMessage_add_have c = BitswapMessage_add_block_presence c Have"

definition BitswapMessage_add_dont_have :: "'cid \<Rightarrow> 'cid bitswap_message \<Rightarrow> 'cid bitswap_message" where
  "BitswapMessage_add_dont_have c = BitswapMessage_add_block_presence c DontHave"

definition BitswapMessage_encoded_len ::
    "('cid, 'mh) cid_ops \<Rightarrow> (pb_entry \<Rightarrow> nat) \<Rightarrow> (pb_block_presence \<Rightarrow> nat) \<Rightarrow>
      'cid bitswap_message \<Rightarrow> nat" where
  "BitswapMessage_encoded_len ops elen plen m =
     sum_list (map (\<lambda>b. length (b_data b)) (BitswapMessage_blocks m)) +
     sum_list (map (\<lambda>bp. plen (pb_of_presence ops bp)) (BitswapMessage_block_presences m)) +
     sum_list (map (\<lambda>e. elen (pb_of_entry ops e)) (BitswapMessage_wantlist m))"

subsection \<open>The wire form\<close>

definition encode_as_proto_v0 :: "('cid, 'mh) cid_ops \<Rightarrow> 'cid bitswap_message \<Rightarrow> pb_message" where
  "encode_as_proto_v0 ops m =
     \<lparr>pbm_wantlist = Some \<lparr>pbw_entries = map (pb_of_entry ops) (BitswapMessage_wantlist m),
                           pbw_full = msg_full m\<rparr>,
      pbm_blocks = map b_data (BitswapMessage_blocks m),
      pbm_payload = [],
      pbm_block_presences = [],
      pbm_pending_bytes = 0\<rparr>"

definition pb_of_block :: "('cid, 'mh) cid_ops \<Rightarrow> 'cid block \<Rightarrow> pb_block option" where
  "pb_of_block ops b =
     map_option (\<lambda>p. \<lparr>pbb_prefix = Prefix_to_bytes ops p, pbb_data = b_data b\<rparr>)
       (Prefix_from ops (b_cid b))"

definition encode_as_proto_v1 :: "('cid, 'mh) cid_ops \<Rightarrow> 'cid bitswap_message \<Rightarrow> pb_message option" where
  "encode_as_proto_v1 ops m =
     map_option (\<lambda>payload.
       \<lparr>pbm_wantlist = Some \<lparr>pbw_entries = map (pb_of_entry ops) (BitswapMessage_wantlist m),
                             pbw_full = msg_full m\<rparr>,
        pbm_blocks = [],
        pbm_payload = payload,
        pbm_block_presences = map (pb_of_presence ops) (BitswapMessage_block_presences m),
        pbm_pending_bytes = msg_pending_bytes m\<rparr>)
       (those (map (pb_of_block ops) (BitswapMessage_blocks m)))"

definition decode_entry ::
    "('cid, 'mh) cid_ops \<Rightarrow> (pb_entry \<Rightarrow> nat) \<Rightarrow> pb_entry \<Rightarrow> 'cid bitswap_message \<Rightarrow>
      bitswap_error + 'cid bitswap_message" where
  "decode_entry ops elen e m =
     result_bind (ok_or ErrCid (cid_try_from ops (pbe_block e))) (\<lambda>c.
     result_bind (want_type_try_from (pbe_want_type e)) (\<lambda>wt.
     Inr (fst (add_full_entry ops elen c (pbe_priority e) (pbe_cancel e) wt
                 (pbe_send_dont_have e) m))))"

definition decode_block_v0 ::
    "('cid, 'mh) cid_ops \<Rightarrow> ('mh \<Rightarrow> 'cid option) \<Rightarrow> bytes \<Rightarrow> 'cid bitswap_message \<Rightarrow>
      bitswap_error + 'cid bitswap_message" where
  "decode_block_v0 ops new_v0 data m =
     result_bind (Block_from_v0_data ops new_v0 data) (\<lambda>b. Inr (BitswapMessage_add_block b m))"

definition decode_block ::
    "('cid, 'mh) cid_ops \<Rightarrow> pb_block \<Rightarrow> 'cid bitswap_message \<Rightarrow>
      bitswap_error + 'cid bitswap_message" where
  "decode_block ops b m =
     result_bind (Prefix_new ops (pbb_prefix b)) (\<lambda>p.
     result_bind (Prefix_to_cid ops p (pbb_data b)) (\<lambda>c.
     Inr (BitswapMessage_add_block (Block_new (pbb_data b) c) m)))"

definition decode_presence ::
    "('cid, 'mh) cid_ops \<Rightarrow> pb_block_presence \<Rightarrow> 'cid bitswap_message \<Rightarrow>
      bitswap_error + 'cid bitswap_message" where
  "decode_presence ops bp m =
     result_bind (ok_or ErrCid (cid_try_from ops (pbp_cid bp))) (\<lambda>c.
     result_bind (presence_type_try_from (pbp_type bp)) (\<lambda>t.
     Inr (BitswapMessage_add_block_presence c t m)))"

definition BitswapMessage_try_from ::
    "('cid, 'mh) cid_ops \<Rightarrow> ('mh \<Rightarrow> 'cid option) \<Rightarrow> (pb_entry \<Rightarrow> nat) \<Rightarrow> pb_message \<Rightarrow>
      bitswap_error + 'cid bitswap_message" where
  "BitswapMessage_try_from ops new_v0 elen pbm =
     (let full = (case pbm_wantlist pbm of None \<Rightarrow> False | Some w \<Rightarrow> pbw_full w);
          entries = (case pbm_wantlist pbm of None \<Rightarrow> [] | Some w \<Rightarrow> pbw_entries w)
      in result_bind (fold_result (decode_entry ops elen) entries (BitswapMessage_new full)) (\<lambda>m1.
         result_bind (fold_result (decode_block_v0 ops new_v0) (pbm_blocks pbm) m1) (\<lambda>m2.
         result_bind (fold_result (decode_block ops) (pbm_payload pbm) m2) (\<lambda>m3.
         result_bind (fold_result (decode_presence ops) (pbm_block_presences pbm) m3) (\<lambda>m4.
         Inr (m4\<lparr>msg_pending_bytes := pbm_pending_bytes pbm\<rparr>))))))"

definition BitswapMessage_try_from_bytes ::
    "('cid, 'mh) cid_ops \<Rightarrow> ('mh \<Rightarrow> 'cid option) \<Rightarrow> (pb_entry \<Rightarrow> nat) \<Rightarrow>
      (bytes \<Rightarrow> pb_message option) \<Rightarrow> bytes \<Rightarrow> bitswap_error + 'cid bitswap_message" where
  "BitswapMessage_try_from_bytes ops new_v0 elen pb_decode value =
     result_bind (ok_or ErrProtobuf (pb_decode value)) (BitswapMessage_try_from ops new_v0 elen)"

subsection \<open>The message invariant\<close>

text \<open>
  Every table has one entry per key, an entry and a block are filed under their own CID, and no CID
  has both a block and a presence.
\<close>

definition message_wf :: "'cid bitswap_message \<Rightarrow> bool" where
  "message_wf m \<longleftrightarrow>
     hm_wf (msg_wantlist m) \<and> hm_wf (msg_blocks m) \<and> hm_wf (msg_block_presences m) \<and>
     (\<forall>c e. map_of (msg_wantlist m) c = Some e \<longrightarrow> me_cid e = c) \<and>
     (\<forall>c b. map_of (msg_blocks m) c = Some b \<longrightarrow> b_cid b = c) \<and>
     hm_keys (msg_blocks m) \<inter> hm_keys (msg_block_presences m) = {}"

lemma message_wfI:
  assumes "hm_wf (msg_wantlist m)" "hm_wf (msg_blocks m)" "hm_wf (msg_block_presences m)"
    and "\<And>c e. map_of (msg_wantlist m) c = Some e \<Longrightarrow> me_cid e = c"
    and "\<And>c b. map_of (msg_blocks m) c = Some b \<Longrightarrow> b_cid b = c"
    and "hm_keys (msg_blocks m) \<inter> hm_keys (msg_block_presences m) = {}"
  shows "message_wf m"
  using assms by (simp add: message_wf_def)

lemma message_wf_new [simp]: "message_wf (BitswapMessage_new full)"
  by (simp add: message_wf_def BitswapMessage_new_def)

lemma message_wf_clear [simp]: "message_wf (BitswapMessage_clear full m)"
  by (simp add: message_wf_def BitswapMessage_clear_def)

lemma message_wf_pending [simp]: "message_wf (m\<lparr>msg_pending_bytes := n\<rparr>) = message_wf m"
  by (simp add: message_wf_def)

lemma me_cid_merge_entry [simp]: "me_cid (merge_entry p c wt sdh e) = me_cid e"
  by (simp add: merge_entry_def Let_def)

lemma message_wf_add_full_entry [simp]:
  "message_wf m \<Longrightarrow> message_wf (fst (add_full_entry ops elen c p cancel wt sdh m))"
  by (auto simp: message_wf_def add_full_entry_def Let_def split: option.split)

lemma message_wf_remove [simp]: "message_wf m \<Longrightarrow> message_wf (BitswapMessage_remove c m)"
  by (auto simp: message_wf_def BitswapMessage_remove_def)

lemma message_wf_add_block [simp]: "message_wf m \<Longrightarrow> message_wf (BitswapMessage_add_block b m)"
  by (auto simp: message_wf_def BitswapMessage_add_block_def)

lemma message_wf_add_presence [simp]:
  "message_wf m \<Longrightarrow> message_wf (BitswapMessage_add_block_presence c t m)"
  by (auto simp: message_wf_def BitswapMessage_add_block_presence_def)

lemma message_wf_verify [simp]:
  assumes "message_wf m"
  shows "message_wf (BitswapMessage_verify_blocks ops m)"
proof -
  let ?ok = "\<lambda>(_, b). case verify_hash ops (b_cid b) (b_data b) of Some ok \<Rightarrow> ok | None \<Rightarrow> False"
  have wf: "hm_wf (msg_blocks m)" using assms by (simp add: message_wf_def)
  have sub: "map_of (filter ?ok (msg_blocks m)) c = Some b \<Longrightarrow> map_of (msg_blocks m) c = Some b" for c b
    using wf by (simp add: map_of_hm_filter split: option.splits if_splits)
  have keys: "hm_keys (filter ?ok (msg_blocks m)) \<subseteq> hm_keys (msg_blocks m)" by auto
  show ?thesis
  proof (rule message_wfI)
    show "b_cid b = c" if "map_of (msg_blocks (BitswapMessage_verify_blocks ops m)) c = Some b" for c b
      using sub[of c b] that assms by (simp add: BitswapMessage_verify_blocks_def message_wf_def)
    show "hm_keys (msg_blocks (BitswapMessage_verify_blocks ops m)) \<inter>
        hm_keys (msg_block_presences (BitswapMessage_verify_blocks ops m)) = {}"
      using keys assms by (auto simp: BitswapMessage_verify_blocks_def message_wf_def)
  qed (use assms in \<open>simp_all add: BitswapMessage_verify_blocks_def message_wf_def\<close>)
qed

subsection \<open>What a message tells the peer\<close>

text \<open>Which CIDs the message lists, and whether as a cancel.\<close>

definition listed_cancel :: "'cid bitswap_message \<Rightarrow> 'cid \<Rightarrow> bool option" where
  "listed_cancel m c = map_option me_cancel (map_of (msg_wantlist m) c)"

text \<open>
  The wants of this client as its peer knows them after a message: cancelled CIDs leave, wanted CIDs
  enter. (The ledger of the peer's server behaves like this; see the root theory.)
\<close>

definition apply_message :: "'cid bitswap_message \<Rightarrow> 'cid set \<Rightarrow> 'cid set" where
  "apply_message m V =
     {c. case listed_cancel m c of None \<Rightarrow> c \<in> V | Some cancelled \<Rightarrow> \<not> cancelled}"

lemma listed_cancel_new [simp]: "listed_cancel (BitswapMessage_new full) c = None"
  by (simp add: listed_cancel_def BitswapMessage_new_def)

lemma listed_cancel_add_full:
  "listed_cancel (fst (add_full_entry ops elen c p cancel wt sdh m)) =
     (listed_cancel m)(c \<mapsto> cancel \<or> listed_cancel m c = Some True)"
  by (auto simp: listed_cancel_def add_full_entry_def merge_entry_def Let_def fun_eq_iff split: option.splits)

subsection \<open>What decoding accepts\<close>

text \<open>A property of messages that every decoding step keeps holds of the decoded message.\<close>

lemma decode_invariant:
  assumes dec: "BitswapMessage_try_from ops new_v0 elen pbm = Inr m"
    and new: "\<And>full. P (BitswapMessage_new full)"
    and entry: "\<And>e m m'. P m \<Longrightarrow> decode_entry ops elen e m = Inr m' \<Longrightarrow> P m'"
    and v0: "\<And>d m m'. P m \<Longrightarrow> decode_block_v0 ops new_v0 d m = Inr m' \<Longrightarrow> P m'"
    and blk: "\<And>b m m'. P m \<Longrightarrow> decode_block ops b m = Inr m' \<Longrightarrow> P m'"
    and pres: "\<And>b m m'. P m \<Longrightarrow> decode_presence ops b m = Inr m' \<Longrightarrow> P m'"
    and pending: "\<And>n m. P m \<Longrightarrow> P (m\<lparr>msg_pending_bytes := n\<rparr>)"
  shows "P m"
proof -
  from dec obtain full entries m1 m2 m3 m4 where
      1: "fold_result (decode_entry ops elen) entries (BitswapMessage_new full) = Inr m1"
    and 2: "fold_result (decode_block_v0 ops new_v0) (pbm_blocks pbm) m1 = Inr m2"
    and 3: "fold_result (decode_block ops) (pbm_payload pbm) m2 = Inr m3"
    and 4: "fold_result (decode_presence ops) (pbm_block_presences pbm) m3 = Inr m4"
    and m: "m = m4\<lparr>msg_pending_bytes := pbm_pending_bytes pbm\<rparr>"
    by (auto simp: BitswapMessage_try_from_def Let_def result_bind_def split: sum.splits)
  have "P m1" by (rule fold_result_invariant[OF 1]) (auto intro: entry new)
  then have "P m2" by (rule fold_result_invariant[OF 2]) (auto intro: v0)
  then have "P m3" by (rule fold_result_invariant[OF 3]) (auto intro: blk)
  then have "P m4" by (rule fold_result_invariant[OF 4]) (auto intro: pres)
  with m pending show ?thesis by simp
qed

lemma decode_wf:
  assumes "BitswapMessage_try_from ops new_v0 elen pbm = Inr m"
  shows "message_wf m"
  using assms
proof (rule decode_invariant)
  show "message_wf m'" if "message_wf m" "decode_entry ops elen e m = Inr m'" for e m m'
    using that by (auto simp: decode_entry_def result_bind_def split: sum.splits)
  show "message_wf m'" if "message_wf m" "decode_block_v0 ops new_v0 d m = Inr m'" for d m m'
    using that by (auto simp: decode_block_v0_def result_bind_def split: sum.splits)
  show "message_wf m'" if "message_wf m" "decode_block ops b m = Inr m'" for b m m'
    using that by (auto simp: decode_block_def result_bind_def split: sum.splits)
  show "message_wf m'" if "message_wf m" "decode_presence ops b m = Inr m'" for b m m'
    using that by (auto simp: decode_presence_def result_bind_def split: sum.splits)
qed simp_all

text \<open>
  What the integrity of decoded blocks needs of the crates: a CID that was built from a hash has
  that hash, a digest carries the code of its hash function, and SHA2-256 is a known function.
\<close>

definition digest_laws :: "('cid, 'mh) cid_ops \<Rightarrow> ('mh \<Rightarrow> 'cid option) \<Rightarrow> bool" where
  "digest_laws ops new_v0 \<longleftrightarrow>
     (\<forall>v c mh cid. cid_new ops v c mh = Some cid \<longrightarrow> cid_hash ops cid = mh) \<and>
     (\<forall>mh cid. new_v0 mh = Some cid \<longrightarrow> cid_hash ops cid = mh) \<and>
     (\<forall>code data. code_known ops code \<longrightarrow> mh_code ops (code_digest ops code data) = code) \<and>
     code_known ops (code_sha2_256 ops)"

definition blocks_verified :: "('cid, 'mh) cid_ops \<Rightarrow> 'cid bitswap_message \<Rightarrow> bool" where
  "blocks_verified ops m \<longleftrightarrow>
     (\<forall>(c, b) \<in> set (msg_blocks m). verify_hash ops (b_cid b) (b_data b) = Some True)"

lemma verify_blocks_noop: "blocks_verified ops m \<Longrightarrow> BitswapMessage_verify_blocks ops m = m"
proof -
  assume "blocks_verified ops m"
  then have "filter (\<lambda>(_, b). case verify_hash ops (b_cid b) (b_data b) of
      Some ok \<Rightarrow> ok | None \<Rightarrow> False) (msg_blocks m) = msg_blocks m"
    by (auto simp: blocks_verified_def filter_id_conv)
  then show ?thesis by (simp add: BitswapMessage_verify_blocks_def)
qed

lemma set_hm_insert: "set (hm_insert k v m) \<subseteq> insert (k, v) (set m)"
  by (induction m) auto

lemma blocks_verified_add_block:
  assumes "blocks_verified ops m" and "verify_hash ops (b_cid b) (b_data b) = Some True"
  shows "blocks_verified ops (BitswapMessage_add_block b m)"
  using assms set_hm_insert[of "b_cid b" b "msg_blocks m"]
  unfolding blocks_verified_def BitswapMessage_add_block_def by auto

lemma decode_blocks_verified:
  assumes laws: "digest_laws ops new_v0"
    and "BitswapMessage_try_from ops new_v0 elen pbm = Inr m"
  shows "blocks_verified ops m"
  using assms(2)
proof (rule decode_invariant)
  show "blocks_verified ops m'"
    if "blocks_verified ops m" "decode_entry ops elen e m = Inr m'" for e m m'
    using that by (auto simp: decode_entry_def result_bind_def add_full_entry_def Let_def
        blocks_verified_def split: sum.splits option.splits)
  show "blocks_verified ops m'"
    if "blocks_verified ops m" "decode_block_v0 ops new_v0 d m = Inr m'" for d m m'
    using that laws
    by (auto simp: decode_block_v0_def result_bind_def Block_from_v0_data_def ok_or_def Block_new_def
        verify_hash_def Let_def digest_laws_def intro!: blocks_verified_add_block
        split: sum.splits option.splits)
  show "blocks_verified ops m'"
    if "blocks_verified ops m" "decode_block ops b m = Inr m'" for b m m'
    using that laws
    by (auto simp: decode_block_def result_bind_def Prefix_new_def Prefix_to_cid_def ok_or_def
        Block_new_def verify_hash_def Let_def digest_laws_def intro!: blocks_verified_add_block
        split: sum.splits option.splits if_splits)
  show "blocks_verified ops m'"
    if "blocks_verified ops m" "decode_presence ops b m = Inr m'" for b m m'
    using that by (auto simp: decode_presence_def result_bind_def BitswapMessage_add_block_presence_def
        blocks_verified_def split: sum.splits if_splits)
qed (simp_all add: blocks_verified_def BitswapMessage_new_def)

subsection \<open>Round trips\<close>

lemma want_type_roundtrip [simp]: "want_type_try_from (want_type_into wt) = Inr wt"
  by (cases wt) (simp_all add: want_type_try_from_def)

lemma presence_type_roundtrip [simp]: "presence_type_try_from (presence_type_into t) = Inr t"
  by (cases t) (simp_all add: presence_type_try_from_def)

lemma Prefix_roundtrip:
  assumes "cid_laws ops" and "version_known ops (p_version p)" and "code_known ops (p_mh_type p)"
    and "p_mh_len p < 2 ^ 64"
  shows "Prefix_new ops (Prefix_to_bytes ops p) = Inr p"
proof -
  have u64: "varint_decode_u64 ops (varint_encode ops n @ rest) = Some (n, rest)" for n rest
    using assms(1) by (simp add: cid_laws_def)
  have usize: "varint_decode_usize ops (varint_encode ops n) = Some (unat n, [])" for n
    using assms(1) by (metis append_Nil2 cid_laws_def)
  have "unat (of_nat (p_mh_len p) :: u64) = p_mh_len p"
    using assms(4) by (simp add: unat_of_nat)
  then show ?thesis
    using assms(2,3) by (simp add: Prefix_new_def Prefix_to_bytes_def u64 usize)
qed

lemma decode_block_of_pb:
  assumes laws: "cid_laws ops" and ok: "verify_hash ops (b_cid b) (b_data b) = Some True"
  shows "\<exists>pb. pb_of_block ops b = Some pb \<and>
     decode_block ops pb m = Inr (BitswapMessage_add_block b m)"
proof -
  let ?c = "b_cid b"
  let ?p = "\<lparr>p_version = cid_version ops ?c, p_codec = cid_codec ops ?c,
             p_mh_type = mh_code ops (cid_hash ops ?c), p_mh_len = mh_digest_len ops (cid_hash ops ?c)\<rparr>"
  from ok have known: "code_known ops (mh_code ops (cid_hash ops ?c))"
    and digest: "code_digest ops (mh_code ops (cid_hash ops ?c)) (b_data b) = cid_hash ops ?c"
    by (auto simp: verify_hash_def Let_def split: if_splits)
  have new: "Prefix_new ops (Prefix_to_bytes ops ?p) = Inr ?p"
    using laws known by (intro Prefix_roundtrip) (auto simp: cid_laws_def)
  have cid: "Prefix_to_cid ops ?p (b_data b) = Inr ?c"
    using laws digest by (simp add: Prefix_to_cid_def cid_laws_def)
  have "Block_new (b_data b) ?c = b" by (simp add: Block_new_def)
  with known new cid show ?thesis
    by (simp add: pb_of_block_def Prefix_from_def decode_block_def)
qed

lemma decode_entries:
  assumes laws: "cid_laws ops"
    and "distinct (map fst (msg_wantlist m @ wl))"
    and "\<forall>(c, e) \<in> set wl. me_cid e = c"
  shows "fold_result (decode_entry ops elen) (map (pb_of_entry ops) (map snd wl)) m =
     Inr (m\<lparr>msg_wantlist := msg_wantlist m @ wl\<rparr>)"
  using assms(2,3)
proof (induction wl arbitrary: m)
  case Nil
  then show ?case by simp
next
  case (Cons ce wl)
  obtain c e where ce: "ce = (c, e)" by (cases ce)
  have c: "me_cid e = c" and fresh: "c \<notin> hm_keys (msg_wantlist m)" using Cons.prems ce by auto
  then have none: "map_of (msg_wantlist m) c = None" by simp
  have "decode_entry ops elen (pb_of_entry ops e) m =
      Inr (m\<lparr>msg_wantlist := msg_wantlist m @ [(c, e)]\<rparr>)"
    using laws c none fresh
    by (simp add: decode_entry_def pb_of_entry_def cid_laws_def add_full_entry_def
        hm_insert_fresh flip: c)
  moreover have "fold_result (decode_entry ops elen) (map (pb_of_entry ops) (map snd wl))
      (m\<lparr>msg_wantlist := msg_wantlist m @ [(c, e)]\<rparr>) =
      Inr (m\<lparr>msg_wantlist := msg_wantlist m @ (c, e) # wl\<rparr>)"
    using Cons.IH[of "m\<lparr>msg_wantlist := msg_wantlist m @ [(c, e)]\<rparr>"] Cons.prems ce by simp
  ultimately show ?case by (simp add: ce)
qed

lemma decode_blocks:
  assumes laws: "cid_laws ops"
    and "distinct (map fst (msg_blocks m @ bl))" and "msg_block_presences m = []"
    and "\<forall>(c, b) \<in> set bl. b_cid b = c \<and> verify_hash ops (b_cid b) (b_data b) = Some True"
  shows "\<exists>payload. those (map (pb_of_block ops) (map snd bl)) = Some payload \<and>
     fold_result (decode_block ops) payload m = Inr (m\<lparr>msg_blocks := msg_blocks m @ bl\<rparr>)"
  using assms(2-4)
proof (induction bl arbitrary: m)
  case Nil
  then show ?case by simp
next
  case (Cons cb bl)
  obtain c b where cb: "cb = (c, b)" by (cases cb)
  have c: "b_cid b = c" and ok: "verify_hash ops (b_cid b) (b_data b) = Some True"
    and fresh: "c \<notin> hm_keys (msg_blocks m)" using Cons.prems cb by auto
  let ?m = "m\<lparr>msg_blocks := msg_blocks m @ [(c, b)]\<rparr>"
  have add: "BitswapMessage_add_block b m = ?m"
    using c fresh Cons.prems(2) by (simp add: BitswapMessage_add_block_def hm_insert_fresh)
  obtain pb where pb: "pb_of_block ops b = Some pb" "decode_block ops pb m = Inr ?m"
    using decode_block_of_pb[OF laws ok, of m] add by auto
  obtain payload where "those (map (pb_of_block ops) (map snd bl)) = Some payload"
    "fold_result (decode_block ops) payload ?m = Inr (?m\<lparr>msg_blocks := msg_blocks ?m @ bl\<rparr>)"
    using Cons.IH[of ?m] Cons.prems cb by auto
  with pb cb show ?case by simp
qed

lemma decode_presences:
  assumes laws: "cid_laws ops"
    and "distinct (map fst (msg_block_presences m @ bl))"
    and "hm_keys (msg_blocks m) \<inter> fst ` set bl = {}"
  shows "fold_result (decode_presence ops)
       (map (pb_of_presence ops) (map (\<lambda>(c, t). \<lparr>bp_cid = c, bp_typ = t\<rparr>) bl)) m =
     Inr (m\<lparr>msg_block_presences := msg_block_presences m @ bl\<rparr>)"
  using assms(2,3)
proof (induction bl arbitrary: m)
  case Nil
  then show ?case by simp
next
  case (Cons ct bl)
  obtain c t where ct: "ct = (c, t)" by (cases ct)
  let ?m = "m\<lparr>msg_block_presences := msg_block_presences m @ [(c, t)]\<rparr>"
  have fresh: "c \<notin> hm_keys (msg_block_presences m)" and nb: "c \<notin> hm_keys (msg_blocks m)"
    using Cons.prems ct by auto
  have "decode_presence ops (pb_of_presence ops \<lparr>bp_cid = c, bp_typ = t\<rparr>) m = Inr ?m"
    using laws nb fresh
    by (simp add: decode_presence_def pb_of_presence_def cid_laws_def
        BitswapMessage_add_block_presence_def hm_insert_fresh)
  moreover have "fold_result (decode_presence ops)
       (map (pb_of_presence ops) (map (\<lambda>(c, t). \<lparr>bp_cid = c, bp_typ = t\<rparr>) bl)) ?m =
     Inr (?m\<lparr>msg_block_presences := msg_block_presences ?m @ bl\<rparr>)"
    using Cons.IH[of ?m] Cons.prems ct by simp
  ultimately show ?case by (simp add: ct)
qed

lemma verify_blocks_idD:
  assumes "BitswapMessage_verify_blocks ops m = m"
  shows "\<forall>(c, b) \<in> set (msg_blocks m). verify_hash ops (b_cid b) (b_data b) = Some True"
proof -
  let ?ok = "\<lambda>(_, b). case verify_hash ops (b_cid b) (b_data b) of Some ok \<Rightarrow> ok | None \<Rightarrow> False"
  have "msg_blocks (BitswapMessage_verify_blocks ops m) = filter ?ok (msg_blocks m)"
    by (simp add: BitswapMessage_verify_blocks_def)
  with assms have "filter ?ok (msg_blocks m) = msg_blocks m" by simp
  then have "\<forall>x \<in> set (msg_blocks m). ?ok x" by (simp only: filter_id_conv)
  then show ?thesis by (auto split: option.splits)
qed

text \<open>C7: the v1 wire form of a well-formed message with valid blocks decodes to that message.\<close>

theorem message_roundtrip:
  assumes laws: "cid_laws ops" and wf: "message_wf m"
    and valid: "BitswapMessage_verify_blocks ops m = m"
  shows "\<exists>pbm. encode_as_proto_v1 ops m = Some pbm \<and>
     BitswapMessage_try_from ops new_v0 elen pbm = Inr m"
proof -
  have dist: "hm_wf (msg_wantlist m)" "hm_wf (msg_blocks m)" "hm_wf (msg_block_presences m)"
    and disj: "hm_keys (msg_blocks m) \<inter> hm_keys (msg_block_presences m) = {}"
    using wf by (simp_all add: message_wf_def)
  have own: "\<forall>(c, e) \<in> set (msg_wantlist m). me_cid e = c"
    using wf dist(1) by (auto simp: message_wf_def dest: map_of_is_SomeI)
  let ?m0 = "BitswapMessage_new (msg_full m)"
  let ?m1 = "?m0\<lparr>msg_wantlist := msg_wantlist m\<rparr>"
  let ?m3 = "?m1\<lparr>msg_blocks := msg_blocks m\<rparr>"
  have entries: "fold_result (decode_entry ops elen)
      (map (pb_of_entry ops) (BitswapMessage_wantlist m)) ?m0 = Inr ?m1"
    using decode_entries[OF laws _ own, of ?m0 elen] dist(1)
    by (simp add: BitswapMessage_wantlist_def BitswapMessage_new_def)
  have ok: "\<forall>(c, b) \<in> set (msg_blocks m).
      b_cid b = c \<and> verify_hash ops (b_cid b) (b_data b) = Some True"
    using verify_blocks_idD[OF valid] wf dist(2)
    by (auto simp: message_wf_def dest: map_of_is_SomeI)
  obtain payload where pay: "those (map (pb_of_block ops) (BitswapMessage_blocks m)) = Some payload"
    and blocks: "fold_result (decode_block ops) payload ?m1 = Inr ?m3"
    using decode_blocks[OF laws _ _ ok, of ?m1] dist(2)
    by (auto simp: BitswapMessage_blocks_def BitswapMessage_new_def)
  have presences: "fold_result (decode_presence ops)
      (map (pb_of_presence ops) (BitswapMessage_block_presences m)) ?m3 =
      Inr (?m3\<lparr>msg_block_presences := msg_block_presences m\<rparr>)"
    using decode_presences[OF laws, of ?m3 "msg_block_presences m"] dist(3) disj
    by (simp add: BitswapMessage_block_presences_def BitswapMessage_new_def)
  have "?m3\<lparr>msg_block_presences := msg_block_presences m,
            msg_pending_bytes := msg_pending_bytes m\<rparr> = m"
    by (simp add: BitswapMessage_new_def)
  then show ?thesis
    using entries pay blocks presences
    by (simp add: encode_as_proto_v1_def BitswapMessage_try_from_def)
qed

text \<open>
  C35: Every message that decoding accepts satisfies the message invariant (no duplicate keys, entries
  and blocks under their own CID, no CID with both a block and a presence) and each of its blocks
  hashes to its CID, so that \<open>verify_blocks\<close> drops none of them.
\<close>

theorem decode_message_wf:
  assumes "digest_laws ops new_v0"
    and "BitswapMessage_try_from ops new_v0 elen pbm = Inr m"
  shows "message_wf m \<and> BitswapMessage_verify_blocks ops m = m"
  using decode_wf[OF assms(2)] verify_blocks_noop[OF decode_blocks_verified[OF assms]] by simp

subsection \<open>A concrete instance of the crates\<close>

text \<open>
  A CID is the content itself, an integer is written in unary: the smallest functions that satisfy
  the laws, on which the properties are instantiated.
\<close>

definition unary_decode :: "bytes \<Rightarrow> (nat \<times> bytes) option" where
  "unary_decode bs =
     (let k = length (takeWhile (\<lambda>b. b = 1) bs) in
      if k < length bs then Some (k, drop (Suc k) bs) else None)"

definition demo_ops :: "(bytes, bytes) cid_ops" where
  "demo_ops =
     \<lparr>cid_to_bytes = (\<lambda>c. c), cid_try_from = Some, cid_version = (\<lambda>_. 1), cid_codec = (\<lambda>_. 2),
      cid_hash = (\<lambda>c. c), cid_new = (\<lambda>v codec mh. Some mh), version_known = (\<lambda>v. v \<le> 1),
      mh_code = (\<lambda>_. 3), mh_digest_len = (\<lambda>_. 4), code_known = (\<lambda>c. c = 3),
      code_digest = (\<lambda>c data. data), code_sha2_256 = 3,
      varint_encode = (\<lambda>n. replicate (unat n) 1 @ [0]),
      varint_decode_u64 = (\<lambda>bs. map_option (\<lambda>(n, rest). (of_nat n, rest)) (unary_decode bs)),
      varint_decode_usize = unary_decode\<rparr>"

definition demo_message :: "bytes bitswap_message" where
  "demo_message =
     \<lparr>msg_full = True,
      msg_wantlist = [([7], \<lparr>me_cid = [7], me_priority = 5, me_want_type = WantHave,
                              me_cancel = False, me_send_dont_have = True\<rparr>)],
      msg_blocks = [([1, 2], \<lparr>b_cid = [1, 2], b_data = [1, 2]\<rparr>)],
      msg_block_presences = [([9], DontHave)], msg_pending_bytes = 12\<rparr>"

lemma unary_decode_encode: "unary_decode (replicate n 1 @ [0] @ rest) = Some (n, rest)"
proof -
  have "takeWhile (\<lambda>b. b = 1) (replicate n 1 @ [0 :: byte] @ rest) = replicate n 1"
    by (simp add: takeWhile_append)
  then show ?thesis by (simp add: unary_decode_def Let_def)
qed

lemma demo_laws: "cid_laws demo_ops"
  using unary_decode_encode by (simp add: cid_laws_def demo_ops_def)

lemma demo_digest_laws: "digest_laws demo_ops Some"
  by (simp add: digest_laws_def demo_ops_def)

lemma demo_message_ok:
  "message_wf demo_message" "BitswapMessage_verify_blocks demo_ops demo_message = demo_message"
  by (auto simp: message_wf_def demo_message_def BitswapMessage_verify_blocks_def verify_hash_def
      demo_ops_def split: if_splits)

theorem message_roundtrip_witness:
  "message_wf demo_message \<and>
   (\<exists>pbm. encode_as_proto_v1 demo_ops demo_message = Some pbm \<and>
      BitswapMessage_try_from demo_ops Some (\<lambda>_. 0) pbm = Inr demo_message)"
  using message_roundtrip[OF demo_laws demo_message_ok, of Some "\<lambda>_. 0"] demo_message_ok(1) by simp

definition demo_pb :: pb_message where
  "demo_pb = \<lparr>pbm_wantlist = Some \<lparr>pbw_entries = [\<lparr>pbe_block = [7], pbe_priority = 5,
        pbe_cancel = False, pbe_want_type = 1, pbe_send_dont_have = True\<rparr>], pbw_full = True\<rparr>,
      pbm_blocks = [[1, 2]], pbm_payload = [],
      pbm_block_presences = [\<lparr>pbp_cid = [9], pbp_type = 1\<rparr>], pbm_pending_bytes = 12\<rparr>"

lemma demo_pb_decodes: "BitswapMessage_try_from demo_ops Some (\<lambda>_. 0) demo_pb = Inr demo_message"
  by (simp add: BitswapMessage_try_from_def demo_pb_def demo_message_def decode_entry_def
      want_type_try_from_def add_full_entry_def decode_block_v0_def Block_from_v0_data_def Block_new_def
      BitswapMessage_add_block_def decode_presence_def presence_type_try_from_def
      BitswapMessage_add_block_presence_def BitswapMessage_new_def demo_ops_def)

theorem decode_message_wf_witness:
  "message_wf demo_message \<and> BitswapMessage_verify_blocks demo_ops demo_message = demo_message"
  using decode_message_wf[OF demo_digest_laws demo_pb_decodes] by simp

end
