(* ===== verification/Wantlist.thy ===== *)
theory Wantlist
  imports Message
begin

text \<open>
  Wantlists and what is built directly on them: \<open>client/wantlist.rs\<close> (the list with its sorted
  cache), \<open>client/message_queue/wantlist.rs\<close> (pending and sent wants of one peer),
  \<open>server/ledger.rs\<close> and \<open>server/peer_ledger.rs\<close>.

  The locale \<open>want_store\<close> is the contract the ledgers and the message queue rely on; it is
  interpreted on the wantlist of the code.
\<close>

subsection \<open>The wantlist\<close>

record 'cid wl_entry =
  we_cid :: 'cid
  we_priority :: priority
  we_want_type :: want_type

record 'cid wantlist =
  wl_set :: "('cid, 'cid wl_entry) hmap"
  wl_cached :: "'cid wl_entry list"

definition Entry_new :: "'cid \<Rightarrow> priority \<Rightarrow> want_type \<Rightarrow> 'cid wl_entry" where
  "Entry_new c p t = \<lparr>we_cid = c, we_priority = p, we_want_type = t\<rparr>"

definition Wantlist_default :: "'cid wantlist" where
  "Wantlist_default = \<lparr>wl_set = [], wl_cached = []\<rparr>"

definition Wantlist_len :: "'cid wantlist \<Rightarrow> nat" where
  "Wantlist_len w = length (wl_set w)"

definition Wantlist_is_empty :: "'cid wantlist \<Rightarrow> bool" where
  "Wantlist_is_empty w \<longleftrightarrow> wl_set w = []"

definition Wantlist_clear :: "'cid wantlist \<Rightarrow> 'cid wantlist" where
  "Wantlist_clear w = w\<lparr>wl_set := [], wl_cached := []\<rparr>"

definition Wantlist_add :: "'cid \<Rightarrow> priority \<Rightarrow> want_type \<Rightarrow> 'cid wantlist \<Rightarrow> 'cid wantlist \<times> bool" where
  "Wantlist_add c p t w =
     (case map_of (wl_set w) c of
        None \<Rightarrow> (w\<lparr>wl_cached := [], wl_set := hm_insert c (Entry_new c p t) (wl_set w)\<rparr>, True)
      | Some e \<Rightarrow>
          if we_want_type e = WantBlock \<or> t = WantHave then (w, False)
          else (w\<lparr>wl_set := hm_insert c (Entry_new c p t) (wl_set w), wl_cached := []\<rparr>, True))"

definition Wantlist_remove :: "'cid \<Rightarrow> 'cid wantlist \<Rightarrow> 'cid wantlist \<times> 'cid wl_entry option" where
  "Wantlist_remove c w =
     (w\<lparr>wl_cached := [], wl_set := hm_remove c (wl_set w)\<rparr>, map_of (wl_set w) c)"

definition Wantlist_get :: "'cid wantlist \<Rightarrow> 'cid \<Rightarrow> 'cid wl_entry option" where
  "Wantlist_get w c = map_of (wl_set w) c"

definition Wantlist_contains :: "'cid wantlist \<Rightarrow> 'cid \<Rightarrow> bool" where
  "Wantlist_contains w c \<longleftrightarrow> c \<in> hm_keys (wl_set w)"

definition Wantlist_remove_type ::
    "'cid \<Rightarrow> want_type \<Rightarrow> 'cid wantlist \<Rightarrow> 'cid wantlist \<times> 'cid wl_entry option" where
  "Wantlist_remove_type c t w =
     (case map_of (wl_set w) c of
        None \<Rightarrow> (w, None)
      | Some e \<Rightarrow>
          if we_want_type e = WantBlock \<and> t = WantHave then (w, None)
          else (w\<lparr>wl_cached := [], wl_set := hm_remove c (wl_set w)\<rparr>, Some e))"

text \<open>\<open>sort_by_cached_key\<close> is a stable sort, so the cache is \<^const>\<open>sort_key\<close> reversed.\<close>

definition Wantlist_entries :: "'cid wantlist \<Rightarrow> 'cid wantlist \<times> 'cid wl_entry list" where
  "Wantlist_entries w =
     (let cached = (if wl_cached w = [] then rev (sort_key we_priority (map snd (wl_set w)))
                    else wl_cached w)
      in (w\<lparr>wl_cached := cached\<rparr>, cached))"

definition extend_one :: "'cid \<times> 'cid wl_entry \<Rightarrow> ('cid, 'cid wl_entry) hmap \<Rightarrow> ('cid, 'cid wl_entry) hmap" where
  "extend_one ce s =
     (case map_of s (fst ce) of
        Some e \<Rightarrow>
          if we_want_type e = WantBlock \<or> we_want_type (snd ce) = WantHave then s
          else hm_insert (fst ce) (snd ce) s
      | None \<Rightarrow> hm_insert (fst ce) (snd ce) s)"

definition Wantlist_extend :: "'cid wantlist \<Rightarrow> 'cid wantlist \<Rightarrow> 'cid wantlist" where
  "Wantlist_extend other w =
     w\<lparr>wl_cached := [], wl_set := fold extend_one (wl_set other) (wl_set w)\<rparr>"

subsection \<open>Invariant of the wantlist\<close>

text \<open>
  The cache is either empty or the entries of the set in descending order of priority.
\<close>

definition wantlist_wf :: "'cid wantlist \<Rightarrow> bool" where
  "wantlist_wf w \<longleftrightarrow>
     hm_wf (wl_set w) \<and>
     (\<forall>c e. map_of (wl_set w) c = Some e \<longrightarrow> we_cid e = c) \<and>
     (wl_cached w = [] \<or>
      (mset (wl_cached w) = mset (map snd (wl_set w)) \<and>
       sorted_wrt (\<lambda>e e'. we_priority e' \<le> we_priority e) (wl_cached w)))"

lemma we_cid_Entry_new [simp]: "we_cid (Entry_new c p t) = c"
  and we_priority_Entry_new [simp]: "we_priority (Entry_new c p t) = p"
  and we_want_type_Entry_new [simp]: "we_want_type (Entry_new c p t) = t"
  by (simp_all add: Entry_new_def)

lemma wantlist_wf_default [simp]: "wantlist_wf Wantlist_default"
  by (simp add: wantlist_wf_def Wantlist_default_def)

lemma wantlist_wf_clear [simp]: "wantlist_wf (Wantlist_clear w)"
  by (simp add: wantlist_wf_def Wantlist_clear_def)

lemma wantlist_wf_add [simp]: "wantlist_wf w \<Longrightarrow> wantlist_wf (fst (Wantlist_add c p t w))"
  by (auto simp: wantlist_wf_def Wantlist_add_def split: option.split)

lemma wantlist_wf_remove [simp]: "wantlist_wf w \<Longrightarrow> wantlist_wf (fst (Wantlist_remove c w))"
  by (auto simp: wantlist_wf_def Wantlist_remove_def)

lemma wantlist_wf_remove_type [simp]:
  "wantlist_wf w \<Longrightarrow> wantlist_wf (fst (Wantlist_remove_type c t w))"
  by (auto simp: wantlist_wf_def Wantlist_remove_type_def split: option.split)

lemma extend_one_wf:
  "hm_wf s \<and> (\<forall>c e. map_of s c = Some e \<longrightarrow> we_cid e = c) \<Longrightarrow> we_cid (snd ce) = fst ce \<Longrightarrow>
   hm_wf (extend_one ce s) \<and> (\<forall>c e. map_of (extend_one ce s) c = Some e \<longrightarrow> we_cid e = c)"
  by (auto simp: extend_one_def split: option.split)

lemma wantlist_wf_extend [simp]:
  assumes "wantlist_wf other" and "wantlist_wf w"
  shows "wantlist_wf (Wantlist_extend other w)"
proof -
  let ?P = "\<lambda>s. hm_wf s \<and> (\<forall>c e. map_of s c = Some e \<longrightarrow> we_cid e = c)"
  have own: "we_cid (snd ce) = fst ce" if "ce \<in> set (wl_set other)" for ce
    using assms(1) that by (cases ce) (auto simp: wantlist_wf_def dest: map_of_is_SomeI)
  have "?P (fold extend_one (wl_set other) (wl_set w))"
  proof (rule fold_invariant)
    show "?P (wl_set w)" using assms(2) by (simp add: wantlist_wf_def)
    show "?P (extend_one ce s)" if "ce \<in> set (wl_set other)" "?P s" for ce s
      using that(2) own[OF that(1)] by (rule extend_one_wf)
  qed
  then show ?thesis by (simp add: wantlist_wf_def Wantlist_extend_def)
qed

lemma sorted_desc_rev_sort_key:
  fixes f :: "'a \<Rightarrow> int"
  shows "sorted_wrt (\<lambda>x y. f y \<le> f x) (rev (sort_key f xs))"
proof -
  have "sorted (map f (sort_key f xs))" by (rule sorted_sort_key)
  then show ?thesis by (simp add: sorted_wrt_rev sorted_wrt_map)
qed

lemma Wantlist_entries_spec:
  assumes "wantlist_wf w"
  shows "mset (snd (Wantlist_entries w)) = mset (map snd (wl_set w))"
    and "sorted_wrt (\<lambda>e e'. we_priority e' \<le> we_priority e) (snd (Wantlist_entries w))"
    and "wl_set (fst (Wantlist_entries w)) = wl_set w"
    and "wantlist_wf (fst (Wantlist_entries w))"
  using assms
  by (auto simp: Wantlist_entries_def Let_def wantlist_wf_def sorted_desc_rev_sort_key)

lemma Wantlist_entries_set:
  assumes "wantlist_wf w"
  shows "e \<in> set (snd (Wantlist_entries w)) \<longleftrightarrow> Wantlist_get w (we_cid e) = Some e"
proof -
  have "set (snd (Wantlist_entries w)) = set (map snd (wl_set w))"
    by (rule mset_eq_setD) (rule Wantlist_entries_spec(1)[OF assms])
  moreover have "e \<in> set (map snd (wl_set w)) \<longleftrightarrow> map_of (wl_set w) (we_cid e) = Some e"
  proof
    assume "e \<in> set (map snd (wl_set w))"
    then obtain c where "(c, e) \<in> set (wl_set w)" by auto
    then have "map_of (wl_set w) c = Some e" using assms by (simp add: wantlist_wf_def map_of_is_SomeI)
    then show "map_of (wl_set w) (we_cid e) = Some e" using assms by (simp add: wantlist_wf_def)
  next
    assume "map_of (wl_set w) (we_cid e) = Some e"
    from map_of_SomeD[OF this] show "e \<in> set (map snd (wl_set w))" by force
  qed
  ultimately show ?thesis by (simp add: Wantlist_get_def)
qed

subsection \<open>The contract of a want store\<close>

text \<open>
  A want replaces what is recorded for a CID only where nothing is recorded yet or where a
  want-have becomes a want-block.
\<close>

definition upgrades :: "'cid wl_entry option \<Rightarrow> want_type \<Rightarrow> bool" where
  "upgrades old t \<longleftrightarrow> (case old of None \<Rightarrow> True | Some e \<Rightarrow> we_want_type e = WantHave \<and> t = WantBlock)"

locale want_store =
  fixes wf :: "'s \<Rightarrow> bool"
    and get :: "'s \<Rightarrow> 'cid \<Rightarrow> 'cid wl_entry option"
    and add :: "'cid \<Rightarrow> priority \<Rightarrow> want_type \<Rightarrow> 's \<Rightarrow> 's"
    and remove :: "'cid \<Rightarrow> 's \<Rightarrow> 's"
    and remove_type :: "'cid \<Rightarrow> want_type \<Rightarrow> 's \<Rightarrow> 's"
  assumes wf_add: "wf s \<Longrightarrow> wf (add c p t s)"
    and wf_remove: "wf s \<Longrightarrow> wf (remove c s)"
    and wf_remove_type: "wf s \<Longrightarrow> wf (remove_type c t s)"
    and get_cid: "wf s \<Longrightarrow> get s c = Some e \<Longrightarrow> we_cid e = c"
    and get_add: "wf s \<Longrightarrow> get (add c p t s) =
        (if upgrades (get s c) t then (get s)(c \<mapsto> Entry_new c p t) else get s)"
    and get_remove: "wf s \<Longrightarrow> get (remove c s) = (get s)(c := None)"
    and get_remove_type: "wf s \<Longrightarrow> get (remove_type c t s) =
        (if map_option we_want_type (get s c) = Some WantBlock \<and> t = WantHave then get s
         else (get s)(c := None))"
begin

definition add_all :: "('cid \<times> priority \<times> want_type) list \<Rightarrow> 's \<Rightarrow> 's" where
  "add_all ws s = fold (\<lambda>(c, p, t). add c p t) ws s"

lemma add_all_simps [simp]:
  "add_all [] s = s" "add_all ((c, p, t) # ws) s = add_all ws (add c p t s)"
  by (simp_all add: add_all_def)

lemma wf_add_all: "wf s \<Longrightarrow> wf (add_all ws s)"
  by (induction ws arbitrary: s) (auto simp: wf_add)

lemma block_persists_add:
  "wf s \<Longrightarrow> get s c = Some e \<Longrightarrow> we_want_type e = WantBlock \<Longrightarrow> get (add c' p t s) c = Some e"
  by (auto simp: get_add upgrades_def)

lemma block_persists:
  "wf s \<Longrightarrow> get s c = Some e \<Longrightarrow> we_want_type e = WantBlock \<Longrightarrow> get (add_all ws s) c = Some e"
  by (induction ws arbitrary: s) (auto simp: wf_add block_persists_add)

lemma present_add: "wf s \<Longrightarrow> get (add d p t s) c \<noteq> None \<longleftrightarrow> get s c \<noteq> None \<or> c = d"
  by (auto simp: get_add upgrades_def split: option.splits)

lemma add_all_present:
  "wf s \<Longrightarrow> get (add_all ws s) c \<noteq> None \<longleftrightarrow> get s c \<noteq> None \<or> c \<in> fst ` set ws"
proof (induction ws arbitrary: s)
  case (Cons w ws)
  obtain d p t where w: "w = (d, p, t)" by (cases w) auto
  show ?case
    using Cons.IH[OF wf_add[OF Cons.prems]] by (simp only: w add_all_simps present_add[OF Cons.prems]) auto
qed simp

lemma block_add:
  "wf s \<Longrightarrow> map_option we_want_type (get (add d p t s) c) = Some WantBlock \<longleftrightarrow>
     map_option we_want_type (get s c) = Some WantBlock \<or> (c = d \<and> t = WantBlock)"
  by (cases "get s d"; cases t) (auto simp: get_add upgrades_def)

text \<open>The type recorded for a CID is want-block exactly when some want asked for the block.\<close>

lemma add_all_block:
  "wf s \<Longrightarrow> map_option we_want_type (get (add_all ws s) c) = Some WantBlock \<longleftrightarrow>
     map_option we_want_type (get s c) = Some WantBlock \<or> (\<exists>p. (c, p, WantBlock) \<in> set ws)"
proof (induction ws arbitrary: s)
  case (Cons w ws)
  obtain d p t where w: "w = (d, p, t)" by (cases w) auto
  show ?case
    using Cons.IH[OF wf_add[OF Cons.prems]] by (simp only: w add_all_simps block_add[OF Cons.prems]) auto
qed simp

end

lemma Wantlist_get_add:
  "Wantlist_get (fst (Wantlist_add c p t w)) =
    (if upgrades (Wantlist_get w c) t then (Wantlist_get w)(c \<mapsto> Entry_new c p t) else Wantlist_get w)"
  by (auto simp: Wantlist_get_def Wantlist_add_def upgrades_def fun_eq_iff split: option.splits)

lemma Wantlist_get_remove: "Wantlist_get (fst (Wantlist_remove c w)) = (Wantlist_get w)(c := None)"
  by (simp add: Wantlist_get_def Wantlist_remove_def fun_eq_iff)

lemma Wantlist_get_remove_type:
  "Wantlist_get (fst (Wantlist_remove_type c t w)) =
     (if map_option we_want_type (Wantlist_get w c) = Some WantBlock \<and> t = WantHave
      then Wantlist_get w else (Wantlist_get w)(c := None))"
  by (auto simp: Wantlist_get_def Wantlist_remove_type_def fun_eq_iff split: option.splits)

lemma Wantlist_get_cid: "wantlist_wf w \<Longrightarrow> Wantlist_get w c = Some e \<Longrightarrow> we_cid e = c"
  by (simp add: Wantlist_get_def wantlist_wf_def)

interpretation wls: want_store wantlist_wf Wantlist_get
  "\<lambda>c p t w. fst (Wantlist_add c p t w)" "\<lambda>c w. fst (Wantlist_remove c w)"
  "\<lambda>c t w. fst (Wantlist_remove_type c t w)"
  by unfold_locales
    (simp_all only: wantlist_wf_add wantlist_wf_remove wantlist_wf_remove_type
      Wantlist_get_add Wantlist_get_remove Wantlist_get_remove_type Wantlist_get_cid)

subsection \<open>Merging wantlists\<close>

lemma extend_one_get:
  "map_of (extend_one ce s) c =
     (if c = fst ce \<and> upgrades (map_of s c) (we_want_type (snd ce)) then Some (snd ce) else map_of s c)"
  by (auto simp: extend_one_def upgrades_def split: option.splits)

lemma fold_extend_get:
  assumes "hm_wf o'"
  shows "map_of (fold extend_one o' s) c =
     (case map_of o' c of
        None \<Rightarrow> map_of s c
      | Some e \<Rightarrow> if upgrades (map_of s c) (we_want_type e) then Some e else map_of s c)"
  using assms
proof (induction o' arbitrary: s)
  case Nil
  then show ?case by simp
next
  case (Cons ce o')
  then have fresh: "map_of o' (fst ce) = None" by (simp add: hm_get_None)
  have "map_of (fold extend_one o' (extend_one ce s)) c =
      (case map_of o' c of None \<Rightarrow> map_of (extend_one ce s) c
       | Some e \<Rightarrow> if upgrades (map_of (extend_one ce s) c) (we_want_type e) then Some e
                  else map_of (extend_one ce s) c)"
    using Cons by simp
  with fresh show ?case
    by (cases ce) (auto simp: extend_one_get split: option.splits)
qed

lemma Wantlist_get_extend:
  assumes "wantlist_wf other"
  shows "Wantlist_get (Wantlist_extend other w) c =
     (case Wantlist_get other c of
        None \<Rightarrow> Wantlist_get w c
      | Some e \<Rightarrow> if upgrades (Wantlist_get w c) (we_want_type e) then Some e else Wantlist_get w c)"
  using fold_extend_get[of "wl_set other" "wl_set w" c] assms
  unfolding Wantlist_get_def Wantlist_extend_def wantlist_wf_def by simp

subsection \<open>Reachable wantlists\<close>

inductive wantlist_reachable :: "'cid wantlist \<Rightarrow> bool" where
  reach_default: "wantlist_reachable Wantlist_default"
| reach_clear: "wantlist_reachable w \<Longrightarrow> wantlist_reachable (Wantlist_clear w)"
| reach_add: "wantlist_reachable w \<Longrightarrow> wantlist_reachable (fst (Wantlist_add c p t w))"
| reach_remove: "wantlist_reachable w \<Longrightarrow> wantlist_reachable (fst (Wantlist_remove c w))"
| reach_remove_type: "wantlist_reachable w \<Longrightarrow> wantlist_reachable (fst (Wantlist_remove_type c t w))"
| reach_entries: "wantlist_reachable w \<Longrightarrow> wantlist_reachable (fst (Wantlist_entries w))"
| reach_extend: "wantlist_reachable other \<Longrightarrow> wantlist_reachable w \<Longrightarrow>
    wantlist_reachable (Wantlist_extend other w)"

lemma wantlist_reachable_wf: "wantlist_reachable w \<Longrightarrow> wantlist_wf w"
  by (induction rule: wantlist_reachable.induct) (auto intro: Wantlist_entries_spec(4))

subsection \<open>Ledgers of the server\<close>

record ('cid, 'peer) ledger =
  ld_partner :: 'peer
  ld_wantlist :: "'cid wantlist"

definition Ledger_new :: "'peer \<Rightarrow> ('cid, 'peer) ledger" where
  "Ledger_new partner = \<lparr>ld_partner = partner, ld_wantlist = Wantlist_default\<rparr>"

definition Ledger_clear_wantlist :: "('cid, 'peer) ledger \<Rightarrow> ('cid, 'peer) ledger" where
  "Ledger_clear_wantlist l = l\<lparr>ld_wantlist := Wantlist_clear (ld_wantlist l)\<rparr>"

definition Ledger_wants ::
    "'cid \<Rightarrow> priority \<Rightarrow> want_type \<Rightarrow> ('cid, 'peer) ledger \<Rightarrow> ('cid, 'peer) ledger" where
  "Ledger_wants c p t l = l\<lparr>ld_wantlist := fst (Wantlist_add c p t (ld_wantlist l))\<rparr>"

definition Ledger_cancel_want ::
    "'cid \<Rightarrow> ('cid, 'peer) ledger \<Rightarrow> ('cid, 'peer) ledger \<times> 'cid wl_entry option" where
  "Ledger_cancel_want c l =
     (let (w, e) = Wantlist_remove c (ld_wantlist l) in (l\<lparr>ld_wantlist := w\<rparr>, e))"

definition Ledger_wantlist_get :: "('cid, 'peer) ledger \<Rightarrow> 'cid \<Rightarrow> 'cid wl_entry option" where
  "Ledger_wantlist_get l c = Wantlist_get (ld_wantlist l) c"

definition Ledger_entries :: "('cid, 'peer) ledger \<Rightarrow> ('cid, 'peer) ledger \<times> 'cid wl_entry list" where
  "Ledger_entries l =
     (let (w, es) = Wantlist_entries (ld_wantlist l) in (l\<lparr>ld_wantlist := w\<rparr>, es))"

record ('cid, 'peer) peer_ledger =
  pl_cids :: "('cid, 'peer list) hmap"

definition PeerLedger_default :: "('cid, 'peer) peer_ledger" where
  "PeerLedger_default = \<lparr>pl_cids = []\<rparr>"

definition PeerLedger_wants ::
    "'peer \<Rightarrow> 'cid \<Rightarrow> ('cid, 'peer) peer_ledger \<Rightarrow> ('cid, 'peer) peer_ledger" where
  "PeerLedger_wants p c l = l\<lparr>pl_cids := hm_entry c [] (hs_insert p) (pl_cids l)\<rparr>"

definition PeerLedger_cancel_want ::
    "'peer \<Rightarrow> 'cid \<Rightarrow> ('cid, 'peer) peer_ledger \<Rightarrow> ('cid, 'peer) peer_ledger" where
  "PeerLedger_cancel_want p c l = l\<lparr>pl_cids := hm_modify c (hs_remove p) (pl_cids l)\<rparr>"

definition PeerLedger_peers :: "('cid, 'peer) peer_ledger \<Rightarrow> 'cid \<Rightarrow> 'peer list option" where
  "PeerLedger_peers l c = map_of (pl_cids l) c"

text \<open>Whether the peer ledger lists the peer for the CID.\<close>

definition listed :: "('cid, 'peer) peer_ledger \<Rightarrow> 'peer \<Rightarrow> 'cid \<Rightarrow> bool" where
  "listed l p c \<longleftrightarrow> (case PeerLedger_peers l c of None \<Rightarrow> False | Some ps \<Rightarrow> p \<in> set ps)"

lemma listed_wants:
  "listed (PeerLedger_wants p c l) p' c' \<longleftrightarrow> listed l p' c' \<or> (p' = p \<and> c' = c)"
  by (auto simp: listed_def PeerLedger_peers_def PeerLedger_wants_def hm_simps split: option.splits)

lemma listed_cancel:
  "listed (PeerLedger_cancel_want p c l) p' c' \<longleftrightarrow> listed l p' c' \<and> \<not> (p' = p \<and> c' = c)"
  by (auto simp: listed_def PeerLedger_peers_def PeerLedger_cancel_want_def hm_simps split: option.splits)

lemma listed_default [simp]: "\<not> listed PeerLedger_default p c"
  by (simp add: listed_def PeerLedger_peers_def PeerLedger_default_def)

subsection \<open>Pending and sent wants of a message queue\<close>

record 'cid recall_wantlist =
  rw_pending :: "'cid wantlist"
  rw_sent :: "'cid wantlist"
  rw_sent_at :: "('cid, instant) hmap"

record 'cid wants =
  ws_bcst_wants :: "'cid recall_wantlist"
  ws_peer_wants :: "'cid recall_wantlist"
  ws_cancels :: "'cid list"
  ws_priority :: priority

definition RecallWantlist_default :: "'cid recall_wantlist" where
  "RecallWantlist_default =
     \<lparr>rw_pending = Wantlist_default, rw_sent = Wantlist_default, rw_sent_at = []\<rparr>"

definition Wants_pending_work_count :: "'cid wants \<Rightarrow> nat" where
  "Wants_pending_work_count ws =
     Wantlist_len (rw_pending (ws_bcst_wants ws)) + Wantlist_len (rw_pending (ws_peer_wants ws)) +
     length (ws_cancels ws)"

definition Wants_has_pending_work :: "'cid wants \<Rightarrow> bool" where
  "Wants_has_pending_work ws \<longleftrightarrow> Wants_pending_work_count ws > 0"

definition RecallWantlist_add ::
    "'cid \<Rightarrow> priority \<Rightarrow> want_type \<Rightarrow> 'cid recall_wantlist \<Rightarrow> 'cid recall_wantlist" where
  "RecallWantlist_add c p t r = r\<lparr>rw_pending := fst (Wantlist_add c p t (rw_pending r))\<rparr>"

definition RecallWantlist_remove :: "'cid \<Rightarrow> 'cid recall_wantlist \<Rightarrow> 'cid recall_wantlist" where
  "RecallWantlist_remove c r =
     r\<lparr>rw_pending := fst (Wantlist_remove c (rw_pending r)),
       rw_sent := fst (Wantlist_remove c (rw_sent r)),
       rw_sent_at := hm_remove c (rw_sent_at r)\<rparr>"

definition RecallWantlist_remove_type ::
    "'cid \<Rightarrow> want_type \<Rightarrow> 'cid recall_wantlist \<Rightarrow> 'cid recall_wantlist" where
  "RecallWantlist_remove_type c t r =
     (let r1 = r\<lparr>rw_pending := fst (Wantlist_remove_type c t (rw_pending r))\<rparr>;
          (sent, removed) = Wantlist_remove_type c t (rw_sent r1);
          r2 = r1\<lparr>rw_sent := sent\<rparr>
      in if removed \<noteq> None then r2\<lparr>rw_sent_at := hm_remove c (rw_sent_at r2)\<rparr> else r2)"

definition RecallWantlist_mark_sent ::
    "'cid wl_entry \<Rightarrow> 'cid recall_wantlist \<Rightarrow> 'cid recall_wantlist \<times> bool" where
  "RecallWantlist_mark_sent e r =
     (let (pending, removed) = Wantlist_remove_type (we_cid e) (we_want_type e) (rw_pending r);
          r1 = r\<lparr>rw_pending := pending\<rparr>
      in if removed = None then (r1, False)
         else (r1\<lparr>rw_sent := fst (Wantlist_add (we_cid e) (we_priority e) (we_want_type e) (rw_sent r1))\<rparr>,
               True))"

definition RecallWantlist_clear_sent_at :: "'cid \<Rightarrow> 'cid recall_wantlist \<Rightarrow> 'cid recall_wantlist" where
  "RecallWantlist_clear_sent_at c r = r\<lparr>rw_sent_at := hm_remove c (rw_sent_at r)\<rparr>"

definition RecallWantlist_sent_at ::
    "'cid \<Rightarrow> instant \<Rightarrow> 'cid recall_wantlist \<Rightarrow> 'cid recall_wantlist" where
  "RecallWantlist_sent_at c at r =
     (if \<not> Wantlist_contains (rw_sent r) c then r\<lparr>rw_sent_at := hm_insert c at (rw_sent_at r)\<rparr> else r)"

subsection \<open>Properties of the recall list\<close>

definition recall_wf :: "'cid recall_wantlist \<Rightarrow> bool" where
  "recall_wf r \<longleftrightarrow> wantlist_wf (rw_pending r) \<and> wantlist_wf (rw_sent r) \<and> hm_wf (rw_sent_at r)"

lemma recall_wf_default [simp]: "recall_wf RecallWantlist_default"
  by (simp add: recall_wf_def RecallWantlist_default_def)

lemma recall_wf_add [simp]: "recall_wf r \<Longrightarrow> recall_wf (RecallWantlist_add c p t r)"
  by (simp add: recall_wf_def RecallWantlist_add_def)

lemma recall_wf_remove [simp]: "recall_wf r \<Longrightarrow> recall_wf (RecallWantlist_remove c r)"
  by (simp add: recall_wf_def RecallWantlist_remove_def)

lemma recall_wf_remove_type [simp]: "recall_wf r \<Longrightarrow> recall_wf (RecallWantlist_remove_type c t r)"
  using wantlist_wf_remove_type[of "rw_sent r" c t]
  by (cases "Wantlist_remove_type c t (rw_sent r)")
    (simp add: recall_wf_def RecallWantlist_remove_type_def Let_def)

lemma recall_wf_mark_sent [simp]: "recall_wf r \<Longrightarrow> recall_wf (fst (RecallWantlist_mark_sent e r))"
  using wantlist_wf_remove_type[of "rw_pending r" "we_cid e" "we_want_type e"]
  by (cases "Wantlist_remove_type (we_cid e) (we_want_type e) (rw_pending r)")
    (simp add: recall_wf_def RecallWantlist_mark_sent_def Let_def)

lemma recall_wf_clear_sent_at [simp]: "recall_wf r \<Longrightarrow> recall_wf (RecallWantlist_clear_sent_at c r)"
  by (simp add: recall_wf_def RecallWantlist_clear_sent_at_def)

lemma recall_wf_sent_at [simp]: "recall_wf r \<Longrightarrow> recall_wf (RecallWantlist_sent_at c at r)"
  by (simp add: recall_wf_def RecallWantlist_sent_at_def)

lemma Wantlist_contains_get: "Wantlist_contains w c \<longleftrightarrow> Wantlist_get w c \<noteq> None"
  by (simp add: Wantlist_contains_def Wantlist_get_def hm_get_None)

lemma Wantlist_remove_type_snd:
  "snd (Wantlist_remove_type c t w) =
     (if map_option we_want_type (Wantlist_get w c) = Some WantBlock \<and> t = WantHave then None
      else Wantlist_get w c)"
  by (auto simp: Wantlist_remove_type_def Wantlist_get_def split: option.splits)

text \<open>
  Marking a pending want as sent moves it: it leaves the pending list and is in the sent list. A
  want that was upgraded from want-have to want-block in between stays pending.
\<close>

lemma mark_sent_moves:
  assumes "recall_wf r"
  shows "snd (RecallWantlist_mark_sent e r) \<longleftrightarrow>
      (\<exists>e'. Wantlist_get (rw_pending r) (we_cid e) = Some e' \<and>
            (we_want_type e' = WantBlock \<longrightarrow> we_want_type e = WantBlock))" (is ?ret)
    and "snd (RecallWantlist_mark_sent e r) \<Longrightarrow>
      Wantlist_get (rw_pending (fst (RecallWantlist_mark_sent e r))) =
        (Wantlist_get (rw_pending r))(we_cid e := None)"
    and "snd (RecallWantlist_mark_sent e r) \<Longrightarrow>
      Wantlist_contains (rw_sent (fst (RecallWantlist_mark_sent e r))) (we_cid e)"
    and "\<not> snd (RecallWantlist_mark_sent e r) \<Longrightarrow>
      Wantlist_get (rw_pending (fst (RecallWantlist_mark_sent e r))) = Wantlist_get (rw_pending r) \<and>
      rw_sent (fst (RecallWantlist_mark_sent e r)) = rw_sent r"
proof -
  let ?p = "Wantlist_remove_type (we_cid e) (we_want_type e) (rw_pending r)"
  have ms: "RecallWantlist_mark_sent e r =
      (if snd ?p = None then (r\<lparr>rw_pending := fst ?p\<rparr>, False)
       else (r\<lparr>rw_pending := fst ?p,
               rw_sent := fst (Wantlist_add (we_cid e) (we_priority e) (we_want_type e) (rw_sent r))\<rparr>, True))"
    by (simp add: RecallWantlist_mark_sent_def Let_def split: prod.split)
  have get: "Wantlist_get (fst ?p) =
     (if map_option we_want_type (Wantlist_get (rw_pending r) (we_cid e)) = Some WantBlock \<and>
         we_want_type e = WantHave
      then Wantlist_get (rw_pending r) else (Wantlist_get (rw_pending r))(we_cid e := None))"
    by (rule Wantlist_get_remove_type)
  show ?ret
    by (cases "Wantlist_get (rw_pending r) (we_cid e)"; cases "we_want_type e")
      (auto simp: ms Wantlist_remove_type_snd)
  show "snd (RecallWantlist_mark_sent e r) \<Longrightarrow>
      Wantlist_get (rw_pending (fst (RecallWantlist_mark_sent e r))) =
        (Wantlist_get (rw_pending r))(we_cid e := None)"
    by (auto simp: ms get Wantlist_remove_type_snd split: if_splits)
  show "snd (RecallWantlist_mark_sent e r) \<Longrightarrow>
      Wantlist_contains (rw_sent (fst (RecallWantlist_mark_sent e r))) (we_cid e)"
    by (auto simp: ms Wantlist_contains_get Wantlist_get_add upgrades_def split: if_splits option.splits)
  show "\<not> snd (RecallWantlist_mark_sent e r) \<Longrightarrow>
      Wantlist_get (rw_pending (fst (RecallWantlist_mark_sent e r))) = Wantlist_get (rw_pending r) \<and>
      rw_sent (fst (RecallWantlist_mark_sent e r)) = rw_sent r"
    by (auto simp: ms get Wantlist_remove_type_snd fun_eq_iff split: if_splits)
qed

text \<open>A want that is in the sent list never gets a sent time.\<close>

lemma sent_at_of_sent: "Wantlist_contains (rw_sent r) c \<Longrightarrow> RecallWantlist_sent_at c at r = r"
  by (simp add: RecallWantlist_sent_at_def)

subsection \<open>The set of CIDs of a wantlist\<close>

abbreviation wl_cids :: "'cid wantlist \<Rightarrow> 'cid set" where
  "wl_cids w \<equiv> hm_keys (wl_set w)"

lemma wl_cids_get: "c \<in> wl_cids w \<longleftrightarrow> Wantlist_get w c \<noteq> None"
  by (metis Wantlist_contains_def Wantlist_contains_get)

lemma wl_cids_default [simp]: "wl_cids Wantlist_default = {}"
  by (simp add: Wantlist_default_def)

lemma wl_cids_add [simp]: "wl_cids (fst (Wantlist_add c p t w)) = insert c (wl_cids w)"
  by (rule set_eqI) (auto simp: wl_cids_get Wantlist_get_add upgrades_def split: option.splits)

lemma wl_cids_remove [simp]: "wl_cids (fst (Wantlist_remove c w)) = wl_cids w - {c}"
  by (simp add: Wantlist_remove_def)

lemma wl_cids_entries [simp]: "wl_cids (fst (Wantlist_entries w)) = wl_cids w"
  by (simp add: Wantlist_entries_def Let_def)

lemma wl_cids_extend [simp]:
  "wantlist_wf other \<Longrightarrow> wl_cids (Wantlist_extend other w) = wl_cids other \<union> wl_cids w"
  by (rule set_eqI) (auto simp: wl_cids_get Wantlist_get_extend upgrades_def split: option.splits)

lemma Wantlist_len_card: "wantlist_wf w \<Longrightarrow> Wantlist_len w = card (wl_cids w)"
  by (simp add: Wantlist_len_def wantlist_wf_def hm_size_keys)

lemma entries_distinct:
  assumes "wantlist_wf w"
  shows "distinct (map we_cid (snd (Wantlist_entries w)))"
    and "we_cid ` set (snd (Wantlist_entries w)) = wl_cids w"
proof -
  have own: "we_cid (snd ce) = fst ce" if "ce \<in> set (wl_set w)" for ce
    using assms that by (cases ce) (auto simp: wantlist_wf_def dest: map_of_is_SomeI)
  have m: "mset (map we_cid (snd (Wantlist_entries w))) = mset (map fst (wl_set w))"
  proof -
    have "map we_cid (map snd (wl_set w)) = map fst (wl_set w)" using own by simp
    then show ?thesis using Wantlist_entries_spec(1)[OF assms] by (metis mset_map)
  qed
  show "distinct (map we_cid (snd (Wantlist_entries w)))"
    using m assms by (metis mset_eq_imp_distinct_iff wantlist_wf_def)
  show "we_cid ` set (snd (Wantlist_entries w)) = wl_cids w"
    using mset_eq_setD[OF m] by simp
qed

subsection \<open>Properties\<close>

text \<open>
  For every wantlist that the operations can build, \<open>entries\<close> (which may answer from its cache)
  returns exactly the recorded wants, each CID once, in descending priority, and leaves the recorded
  wants unchanged.
\<close>

theorem Wantlist_entries_correct:
  assumes "wantlist_reachable w"
  shows "sorted_wrt (\<lambda>e e'. we_priority e' \<le> we_priority e) (snd (Wantlist_entries w)) \<and>
    distinct (map we_cid (snd (Wantlist_entries w))) \<and>
    (\<forall>e. e \<in> set (snd (Wantlist_entries w)) \<longleftrightarrow> Wantlist_get w (we_cid e) = Some e) \<and>
    (\<forall>c. Wantlist_get (fst (Wantlist_entries w)) c = Wantlist_get w c)"
proof -
  have wf: "wantlist_wf w" by (rule wantlist_reachable_wf[OF assms])
  have own: "we_cid (snd ce) = fst ce" if "ce \<in> set (wl_set w)" for ce
    using wf that by (cases ce) (auto simp: wantlist_wf_def dest: map_of_is_SomeI)
  have "mset (map we_cid (snd (Wantlist_entries w))) = mset (map we_cid (map snd (wl_set w)))"
    using Wantlist_entries_spec(1)[OF wf] by (simp only: mset_map)
  also have "map we_cid (map snd (wl_set w)) = map fst (wl_set w)" using own by simp
  finally have "distinct (map we_cid (snd (Wantlist_entries w))) = distinct (map fst (wl_set w))"
    by (rule mset_eq_imp_distinct_iff)
  then show ?thesis
    using wf Wantlist_entries_spec[OF wf] Wantlist_entries_set[OF wf]
    by (simp add: Wantlist_get_def wantlist_wf_def)
qed

theorem Wantlist_entries_correct_witness:
  "sorted_wrt (\<lambda>e e'. we_priority e' \<le> we_priority e) (snd (Wantlist_entries
     (fst (Wantlist_add (2::nat) 9 WantHave (fst (Wantlist_add 1 5 WantBlock Wantlist_default))))))"
  using Wantlist_entries_correct[of "fst (Wantlist_add (2::nat) 9 WantHave
      (fst (Wantlist_add 1 5 WantBlock Wantlist_default)))"]
  by (simp add: wantlist_reachable.intros)

text \<open>
  After any sequence of additions a CID is wanted exactly when it was wanted before or was added,
  and it is wanted as a block exactly when it was before or some addition asked for the block: a
  want-have never downgrades a want-block, in whatever order they come.
\<close>

theorem Wantlist_adds_block:
  assumes "wantlist_reachable w"
  shows "(Wantlist_contains (fold (\<lambda>(c, p, t) w. fst (Wantlist_add c p t w)) ws w) c \<longleftrightarrow>
      Wantlist_contains w c \<or> c \<in> fst ` set ws) \<and>
    (map_option we_want_type (Wantlist_get (fold (\<lambda>(c, p, t) w. fst (Wantlist_add c p t w)) ws w) c) =
        Some WantBlock \<longleftrightarrow>
      map_option we_want_type (Wantlist_get w c) = Some WantBlock \<or> (\<exists>p. (c, p, WantBlock) \<in> set ws))"
  using wls.add_all_present[OF wantlist_reachable_wf[OF assms], of ws c]
    wls.add_all_block[OF wantlist_reachable_wf[OF assms], of ws c]
  unfolding wls.add_all_def Wantlist_contains_get by simp

theorem Wantlist_adds_block_witness:
  "map_option we_want_type (Wantlist_get (fold (\<lambda>(c, p, t) w. fst (Wantlist_add c p t w))
     [(1::nat, 5, WantBlock), (1, 6, WantHave)] Wantlist_default) 1) = Some WantBlock"
  using Wantlist_adds_block[OF wantlist_reachable.reach_default, of "[(1::nat, 5, WantBlock), (1, 6, WantHave)]" 1]
  by auto

text \<open>
  Merging a wantlist into another keeps the stronger want: the merged list wants a CID exactly
  when one of the two did, as a block exactly when one of the two wanted the block.
\<close>

theorem Wantlist_extend_union:
  assumes "wantlist_reachable other" and "wantlist_reachable w"
  shows "(Wantlist_contains (Wantlist_extend other w) c \<longleftrightarrow>
      Wantlist_contains other c \<or> Wantlist_contains w c) \<and>
    (map_option we_want_type (Wantlist_get (Wantlist_extend other w) c) = Some WantBlock \<longleftrightarrow>
      map_option we_want_type (Wantlist_get other c) = Some WantBlock \<or>
      map_option we_want_type (Wantlist_get w c) = Some WantBlock)"
  unfolding Wantlist_contains_get Wantlist_get_extend[OF wantlist_reachable_wf[OF assms(1)]]
  by (cases "Wantlist_get other c"; cases "Wantlist_get w c") (auto simp: upgrades_def)

theorem Wantlist_extend_union_witness:
  "Wantlist_contains (Wantlist_extend (fst (Wantlist_add (1::nat) 5 WantBlock Wantlist_default))
     Wantlist_default) 1"
  using Wantlist_extend_union[OF wantlist_reachable.reach_add[OF wantlist_reachable.reach_default]
      wantlist_reachable.reach_default, of "1::nat" 5 WantBlock 1]
  by (simp add: Wantlist_contains_get Wantlist_get_add upgrades_def Wantlist_get_def Wantlist_default_def)

end
