(* ===== verification/PeerTracker.thy ===== *)
theory PeerTracker
  imports Prelude
begin

text \<open>
  The tasks of one peer: \<open>peer_task_queue/peer_task.rs\<close>, \<open>peer_task_queue/peer_tracker.rs\<close> and the
  merger of the server, \<open>server/task_merger.rs\<close>.

  The crate \<open>keyed_priority_queue\<close> is the parameter \<open>kpq_ops\<close>. Its laws hold of the queues that its
  own operations build (\<open>kpq_built\<close>); that \<open>pop\<close> returns a greatest element is promised only for
  priorities on which the comparison is a total preorder, as for any heap.
\<close>

subsection \<open>Orderings\<close>

datatype ordering = Less | Equal | Greater

definition cmp_of :: "'a::linorder \<Rightarrow> 'a \<Rightarrow> ordering" where
  "cmp_of a b = (if a < b then Less else if a = b then Equal else Greater)"

lemma cmp_of_simps [simp]:
  "cmp_of a b = Less \<longleftrightarrow> a < b" "cmp_of a b = Equal \<longleftrightarrow> a = b" "cmp_of a b = Greater \<longleftrightarrow> b < a"
  by (auto simp: cmp_of_def)

definition total_preorder_on :: "'a set \<Rightarrow> ('a \<Rightarrow> 'a \<Rightarrow> ordering) \<Rightarrow> bool" where
  "total_preorder_on S cmp \<longleftrightarrow>
     (\<forall>a\<in>S. \<forall>b\<in>S. cmp a b = Greater \<longleftrightarrow> cmp b a = Less) \<and>
     (\<forall>a\<in>S. \<forall>b\<in>S. cmp a b = Equal \<longleftrightarrow> cmp b a = Equal) \<and>
     (\<forall>a\<in>S. \<forall>b\<in>S. \<forall>c\<in>S. cmp a b \<noteq> Less \<longrightarrow> cmp b c \<noteq> Less \<longrightarrow> cmp a c \<noteq> Less)"

subsection \<open>The keyed priority queue\<close>

record ('q, 'k, 'p) kpq_ops =
  kpq_new :: 'q
  kpq_push :: "'k \<Rightarrow> 'p \<Rightarrow> 'q \<Rightarrow> 'q"
  kpq_pop :: "'q \<Rightarrow> ('q \<times> 'k \<times> 'p) option"
  kpq_remove :: "'k \<Rightarrow> 'q \<Rightarrow> 'q \<times> 'p option"
  kpq_iter :: "'q \<Rightarrow> ('k \<times> 'p) list"

definition kpq_get :: "('q, 'k, 'p) kpq_ops \<Rightarrow> 'q \<Rightarrow> 'k \<Rightarrow> 'p option" where
  "kpq_get ops q = map_of (kpq_iter ops q)"

definition kpq_len :: "('q, 'k, 'p) kpq_ops \<Rightarrow> 'q \<Rightarrow> nat" where
  "kpq_len ops q = length (kpq_iter ops q)"

definition kpq_is_empty :: "('q, 'k, 'p) kpq_ops \<Rightarrow> 'q \<Rightarrow> bool" where
  "kpq_is_empty ops q \<longleftrightarrow> kpq_iter ops q = []"

inductive kpq_built :: "('q, 'k, 'p) kpq_ops \<Rightarrow> 'p set \<Rightarrow> 'q \<Rightarrow> bool" for ops S where
  built_new: "kpq_built ops S (kpq_new ops)"
| built_push: "kpq_built ops S q \<Longrightarrow> p \<in> S \<Longrightarrow> kpq_built ops S (kpq_push ops k p q)"
| built_pop: "kpq_built ops S q \<Longrightarrow> kpq_pop ops q = Some (q', kp) \<Longrightarrow> kpq_built ops S q'"
| built_remove: "kpq_built ops S q \<Longrightarrow> kpq_built ops S (fst (kpq_remove ops k q))"

definition kpq_laws :: "('p \<Rightarrow> 'p \<Rightarrow> ordering) \<Rightarrow> ('q, 'k, 'p) kpq_ops \<Rightarrow> bool" where
  "kpq_laws cmp ops \<longleftrightarrow>
     kpq_iter ops (kpq_new ops) = [] \<and>
     (\<forall>S q. kpq_built ops S q \<longrightarrow>
        hm_wf (kpq_iter ops q) \<and>
        (\<forall>k p. kpq_get ops (kpq_push ops k p q) = (kpq_get ops q)(k \<mapsto> p)) \<and>
        (\<forall>k. kpq_get ops (fst (kpq_remove ops k q)) = (kpq_get ops q)(k := None)) \<and>
        (\<forall>k. snd (kpq_remove ops k q) = kpq_get ops q k) \<and>
        (kpq_pop ops q = None \<longleftrightarrow> kpq_iter ops q = []) \<and>
        (\<forall>q' k p. kpq_pop ops q = Some (q', k, p) \<longrightarrow>
           kpq_get ops q k = Some p \<and> kpq_get ops q' = (kpq_get ops q)(k := None) \<and>
           (total_preorder_on S cmp \<longrightarrow> (\<forall>p' \<in> ran (kpq_get ops q). cmp p p' \<noteq> Less))))"

lemma kpq_lawsD:
  assumes "kpq_laws cmp ops" "kpq_built ops S q"
  shows "hm_wf (kpq_iter ops q)"
    and "kpq_get ops (kpq_push ops k p q) = (kpq_get ops q)(k \<mapsto> p)"
    and "kpq_get ops (fst (kpq_remove ops k q)) = (kpq_get ops q)(k := None)"
    and "snd (kpq_remove ops k q) = kpq_get ops q k"
    and "kpq_pop ops q = None \<longleftrightarrow> kpq_iter ops q = []"
    and "kpq_pop ops q = Some (q', k, p) \<Longrightarrow> kpq_get ops q k = Some p"
    and "kpq_pop ops q = Some (q', k, p) \<Longrightarrow> kpq_get ops q' = (kpq_get ops q)(k := None)"
    and "kpq_pop ops q = Some (q', k, p) \<Longrightarrow> total_preorder_on S cmp \<Longrightarrow>
      p' \<in> ran (kpq_get ops q) \<Longrightarrow> cmp p p' \<noteq> Less"
  using assms unfolding kpq_laws_def by metis+

lemma kpq_get_new: "kpq_laws cmp ops \<Longrightarrow> kpq_get ops (kpq_new ops) = Map.empty"
  by (simp add: kpq_laws_def kpq_get_def)

lemma kpq_is_empty_get: "kpq_is_empty ops q \<longleftrightarrow> kpq_get ops q = Map.empty"
  by (cases "kpq_iter ops q") (auto simp: kpq_is_empty_def kpq_get_def fun_eq_iff)

lemma kpq_len_card:
  assumes "kpq_laws cmp ops" "kpq_built ops S q"
  shows "kpq_len ops q = card (dom (kpq_get ops q))"
  using hm_size_keys[OF kpq_lawsD(1)[OF assms]] by (simp add: kpq_len_def kpq_get_def hm_keys_dom)

lemma kpq_pop_len:
  assumes "kpq_laws cmp ops" "kpq_built ops S q" "kpq_pop ops q = Some (q', k, p)"
  shows "kpq_len ops q' < kpq_len ops q"
proof -
  have "k \<in> dom (kpq_get ops q)" using kpq_lawsD(6)[OF assms] by blast
  moreover have "finite (dom (kpq_get ops q))" by (simp add: kpq_get_def finite_dom_map_of)
  moreover have "dom (kpq_get ops q') = dom (kpq_get ops q) - {k}"
    using kpq_lawsD(7)[OF assms] by auto
  ultimately show ?thesis
    using kpq_len_card[OF assms(1,2)] kpq_len_card[OF assms(1) kpq_built.built_pop[OF assms(2,3)]]
    by (simp only: card_Diff1_less)
qed

text \<open>The values a queue holds are among those that were pushed.\<close>

lemma kpq_built_ran:
  assumes "kpq_laws cmp ops" "kpq_built ops S q"
  shows "ran (kpq_get ops q) \<subseteq> S"
  using assms(2)
proof (induction rule: kpq_built.induct)
  case built_new
  then show ?case by (simp add: kpq_get_new[OF assms(1)])
next
  case (built_push q p k)
  then show ?case by (auto simp: kpq_lawsD(2)[OF assms(1)] ran_def split: if_splits)
next
  case (built_pop q q' kp)
  then show ?case
    by (cases kp) (auto simp: kpq_lawsD(7)[OF assms(1)] ran_def split: if_splits)
next
  case (built_remove q k)
  then show ?case by (auto simp: kpq_lawsD(3)[OF assms(1)] ran_def split: if_splits)
qed

subsection \<open>Tasks and mergers\<close>

record ('t, 'd) task =
  tk_topic :: 't
  tk_priority :: int
  tk_work :: nat
  tk_data :: 'd

record ('t, 'd, 'peer) queue_task =
  qt_task :: "('t, 'd) task"
  qt_target :: 'peer
  qt_created :: instant

definition QueueTask_new :: "('t, 'd) task \<Rightarrow> 'peer \<Rightarrow> instant \<Rightarrow> ('t, 'd, 'peer) queue_task" where
  "QueueTask_new tk target created = \<lparr>qt_task = tk, qt_target = target, qt_created = created\<rparr>"

definition QueueTask_cmp ::
    "('t, 'd, 'peer) queue_task \<Rightarrow> ('t, 'd, 'peer) queue_task \<Rightarrow> ordering" where
  "QueueTask_cmp a b =
     (if qt_target a = qt_target b \<and> tk_priority (qt_task a) \<noteq> tk_priority (qt_task b)
      then cmp_of (tk_priority (qt_task a)) (tk_priority (qt_task b))
      else cmp_of (qt_created b) (qt_created a))"

record ('t, 'd) task_merger =
  tm_has_new_info :: "('t, 'd) task \<Rightarrow> ('t, 'd) task list \<Rightarrow> bool"
  tm_merge :: "('t, 'd) task \<Rightarrow> ('t, 'd) task \<Rightarrow> ('t, 'd) task"

definition DefaultTaskMerger :: "('t, 'd) task_merger" where
  "DefaultTaskMerger = \<lparr>tm_has_new_info = (\<lambda>_ _. False), tm_merge = (\<lambda>_ existing. existing)\<rparr>"

record task_data =
  td_is_want_block :: bool
  td_send_dont_have :: bool
  td_block_size :: nat
  td_have_block :: bool

definition TaskMerger_has_new_info ::
    "('cid, task_data) task \<Rightarrow> ('cid, task_data) task list \<Rightarrow> bool" where
  "TaskMerger_has_new_info tk existing =
     (let have_size = list_ex (\<lambda>e. td_have_block (tk_data e)) existing;
          is_want_block = list_ex (\<lambda>e. td_is_want_block (tk_data e)) existing;
          new = tk_data tk
      in if \<not> is_want_block \<and> td_is_want_block new then True
         else if \<not> have_size \<and> td_have_block new then True else False)"

definition TaskMerger_merge ::
    "('cid, task_data) task \<Rightarrow> ('cid, task_data) task \<Rightarrow> ('cid, task_data) task" where
  "TaskMerger_merge tk existing =
     (let new = tk_data tk; e0 = tk_data existing;
          e1 = (if \<not> td_have_block e0 \<and> td_have_block new
                then e0\<lparr>td_have_block := td_have_block new, td_block_size := td_block_size new\<rparr> else e0);
          upgrade = (\<not> td_is_want_block e1 \<and> td_is_want_block new);
          e2 = (if upgrade then e1\<lparr>td_is_want_block := True\<rparr> else e1);
          resize = (upgrade \<and> (\<not> td_have_block e2 \<or> td_have_block new));
          e3 = (if resize then e2\<lparr>td_have_block := td_have_block new\<rparr> else e2);
          work3 = (if resize then tk_work tk else tk_work existing);
          work4 = (if td_is_want_block e3 \<and> td_have_block e3 then td_block_size e3 else work3)
      in existing\<lparr>tk_data := e3, tk_work := work4\<rparr>)"

definition ServerTaskMerger :: "('cid, task_data) task_merger" where
  "ServerTaskMerger = \<lparr>tm_has_new_info = TaskMerger_has_new_info, tm_merge = TaskMerger_merge\<rparr>"

subsection \<open>The tracker of a peer\<close>

record ('t, 'd, 'peer, 'q) peer_tracker =
  pt_target :: 'peer
  pt_pending_tasks :: 'q
  pt_active_tasks :: "('t, ('t, 'd) task list) hmap"
  pt_active_work :: nat
  pt_max_active_work_per_peer :: nat
  pt_freeze_val :: int
  pt_task_merger :: "('t, 'd) task_merger"

record tracker_stats =
  st_num_pending :: nat
  st_num_active :: nat

record 't tracker_topics =
  tt_pending :: "'t list"
  tt_active :: "'t list"

type_synonym ('q, 't, 'd, 'peer) tq_ops = "('q, 't, ('t, 'd, 'peer) queue_task) kpq_ops"

definition PeerTracker_new ::
    "('q, 't, 'd, 'peer) tq_ops \<Rightarrow> 'peer \<Rightarrow> ('t, 'd) task_merger \<Rightarrow> nat \<Rightarrow>
      ('t, 'd, 'peer, 'q) peer_tracker" where
  "PeerTracker_new ops target merger max_work =
     \<lparr>pt_target = target, pt_pending_tasks = kpq_new ops, pt_active_tasks = [], pt_active_work = 0,
      pt_max_active_work_per_peer = max_work, pt_freeze_val = 0, pt_task_merger = merger\<rparr>"

definition PeerTracker_is_idle ::
    "('q, 't, 'd, 'peer) tq_ops \<Rightarrow> ('t, 'd, 'peer, 'q) peer_tracker \<Rightarrow> bool" where
  "PeerTracker_is_idle ops t \<longleftrightarrow> kpq_is_empty ops (pt_pending_tasks t) \<and> pt_active_tasks t = []"

definition PeerTracker_stats ::
    "('q, 't, 'd, 'peer) tq_ops \<Rightarrow> ('t, 'd, 'peer, 'q) peer_tracker \<Rightarrow> tracker_stats" where
  "PeerTracker_stats ops t =
     \<lparr>st_num_pending = kpq_len ops (pt_pending_tasks t), st_num_active = length (pt_active_tasks t)\<rparr>"

definition PeerTracker_topics ::
    "('q, 't :: linorder, 'd, 'peer) tq_ops \<Rightarrow> ('t, 'd, 'peer, 'q) peer_tracker \<Rightarrow> 't tracker_topics" where
  "PeerTracker_topics ops t =
     \<lparr>tt_pending = sort (map (\<lambda>(_, qt). tk_topic (qt_task qt)) (kpq_iter ops (pt_pending_tasks t))),
      tt_active = sort (concat (map (\<lambda>(_, ts). map tk_topic ts) (pt_active_tasks t)))\<rparr>"

definition task_has_more_info_than_active_tasks ::
    "('t, 'd) task \<Rightarrow> ('t, 'd, 'peer, 'q) peer_tracker \<Rightarrow> bool" where
  "task_has_more_info_than_active_tasks tk t =
     (case map_of (pt_active_tasks t) (tk_topic tk) of
        Some ts \<Rightarrow> if ts = [] then True else tm_has_new_info (pt_task_merger t) tk ts
      | None \<Rightarrow> True)"

definition push_one_task ::
    "('q, 't, 'd, 'peer) tq_ops \<Rightarrow> instant \<Rightarrow> ('t, 'd) task \<Rightarrow> ('t, 'd, 'peer, 'q) peer_tracker \<Rightarrow>
      ('t, 'd, 'peer, 'q) peer_tracker" where
  "push_one_task ops now tk t =
     (if \<not> task_has_more_info_than_active_tasks tk t then t
      else case kpq_remove ops (tk_topic tk) (pt_pending_tasks t) of
        (q, Some existing) \<Rightarrow>
          (let e0 = qt_task existing;
               e1 = (if tk_priority tk > tk_priority e0 then e0\<lparr>tk_priority := tk_priority tk\<rparr> else e0);
               e2 = tm_merge (pt_task_merger t) tk e1
           in t\<lparr>pt_pending_tasks := kpq_push ops (tk_topic tk) (existing\<lparr>qt_task := e2\<rparr>) q\<rparr>)
      | (q, None) \<Rightarrow>
          t\<lparr>pt_pending_tasks :=
              kpq_push ops (tk_topic tk) (QueueTask_new tk (pt_target t) now) (pt_pending_tasks t)\<rparr>)"

definition PeerTracker_push_tasks ::
    "('q, 't, 'd, 'peer) tq_ops \<Rightarrow> instant \<Rightarrow> ('t, 'd) task list \<Rightarrow>
      ('t, 'd, 'peer, 'q) peer_tracker \<Rightarrow> ('t, 'd, 'peer, 'q) peer_tracker" where
  "PeerTracker_push_tasks ops now tasks t = fold (push_one_task ops now) tasks t"

definition PeerTracker_start_task ::
    "('t, 'd) task \<Rightarrow> ('t, 'd, 'peer, 'q) peer_tracker \<Rightarrow> ('t, 'd, 'peer, 'q) peer_tracker" where
  "PeerTracker_start_task tk t =
     t\<lparr>pt_active_work := pt_active_work t + tk_work tk,
       pt_active_tasks := hm_entry (tk_topic tk) [] (\<lambda>ts. ts @ [tk]) (pt_active_tasks t)\<rparr>"

text \<open>
  The loop of \<open>pop_tasks\<close>. Not returning is the value \<open>None\<close>; the queue's laws give that it returns.
\<close>

partial_function (option) pop_loop ::
    "('q, 't, 'd, 'peer) tq_ops \<Rightarrow> nat \<Rightarrow> ('t, 'd) task list \<Rightarrow> nat \<Rightarrow>
      ('t, 'd, 'peer, 'q) peer_tracker \<Rightarrow>
      (('t, 'd, 'peer, 'q) peer_tracker \<times> ('t, 'd) task list) option" where
  "pop_loop ops target_min_work out work t =
     (if \<not> kpq_is_empty ops (pt_pending_tasks t) \<and> pt_freeze_val t = 0 \<and> work < target_min_work then
        if pt_max_active_work_per_peer t > 0 \<and> pt_active_work t \<ge> pt_max_active_work_per_peer t
        then Some (t, out)
        else case kpq_pop ops (pt_pending_tasks t) of
               Some (q, _, qtask) \<Rightarrow>
                 pop_loop ops target_min_work (out @ [qt_task qtask]) (work + tk_work (qt_task qtask))
                   (PeerTracker_start_task (qt_task qtask) (t\<lparr>pt_pending_tasks := q\<rparr>))
             | None \<Rightarrow> pop_loop ops target_min_work out work t
      else Some (t, out))"

declare pop_loop.simps [code]

definition PeerTracker_pop_tasks ::
    "('q, 't, 'd, 'peer) tq_ops \<Rightarrow> nat \<Rightarrow> ('t, 'd, 'peer, 'q) peer_tracker \<Rightarrow>
      (('t, 'd, 'peer, 'q) peer_tracker \<times> ('t, 'd) task list) option" where
  "PeerTracker_pop_tasks ops target_min_work t = pop_loop ops target_min_work [] 0 t"

definition PeerTracker_get_pending_work ::
    "('q, 't, 'd, 'peer) tq_ops \<Rightarrow> ('t, 'd, 'peer, 'q) peer_tracker \<Rightarrow> nat" where
  "PeerTracker_get_pending_work ops t =
     sum_list (map (\<lambda>(_, qt). tk_work (qt_task qt)) (kpq_iter ops (pt_pending_tasks t)))"

text \<open>\<open>None\<close> is the panic of the assertion that no more work finishes than was started.\<close>

definition PeerTracker_task_done ::
    "('t, 'd) task \<Rightarrow> ('t, 'd, 'peer, 'q) peer_tracker \<Rightarrow> ('t, 'd, 'peer, 'q) peer_tracker option" where
  "PeerTracker_task_done tk t =
     (case map_of (pt_active_tasks t) (tk_topic tk) of
        None \<Rightarrow> Some t
      | Some ts \<Rightarrow>
          (let kept = filter (\<lambda>a. a \<noteq> tk) ts;
               work_done = tk_work tk * length (filter (\<lambda>a. a = tk) ts);
               active = hm_insert (tk_topic tk) kept (pt_active_tasks t)
           in if pt_active_work t \<ge> work_done then
                Some (t\<lparr>pt_active_work := pt_active_work t - work_done,
                        pt_active_tasks := (if kept = [] then hm_remove (tk_topic tk) active else active)\<rparr>)
              else None))"

definition PeerTracker_remove ::
    "('q, 't, 'd, 'peer) tq_ops \<Rightarrow> 't \<Rightarrow> ('t, 'd, 'peer, 'q) peer_tracker \<Rightarrow>
      ('t, 'd, 'peer, 'q) peer_tracker \<times> bool" where
  "PeerTracker_remove ops topic t =
     (let (q, removed) = kpq_remove ops topic (pt_pending_tasks t)
      in (t\<lparr>pt_pending_tasks := q\<rparr>, removed \<noteq> None))"

definition PeerTracker_freeze :: "('t, 'd, 'peer, 'q) peer_tracker \<Rightarrow> ('t, 'd, 'peer, 'q) peer_tracker" where
  "PeerTracker_freeze t = t\<lparr>pt_freeze_val := pt_freeze_val t + 1\<rparr>"

definition PeerTracker_thaw ::
    "('t, 'd, 'peer, 'q) peer_tracker \<Rightarrow> ('t, 'd, 'peer, 'q) peer_tracker \<times> bool" where
  "PeerTracker_thaw t =
     (let v = pt_freeze_val t - (pt_freeze_val t + 1) sdiv 2 in (t\<lparr>pt_freeze_val := v\<rparr>, v \<le> 0))"

definition PeerTracker_full_thaw :: "('t, 'd, 'peer, 'q) peer_tracker \<Rightarrow> ('t, 'd, 'peer, 'q) peer_tracker" where
  "PeerTracker_full_thaw t = t\<lparr>pt_freeze_val := 0\<rparr>"

definition PeerTracker_is_frozen :: "('t, 'd, 'peer, 'q) peer_tracker \<Rightarrow> bool" where
  "PeerTracker_is_frozen t \<longleftrightarrow> pt_freeze_val t > 0"

definition PeerTracker_cmp ::
    "('q, 't, 'd, 'peer) tq_ops \<Rightarrow> ('t, 'd, 'peer, 'q) peer_tracker \<Rightarrow>
      ('t, 'd, 'peer, 'q) peer_tracker \<Rightarrow> ordering" where
  "PeerTracker_cmp ops a b =
     (if kpq_is_empty ops (pt_pending_tasks a) then Less
      else if kpq_is_empty ops (pt_pending_tasks b) then Greater
      else if pt_freeze_val a > pt_freeze_val b then Less
      else if pt_freeze_val a > pt_freeze_val b then Greater
      else if pt_active_work a = pt_active_work b
      then cmp_of (kpq_len ops (pt_pending_tasks a)) (kpq_len ops (pt_pending_tasks b))
      else cmp_of (pt_active_work b) (pt_active_work a))"

subsection \<open>Merging tasks\<close>

text \<open>
  Merging a want into a pending task of the server joins what the two know: the result is a
  want-block exactly when one of them is, knows the block exactly when one of them does, is accounted
  with the size of the block when it will be sent, keeps topic and priority, and leaves nothing of
  the new task to be merged again.
\<close>

theorem TaskMerger_merge_join:
  "(td_is_want_block (tk_data (TaskMerger_merge tk e)) \<longleftrightarrow>
      td_is_want_block (tk_data tk) \<or> td_is_want_block (tk_data e)) \<and>
   (td_have_block (tk_data (TaskMerger_merge tk e)) \<longleftrightarrow>
      td_have_block (tk_data tk) \<or> td_have_block (tk_data e)) \<and>
   (td_is_want_block (tk_data (TaskMerger_merge tk e)) \<and> td_have_block (tk_data (TaskMerger_merge tk e)) \<longrightarrow>
      tk_work (TaskMerger_merge tk e) = td_block_size (tk_data (TaskMerger_merge tk e))) \<and>
   tk_topic (TaskMerger_merge tk e) = tk_topic e \<and>
   tk_priority (TaskMerger_merge tk e) = tk_priority e \<and>
   \<not> TaskMerger_has_new_info tk [TaskMerger_merge tk e]"
  by (simp add: TaskMerger_merge_def TaskMerger_has_new_info_def Let_def)

definition demo_task :: "nat \<Rightarrow> int \<Rightarrow> nat \<Rightarrow> bool \<Rightarrow> (nat, task_data) task" where
  "demo_task topic prio sz wb =
     \<lparr>tk_topic = topic, tk_priority = prio, tk_work = sz,
      tk_data = \<lparr>td_is_want_block = wb, td_send_dont_have = True, td_block_size = sz,
                 td_have_block = True\<rparr>\<rparr>"

theorem TaskMerger_merge_join_witness:
  "tk_work (TaskMerger_merge (demo_task 1 5 10 True) (demo_task 1 4 10 False)) = 10"
  using TaskMerger_merge_join[of "demo_task 1 5 10 True" "demo_task 1 4 10 False"]
  by (simp add: demo_task_def TaskMerger_merge_def)

subsection \<open>Invariant of the tracker\<close>

definition active_sum :: "('t, ('t, 'd) task list) hmap \<Rightarrow> nat" where
  "active_sum a = sum_list (map (\<lambda>(_, ts). sum_list (map tk_work ts)) a)"

text \<open>
  Every pending task is filed under its topic and targets the peer of the tracker, the active work is
  the work of the active tasks, which are grouped by topic in nonempty groups, and the freeze value
  is not negative.
\<close>

definition tracker_wf ::
    "('q, 't, 'd, 'peer) tq_ops \<Rightarrow> ('t, 'd, 'peer, 'q) peer_tracker \<Rightarrow> bool" where
  "tracker_wf ops t \<longleftrightarrow>
     kpq_built ops {qt. qt_target qt = pt_target t} (pt_pending_tasks t) \<and>
     (\<forall>k qt. kpq_get ops (pt_pending_tasks t) k = Some qt \<longrightarrow> tk_topic (qt_task qt) = k) \<and>
     hm_wf (pt_active_tasks t) \<and>
     (\<forall>k ts. map_of (pt_active_tasks t) k = Some ts \<longrightarrow> ts \<noteq> [] \<and> (\<forall>tk \<in> set ts. tk_topic tk = k)) \<and>
     pt_active_work t = active_sum (pt_active_tasks t) \<and>
     pt_freeze_val t \<ge> 0"

lemma tracker_wfD:
  assumes "tracker_wf ops t"
  shows "kpq_built ops {qt. qt_target qt = pt_target t} (pt_pending_tasks t)"
    and "kpq_get ops (pt_pending_tasks t) k = Some qt \<Longrightarrow> tk_topic (qt_task qt) = k"
    and "hm_wf (pt_active_tasks t)"
    and "map_of (pt_active_tasks t) k = Some ts \<Longrightarrow> ts \<noteq> []"
    and "map_of (pt_active_tasks t) k = Some ts \<Longrightarrow> tk \<in> set ts \<Longrightarrow> tk_topic tk = k"
    and "pt_active_work t = active_sum (pt_active_tasks t)"
    and "pt_freeze_val t \<ge> 0"
  using assms by (auto simp: tracker_wf_def)

lemma tracker_wfI:
  assumes "kpq_built ops {qt. qt_target qt = pt_target t} (pt_pending_tasks t)"
    and "\<And>k qt. kpq_get ops (pt_pending_tasks t) k = Some qt \<Longrightarrow> tk_topic (qt_task qt) = k"
    and "hm_wf (pt_active_tasks t)"
    and "\<And>k ts. map_of (pt_active_tasks t) k = Some ts \<Longrightarrow> ts \<noteq> [] \<and> (\<forall>tk \<in> set ts. tk_topic tk = k)"
    and "pt_active_work t = active_sum (pt_active_tasks t)"
    and "pt_freeze_val t \<ge> 0"
  shows "tracker_wf ops t"
  unfolding tracker_wf_def using assms by blast

text \<open>Changes of the pending tasks and of the active tasks that keep the invariant.\<close>

lemma tracker_wf_pending:
  assumes "tracker_wf ops t"
    and "kpq_built ops {qt. qt_target qt = pt_target t} q"
    and "\<And>k qt. kpq_get ops q k = Some qt \<Longrightarrow> tk_topic (qt_task qt) = k"
  shows "tracker_wf ops (t\<lparr>pt_pending_tasks := q\<rparr>)"
  by (rule tracker_wfI) (use assms tracker_wfD[OF assms(1)] in auto)

lemma tracker_wf_active:
  assumes "tracker_wf ops t" and "hm_wf a"
    and "\<And>k ts. map_of a k = Some ts \<Longrightarrow> ts \<noteq> [] \<and> (\<forall>tk \<in> set ts. tk_topic tk = k)"
    and "w = active_sum a"
  shows "tracker_wf ops (t\<lparr>pt_active_work := w, pt_active_tasks := a\<rparr>)"
  by (rule tracker_wfI) (use assms tracker_wfD[OF assms(1)] in auto)

lemma tracker_wf_freeze_val: "tracker_wf ops t \<Longrightarrow> v \<ge> 0 \<Longrightarrow> tracker_wf ops (t\<lparr>pt_freeze_val := v\<rparr>)"
  by (rule tracker_wfI) (auto dest: tracker_wfD)

lemma tracker_wf_new: "kpq_laws cmp ops \<Longrightarrow> tracker_wf ops (PeerTracker_new ops p m n)"
  by (simp add: tracker_wf_def PeerTracker_new_def kpq_built.built_new kpq_get_new active_sum_def)

lemma QueueTask_cmp_total: "total_preorder_on {qt. qt_target qt = p} QueueTask_cmp"
  by (auto simp: total_preorder_on_def QueueTask_cmp_def)

text \<open>Sums over an association list under insertion and removal.\<close>

lemma active_sum_insert:
  assumes "hm_wf a"
  shows "active_sum (hm_insert k ts a) + (case map_of a k of None \<Rightarrow> 0 | Some ts' \<Rightarrow> sum_list (map tk_work ts'))
    = active_sum a + sum_list (map tk_work ts)"
  using assms
proof (induction a)
  case (Cons x a)
  then show ?case
    by (cases x) (auto simp: active_sum_def split: option.splits)
qed (simp add: active_sum_def)

lemma active_sum_remove:
  assumes "hm_wf a"
  shows "active_sum (hm_remove k a) + (case map_of a k of None \<Rightarrow> 0 | Some ts' \<Rightarrow> sum_list (map tk_work ts'))
    = active_sum a"
  using assms
proof (induction a)
  case (Cons x a)
  then show ?case
    by (cases x) (auto simp: active_sum_def split: option.splits)
qed (simp add: active_sum_def)

lemma active_sum_entry:
  assumes "hm_wf a"
  shows "active_sum (hm_entry k [] (\<lambda>ts. ts @ [tk]) a) = active_sum a + tk_work tk"
  using active_sum_insert[OF assms, of k "(case map_of a k of None \<Rightarrow> [] | Some ts \<Rightarrow> ts) @ [tk]"]
  by (cases "map_of a k") (simp_all add: hm_entry_def)

lemma tracker_wf_start:
  assumes "tracker_wf ops t"
  shows "tracker_wf ops (PeerTracker_start_task tk t)"
proof -
  let ?a = "hm_entry (tk_topic tk) [] (\<lambda>ts. ts @ [tk]) (pt_active_tasks t)"
  have get: "map_of ?a = (map_of (pt_active_tasks t))(tk_topic tk \<mapsto>
      (case map_of (pt_active_tasks t) (tk_topic tk) of None \<Rightarrow> [] | Some ts \<Rightarrow> ts) @ [tk])"
    by (simp add: hm_entry_def split: option.split)
  have groups: "ts \<noteq> [] \<and> (\<forall>x\<in>set ts. tk_topic x = k)" if "map_of ?a k = Some ts" for k ts
    using that tracker_wfD(4,5)[OF assms] unfolding get
    by (cases "map_of (pt_active_tasks t) (tk_topic tk)") (auto split: if_splits)
  have sum: "pt_active_work t + tk_work tk = active_sum ?a"
    using tracker_wfD(3,6)[OF assms] by (simp add: active_sum_entry)
  show ?thesis
    unfolding PeerTracker_start_task_def
    by (rule tracker_wf_active[OF assms _ groups sum]) (use tracker_wfD(3)[OF assms] in auto)
qed

subsection \<open>Finishing tasks\<close>

lemma sum_work_split:
  "sum_list (map tk_work ts) =
     sum_list (map tk_work (filter (\<lambda>a. a \<noteq> tk) ts)) + tk_work tk * length (filter (\<lambda>a. a = tk) ts)"
  by (induction ts) auto

lemma task_done_ok:
  assumes "tracker_wf ops t"
  shows "\<exists>t'. PeerTracker_task_done tk t = Some t' \<and> tracker_wf ops t' \<and>
     pt_target t' = pt_target t \<and> pt_freeze_val t' = pt_freeze_val t \<and>
     pt_pending_tasks t' = pt_pending_tasks t \<and> pt_task_merger t' = pt_task_merger t"
proof (cases "map_of (pt_active_tasks t) (tk_topic tk)")
  case None
  then show ?thesis using assms by (simp add: PeerTracker_task_done_def)
next
  case (Some ts)
  let ?a = "pt_active_tasks t" and ?k = "tk_topic tk"
  let ?kept = "filter (\<lambda>a. a \<noteq> tk) ts" and ?done = "tk_work tk * length (filter (\<lambda>a. a = tk) ts)"
  let ?ins = "hm_insert ?k ?kept ?a"
  define a' where "a' = (if ?kept = [] then hm_remove ?k ?ins else ?ins)"
  have wf: "hm_wf ?a" "hm_wf ?ins" using tracker_wfD(3)[OF assms] by auto
  then have wf': "hm_wf a'" by (simp add: a'_def)
  have ins: "active_sum ?ins + ?done = active_sum ?a"
    using active_sum_insert[OF wf(1), of ?k ?kept] sum_work_split[of ts tk] Some by simp
  have sum': "active_sum a' + ?done = active_sum ?a"
    using ins active_sum_remove[OF wf(2), of ?k] by (auto simp: a'_def)
  have work: "pt_active_work t = active_sum ?a" by (rule tracker_wfD(6)[OF assms])
  let ?t' = "t\<lparr>pt_active_work := pt_active_work t - ?done, pt_active_tasks := a'\<rparr>"
  have eq: "PeerTracker_task_done tk t = Some ?t'"
    using work sum' Some by (simp add: PeerTracker_task_done_def Let_def a'_def)
  have get': "map_of a' = (if ?kept = [] then (map_of ?a)(?k := None) else (map_of ?a)(?k \<mapsto> ?kept))"
    by (simp add: a'_def)
  have groups: "ts' \<noteq> [] \<and> (\<forall>x\<in>set ts'. tk_topic x = k)" if "map_of a' k = Some ts'" for k ts'
  proof (cases "k = ?k")
    case True
    then show ?thesis using that tracker_wfD(5)[OF assms Some] by (auto simp: get' split: if_splits)
  next
    case False
    then show ?thesis using that tracker_wfD(4,5)[OF assms, of k ts'] by (simp add: get' split: if_splits)
  qed
  have "tracker_wf ops ?t'"
    by (rule tracker_wf_active[OF assms wf' groups]) (use work sum' in simp_all)
  with eq show ?thesis by auto
qed

subsection \<open>Popping tasks\<close>

text \<open>
  What one iteration of the loop does: the popped task is the one of greatest priority, it moves from
  the pending to the active tasks, and the invariant is kept.
\<close>

lemma pop_step:
  fixes t :: "('t, 'd, 'peer, 'q) peer_tracker"
  assumes laws: "kpq_laws QueueTask_cmp ops" and wf: "tracker_wf ops t"
    and pop: "kpq_pop ops (pt_pending_tasks t) = Some (q, k, qt)"
  defines "t' \<equiv> PeerTracker_start_task (qt_task qt) (t\<lparr>pt_pending_tasks := q\<rparr>)"
  shows "tracker_wf ops t'"
    and "kpq_get ops (pt_pending_tasks t) k = Some qt" and "tk_topic (qt_task qt) = k"
    and "kpq_get ops (pt_pending_tasks t') = (kpq_get ops (pt_pending_tasks t))(k := None)"
    and "qt' \<in> ran (kpq_get ops (pt_pending_tasks t)) \<Longrightarrow>
      tk_priority (qt_task qt') \<le> tk_priority (qt_task qt)"
    and "pt_active_work t' = pt_active_work t + tk_work (qt_task qt)"
    and "kpq_len ops (pt_pending_tasks t') < kpq_len ops (pt_pending_tasks t)"
proof -
  let ?S = "{qt :: ('t, 'd, 'peer) queue_task. qt_target qt = pt_target t}"
  have built: "kpq_built ops ?S (pt_pending_tasks t)" by (rule tracker_wfD(1)[OF wf])
  show get: "kpq_get ops (pt_pending_tasks t) k = Some qt" by (rule kpq_lawsD(6)[OF laws built pop])
  then show "tk_topic (qt_task qt) = k" by (rule tracker_wfD(2)[OF wf])
  have get': "kpq_get ops q = (kpq_get ops (pt_pending_tasks t))(k := None)"
    by (rule kpq_lawsD(7)[OF laws built pop])
  then show "kpq_get ops (pt_pending_tasks t') = (kpq_get ops (pt_pending_tasks t))(k := None)"
    by (simp add: t'_def PeerTracker_start_task_def)
  have "tracker_wf ops (t\<lparr>pt_pending_tasks := q\<rparr>)"
    by (rule tracker_wf_pending[OF wf kpq_built.built_pop[OF built pop]])
      (use get' tracker_wfD(2)[OF wf] in \<open>auto split: if_splits\<close>)
  then show "tracker_wf ops t'" unfolding t'_def by (rule tracker_wf_start)
  show "pt_active_work t' = pt_active_work t + tk_work (qt_task qt)"
    by (simp add: t'_def PeerTracker_start_task_def)
  show "kpq_len ops (pt_pending_tasks t') < kpq_len ops (pt_pending_tasks t)"
    using kpq_pop_len[OF laws built pop] by (simp add: t'_def PeerTracker_start_task_def)
  show "tk_priority (qt_task qt') \<le> tk_priority (qt_task qt)"
    if "qt' \<in> ran (kpq_get ops (pt_pending_tasks t))"
  proof -
    have ran: "ran (kpq_get ops (pt_pending_tasks t)) \<subseteq> ?S" by (rule kpq_built_ran[OF laws built])
    then have "qt_target qt' = pt_target t" "qt_target qt = pt_target t"
      using that get unfolding ran_def by blast+
    moreover have "QueueTask_cmp qt qt' \<noteq> Less"
      by (rule kpq_lawsD(8)[OF laws built pop QueueTask_cmp_total that])
    ultimately show ?thesis by (auto simp: QueueTask_cmp_def split: if_splits)
  qed
qed

text \<open>The result of the loop, relative to the tracker it started from and the tasks popped before.\<close>

definition popped_ok ::
    "('q, 't, 'd, 'peer) tq_ops \<Rightarrow> nat \<Rightarrow> nat \<Rightarrow> ('t, 'd, 'peer, 'q) peer_tracker \<Rightarrow>
      ('t, 'd, 'peer, 'q) peer_tracker \<Rightarrow> ('t, 'd) task list \<Rightarrow> bool" where
  "popped_ok ops target_min_work work t t' ts \<longleftrightarrow>
     tracker_wf ops t' \<and>
     distinct (map tk_topic ts) \<and>
     (\<forall>tk \<in> set ts. map_option qt_task (kpq_get ops (pt_pending_tasks t) (tk_topic tk)) = Some tk) \<and>
     (\<forall>k. kpq_get ops (pt_pending_tasks t') k =
        (if k \<in> tk_topic ` set ts then None else kpq_get ops (pt_pending_tasks t) k)) \<and>
     sorted_wrt (\<lambda>a b. tk_priority b \<le> tk_priority a) ts \<and>
     (\<forall>tk \<in> set ts. \<forall>qt \<in> ran (kpq_get ops (pt_pending_tasks t')).
        tk_priority (qt_task qt) \<le> tk_priority tk) \<and>
     pt_active_work t' = pt_active_work t + sum_list (map tk_work ts) \<and>
     (ts \<noteq> [] \<longrightarrow> work + sum_list (map tk_work (butlast ts)) < target_min_work) \<and>
     (kpq_is_empty ops (pt_pending_tasks t') \<or> pt_freeze_val t \<noteq> 0 \<or>
      work + sum_list (map tk_work ts) \<ge> target_min_work \<or>
      (pt_max_active_work_per_peer t > 0 \<and> pt_active_work t' \<ge> pt_max_active_work_per_peer t)) \<and>
     (pt_freeze_val t \<noteq> 0 \<longrightarrow> ts = []) \<and>
     pt_target t' = pt_target t \<and> pt_freeze_val t' = pt_freeze_val t \<and>
     pt_max_active_work_per_peer t' = pt_max_active_work_per_peer t \<and>
     pt_task_merger t' = pt_task_merger t"

lemma popped_ok_stop:
  assumes "tracker_wf ops t"
    and "kpq_is_empty ops (pt_pending_tasks t) \<or> pt_freeze_val t \<noteq> 0 \<or> work \<ge> target_min_work \<or>
      (pt_max_active_work_per_peer t > 0 \<and> pt_active_work t \<ge> pt_max_active_work_per_peer t)"
  shows "popped_ok ops target_min_work work t t []"
  using assms by (simp add: popped_ok_def)

lemma popped_ok_cons:
  fixes t :: "('t, 'd, 'peer, 'q) peer_tracker"
  assumes laws: "kpq_laws QueueTask_cmp ops" and wf: "tracker_wf ops t"
    and pop: "kpq_pop ops (pt_pending_tasks t) = Some (q, k, qt)"
    and go: "pt_freeze_val t = 0" "work < target_min_work"
    and rest: "popped_ok ops target_min_work (work + tk_work (qt_task qt))
      (PeerTracker_start_task (qt_task qt) (t\<lparr>pt_pending_tasks := q\<rparr>)) t' ts"
  shows "popped_ok ops target_min_work work t t' (qt_task qt # ts)"
proof -
  let ?t1 = "PeerTracker_start_task (qt_task qt) (t\<lparr>pt_pending_tasks := q\<rparr>)"
  let ?g = "kpq_get ops (pt_pending_tasks t)" and ?g' = "kpq_get ops (pt_pending_tasks t')"
  note step = pop_step[OF laws wf pop]
  have same: "pt_target ?t1 = pt_target t" "pt_freeze_val ?t1 = pt_freeze_val t"
    "pt_max_active_work_per_peer ?t1 = pt_max_active_work_per_peer t" "pt_task_merger ?t1 = pt_task_merger t"
    by (simp_all add: PeerTracker_start_task_def)
  have from_t1: "map_option qt_task ((?g(k := None)) (tk_topic tk)) = Some tk" if "tk \<in> set ts" for tk
    using rest that step(4) by (simp add: popped_ok_def)
  then have fresh: "tk_topic tk \<noteq> k" if "tk \<in> set ts" for tk
    using that by fastforce
  then have fresh_k: "k \<notin> tk_topic ` set ts" by blast
  have dist: "distinct (map tk_topic ts)" using rest by (simp add: popped_ok_def)
  have mem: "\<exists>qt' \<in> ran ?g. qt_task qt' = tk" if "tk \<in> set ts" for tk
    using from_t1[OF that] by (auto simp: ran_def split: if_splits)
  have rest_get: "?g' k' = (if k' \<in> tk_topic ` set ts then None else (?g(k := None)) k')" for k'
    using rest step(4) by (simp add: popped_ok_def)
  then have sub: "ran ?g' \<subseteq> ran ?g" by (auto simp: ran_def split: if_splits)
  have first_max: "tk_priority tk \<le> tk_priority (qt_task qt)" if "tk \<in> set ts" for tk
    using mem[OF that] step(5) by auto
  have left_max: "tk_priority (qt_task qt') \<le> tk_priority (qt_task qt)" if "qt' \<in> ran ?g'" for qt'
    using sub that step(5) by auto
  have stop: "kpq_is_empty ops (pt_pending_tasks t') \<or> pt_freeze_val t \<noteq> 0 \<or>
      work + tk_work (qt_task qt) + sum_list (map tk_work ts) \<ge> target_min_work \<or>
      (pt_max_active_work_per_peer t > 0 \<and> pt_active_work t' \<ge> pt_max_active_work_per_peer t)"
    using rest unfolding popped_ok_def same by (elim conjE) assumption
  show ?thesis
    unfolding popped_ok_def
  proof (intro conjI)
    show "distinct (map tk_topic (qt_task qt # ts))"
      using fresh_k dist step(3) by simp
    show "\<forall>tk\<in>set (qt_task qt # ts). map_option qt_task (?g (tk_topic tk)) = Some tk"
      using from_t1 fresh step(2,3) by auto
    show "\<forall>k'. ?g' k' = (if k' \<in> tk_topic ` set (qt_task qt # ts) then None else ?g k')"
      using rest_get step(3) by auto
    show "sorted_wrt (\<lambda>a b. tk_priority b \<le> tk_priority a) (qt_task qt # ts)"
      using rest first_max by (simp add: popped_ok_def)
    show "\<forall>tk\<in>set (qt_task qt # ts). \<forall>qt'\<in>ran ?g'. tk_priority (qt_task qt') \<le> tk_priority tk"
      using rest left_max by (simp add: popped_ok_def)
    show "qt_task qt # ts \<noteq> [] \<longrightarrow>
        work + sum_list (map tk_work (butlast (qt_task qt # ts))) < target_min_work"
      using rest go(2) by (cases ts) (simp_all add: popped_ok_def)
    show "kpq_is_empty ops (pt_pending_tasks t') \<or> pt_freeze_val t \<noteq> 0 \<or>
        work + sum_list (map tk_work (qt_task qt # ts)) \<ge> target_min_work \<or>
        (pt_max_active_work_per_peer t > 0 \<and> pt_active_work t' \<ge> pt_max_active_work_per_peer t)"
      using stop by (simp add: add.assoc)
  qed (use rest go step(6) same in \<open>simp_all add: popped_ok_def add.assoc\<close>)
qed

lemma pop_loop_ok:
  assumes laws: "kpq_laws QueueTask_cmp ops" and wf: "tracker_wf ops t"
  shows "\<exists>t' ts. pop_loop ops target_min_work out work t = Some (t', out @ ts) \<and>
     popped_ok ops target_min_work work t t' ts"
  using wf
proof (induction "kpq_len ops (pt_pending_tasks t)" arbitrary: t out work rule: less_induct)
  case less
  let ?max = "pt_max_active_work_per_peer t > 0 \<and> pt_active_work t \<ge> pt_max_active_work_per_peer t"
  show ?case
  proof (cases "kpq_is_empty ops (pt_pending_tasks t) \<or> pt_freeze_val t \<noteq> 0 \<or> work \<ge> target_min_work \<or> ?max")
    case True
    then have "pop_loop ops target_min_work out work t = Some (t, out)"
      by (subst pop_loop.simps) auto
    with popped_ok_stop[OF less.prems True] show ?thesis by (metis append_Nil2)
  next
    case False
    then have "kpq_iter ops (pt_pending_tasks t) \<noteq> []" by (simp add: kpq_is_empty_def)
    then obtain q k qt where pop: "kpq_pop ops (pt_pending_tasks t) = Some (q, k, qt)"
      using kpq_lawsD(5)[OF laws tracker_wfD(1)[OF less.prems]] by auto
    let ?t1 = "PeerTracker_start_task (qt_task qt) (t\<lparr>pt_pending_tasks := q\<rparr>)"
    note step = pop_step[OF laws less.prems pop]
    obtain t' ts where rec: "pop_loop ops target_min_work (out @ [qt_task qt]) (work + tk_work (qt_task qt)) ?t1 =
        Some (t', (out @ [qt_task qt]) @ ts)"
      and ok: "popped_ok ops target_min_work (work + tk_work (qt_task qt)) ?t1 t' ts"
      using less.hyps[OF step(7,1)] by blast
    have "pop_loop ops target_min_work out work t = Some (t', out @ qt_task qt # ts)"
      using False pop rec by (subst pop_loop.simps) auto
    moreover have "popped_ok ops target_min_work work t t' (qt_task qt # ts)"
      using popped_ok_cons[OF laws less.prems pop _ _ ok] False by simp
    ultimately show ?thesis by blast
  qed
qed

subsection \<open>The contract of a merger\<close>

text \<open>
  What the tracker relies on: merging a task into a pending one of the same topic keeps the topic, so
  that the merged task may be filed again where the old one was.
\<close>

locale merger =
  fixes m :: "('t, 'd) task_merger"
  assumes merge_topic: "tk_topic (tm_merge m tk e) = tk_topic e"
begin

lemma push_one_wf:
  assumes laws: "kpq_laws cmp ops" and wf: "tracker_wf ops t" and m: "pt_task_merger t = m"
  shows "tracker_wf ops (push_one_task ops now tk t)"
proof (cases "task_has_more_info_than_active_tasks tk t")
  case True
  let ?S = "{qt. qt_target qt = pt_target t}" and ?g = "kpq_get ops (pt_pending_tasks t)"
  have built: "kpq_built ops ?S (pt_pending_tasks t)" by (rule tracker_wfD(1)[OF wf])
  obtain q e where rem: "kpq_remove ops (tk_topic tk) (pt_pending_tasks t) = (q, e)" by fastforce
  have e: "e = ?g (tk_topic tk)" using kpq_lawsD(4)[OF laws built, of "tk_topic tk"] rem by simp
  have q: "kpq_built ops ?S q" "kpq_get ops q = ?g(tk_topic tk := None)"
    using kpq_built.built_remove[OF built, of "tk_topic tk"] kpq_lawsD(3)[OF laws built, of "tk_topic tk"] rem
    by simp_all
  show ?thesis
  proof (cases e)
    case None
    let ?q' = "kpq_push ops (tk_topic tk) (QueueTask_new tk (pt_target t) now) (pt_pending_tasks t)"
    have "kpq_built ops ?S ?q'" by (rule kpq_built.built_push[OF built]) (simp add: QueueTask_new_def)
    moreover have "kpq_get ops ?q' k = Some qt \<Longrightarrow> tk_topic (qt_task qt) = k" for k qt
      using tracker_wfD(2)[OF wf, of k qt]
      by (auto simp: kpq_lawsD(2)[OF laws built] QueueTask_new_def split: if_splits)
    ultimately have "tracker_wf ops (t\<lparr>pt_pending_tasks := ?q'\<rparr>)" by (rule tracker_wf_pending[OF wf])
    then show ?thesis using rem None True by (simp add: push_one_task_def)
  next
    case (Some existing)
    have ex: "tk_topic (qt_task existing) = tk_topic tk"
      using e Some tracker_wfD(2)[OF wf] by simp
    have target: "qt_target existing = pt_target t"
      using kpq_built_ran[OF laws built] ranI[of ?g "tk_topic tk" existing] e Some by auto
    define e1 where "e1 = (if tk_priority tk > tk_priority (qt_task existing)
      then (qt_task existing)\<lparr>tk_priority := tk_priority tk\<rparr> else qt_task existing)"
    let ?e = "existing\<lparr>qt_task := tm_merge m tk e1\<rparr>"
    have topic: "tk_topic (qt_task ?e) = tk_topic tk" using ex by (simp add: merge_topic e1_def)
    let ?q' = "kpq_push ops (tk_topic tk) ?e q"
    have "kpq_built ops ?S ?q'" by (rule kpq_built.built_push[OF q(1)]) (simp add: target)
    moreover have "kpq_get ops ?q' k = Some qt \<Longrightarrow> tk_topic (qt_task qt) = k" for k qt
      using tracker_wfD(2)[OF wf, of k qt] topic
      by (auto simp: kpq_lawsD(2)[OF laws q(1)] q(2) split: if_splits)
    ultimately have "tracker_wf ops (t\<lparr>pt_pending_tasks := ?q'\<rparr>)" by (rule tracker_wf_pending[OF wf])
    moreover have "push_one_task ops now tk t = t\<lparr>pt_pending_tasks := ?q'\<rparr>"
      using rem Some True m by (simp add: push_one_task_def Let_def e1_def)
    ultimately show ?thesis by simp
  qed
qed (simp add: push_one_task_def wf)

end

lemma push_one_same:
  "pt_target (push_one_task ops now tk t) = pt_target t"
  "pt_freeze_val (push_one_task ops now tk t) = pt_freeze_val t"
  "pt_task_merger (push_one_task ops now tk t) = pt_task_merger t"
  "pt_active_tasks (push_one_task ops now tk t) = pt_active_tasks t"
  by (simp_all add: push_one_task_def Let_def split: prod.split option.split)

lemma push_tasks_same:
  "pt_target (PeerTracker_push_tasks ops now tks t) = pt_target t"
  "pt_freeze_val (PeerTracker_push_tasks ops now tks t) = pt_freeze_val t"
  "pt_task_merger (PeerTracker_push_tasks ops now tks t) = pt_task_merger t"
  "pt_active_tasks (PeerTracker_push_tasks ops now tks t) = pt_active_tasks t"
  unfolding PeerTracker_push_tasks_def by (induction tks arbitrary: t) (simp_all add: push_one_same)

context merger
begin

lemma push_tasks_wf:
  assumes "kpq_laws cmp ops" and "tracker_wf ops t" and "pt_task_merger t = m"
  shows "tracker_wf ops (PeerTracker_push_tasks ops now tks t)"
proof -
  have "tracker_wf ops (fold (push_one_task ops now) tks t) \<and>
      pt_task_merger (fold (push_one_task ops now) tks t) = m"
  proof (rule fold_invariant)
    show "tracker_wf ops t \<and> pt_task_merger t = m" using assms by simp
    show "tracker_wf ops (push_one_task ops now tk t) \<and> pt_task_merger (push_one_task ops now tk t) = m"
      if "tracker_wf ops t \<and> pt_task_merger t = m" for tk t
      using that push_one_wf[OF assms(1)] by (simp add: push_one_same)
  qed
  then show ?thesis by (simp add: PeerTracker_push_tasks_def)
qed

end

lemma TaskMerger_merge_topic: "tk_topic (TaskMerger_merge tk e) = tk_topic e"
  by (simp add: TaskMerger_merge_def Let_def)

interpretation dtm: merger DefaultTaskMerger
  by unfold_locales (simp add: DefaultTaskMerger_def)

interpretation stm: merger ServerTaskMerger
  by unfold_locales (simp add: ServerTaskMerger_def TaskMerger_merge_topic)

subsection \<open>Removing, freezing and thawing\<close>

lemma tracker_remove_wf:
  assumes laws: "kpq_laws cmp ops" and wf: "tracker_wf ops t"
  shows "tracker_wf ops (fst (PeerTracker_remove ops topic t))"
proof -
  let ?q = "fst (kpq_remove ops topic (pt_pending_tasks t))"
  note built = tracker_wfD(1)[OF wf]
  have "kpq_get ops ?q k = Some qt \<Longrightarrow> tk_topic (qt_task qt) = k" for k qt
    using tracker_wfD(2)[OF wf, of k qt] by (auto simp: kpq_lawsD(3)[OF laws built] split: if_splits)
  with kpq_built.built_remove[OF built] have "tracker_wf ops (t\<lparr>pt_pending_tasks := ?q\<rparr>)"
    by (rule tracker_wf_pending[OF wf])
  then show ?thesis by (simp add: PeerTracker_remove_def case_prod_beta)
qed

lemma tracker_remove_same:
  "pt_target (fst (PeerTracker_remove ops topic t)) = pt_target t"
  "pt_freeze_val (fst (PeerTracker_remove ops topic t)) = pt_freeze_val t"
  "pt_task_merger (fst (PeerTracker_remove ops topic t)) = pt_task_merger t"
  by (simp_all add: PeerTracker_remove_def split: prod.split)

lemma thaw_halves:
  assumes "pt_freeze_val t \<ge> 0"
  shows "pt_freeze_val (fst (PeerTracker_thaw t)) = pt_freeze_val t div 2"
proof -
  have "(pt_freeze_val t + 1) sdiv 2 = (pt_freeze_val t + 1) div 2"
    using assms by (simp add: signed_divide_int_def sgn_if)
  then show ?thesis by (simp add: PeerTracker_thaw_def Let_def)
qed

lemma thaw_wf:
  assumes "tracker_wf ops t"
  shows "tracker_wf ops (fst (PeerTracker_thaw t))"
    and "snd (PeerTracker_thaw t) \<longleftrightarrow> \<not> PeerTracker_is_frozen (fst (PeerTracker_thaw t))"
    and "pt_target (fst (PeerTracker_thaw t)) = pt_target t"
    and "pt_task_merger (fst (PeerTracker_thaw t)) = pt_task_merger t"
proof -
  have "pt_freeze_val (fst (PeerTracker_thaw t)) \<ge> 0"
    using thaw_halves[OF tracker_wfD(7)[OF assms]] tracker_wfD(7)[OF assms] by simp
  then show "tracker_wf ops (fst (PeerTracker_thaw t))"
    using tracker_wf_freeze_val[OF assms] by (simp add: PeerTracker_thaw_def Let_def)
qed (auto simp: PeerTracker_thaw_def PeerTracker_is_frozen_def Let_def)

lemma freeze_wf: "tracker_wf ops t \<Longrightarrow> tracker_wf ops (PeerTracker_freeze t)"
  unfolding PeerTracker_freeze_def by (rule tracker_wf_freeze_val) (auto dest: tracker_wfD(7))

lemma full_thaw_wf: "tracker_wf ops t \<Longrightarrow> tracker_wf ops (PeerTracker_full_thaw t)"
  unfolding PeerTracker_full_thaw_def by (rule tracker_wf_freeze_val) simp_all

subsection \<open>A concrete keyed priority queue\<close>

text \<open>An association list whose \<open>pop\<close> takes the last of its greatest elements.\<close>

fun alist_max :: "('p \<Rightarrow> 'p \<Rightarrow> ordering) \<Rightarrow> ('k \<times> 'p) list \<Rightarrow> ('k \<times> 'p) option" where
  "alist_max cmp [] = None"
| "alist_max cmp (x # xs) =
     (case alist_max cmp xs of
        None \<Rightarrow> Some x
      | Some y \<Rightarrow> if cmp (snd y) (snd x) = Less then Some x else Some y)"

definition alist_kpq :: "('p \<Rightarrow> 'p \<Rightarrow> ordering) \<Rightarrow> (('k, 'p) hmap, 'k, 'p) kpq_ops" where
  "alist_kpq cmp =
     \<lparr>kpq_new = [], kpq_push = hm_insert,
      kpq_pop = (\<lambda>q. map_option (\<lambda>(k, p). (hm_remove k q, k, p)) (alist_max cmp q)),
      kpq_remove = (\<lambda>k q. (hm_remove k q, map_of q k)), kpq_iter = (\<lambda>q. q)\<rparr>"

lemma alist_max_None [simp]: "alist_max cmp q = None \<longleftrightarrow> q = []"
  by (cases q) (auto split: option.split)

lemma alist_max_mem: "alist_max cmp q = Some x \<Longrightarrow> x \<in> set q"
  by (induction q arbitrary: x) (auto split: option.splits if_splits)

lemma total_preorder_refl:
  assumes "total_preorder_on S cmp" and "a \<in> S"
  shows "cmp a a \<noteq> Less"
proof -
  have "cmp a a = Greater \<longleftrightarrow> cmp a a = Less" using assms unfolding total_preorder_on_def by blast
  then show ?thesis by (cases "cmp a a") simp_all
qed

lemma alist_max_greatest:
  assumes "total_preorder_on S cmp" and "snd ` set q \<subseteq> S" and "alist_max cmp q = Some x"
    and "y \<in> set q"
  shows "cmp (snd x) (snd y) \<noteq> Less"
  using assms(2-4)
proof (induction q arbitrary: x y)
  case (Cons z q)
  note refl = total_preorder_refl[OF assms(1)]
  show ?case
  proof (cases "alist_max cmp q")
    case None
    then show ?thesis using Cons.prems refl[of "snd z"] by simp
  next
    case (Some w)
    have S: "snd w \<in> S" "snd z \<in> S" "snd y \<in> S"
      using Cons.prems alist_max_mem[OF Some] by auto
    have IH: "y \<in> set q \<Longrightarrow> cmp (snd w) (snd y) \<noteq> Less" using Cons.IH[OF _ Some, of y] Cons.prems by simp
    show ?thesis
    proof (cases "cmp (snd w) (snd z) = Less")
      case True
      then have x: "x = z" using Some Cons.prems by simp
      have "cmp (snd z) (snd w) = Greater" using assms(1) S True unfolding total_preorder_on_def by blast
      then have "cmp (snd w) (snd y) \<noteq> Less \<Longrightarrow> cmp (snd z) (snd y) \<noteq> Less"
        using assms(1) S unfolding total_preorder_on_def by (metis ordering.distinct(3))
      then show ?thesis
        using x Cons.prems(3) IH refl[of "snd z"] S by auto
    next
      case False
      then show ?thesis using Some Cons.prems IH by auto
    qed
  qed
qed simp

lemma alist_kpq_simps [simp]:
  "kpq_new (alist_kpq cmp) = []" "kpq_push (alist_kpq cmp) = hm_insert"
  "kpq_pop (alist_kpq cmp) q = map_option (\<lambda>(k, p). (hm_remove k q, k, p)) (alist_max cmp q)"
  "kpq_remove (alist_kpq cmp) k q = (hm_remove k q, map_of q k)" "kpq_iter (alist_kpq cmp) q = q"
  "kpq_get (alist_kpq cmp) q = map_of q"
  by (simp_all add: alist_kpq_def kpq_get_def)

lemma alist_built:
  assumes "kpq_built (alist_kpq cmp) S q"
  shows "hm_wf q \<and> (\<forall>k p. map_of q k = Some p \<longrightarrow> p \<in> S)"
  using assms
proof (induction rule: kpq_built.induct)
  case (built_push q p k)
  then show ?case by simp
next
  case (built_pop q q' kp)
  then show ?case by (cases kp) (auto split: if_splits)
qed simp_all

lemma alist_kpq_laws:
  fixes cmp :: "'p \<Rightarrow> 'p \<Rightarrow> ordering"
  shows "kpq_laws cmp (alist_kpq cmp :: (('k, 'p) hmap, 'k, 'p) kpq_ops)"
  unfolding kpq_laws_def
proof (intro conjI allI impI ballI)
  fix S :: "'p set" and q :: "('k, 'p) hmap" assume "kpq_built (alist_kpq cmp) S q"
  note wf = alist_built[OF this]
  then show "hm_wf (kpq_iter (alist_kpq cmp) q)" by simp
  fix q' :: "('k, 'p) hmap" and k p assume pop: "kpq_pop (alist_kpq cmp) q = Some (q', k, p)"
  then have max: "alist_max cmp q = Some (k, p)" and q': "q' = hm_remove k q" by auto
  show "kpq_get (alist_kpq cmp) q k = Some p"
    using alist_max_mem[OF max] wf by (simp add: map_of_is_SomeI)
  show "kpq_get (alist_kpq cmp) q' = (kpq_get (alist_kpq cmp) q)(k := None)" using q' by simp
  fix p' assume total: "total_preorder_on S cmp" and "p' \<in> ran (kpq_get (alist_kpq cmp) q)"
  then obtain k' where "map_of q k' = Some p'" by (auto simp: ran_def)
  then have mem: "(k', p') \<in> set q" by (rule map_of_SomeD)
  have sub: "snd ` set q \<subseteq> S" using wf by (auto dest: map_of_is_SomeI)
  show "cmp p p' \<noteq> Less" using alist_max_greatest[OF total sub max mem] by simp
qed simp_all

subsection \<open>Properties\<close>

text \<open>
  C29: \<open>pop_tasks\<close> of a tracker always returns. The tasks it returns are pending tasks, moved to the
  active ones, in descending priority and none of lower priority than a task left behind; they are no
  more than what covers the requested work, and fewer only if the queue is exhausted, the peer is
  frozen or its allowance of active work is used up; a frozen peer gets nothing.
\<close>

theorem PeerTracker_pop_tasks_correct:
  assumes "kpq_laws QueueTask_cmp ops" and "tracker_wf ops t"
  shows "\<exists>t' ts. PeerTracker_pop_tasks ops target_min_work t = Some (t', ts) \<and>
     popped_ok ops target_min_work 0 t t' ts"
  using pop_loop_ok[OF assms, of target_min_work "[]" 0] by (simp add: PeerTracker_pop_tasks_def)

definition demo_tracker :: "nat \<Rightarrow> (nat, task_data) task list \<Rightarrow>
    (nat, task_data, nat, (nat, (nat, task_data, nat) queue_task) hmap) peer_tracker" where
  "demo_tracker peer tks =
     PeerTracker_push_tasks (alist_kpq QueueTask_cmp) 3 tks
       (PeerTracker_new (alist_kpq QueueTask_cmp) peer ServerTaskMerger 0)"

lemma demo_tracker_wf: "tracker_wf (alist_kpq QueueTask_cmp) (demo_tracker peer tks)"
  unfolding demo_tracker_def
  by (rule stm.push_tasks_wf[OF alist_kpq_laws tracker_wf_new[OF alist_kpq_laws]])
    (simp add: PeerTracker_new_def)

theorem PeerTracker_pop_tasks_correct_witness:
  "\<exists>t' ts. PeerTracker_pop_tasks (alist_kpq QueueTask_cmp) 7
        (demo_tracker 1 [demo_task 1 5 10 True, demo_task 2 6 4 True]) = Some (t', ts) \<and>
     popped_ok (alist_kpq QueueTask_cmp) 7 0
        (demo_tracker 1 [demo_task 1 5 10 True, demo_task 2 6 4 True]) t' ts"
  using PeerTracker_pop_tasks_correct[OF alist_kpq_laws demo_tracker_wf] by blast

text \<open>
  Each call of \<open>thaw\<close> halves the freeze value, so that \<open>n\<close> calls unfreeze exactly the peers that
  were frozen fewer than \<open>2 ^ n\<close> times: the peers frozen the least thaw first.
\<close>

theorem PeerTracker_thaw_rounds:
  assumes "tracker_wf ops t"
  shows "PeerTracker_is_frozen (((\<lambda>t. fst (PeerTracker_thaw t)) ^^ n) t) \<longleftrightarrow> 2 ^ n \<le> pt_freeze_val t"
proof -
  have "pt_freeze_val (((\<lambda>t. fst (PeerTracker_thaw t)) ^^ n) t) = pt_freeze_val t div 2 ^ n"
  proof (induction n)
    case (Suc n)
    have "0 \<le> pt_freeze_val t div 2 ^ n"
      using tracker_wfD(7)[OF assms] by (simp add: pos_imp_zdiv_nonneg_iff)
    then have "pt_freeze_val (((\<lambda>t. fst (PeerTracker_thaw t)) ^^ Suc n) t) = pt_freeze_val t div 2 ^ n div 2"
      using Suc by (simp add: thaw_halves)
    also have "\<dots> = pt_freeze_val t div 2 ^ Suc n"
      by (simp only: power_Suc2 zdiv_zmult2_eq)
    finally show ?case .
  qed simp
  moreover have "0 < pt_freeze_val t div 2 ^ n \<longleftrightarrow> 2 ^ n \<le> pt_freeze_val t"
    by (rule pos_imp_zdiv_pos_iff) simp
  ultimately show ?thesis by (simp only: PeerTracker_is_frozen_def)
qed

theorem PeerTracker_thaw_rounds_witness:
  "\<not> PeerTracker_is_frozen (((\<lambda>t. fst (PeerTracker_thaw t)) ^^ 2)
       (PeerTracker_freeze (PeerTracker_freeze (demo_tracker 1 []))))"
  using PeerTracker_thaw_rounds[OF freeze_wf[OF freeze_wf[OF demo_tracker_wf]], of 2 1 "[]"]
  by (simp add: PeerTracker_freeze_def demo_tracker_def PeerTracker_new_def PeerTracker_push_tasks_def)

lemma PeerTracker_cmp_key:
  assumes "pt_freeze_val a = pt_freeze_val b"
    and "\<not> kpq_is_empty ops (pt_pending_tasks a)" and "\<not> kpq_is_empty ops (pt_pending_tasks b)"
  shows "PeerTracker_cmp ops a b = Less \<longleftrightarrow> pt_active_work b < pt_active_work a \<or>
      pt_active_work a = pt_active_work b \<and>
      kpq_len ops (pt_pending_tasks a) < kpq_len ops (pt_pending_tasks b)"
    and "PeerTracker_cmp ops a b = Equal \<longleftrightarrow> pt_active_work a = pt_active_work b \<and>
      kpq_len ops (pt_pending_tasks a) = kpq_len ops (pt_pending_tasks b)"
    and "PeerTracker_cmp ops a b = Greater \<longleftrightarrow> pt_active_work a < pt_active_work b \<or>
      pt_active_work a = pt_active_work b \<and>
      kpq_len ops (pt_pending_tasks b) < kpq_len ops (pt_pending_tasks a)"
  using assms by (auto simp: PeerTracker_cmp_def)

lemma PeerTracker_cmp_total:
  "total_preorder_on {t. pt_freeze_val t = v \<and> \<not> kpq_is_empty ops (pt_pending_tasks t)} (PeerTracker_cmp ops)"
  unfolding total_preorder_on_def
  by (simp add: PeerTracker_cmp_key) linarith

text \<open>
  The comparison of trackers is not an ordering: of two peers with pending tasks, of which one is
  frozen longer and has less active work, each compares less than the other, because the second test
  on the freeze values repeats the first. Among peers that are equally frozen and have pending tasks
  it is a total preorder.
\<close>

theorem PeerTracker_cmp_order:
  "(\<not> kpq_is_empty ops (pt_pending_tasks a) \<and> \<not> kpq_is_empty ops (pt_pending_tasks b) \<and>
      pt_freeze_val a < pt_freeze_val b \<and> pt_active_work b < pt_active_work a \<longrightarrow>
      PeerTracker_cmp ops a b = Less \<and> PeerTracker_cmp ops b a = Less) \<and>
   total_preorder_on {t. pt_freeze_val t = v \<and> \<not> kpq_is_empty ops (pt_pending_tasks t)}
     (PeerTracker_cmp ops)"
  using PeerTracker_cmp_total by (simp add: PeerTracker_cmp_def)

theorem PeerTracker_cmp_order_witness:
  "PeerTracker_cmp (alist_kpq QueueTask_cmp)
      ((demo_tracker 1 [demo_task 1 5 10 True])\<lparr>pt_active_work := 4\<rparr>)
      (PeerTracker_freeze (demo_tracker 2 [demo_task 1 5 10 True])) = Less"
  using PeerTracker_cmp_order[of "alist_kpq QueueTask_cmp"
      "(demo_tracker 1 [demo_task 1 5 10 True])\<lparr>pt_active_work := 4\<rparr>"
      "PeerTracker_freeze (demo_tracker 2 [demo_task 1 5 10 True])" 0]
  by (simp add: kpq_is_empty_def PeerTracker_freeze_def demo_tracker_def PeerTracker_new_def
      PeerTracker_push_tasks_def push_one_task_def task_has_more_info_than_active_tasks_def demo_task_def)

end
