(* ===== verification/PeerTaskQueue.thy ===== *)
theory PeerTaskQueue
  imports PeerTracker
begin

text \<open>
  The queue of tasks over all peers, \<open>peer_task_queue.rs\<close>. The mutex around the state makes every
  operation atomic, so each is a function of the state. A hook is the list of the events that were
  sent to its channel. The queue of trackers and the queue of tasks in each tracker are both the
  parameter \<open>kpq_ops\<close> of \<open>PeerTracker\<close>, at their own types.
\<close>

subsection \<open>State and operations\<close>

datatype 'peer ptq_event = PeerAdded 'peer | PeerRemoved 'peer

record ('t, 'd, 'peer, 'pq) ptq =
  tq_peer_queue :: 'pq
  tq_frozen_peers :: "'peer list"
  tq_ignore_freezing :: bool
  tq_task_merger :: "('t, 'd) task_merger"
  tq_max_outstanding_work_per_peer :: nat
  tq_hooks :: "'peer ptq_event list list"

record ptq_config =
  cfg_ignore_freezing :: bool
  cfg_max_outstanding_work_per_peer :: nat

record ptq_stats =
  ps_num_peers :: nat
  ps_num_active :: nat
  ps_num_pending :: nat

type_synonym ('pq, 't, 'd, 'peer, 'q) pq_ops = "('pq, 'peer, ('t, 'd, 'peer, 'q) peer_tracker) kpq_ops"

definition PeerTaskQueue_new ::
    "('pq, 't, 'd, 'peer, 'q) pq_ops \<Rightarrow> ('t, 'd) task_merger \<Rightarrow> ptq_config \<Rightarrow> ('t, 'd, 'peer, 'pq) ptq" where
  "PeerTaskQueue_new pops tm cfg =
     \<lparr>tq_peer_queue = kpq_new pops, tq_frozen_peers = [], tq_ignore_freezing = cfg_ignore_freezing cfg,
      tq_task_merger = tm,
      tq_max_outstanding_work_per_peer = cfg_max_outstanding_work_per_peer cfg, tq_hooks = []\<rparr>"

definition PeerTaskQueue_add_hook :: "('t, 'd, 'peer, 'pq) ptq \<Rightarrow> ('t, 'd, 'peer, 'pq) ptq" where
  "PeerTaskQueue_add_hook s = s\<lparr>tq_hooks := tq_hooks s @ [[]]\<rparr>"

definition call_hook :: "'peer ptq_event \<Rightarrow> ('t, 'd, 'peer, 'pq) ptq \<Rightarrow> ('t, 'd, 'peer, 'pq) ptq" where
  "call_hook ev s = s\<lparr>tq_hooks := map (\<lambda>h. h @ [ev]) (tq_hooks s)\<rparr>"

definition PeerTaskQueue_stats ::
    "('q, 't, 'd, 'peer) tq_ops \<Rightarrow> ('pq, 't, 'd, 'peer, 'q) pq_ops \<Rightarrow> ('t, 'd, 'peer, 'pq) ptq \<Rightarrow> ptq_stats" where
  "PeerTaskQueue_stats tops pops s =
     fold (\<lambda>(_, t) st. st\<lparr>ps_num_active := ps_num_active st + st_num_active (PeerTracker_stats tops t),
                           ps_num_pending := ps_num_pending st + st_num_pending (PeerTracker_stats tops t)\<rparr>)
       (kpq_iter pops (tq_peer_queue s))
       \<lparr>ps_num_peers = kpq_len pops (tq_peer_queue s), ps_num_active = 0, ps_num_pending = 0\<rparr>"

definition PeerTaskQueue_peer_topics ::
    "('q, 't :: linorder, 'd, 'peer) tq_ops \<Rightarrow> ('pq, 't, 'd, 'peer, 'q) pq_ops \<Rightarrow> 'peer \<Rightarrow>
      ('t, 'd, 'peer, 'pq) ptq \<Rightarrow> 't tracker_topics option" where
  "PeerTaskQueue_peer_topics tops pops peer s =
     map_option (PeerTracker_topics tops) (kpq_get pops (tq_peer_queue s) peer)"

definition PeerTaskQueue_push_tasks ::
    "('q, 't, 'd, 'peer) tq_ops \<Rightarrow> ('pq, 't, 'd, 'peer, 'q) pq_ops \<Rightarrow> instant \<Rightarrow> 'peer \<Rightarrow>
      ('t, 'd) task list \<Rightarrow> ('t, 'd, 'peer, 'pq) ptq \<Rightarrow> ('t, 'd, 'peer, 'pq) ptq" where
  "PeerTaskQueue_push_tasks tops pops now peer tasks s =
     (let (q, removed) = kpq_remove pops peer (tq_peer_queue s);
          s0 = s\<lparr>tq_peer_queue := q\<rparr>;
          (s1, tracker) = (case removed of
             Some t \<Rightarrow> (s0, t)
           | None \<Rightarrow> (call_hook (PeerAdded peer) s0,
                      PeerTracker_new tops peer (tq_task_merger s) (tq_max_outstanding_work_per_peer s)))
      in s1\<lparr>tq_peer_queue := kpq_push pops peer (PeerTracker_push_tasks tops now tasks tracker)
               (tq_peer_queue s1)\<rparr>)"

definition PeerTaskQueue_push_task ::
    "('q, 't, 'd, 'peer) tq_ops \<Rightarrow> ('pq, 't, 'd, 'peer, 'q) pq_ops \<Rightarrow> instant \<Rightarrow> 'peer \<Rightarrow>
      ('t, 'd) task \<Rightarrow> ('t, 'd, 'peer, 'pq) ptq \<Rightarrow> ('t, 'd, 'peer, 'pq) ptq" where
  "PeerTaskQueue_push_task tops pops now peer tk s = PeerTaskQueue_push_tasks tops pops now peer [tk] s"

text \<open>The outer \<open>None\<close> is the loop of the tracker not returning.\<close>

definition PeerTaskQueue_pop_tasks ::
    "('q, 't, 'd, 'peer) tq_ops \<Rightarrow> ('pq, 't, 'd, 'peer, 'q) pq_ops \<Rightarrow> nat \<Rightarrow>
      ('t, 'd, 'peer, 'pq) ptq \<Rightarrow>
      (('t, 'd, 'peer, 'pq) ptq \<times> ('peer \<times> ('t, 'd) task list \<times> nat) option) option" where
  "PeerTaskQueue_pop_tasks tops pops target_min_work s =
     (case kpq_pop pops (tq_peer_queue s) of
        None \<Rightarrow> Some (s, None)
      | Some (q, peer, tracker) \<Rightarrow>
          (case PeerTracker_pop_tasks tops target_min_work tracker of
             None \<Rightarrow> None
           | Some (t, out) \<Rightarrow>
               (let s0 = s\<lparr>tq_peer_queue := q\<rparr>;
                    pending_work = PeerTracker_get_pending_work tops t;
                    s1 = (if PeerTracker_is_idle tops t
                          then call_hook (PeerRemoved peer)
                                 (s0\<lparr>tq_frozen_peers := hs_remove peer (tq_frozen_peers s0)\<rparr>)
                          else s0\<lparr>tq_peer_queue := kpq_push pops peer t (tq_peer_queue s0)\<rparr>)
                in Some (s1, Some (peer, out, pending_work)))))"

text \<open>\<open>None\<close> is a panic of \<open>task_done\<close>.\<close>

fun tasks_done_loop ::
    "('t, 'd) task list \<Rightarrow> ('t, 'd, 'peer, 'q) peer_tracker \<Rightarrow> ('t, 'd, 'peer, 'q) peer_tracker option" where
  "tasks_done_loop [] t = Some t"
| "tasks_done_loop (tk # tks) t =
     (case PeerTracker_task_done tk t of None \<Rightarrow> None | Some t' \<Rightarrow> tasks_done_loop tks t')"

definition PeerTaskQueue_tasks_done ::
    "('pq, 't, 'd, 'peer, 'q) pq_ops \<Rightarrow> 'peer \<Rightarrow> ('t, 'd) task list \<Rightarrow> ('t, 'd, 'peer, 'pq) ptq \<Rightarrow>
      ('t, 'd, 'peer, 'pq) ptq option" where
  "PeerTaskQueue_tasks_done pops peer tasks s =
     (case kpq_remove pops peer (tq_peer_queue s) of
        (q, None) \<Rightarrow> Some (s\<lparr>tq_peer_queue := q\<rparr>)
      | (q, Some tracker) \<Rightarrow>
          map_option (\<lambda>t. s\<lparr>tq_peer_queue := kpq_push pops peer t q\<rparr>) (tasks_done_loop tasks tracker))"

definition PeerTaskQueue_remove ::
    "('q, 't, 'd, 'peer) tq_ops \<Rightarrow> ('pq, 't, 'd, 'peer, 'q) pq_ops \<Rightarrow> 't \<Rightarrow> 'peer \<Rightarrow>
      ('t, 'd, 'peer, 'pq) ptq \<Rightarrow> ('t, 'd, 'peer, 'pq) ptq" where
  "PeerTaskQueue_remove tops pops topic peer s =
     (case kpq_remove pops peer (tq_peer_queue s) of
        (q, None) \<Rightarrow> s\<lparr>tq_peer_queue := q\<rparr>
      | (q, Some tracker) \<Rightarrow>
          (let (t, removed) = PeerTracker_remove tops topic tracker;
               s0 = s\<lparr>tq_peer_queue := q\<rparr>;
               freeze = (removed \<and> \<not> tq_ignore_freezing s0);
               s1 = (if freeze \<and> \<not> PeerTracker_is_frozen t
                     then s0\<lparr>tq_frozen_peers := hs_insert peer (tq_frozen_peers s0)\<rparr> else s0);
               t1 = (if freeze then PeerTracker_freeze t else t)
           in s1\<lparr>tq_peer_queue := kpq_push pops peer t1 (tq_peer_queue s1)\<rparr>))"

definition full_thaw_peer ::
    "('pq, 't, 'd, 'peer, 'q) pq_ops \<Rightarrow> 'peer \<Rightarrow> ('t, 'd, 'peer, 'pq) ptq \<Rightarrow> ('t, 'd, 'peer, 'pq) ptq" where
  "full_thaw_peer pops peer s =
     (case kpq_remove pops peer (tq_peer_queue s) of
        (q, None) \<Rightarrow> s\<lparr>tq_peer_queue := q\<rparr>
      | (q, Some tracker) \<Rightarrow>
          s\<lparr>tq_frozen_peers := hs_remove peer (tq_frozen_peers s),
            tq_peer_queue := kpq_push pops peer (PeerTracker_full_thaw tracker) q\<rparr>)"

definition PeerTaskQueue_full_thaw ::
    "('pq, 't, 'd, 'peer, 'q) pq_ops \<Rightarrow> ('t, 'd, 'peer, 'pq) ptq \<Rightarrow> ('t, 'd, 'peer, 'pq) ptq" where
  "PeerTaskQueue_full_thaw pops s = fold (full_thaw_peer pops) (tq_frozen_peers s) s"

definition thaw_peer ::
    "('pq, 't, 'd, 'peer, 'q) pq_ops \<Rightarrow> 'peer \<Rightarrow> ('t, 'd, 'peer, 'pq) ptq \<Rightarrow> ('t, 'd, 'peer, 'pq) ptq" where
  "thaw_peer pops peer s =
     (case kpq_remove pops peer (tq_peer_queue s) of
        (q, None) \<Rightarrow> s\<lparr>tq_peer_queue := q\<rparr>
      | (q, Some tracker) \<Rightarrow>
          (let (t, thawed) = PeerTracker_thaw tracker;
               s1 = (if thawed then s\<lparr>tq_frozen_peers := hs_remove peer (tq_frozen_peers s)\<rparr> else s)
           in s1\<lparr>tq_peer_queue := kpq_push pops peer t q\<rparr>))"

definition PeerTaskQueue_thaw_round ::
    "('pq, 't, 'd, 'peer, 'q) pq_ops \<Rightarrow> ('t, 'd, 'peer, 'pq) ptq \<Rightarrow> ('t, 'd, 'peer, 'pq) ptq" where
  "PeerTaskQueue_thaw_round pops s = fold (thaw_peer pops) (tq_frozen_peers s) s"

subsection \<open>Invariant\<close>

text \<open>The peers a listener knows of after the events it has seen.\<close>

definition listening :: "'peer ptq_event list \<Rightarrow> 'peer set" where
  "listening evs = fold (\<lambda>ev ps. case ev of PeerAdded p \<Rightarrow> insert p ps | PeerRemoved p \<Rightarrow> ps - {p}) evs {}"

lemma listening_snoc [simp]:
  "listening (evs @ [PeerAdded p]) = insert p (listening evs)"
  "listening (evs @ [PeerRemoved p]) = listening evs - {p}"
  by (simp_all add: listening_def)

text \<open>
  Every tracker is well formed and filed under its peer, the set of frozen peers is exactly the set of
  the peers whose tracker is frozen, and every hook knows exactly the peers of the queue.
\<close>

definition ptq_wf ::
    "('q, 't, 'd, 'peer) tq_ops \<Rightarrow> ('pq, 't, 'd, 'peer, 'q) pq_ops \<Rightarrow> ('t, 'd) task_merger \<Rightarrow>
      ('t, 'd, 'peer, 'pq) ptq \<Rightarrow> bool" where
  "ptq_wf tops pops m s \<longleftrightarrow>
     kpq_built pops UNIV (tq_peer_queue s) \<and>
     (\<forall>p t. kpq_get pops (tq_peer_queue s) p = Some t \<longrightarrow>
        tracker_wf tops t \<and> pt_target t = p \<and> pt_task_merger t = m) \<and>
     tq_task_merger s = m \<and>
     distinct (tq_frozen_peers s) \<and>
     (\<forall>p. p \<in> set (tq_frozen_peers s) \<longleftrightarrow>
        (\<exists>t. kpq_get pops (tq_peer_queue s) p = Some t \<and> PeerTracker_is_frozen t)) \<and>
     (\<forall>h \<in> set (tq_hooks s). listening h = dom (kpq_get pops (tq_peer_queue s)))"

lemma ptq_wfD:
  assumes "ptq_wf tops pops m s"
  shows "kpq_built pops UNIV (tq_peer_queue s)"
    and "kpq_get pops (tq_peer_queue s) p = Some t \<Longrightarrow> tracker_wf tops t"
    and "kpq_get pops (tq_peer_queue s) p = Some t \<Longrightarrow> pt_target t = p"
    and "kpq_get pops (tq_peer_queue s) p = Some t \<Longrightarrow> pt_task_merger t = m"
    and "tq_task_merger s = m" and "distinct (tq_frozen_peers s)"
    and "p \<in> set (tq_frozen_peers s) \<longleftrightarrow>
      (\<exists>t. kpq_get pops (tq_peer_queue s) p = Some t \<and> PeerTracker_is_frozen t)"
    and "h \<in> set (tq_hooks s) \<Longrightarrow> listening h = dom (kpq_get pops (tq_peer_queue s))"
  using assms unfolding ptq_wf_def by blast+

lemma ptq_wfI:
  assumes "kpq_built pops UNIV (tq_peer_queue s)"
    and "\<And>p t. kpq_get pops (tq_peer_queue s) p = Some t \<Longrightarrow>
      tracker_wf tops t \<and> pt_target t = p \<and> pt_task_merger t = m"
    and "tq_task_merger s = m" and "distinct (tq_frozen_peers s)"
    and "\<And>p. p \<in> set (tq_frozen_peers s) \<longleftrightarrow>
      (\<exists>t. kpq_get pops (tq_peer_queue s) p = Some t \<and> PeerTracker_is_frozen t)"
    and "\<And>h. h \<in> set (tq_hooks s) \<Longrightarrow> listening h = dom (kpq_get pops (tq_peer_queue s))"
  shows "ptq_wf tops pops m s"
  unfolding ptq_wf_def using assms by blast

text \<open>Taking out the tracker of a peer and putting back another one.\<close>

lemma requeue:
  assumes laws: "kpq_laws cmp pops" and built: "kpq_built pops UNIV q"
    and rem: "kpq_remove pops p q = (q0, old)"
  shows "kpq_built pops UNIV (kpq_push pops p t q0)"
    and "kpq_get pops (kpq_push pops p t q0) = (kpq_get pops q)(p \<mapsto> t)"
    and "kpq_built pops UNIV q0" and "kpq_get pops q0 = (kpq_get pops q)(p := None)"
    and "old = kpq_get pops q p"
proof -
  show q0: "kpq_built pops UNIV q0"
    using kpq_built.built_remove[OF built, of p] rem by simp
  show get0: "kpq_get pops q0 = (kpq_get pops q)(p := None)"
    using kpq_lawsD(3)[OF laws built, of p] rem by simp
  show "kpq_built pops UNIV (kpq_push pops p t q0)" by (rule kpq_built.built_push[OF q0]) simp
  show "kpq_get pops (kpq_push pops p t q0) = (kpq_get pops q)(p \<mapsto> t)"
    using get0 kpq_lawsD(2)[OF laws q0] by simp
  show "old = kpq_get pops q p" using kpq_lawsD(4)[OF laws built, of p] rem by simp
qed

text \<open>Every operation replaces the tracker of one peer, or drops it; both keep the invariant.\<close>

lemma ptq_wf_replace:
  assumes wf: "ptq_wf tops pops m s"
    and q: "kpq_built pops UNIV (tq_peer_queue s')"
      "kpq_get pops (tq_peer_queue s') = (kpq_get pops (tq_peer_queue s))(p \<mapsto> t)"
    and t: "tracker_wf tops t" "pt_target t = p" "pt_task_merger t = m"
    and m: "tq_task_merger s' = tq_task_merger s"
    and frozen: "distinct (tq_frozen_peers s')"
      "set (tq_frozen_peers s') =
        (if PeerTracker_is_frozen t then insert p (set (tq_frozen_peers s)) else set (tq_frozen_peers s) - {p})"
    and hooks: "tq_hooks s' = tq_hooks s \<and> p \<in> dom (kpq_get pops (tq_peer_queue s)) \<or>
      tq_hooks s' = map (\<lambda>h. h @ [PeerAdded p]) (tq_hooks s)"
  shows "ptq_wf tops pops m s'"
proof (rule ptq_wfI)
  show "tracker_wf tops t' \<and> pt_target t' = p' \<and> pt_task_merger t' = m"
    if "kpq_get pops (tq_peer_queue s') p' = Some t'" for p' t'
    using that t ptq_wfD(2-4)[OF wf, of p' t'] by (cases "p' = p") (simp_all add: q(2))
  show "p' \<in> set (tq_frozen_peers s') \<longleftrightarrow>
      (\<exists>t'. kpq_get pops (tq_peer_queue s') p' = Some t' \<and> PeerTracker_is_frozen t')" for p'
    using ptq_wfD(7)[OF wf, of p'] by (cases "p' = p") (simp_all add: q(2) frozen(2))
  show "listening h = dom (kpq_get pops (tq_peer_queue s'))" if "h \<in> set (tq_hooks s')" for h
    using hooks
  proof
    assume "tq_hooks s' = tq_hooks s \<and> p \<in> dom (kpq_get pops (tq_peer_queue s))"
    then show ?thesis using that ptq_wfD(8)[OF wf, of h] by (simp add: q(2) insert_absorb)
  next
    assume "tq_hooks s' = map (\<lambda>h. h @ [PeerAdded p]) (tq_hooks s)"
    then obtain h0 where "h0 \<in> set (tq_hooks s)" "h = h0 @ [PeerAdded p]" using \<open>h \<in> set (tq_hooks s')\<close> by auto
    then show ?thesis using ptq_wfD(8)[OF wf, of h0] by (simp add: q(2))
  qed
qed (use q(1) m frozen(1) ptq_wfD(5)[OF wf] in simp_all)

lemma ptq_wf_drop:
  assumes wf: "ptq_wf tops pops m s"
    and q: "kpq_built pops UNIV (tq_peer_queue s')"
      "kpq_get pops (tq_peer_queue s') = (kpq_get pops (tq_peer_queue s))(p := None)"
    and m: "tq_task_merger s' = tq_task_merger s"
    and frozen: "tq_frozen_peers s' = hs_remove p (tq_frozen_peers s)"
    and hooks: "tq_hooks s' = map (\<lambda>h. h @ [PeerRemoved p]) (tq_hooks s)"
  shows "ptq_wf tops pops m s'"
proof (rule ptq_wfI)
  show "tracker_wf tops t' \<and> pt_target t' = p' \<and> pt_task_merger t' = m"
    if "kpq_get pops (tq_peer_queue s') p' = Some t'" for p' t'
    using that ptq_wfD(2-4)[OF wf, of p' t'] by (cases "p' = p") (simp_all add: q(2))
  show "p' \<in> set (tq_frozen_peers s') \<longleftrightarrow>
      (\<exists>t'. kpq_get pops (tq_peer_queue s') p' = Some t' \<and> PeerTracker_is_frozen t')" for p'
    using ptq_wfD(7)[OF wf, of p'] by (cases "p' = p") (simp_all add: q(2) frozen)
  show "listening h = dom (kpq_get pops (tq_peer_queue s'))" if h: "h \<in> set (tq_hooks s')" for h
  proof -
    obtain h0 where "h0 \<in> set (tq_hooks s)" "h = h0 @ [PeerRemoved p]" using hooks h by auto
    then show ?thesis using ptq_wfD(8)[OF wf, of h0] by (simp add: q(2))
  qed
qed (use q(1) m frozen ptq_wfD(5,6)[OF wf] in \<open>simp_all add: distinct_removeAll\<close>)

lemma ptq_wf_untouched:
  assumes wf: "ptq_wf tops pops m s" and q: "kpq_built pops UNIV q"
    "kpq_get pops q = kpq_get pops (tq_peer_queue s)"
  shows "ptq_wf tops pops m (s\<lparr>tq_peer_queue := q\<rparr>)"
  by (rule ptq_wfI) (use q ptq_wfD[OF wf] in simp_all)

lemma ptq_wf_update:
  assumes wf: "ptq_wf tops pops m s" and get: "kpq_get pops (tq_peer_queue s) p = Some t0"
    and q: "kpq_built pops UNIV q" "kpq_get pops q = (kpq_get pops (tq_peer_queue s))(p \<mapsto> t)"
    and t: "tracker_wf tops t" "pt_target t = pt_target t0" "pt_task_merger t = pt_task_merger t0"
      "PeerTracker_is_frozen t \<longleftrightarrow> PeerTracker_is_frozen t0"
  shows "ptq_wf tops pops m (s\<lparr>tq_peer_queue := q\<rparr>)"
proof -
  have "pt_target t = p" "pt_task_merger t = m" using t ptq_wfD(3,4)[OF wf get] by simp_all
  moreover have "set (tq_frozen_peers s) =
      (if PeerTracker_is_frozen t then insert p (set (tq_frozen_peers s)) else set (tq_frozen_peers s) - {p})"
    using ptq_wfD(7)[OF wf, of p] get t(4) by auto
  moreover have "p \<in> dom (kpq_get pops (tq_peer_queue s))" using get by blast
  ultimately show ?thesis
    using ptq_wfD(6)[OF wf] by (intro ptq_wf_replace[OF wf, where p = p and t = t]) (simp_all add: q t(1))
qed

subsection \<open>Every operation keeps the invariant\<close>

lemma ptq_wf_new: "kpq_laws cmp pops \<Longrightarrow> ptq_wf tops pops m (PeerTaskQueue_new pops m cfg)"
  by (rule ptq_wfI) (simp_all add: PeerTaskQueue_new_def kpq_built.built_new kpq_get_new)

lemma ptq_wf_new_hooks:
  assumes "kpq_laws cmp pops"
  shows "ptq_wf tops pops m ((PeerTaskQueue_add_hook ^^ n) (PeerTaskQueue_new pops m cfg))"
proof -
  have "(PeerTaskQueue_add_hook ^^ n) (PeerTaskQueue_new pops m cfg) =
      (PeerTaskQueue_new pops m cfg)\<lparr>tq_hooks := replicate n []\<rparr>"
    by (induction n)
      (simp_all add: PeerTaskQueue_new_def PeerTaskQueue_add_hook_def replicate_append_same)
  moreover have "ptq_wf tops pops m ((PeerTaskQueue_new pops m cfg)\<lparr>tq_hooks := replicate n []\<rparr>)"
    by (rule ptq_wfI)
      (use assms in \<open>simp_all add: PeerTaskQueue_new_def kpq_built.built_new kpq_get_new listening_def\<close>)
  ultimately show ?thesis by simp
qed

context merger
begin

lemma ptq_push_tasks_wf:
  assumes tl: "kpq_laws tcmp tops" and pl: "kpq_laws pcmp pops" and wf: "ptq_wf tops pops m s"
  shows "ptq_wf tops pops m (PeerTaskQueue_push_tasks tops pops now peer tks s)"
proof -
  obtain q0 old where rem: "kpq_remove pops peer (tq_peer_queue s) = (q0, old)" by fastforce
  note re = requeue[OF pl ptq_wfD(1)[OF wf] rem]
  define t0 where "t0 = (case old of Some t \<Rightarrow> t
    | None \<Rightarrow> PeerTracker_new tops peer m (tq_max_outstanding_work_per_peer s))"
  let ?t = "PeerTracker_push_tasks tops now tks t0"
  let ?s' = "PeerTaskQueue_push_tasks tops pops now peer tks s"
  have "tracker_wf tops t0 \<and> pt_target t0 = peer \<and> pt_task_merger t0 = m"
  proof (cases old)
    case None
    then show ?thesis using tracker_wf_new[OF tl] by (simp add: t0_def PeerTracker_new_def)
  next
    case (Some t)
    then have "kpq_get pops (tq_peer_queue s) peer = Some t" using re(5) by simp
    then show ?thesis using ptq_wfD(2-4)[OF wf] Some by (simp add: t0_def)
  qed
  then have t0: "tracker_wf tops t0" "pt_target t0 = peer" "pt_task_merger t0 = m" by simp_all
  have s': "tq_peer_queue ?s' = kpq_push pops peer ?t q0" "tq_frozen_peers ?s' = tq_frozen_peers s"
    "tq_task_merger ?s' = tq_task_merger s"
    "tq_hooks ?s' = (case old of Some _ \<Rightarrow> tq_hooks s | None \<Rightarrow> map (\<lambda>h. h @ [PeerAdded peer]) (tq_hooks s))"
    using rem ptq_wfD(5)[OF wf]
    by (simp_all add: PeerTaskQueue_push_tasks_def t0_def call_hook_def Let_def split: option.split)
  have t: "tracker_wf tops ?t" "pt_target ?t = peer" "pt_task_merger ?t = m"
    using push_tasks_wf[OF tl t0(1,3)] t0 by (simp_all add: push_tasks_same)
  have frozen: "set (tq_frozen_peers ?s') =
      (if PeerTracker_is_frozen ?t then insert peer (set (tq_frozen_peers s)) else set (tq_frozen_peers s) - {peer})"
    using ptq_wfD(7)[OF wf, of peer] re(5)[symmetric]
    by (cases old) (auto simp: s' PeerTracker_is_frozen_def push_tasks_same t0_def PeerTracker_new_def)
  have hooks: "tq_hooks ?s' = tq_hooks s \<and> peer \<in> dom (kpq_get pops (tq_peer_queue s)) \<or>
      tq_hooks ?s' = map (\<lambda>h. h @ [PeerAdded peer]) (tq_hooks s)"
    using re(5)[symmetric] by (cases old) (auto simp: s'(4))
  show ?thesis
    by (rule ptq_wf_replace[OF wf _ _ t _ _ frozen hooks]) (use re ptq_wfD(6)[OF wf] s' in simp_all)
qed

end

lemma tasks_done_loop_ok:
  assumes "tracker_wf ops t"
  shows "\<exists>t'. tasks_done_loop tks t = Some t' \<and> tracker_wf ops t' \<and>
     pt_target t' = pt_target t \<and> pt_freeze_val t' = pt_freeze_val t \<and>
     pt_pending_tasks t' = pt_pending_tasks t \<and> pt_task_merger t' = pt_task_merger t"
  using assms
proof (induction tks arbitrary: t)
  case (Cons tk tks)
  obtain t1 where "PeerTracker_task_done tk t = Some t1" "tracker_wf ops t1"
    "pt_target t1 = pt_target t" "pt_freeze_val t1 = pt_freeze_val t"
    "pt_pending_tasks t1 = pt_pending_tasks t" "pt_task_merger t1 = pt_task_merger t"
    using task_done_ok[OF Cons.prems] by blast
  with Cons.IH[of t1] show ?case by auto
qed simp

lemma ptq_tasks_done_wf:
  assumes pl: "kpq_laws pcmp pops" and wf: "ptq_wf tops pops m s"
  shows "\<exists>s'. PeerTaskQueue_tasks_done pops peer tks s = Some s' \<and> ptq_wf tops pops m s'"
proof -
  obtain q0 old where rem: "kpq_remove pops peer (tq_peer_queue s) = (q0, old)" by fastforce
  note re = requeue[OF pl ptq_wfD(1)[OF wf] rem]
  show ?thesis
  proof (cases old)
    case None
    then have "ptq_wf tops pops m (s\<lparr>tq_peer_queue := q0\<rparr>)"
      using re(3-5) by (intro ptq_wf_untouched[OF wf]) (simp_all add: fun_upd_idem)
    with None rem show ?thesis by (simp add: PeerTaskQueue_tasks_done_def)
  next
    case (Some t)
    then have get: "kpq_get pops (tq_peer_queue s) peer = Some t" using re(5) by simp
    obtain t' where t': "tasks_done_loop tks t = Some t'" "tracker_wf tops t'"
      "pt_target t' = pt_target t" "pt_freeze_val t' = pt_freeze_val t" "pt_task_merger t' = pt_task_merger t"
      using tasks_done_loop_ok[OF ptq_wfD(2)[OF wf get]] by blast
    have "ptq_wf tops pops m (s\<lparr>tq_peer_queue := kpq_push pops peer t' q0\<rparr>)"
      by (rule ptq_wf_update[OF wf get re(1,2)]) (use t' in \<open>simp_all add: PeerTracker_is_frozen_def\<close>)
    with Some rem t'(1) show ?thesis by (simp add: PeerTaskQueue_tasks_done_def)
  qed
qed

lemma ptq_remove_wf:
  assumes tl: "kpq_laws tcmp tops" and pl: "kpq_laws pcmp pops" and wf: "ptq_wf tops pops m s"
  shows "ptq_wf tops pops m (PeerTaskQueue_remove tops pops topic peer s)"
proof -
  obtain q0 old where rem: "kpq_remove pops peer (tq_peer_queue s) = (q0, old)" by fastforce
  note re = requeue[OF pl ptq_wfD(1)[OF wf] rem]
  show ?thesis
  proof (cases old)
    case None
    then have "ptq_wf tops pops m (s\<lparr>tq_peer_queue := q0\<rparr>)"
      using re(3-5) by (intro ptq_wf_untouched[OF wf]) (simp_all add: fun_upd_idem)
    with None rem show ?thesis by (simp add: PeerTaskQueue_remove_def)
  next
    case (Some t)
    then have get: "kpq_get pops (tq_peer_queue s) peer = Some t" using re(5) by simp
    obtain t0 removed where r: "PeerTracker_remove tops topic t = (t0, removed)" by fastforce
    let ?freeze = "removed \<and> \<not> tq_ignore_freezing s"
    define t1 where "t1 = (if ?freeze then PeerTracker_freeze t0 else t0)"
    let ?s' = "PeerTaskQueue_remove tops pops topic peer s"
    have t0: "tracker_wf tops t0" "pt_target t0 = peer" "pt_task_merger t0 = m"
      "pt_freeze_val t0 = pt_freeze_val t"
      using tracker_remove_wf[OF tl ptq_wfD(2)[OF wf get], of topic] tracker_remove_same[of tops topic t]
        ptq_wfD(3,4)[OF wf get] r by simp_all
    then have t1: "tracker_wf tops t1" "pt_target t1 = peer" "pt_task_merger t1 = m"
      using freeze_wf[OF t0(1)] by (simp_all add: t1_def PeerTracker_freeze_def)
    have s': "tq_peer_queue ?s' = kpq_push pops peer t1 q0" "tq_task_merger ?s' = tq_task_merger s"
      "tq_hooks ?s' = tq_hooks s"
      "tq_frozen_peers ?s' = (if ?freeze \<and> \<not> PeerTracker_is_frozen t0
         then hs_insert peer (tq_frozen_peers s) else tq_frozen_peers s)"
      using rem Some r by (simp_all add: PeerTaskQueue_remove_def t1_def Let_def)
    have nonneg: "pt_freeze_val t0 \<ge> 0" by (rule tracker_wfD(7)[OF t0(1)])
    have frozen: "set (tq_frozen_peers ?s') =
        (if PeerTracker_is_frozen t1 then insert peer (set (tq_frozen_peers s)) else set (tq_frozen_peers s) - {peer})"
      using ptq_wfD(7)[OF wf, of peer] get t0(4) nonneg
      by (auto simp: s'(4) t1_def PeerTracker_is_frozen_def PeerTracker_freeze_def)
    have "distinct (tq_frozen_peers ?s')" using ptq_wfD(6)[OF wf] by (simp add: s'(4))
    moreover have "tq_hooks ?s' = tq_hooks s \<and> peer \<in> dom (kpq_get pops (tq_peer_queue s))"
      using s'(3) get by blast
    ultimately show ?thesis
      using ptq_wf_replace[OF wf _ _ t1 s'(2) _ frozen] re(1,2) s'(1) by simp
  qed
qed

text \<open>Both ways of thawing a peer replace its tracker by one that is thawed or less frozen.\<close>

lemma ptq_full_thaw_peer_wf:
  assumes pl: "kpq_laws pcmp pops" and wf: "ptq_wf tops pops m s"
  shows "ptq_wf tops pops m (full_thaw_peer pops peer s)"
proof -
  obtain q0 old where rem: "kpq_remove pops peer (tq_peer_queue s) = (q0, old)" by fastforce
  note re = requeue[OF pl ptq_wfD(1)[OF wf] rem]
  show ?thesis
  proof (cases old)
    case None
    then have "ptq_wf tops pops m (s\<lparr>tq_peer_queue := q0\<rparr>)"
      using re(3-5) by (intro ptq_wf_untouched[OF wf]) (simp_all add: fun_upd_idem)
    with None rem show ?thesis by (simp add: full_thaw_peer_def)
  next
    case (Some t)
    then have get: "kpq_get pops (tq_peer_queue s) peer = Some t" using re(5) by simp
    let ?s' = "full_thaw_peer pops peer s" and ?t = "PeerTracker_full_thaw t"
    have s': "tq_peer_queue ?s' = kpq_push pops peer ?t q0" "tq_task_merger ?s' = tq_task_merger s"
      "tq_hooks ?s' = tq_hooks s" "tq_frozen_peers ?s' = hs_remove peer (tq_frozen_peers s)"
      using rem Some by (simp_all add: full_thaw_peer_def)
    have "tracker_wf tops ?t" by (rule full_thaw_wf[OF ptq_wfD(2)[OF wf get]])
    moreover have "pt_target ?t = peer" "pt_task_merger ?t = m" "\<not> PeerTracker_is_frozen ?t"
      using ptq_wfD(3,4)[OF wf get] by (simp_all add: PeerTracker_full_thaw_def PeerTracker_is_frozen_def)
    moreover have "tq_hooks ?s' = tq_hooks s \<and> peer \<in> dom (kpq_get pops (tq_peer_queue s))"
      using s'(3) get by blast
    ultimately show ?thesis
      using ptq_wf_replace[OF wf, of ?s' peer ?t] re(1,2) ptq_wfD(6)[OF wf] s'
      by (simp add: distinct_removeAll)
  qed
qed

lemma ptq_thaw_peer_wf:
  assumes pl: "kpq_laws pcmp pops" and wf: "ptq_wf tops pops m s"
  shows "ptq_wf tops pops m (thaw_peer pops peer s)"
proof -
  obtain q0 old where rem: "kpq_remove pops peer (tq_peer_queue s) = (q0, old)" by fastforce
  note re = requeue[OF pl ptq_wfD(1)[OF wf] rem]
  show ?thesis
  proof (cases old)
    case None
    then have "ptq_wf tops pops m (s\<lparr>tq_peer_queue := q0\<rparr>)"
      using re(3-5) by (intro ptq_wf_untouched[OF wf]) (simp_all add: fun_upd_idem)
    with None rem show ?thesis by (simp add: thaw_peer_def)
  next
    case (Some t)
    then have get: "kpq_get pops (tq_peer_queue s) peer = Some t" using re(5) by simp
    note twf = ptq_wfD(2)[OF wf get]
    let ?s' = "thaw_peer pops peer s" and ?t = "fst (PeerTracker_thaw t)"
    have s': "tq_peer_queue ?s' = kpq_push pops peer ?t q0" "tq_task_merger ?s' = tq_task_merger s"
      "tq_hooks ?s' = tq_hooks s" "tq_frozen_peers ?s' =
        (if snd (PeerTracker_thaw t) then hs_remove peer (tq_frozen_peers s) else tq_frozen_peers s)"
      using rem Some by (simp_all add: thaw_peer_def case_prod_beta Let_def)
    have t: "tracker_wf tops ?t" "pt_target ?t = peer" "pt_task_merger ?t = m"
      using thaw_wf[OF twf] ptq_wfD(3,4)[OF wf get] by simp_all
    have was: "PeerTracker_is_frozen ?t \<Longrightarrow> PeerTracker_is_frozen t"
      using thaw_halves[OF tracker_wfD(7)[OF twf]] by (simp add: PeerTracker_is_frozen_def pos_imp_zdiv_pos_iff)
    have frozen: "set (tq_frozen_peers ?s') =
        (if PeerTracker_is_frozen ?t then insert peer (set (tq_frozen_peers s)) else set (tq_frozen_peers s) - {peer})"
      using ptq_wfD(7)[OF wf, of peer] get was thaw_wf(2)[OF twf] by (auto simp: s'(4))
    have "distinct (tq_frozen_peers ?s')" using ptq_wfD(6)[OF wf] by (simp add: s'(4) distinct_removeAll)
    moreover have "tq_hooks ?s' = tq_hooks s \<and> peer \<in> dom (kpq_get pops (tq_peer_queue s))"
      using s'(3) get by blast
    ultimately show ?thesis
      using ptq_wf_replace[OF wf _ _ t s'(2) _ frozen] re(1,2) s'(1) by simp
  qed
qed

lemma ptq_thaw_wf:
  assumes "kpq_laws pcmp pops" and "ptq_wf tops pops m s"
  shows "ptq_wf tops pops m (PeerTaskQueue_full_thaw pops s)"
    and "ptq_wf tops pops m (PeerTaskQueue_thaw_round pops s)"
  unfolding PeerTaskQueue_full_thaw_def PeerTaskQueue_thaw_round_def
  by (rule fold_invariant, rule assms, erule ptq_full_thaw_peer_wf[OF assms(1)])
    (rule fold_invariant, rule assms, erule ptq_thaw_peer_wf[OF assms(1)])

text \<open>What \<open>pop_tasks\<close> does to the queue: one peer is asked, and leaves when it has become idle.\<close>

definition ptq_popped ::
    "('q, 't, 'd, 'peer) tq_ops \<Rightarrow> ('pq, 't, 'd, 'peer, 'q) pq_ops \<Rightarrow> nat \<Rightarrow>
      ('t, 'd, 'peer, 'pq) ptq \<Rightarrow> ('t, 'd, 'peer, 'pq) ptq \<Rightarrow>
      ('peer \<times> ('t, 'd) task list \<times> nat) option \<Rightarrow> bool" where
  "ptq_popped tops pops w s s' res \<longleftrightarrow>
     (case res of
        None \<Rightarrow> s' = s \<and> kpq_get pops (tq_peer_queue s) = Map.empty
      | Some (peer, ts, pending) \<Rightarrow>
          \<exists>t t'. kpq_get pops (tq_peer_queue s) peer = Some t \<and>
            popped_ok tops w 0 t t' ts \<and> pending = PeerTracker_get_pending_work tops t' \<and>
            kpq_get pops (tq_peer_queue s') =
              (if PeerTracker_is_idle tops t' then (kpq_get pops (tq_peer_queue s))(peer := None)
               else (kpq_get pops (tq_peer_queue s))(peer \<mapsto> t')))"

lemma ptq_pop_tasks_ok:
  assumes tl: "kpq_laws QueueTask_cmp tops" and pl: "kpq_laws pcmp pops" and wf: "ptq_wf tops pops m s"
  shows "\<exists>s' res. PeerTaskQueue_pop_tasks tops pops w s = Some (s', res) \<and>
    ptq_popped tops pops w s s' res \<and> ptq_wf tops pops m s'"
proof (cases "kpq_pop pops (tq_peer_queue s)")
  case None
  then have "kpq_get pops (tq_peer_queue s) = Map.empty"
    using kpq_lawsD(5)[OF pl ptq_wfD(1)[OF wf]] by (simp add: kpq_get_def)
  then show ?thesis using None wf by (simp add: PeerTaskQueue_pop_tasks_def ptq_popped_def)
next
  case (Some r)
  obtain q peer t where pop: "kpq_pop pops (tq_peer_queue s) = Some (q, peer, t)" using Some by (cases r) auto
  note built = ptq_wfD(1)[OF wf]
  have get: "kpq_get pops (tq_peer_queue s) peer = Some t" by (rule kpq_lawsD(6)[OF pl built pop])
  have q: "kpq_built pops UNIV q" "kpq_get pops q = (kpq_get pops (tq_peer_queue s))(peer := None)"
    by (rule kpq_built.built_pop[OF built pop], rule kpq_lawsD(7)[OF pl built pop])
  obtain t' ts where t': "PeerTracker_pop_tasks tops w t = Some (t', ts)" "popped_ok tops w 0 t t' ts"
    using pop_loop_ok[OF tl ptq_wfD(2)[OF wf get], of w "[]" 0] by (auto simp: PeerTracker_pop_tasks_def)
  let ?pw = "PeerTracker_get_pending_work tops t'"
  show ?thesis
  proof (cases "PeerTracker_is_idle tops t'")
    case True
    let ?s' = "call_hook (PeerRemoved peer)
        (s\<lparr>tq_peer_queue := q, tq_frozen_peers := hs_remove peer (tq_frozen_peers s)\<rparr>)"
    have res: "PeerTaskQueue_pop_tasks tops pops w s = Some (?s', Some (peer, ts, ?pw))"
      using pop t'(1) True by (simp add: PeerTaskQueue_pop_tasks_def)
    have "ptq_popped tops pops w s ?s' (Some (peer, ts, ?pw))"
      using get t'(2) True q(2) by (auto simp: ptq_popped_def call_hook_def)
    moreover have "ptq_wf tops pops m ?s'"
      by (rule ptq_wf_drop[OF wf, where p = peer]) (use q in \<open>simp_all add: call_hook_def\<close>)
    ultimately show ?thesis using res by blast
  next
    case False
    let ?q' = "kpq_push pops peer t' q"
    have q': "kpq_built pops UNIV ?q'" "kpq_get pops ?q' = (kpq_get pops (tq_peer_queue s))(peer \<mapsto> t')"
      using kpq_built.built_push[OF q(1)] kpq_lawsD(2)[OF pl q(1)] q(2) by simp_all
    have res: "PeerTaskQueue_pop_tasks tops pops w s =
        Some (s\<lparr>tq_peer_queue := ?q'\<rparr>, Some (peer, ts, ?pw))"
      using pop t'(1) False by (simp add: PeerTaskQueue_pop_tasks_def)
    have "ptq_popped tops pops w s (s\<lparr>tq_peer_queue := ?q'\<rparr>) (Some (peer, ts, ?pw))"
      using get t'(2) False q'(2) by (auto simp: ptq_popped_def)
    moreover have "ptq_wf tops pops m (s\<lparr>tq_peer_queue := ?q'\<rparr>)"
      by (rule ptq_wf_update[OF wf get q'])
        (use t'(2) in \<open>simp_all add: popped_ok_def PeerTracker_is_frozen_def\<close>)
    ultimately show ?thesis using res by blast
  qed
qed

subsection \<open>Reachable queues\<close>

text \<open>Hooks are registered before the queue is used, as the engine does.\<close>

inductive ptq_reachable ::
    "('q, 't, 'd, 'peer) tq_ops \<Rightarrow> ('pq, 't, 'd, 'peer, 'q) pq_ops \<Rightarrow> ('t, 'd) task_merger \<Rightarrow>
      ('t, 'd, 'peer, 'pq) ptq \<Rightarrow> bool" for tops pops m where
  reach_new: "ptq_reachable tops pops m ((PeerTaskQueue_add_hook ^^ n) (PeerTaskQueue_new pops m cfg))"
| reach_push: "ptq_reachable tops pops m s \<Longrightarrow>
    ptq_reachable tops pops m (PeerTaskQueue_push_tasks tops pops now peer tks s)"
| reach_pop: "ptq_reachable tops pops m s \<Longrightarrow> PeerTaskQueue_pop_tasks tops pops w s = Some (s', res) \<Longrightarrow>
    ptq_reachable tops pops m s'"
| reach_done: "ptq_reachable tops pops m s \<Longrightarrow> PeerTaskQueue_tasks_done pops peer tks s = Some s' \<Longrightarrow>
    ptq_reachable tops pops m s'"
| reach_remove: "ptq_reachable tops pops m s \<Longrightarrow>
    ptq_reachable tops pops m (PeerTaskQueue_remove tops pops topic peer s)"
| reach_full_thaw: "ptq_reachable tops pops m s \<Longrightarrow>
    ptq_reachable tops pops m (PeerTaskQueue_full_thaw pops s)"
| reach_thaw_round: "ptq_reachable tops pops m s \<Longrightarrow>
    ptq_reachable tops pops m (PeerTaskQueue_thaw_round pops s)"

context merger
begin

lemma ptq_reachable_wf:
  assumes tl: "kpq_laws QueueTask_cmp tops" and pl: "kpq_laws pcmp pops"
    and "ptq_reachable tops pops m s"
  shows "ptq_wf tops pops m s"
  using assms(3)
proof (induction rule: ptq_reachable.induct)
  case (reach_pop s w s' res)
  then show ?case using ptq_pop_tasks_ok[OF tl pl reach_pop.IH, of w] by auto
next
  case (reach_done s peer tks s')
  then show ?case using ptq_tasks_done_wf[OF pl reach_done.IH, of peer tks] by auto
qed (simp_all add: ptq_wf_new_hooks[OF pl] ptq_push_tasks_wf[OF tl pl] ptq_remove_wf[OF tl pl] ptq_thaw_wf[OF pl])

end

subsection \<open>Properties\<close>

text \<open>
  C21: In every state the server's task queue can reach, the set of frozen peers is exactly the set of
  the peers whose tracker is frozen, the active work of each tracker is the work of its active tasks,
  every pending task is filed under its topic, and every hook knows exactly the peers of the queue.
\<close>

theorem PeerTaskQueue_invariant:
  assumes "kpq_laws QueueTask_cmp tops" and "kpq_laws pcmp pops"
    and "ptq_reachable tops pops ServerTaskMerger s"
  shows "ptq_wf tops pops ServerTaskMerger s"
  by (rule stm.ptq_reachable_wf[OF assms])


abbreviation demo_tops :: "((nat, (nat, task_data, nat) queue_task) hmap, nat, task_data, nat) tq_ops" where
  "demo_tops \<equiv> alist_kpq QueueTask_cmp"

abbreviation demo_pops ::
    "((nat, (nat, task_data, nat, (nat, (nat, task_data, nat) queue_task) hmap) peer_tracker) hmap,
      nat, task_data, nat, (nat, (nat, task_data, nat) queue_task) hmap) pq_ops" where
  "demo_pops \<equiv> alist_kpq (PeerTracker_cmp demo_tops)"

definition demo_queue where
  "demo_queue = PeerTaskQueue_remove demo_tops demo_pops 2 7
     (PeerTaskQueue_push_tasks demo_tops demo_pops 3 7 [demo_task 1 5 10 True, demo_task 2 6 4 True]
       ((PeerTaskQueue_add_hook ^^ 1) (PeerTaskQueue_new demo_pops ServerTaskMerger
          \<lparr>cfg_ignore_freezing = False, cfg_max_outstanding_work_per_peer = 0\<rparr>)))"

lemma demo_queue_reachable: "ptq_reachable demo_tops demo_pops ServerTaskMerger demo_queue"
  unfolding demo_queue_def
  by (rule ptq_reachable.reach_remove, rule ptq_reachable.reach_push, rule ptq_reachable.reach_new)

theorem PeerTaskQueue_invariant_witness: "ptq_wf demo_tops demo_pops ServerTaskMerger demo_queue"
  by (rule PeerTaskQueue_invariant[OF alist_kpq_laws alist_kpq_laws demo_queue_reachable])


end
