(* ===== verification/Interest.thy ===== *)
theory Interest
  imports Message
begin

text \<open>
  Who wants what and who has what: \<open>client/session_interest_manager.rs\<close> (a boolean per CID and
  session) and \<open>client/block_presence_manager.rs\<close> (a boolean per CID and peer). Both are maps of maps
  behind a lock, so each operation is a function of the state.
\<close>

subsection \<open>Maps of maps\<close>

type_synonym ('a, 'b) flags = "('a, ('b, bool) hmap) hmap"

definition flag :: "('a, 'b) flags \<Rightarrow> 'a \<Rightarrow> 'b \<Rightarrow> bool option" where
  "flag m a b = Option.bind (map_of m a) (\<lambda>inner. map_of inner b)"

subsection \<open>Interest of sessions\<close>

type_synonym session_id = nat

type_synonym 'cid interests = "('cid, session_id) flags"

definition record_session_interest :: "session_id \<Rightarrow> 'cid list \<Rightarrow> 'cid interests \<Rightarrow> 'cid interests" where
  "record_session_interest session keys w =
     fold (\<lambda>key w. hm_entry key [] (hm_insert session True) w) keys w"

definition remove_session :: "session_id \<Rightarrow> 'cid interests \<Rightarrow> 'cid interests \<times> 'cid list" where
  "remove_session session w =
     (let w1 = hm_map_values (\<lambda>_ inner. hm_remove session inner) w;
          deleted_keys = map fst (filter (\<lambda>(_, inner). inner = []) w1)
      in (fold hm_remove deleted_keys w1, deleted_keys))"

definition remove_session_wants :: "session_id \<Rightarrow> 'cid list \<Rightarrow> 'cid interests \<Rightarrow> 'cid interests" where
  "remove_session_wants session keys w =
     fold (\<lambda>key w. hm_modify key (hm_modify session (\<lambda>wanted. if wanted then False else wanted)) w) keys w"

definition remove_interested_one ::
    "session_id \<Rightarrow> 'cid \<Rightarrow> 'cid interests \<times> 'cid list \<Rightarrow> 'cid interests \<times> 'cid list" where
  "remove_interested_one session key st =
     (case map_of (fst st) key of
        None \<Rightarrow> st
      | Some inner \<Rightarrow>
          (let inner' = hm_remove session inner
           in (hm_insert key inner' (fst st), if inner' = [] then snd st @ [key] else snd st)))"

definition remove_session_interested ::
    "session_id \<Rightarrow> 'cid list \<Rightarrow> 'cid interests \<Rightarrow> 'cid interests \<times> 'cid list" where
  "remove_session_interested session keys w =
     (let (w1, deleted_keys) = fold (remove_interested_one session) keys (w, [])
      in (fold hm_remove deleted_keys w1, deleted_keys))"

definition filter_session_interested ::
    "session_id \<Rightarrow> 'cid list list \<Rightarrow> 'cid interests \<Rightarrow> 'cid list list" where
  "filter_session_interested session key_sets w =
     map (filter (\<lambda>key. case map_of w key of
            None \<Rightarrow> False
          | Some inner \<Rightarrow> (case map_of inner session of None \<Rightarrow> False | Some b \<Rightarrow> b))) key_sets"

definition split_wanted_unwanted ::
    "'cid block list \<Rightarrow> 'cid interests \<Rightarrow> 'cid block list \<times> 'cid block list" where
  "split_wanted_unwanted blocks w =
     (let wanted_keys = fold (\<lambda>block ks.
            case map_of w (b_cid block) of
              None \<Rightarrow> ks
            | Some inner \<Rightarrow> fold (\<lambda>(_, wanted) ks. if wanted then hs_insert (b_cid block) ks else ks) inner ks)
            blocks []
      in (filter (\<lambda>b. b_cid b \<in> set wanted_keys) blocks, filter (\<lambda>b. b_cid b \<notin> set wanted_keys) blocks))"

definition interested_sessions ::
    "'cid list \<Rightarrow> 'cid list \<Rightarrow> 'cid list \<Rightarrow> 'cid interests \<Rightarrow> session_id list" where
  "interested_sessions blocks haves dont_haves w =
     fold (\<lambda>key ss. case map_of w key of None \<Rightarrow> ss | Some inner \<Rightarrow> fold (\<lambda>(s, _). hs_insert s) inner ss)
       (blocks @ haves @ dont_haves) []"

subsection \<open>Presence of blocks\<close>

type_synonym ('cid, 'peer) presence = "('cid, 'peer) flags"

definition update_block_presence ::
    "'peer \<Rightarrow> bool \<Rightarrow> 'cid \<Rightarrow> ('cid, 'peer) presence \<Rightarrow> ('cid, 'peer) presence" where
  "update_block_presence peer present key m =
     hm_entry key [] (\<lambda>entry. if map_of entry peer = Some True then entry
                              else hm_insert peer present entry) m"

definition BlockPresence_receive_from ::
    "'peer \<Rightarrow> 'cid list \<Rightarrow> 'cid list \<Rightarrow> ('cid, 'peer) presence \<Rightarrow> ('cid, 'peer) presence" where
  "BlockPresence_receive_from peer haves dont_haves m =
     fold (update_block_presence peer False) dont_haves (fold (update_block_presence peer True) haves m)"

definition peer_has_block :: "'peer \<Rightarrow> 'cid \<Rightarrow> ('cid, 'peer) presence \<Rightarrow> bool" where
  "peer_has_block peer c m =
     (case map_of m c of
        None \<Rightarrow> False
      | Some l \<Rightarrow> (case map_of l peer of None \<Rightarrow> False | Some have \<Rightarrow> have))"

definition peer_does_not_have_block :: "'peer \<Rightarrow> 'cid \<Rightarrow> ('cid, 'peer) presence \<Rightarrow> bool" where
  "peer_does_not_have_block peer c m =
     (case map_of m c of
        None \<Rightarrow> False
      | Some l \<Rightarrow> (case map_of l peer of None \<Rightarrow> False | Some have \<Rightarrow> \<not> have))"

definition all_dont_have :: "('cid, 'peer) presence \<Rightarrow> 'peer list \<Rightarrow> 'cid \<Rightarrow> bool" where
  "all_dont_have m peers key =
     (case map_of m key of
        None \<Rightarrow> False
      | Some ps \<Rightarrow> list_all (\<lambda>peer. case map_of ps peer of None \<Rightarrow> False | Some has \<Rightarrow> \<not> has) peers)"

definition all_peers_do_not_have_block ::
    "'peer list \<Rightarrow> 'cid list \<Rightarrow> ('cid, 'peer) presence \<Rightarrow> 'cid list" where
  "all_peers_do_not_have_block peers keys m = filter (all_dont_have m peers) keys"

definition BlockPresence_remove_keys :: "'cid list \<Rightarrow> ('cid, 'peer) presence \<Rightarrow> ('cid, 'peer) presence" where
  "BlockPresence_remove_keys keys m = fold hm_remove keys m"

definition BlockPresence_has_key :: "'cid \<Rightarrow> ('cid, 'peer) presence \<Rightarrow> bool" where
  "BlockPresence_has_key c m \<longleftrightarrow> c \<in> hm_keys m"

subsection \<open>What the operations do to a flag\<close>

lemma fold_hm_remove: "map_of (fold hm_remove ks m) k = (if k \<in> set ks then None else map_of m k)"
  by (induction ks arbitrary: m) auto

lemma hm_wf_fold_remove: "hm_wf m \<Longrightarrow> hm_wf (fold hm_remove ks m)"
  by (induction ks arbitrary: m) auto

lemma flag_empty [simp]: "flag [] a b = None"
  by (simp add: flag_def)

lemma flag_entry:
  "flag (hm_entry a [] f m) a' b =
     (if a' = a then map_of (f (case map_of m a of None \<Rightarrow> [] | Some inner \<Rightarrow> inner)) b else flag m a' b)"
  by (simp add: flag_def hm_entry_def split: option.split)

lemma flag_modify:
  "flag (hm_modify a f m) a' b = (if a' = a then Option.bind (map_of m a) (\<lambda>inner. map_of (f inner) b) else flag m a' b)"
  by (cases "map_of m a") (simp_all add: flag_def hm_modify_def)

lemma flag_record:
  "flag (record_session_interest s keys w) c s' =
     (if c \<in> set keys \<and> s' = s then Some True else flag w c s')"
proof (induction keys arbitrary: w)
  case (Cons k keys)
  have step: "flag (hm_entry k [] (hm_insert s True) w) c s' =
      (if c = k \<and> s' = s then Some True else flag w c s')" for c s'
    by (cases "map_of w k") (simp_all add: flag_entry, simp_all add: flag_def)
  show ?case using Cons by (simp add: record_session_interest_def step)
qed (simp add: record_session_interest_def)

lemma flag_remove_wants:
  "flag (remove_session_wants s keys w) c s' =
     (if c \<in> set keys \<and> s' = s then map_option (\<lambda>_. False) (flag w c s') else flag w c s')"
proof (induction keys arbitrary: w)
  case (Cons k keys)
  have step: "flag (hm_modify k (hm_modify s (\<lambda>_. False)) w) c s' =
      (if c = k \<and> s' = s then map_option (\<lambda>_. False) (flag w c s') else flag w c s')" for c s'
    by (cases "map_of w k") (auto simp: flag_modify, auto simp: flag_def hm_modify_def split: option.split)
  show ?case using Cons by (simp add: remove_session_wants_def step option.map_comp comp_def)
qed (simp add: remove_session_wants_def)

subsection \<open>Invariant of the interests\<close>

text \<open>No CID is kept without a session.\<close>

definition interests_wf :: "'cid interests \<Rightarrow> bool" where
  "interests_wf w \<longleftrightarrow> hm_wf w \<and> (\<forall>c inner. map_of w c = Some inner \<longrightarrow> inner \<noteq> [] \<and> hm_wf inner)"

lemma interests_wfI:
  "hm_wf w \<Longrightarrow> (\<And>c inner. map_of w c = Some inner \<Longrightarrow> inner \<noteq> [] \<and> hm_wf inner) \<Longrightarrow> interests_wf w"
  unfolding interests_wf_def by blast

lemma interests_wfD:
  assumes "interests_wf w"
  shows "hm_wf w" and "map_of w c = Some inner \<Longrightarrow> inner \<noteq> [] \<and> hm_wf inner"
  using assms unfolding interests_wf_def by blast+

lemma hm_update_ne: "hm_insert k v m \<noteq> []"
  by (cases m) auto

lemma hm_modify_empty [simp]: "hm_modify k f m = [] \<longleftrightarrow> m = []"
  using hm_keys_modify[of k f m] by (metis image_is_empty set_empty)

text \<open>A CID is kept exactly when some session is interested in it.\<close>

lemma interests_key:
  assumes "interests_wf w"
  shows "c \<in> hm_keys w \<longleftrightarrow> (\<exists>s. flag w c s \<noteq> None)"
proof (cases "map_of w c")
  case (Some inner)
  then have "inner \<noteq> []" using interests_wfD(2)[OF assms] by simp
  then obtain s where "s \<in> hm_keys inner" by (cases inner) auto
  then have "map_of inner s \<noteq> None" by (simp add: hm_get_None)
  then show ?thesis using Some hm_get_key[OF Some] by (auto simp: flag_def)
next
  case None
  then show ?thesis by (simp add: flag_def hm_get_None)
qed

lemma interests_wf_entry:
  assumes "interests_wf w" and "\<And>inner. hm_wf inner \<Longrightarrow> f inner \<noteq> [] \<and> hm_wf (f inner)"
  shows "interests_wf (hm_entry k [] f w)"
proof (rule interests_wfI)
  show "inner \<noteq> [] \<and> hm_wf inner" if "map_of (hm_entry k [] f w) c = Some inner" for c inner
  proof (cases "c = k")
    case True
    have "hm_wf (case map_of w k of None \<Rightarrow> [] | Some inner \<Rightarrow> inner)"
      using interests_wfD(2)[OF assms(1), of k] by (cases "map_of w k") simp_all
    then show ?thesis using that True assms(2) by (auto simp: hm_entry_def)
  next
    case False
    then show ?thesis using that interests_wfD(2)[OF assms(1), of c inner] by (simp add: hm_entry_def)
  qed
qed (use interests_wfD(1)[OF assms(1)] in simp)

lemma interests_wf_record:
  assumes "interests_wf w"
  shows "interests_wf (record_session_interest s keys w)"
  unfolding record_session_interest_def
  by (rule fold_invariant, rule assms, erule interests_wf_entry) (simp add: hm_update_ne)

lemma interests_wf_remove_wants:
  assumes "interests_wf w"
  shows "interests_wf (remove_session_wants s keys w)"
  unfolding remove_session_wants_def
proof (rule fold_invariant)
  show "interests_wf (hm_modify k (hm_modify s f) w)" if "interests_wf w" for k f w
  proof (rule interests_wfI)
    show "inner \<noteq> [] \<and> hm_wf inner" if "map_of (hm_modify k (hm_modify s f) w) c = Some inner" for c inner
      using that interests_wfD(2)[OF \<open>interests_wf w\<close>] by (auto simp: map_of_hm_modify split: if_splits)
  qed (use interests_wfD(1)[OF that] in simp)
qed (rule assms)

subsection \<open>Sessions that lose interest\<close>

lemma remove_session_eq:
  assumes "hm_wf w"
  shows "map_of (fst (remove_session s w)) c =
      (case map_of w c of None \<Rightarrow> None
       | Some inner \<Rightarrow> if hm_remove s inner = [] then None else Some (hm_remove s inner))"
    and "c \<in> set (snd (remove_session s w)) \<longleftrightarrow>
      (\<exists>inner. map_of w c = Some inner \<and> hm_remove s inner = [])"
    and "hm_wf (fst (remove_session s w))"
proof -
  let ?w1 = "hm_map_values (\<lambda>_ inner. hm_remove s inner) w"
  let ?del = "map fst (filter (\<lambda>(_, inner). inner = []) ?w1)"
  have wf1: "hm_wf ?w1" using assms by simp
  have get1: "map_of ?w1 c = map_option (hm_remove s) (map_of w c)" by (simp add: map_of_hm_map_values)
  have del: "c \<in> set ?del \<longleftrightarrow> map_of ?w1 c = Some []"
    using hm_get_mem[OF wf1, of c "[]"] by force
  have eq: "remove_session s w = (fold hm_remove ?del ?w1, ?del)"
    by (simp add: remove_session_def Let_def)
  show "c \<in> set (snd (remove_session s w)) \<longleftrightarrow>
      (\<exists>inner. map_of w c = Some inner \<and> hm_remove s inner = [])"
    unfolding eq snd_conv del get1 by auto
  show "map_of (fst (remove_session s w)) c =
      (case map_of w c of None \<Rightarrow> None
       | Some inner \<Rightarrow> if hm_remove s inner = [] then None else Some (hm_remove s inner))"
    unfolding eq fst_conv fold_hm_remove del get1 by (auto split: option.split)
  show "hm_wf (fst (remove_session s w))"
    unfolding eq fst_conv by (rule hm_wf_fold_remove[OF wf1])
qed

lemma remove_interested_one_simps:
  "map_of w k = None \<Longrightarrow> remove_interested_one s k (w, del) = (w, del)"
  "map_of w k = Some inner \<Longrightarrow> remove_interested_one s k (w, del) =
     (hm_insert k (hm_remove s inner) w, if hm_remove s inner = [] then del @ [k] else del)"
  by (simp_all add: remove_interested_one_def Let_def)

lemma remove_interested_fold:
  assumes "hm_wf w" and "fold (remove_interested_one s) keys (w, del0) = (w1, del)"
  shows "hm_wf w1"
    and "map_of w1 c = (if c \<in> set keys then map_option (hm_remove s) (map_of w c) else map_of w c)"
    and "c \<in> set del \<longleftrightarrow> c \<in> set del0 \<or>
      (c \<in> set keys \<and> (\<exists>inner. map_of w c = Some inner \<and> hm_remove s inner = []))"
proof -
  have "hm_wf w1 \<and>
      map_of w1 c = (if c \<in> set keys then map_option (hm_remove s) (map_of w c) else map_of w c) \<and>
      (c \<in> set del \<longleftrightarrow> c \<in> set del0 \<or>
        (c \<in> set keys \<and> (\<exists>inner. map_of w c = Some inner \<and> hm_remove s inner = [])))"
    using assms
  proof (induction keys arbitrary: w del0)
    case (Cons k keys)
    have idem: "hm_remove s (hm_remove s inner) = hm_remove s inner" for inner :: "(session_id, bool) hmap"
      by (simp add: delete_idem)
    show ?case
    proof (cases "map_of w k")
      case None
      then have "fold (remove_interested_one s) keys (w, del0) = (w1, del)"
        using Cons.prems(2) by (simp add: remove_interested_one_simps)
      from Cons.IH[OF Cons.prems(1) this] None show ?thesis by auto
    next
      case (Some inner)
      let ?i = "hm_remove s inner"
      have "fold (remove_interested_one s) keys
          (hm_insert k ?i w, if ?i = [] then del0 @ [k] else del0) = (w1, del)"
        using Cons.prems(2) Some by (simp add: remove_interested_one_simps)
      from Cons.IH[OF _ this] Cons.prems(1) Some show ?thesis by (auto simp: idem)
    qed
  qed simp
  then show "hm_wf w1"
    and "map_of w1 c = (if c \<in> set keys then map_option (hm_remove s) (map_of w c) else map_of w c)"
    and "c \<in> set del \<longleftrightarrow> c \<in> set del0 \<or>
      (c \<in> set keys \<and> (\<exists>inner. map_of w c = Some inner \<and> hm_remove s inner = []))"
    by blast+
qed

lemma remove_session_interested_eq:
  assumes "hm_wf w"
  shows "map_of (fst (remove_session_interested s keys w)) c =
      (case map_of w c of None \<Rightarrow> None
       | Some inner \<Rightarrow> if c \<notin> set keys then Some inner
           else if hm_remove s inner = [] then None else Some (hm_remove s inner))"
    and "c \<in> set (snd (remove_session_interested s keys w)) \<longleftrightarrow>
      c \<in> set keys \<and> (\<exists>inner. map_of w c = Some inner \<and> hm_remove s inner = [])"
    and "hm_wf (fst (remove_session_interested s keys w))"
proof -
  obtain w1 del where f: "fold (remove_interested_one s) keys (w, []) = (w1, del)" by fastforce
  note fold = remove_interested_fold[OF assms f]
  have eq: "remove_session_interested s keys w = (fold hm_remove del w1, del)"
    by (simp add: remove_session_interested_def f)
  show "c \<in> set (snd (remove_session_interested s keys w)) \<longleftrightarrow>
      c \<in> set keys \<and> (\<exists>inner. map_of w c = Some inner \<and> hm_remove s inner = [])"
    using fold(3)[of c] by (simp add: eq)
  show "map_of (fst (remove_session_interested s keys w)) c =
      (case map_of w c of None \<Rightarrow> None
       | Some inner \<Rightarrow> if c \<notin> set keys then Some inner
           else if hm_remove s inner = [] then None else Some (hm_remove s inner))"
    unfolding eq fst_conv fold_hm_remove fold(2) fold(3) by (auto split: option.split)
  show "hm_wf (fst (remove_session_interested s keys w))"
    unfolding eq fst_conv by (rule hm_wf_fold_remove[OF fold(1)])
qed

lemma flag_remove_session:
  assumes "interests_wf w"
  shows "flag (fst (remove_session s w)) c s' = (if s' = s then None else flag w c s')"
    and "interests_wf (fst (remove_session s w))"
proof -
  note eq = remove_session_eq[OF interests_wfD(1)[OF assms], where s = s]
  have "hm_remove s inner = [] \<Longrightarrow> s' \<noteq> s \<Longrightarrow> map_of inner s' = None" for inner :: "(session_id, bool) hmap"
    by (metis fun_upd_other map_of.simps(1) map_of_hm_remove)
  then show "flag (fst (remove_session s w)) c s' = (if s' = s then None else flag w c s')"
    by (cases "map_of w c") (simp_all add: flag_def eq(1))
  show "interests_wf (fst (remove_session s w))"
    by (rule interests_wfI)
      (use interests_wfD(2)[OF assms] in \<open>auto simp: eq(1,3) split: option.splits if_splits\<close>)
qed

lemma flag_remove_session_interested:
  assumes "interests_wf w"
  shows "flag (fst (remove_session_interested s keys w)) c s' =
      (if s' = s \<and> c \<in> set keys then None else flag w c s')"
    and "interests_wf (fst (remove_session_interested s keys w))"
proof -
  note eq = remove_session_interested_eq[OF interests_wfD(1)[OF assms], where s = s and keys = keys]
  have "hm_remove s inner = [] \<Longrightarrow> s' \<noteq> s \<Longrightarrow> map_of inner s' = None" for inner :: "(session_id, bool) hmap"
    by (metis fun_upd_other map_of.simps(1) map_of_hm_remove)
  then show "flag (fst (remove_session_interested s keys w)) c s' =
      (if s' = s \<and> c \<in> set keys then None else flag w c s')"
    by (cases "map_of w c") (simp_all add: flag_def eq(1))
  show "interests_wf (fst (remove_session_interested s keys w))"
    by (rule interests_wfI)
      (use interests_wfD(2)[OF assms] in \<open>auto simp: eq(1,3) split: option.splits if_splits\<close>)
qed

subsection \<open>Reachable interests\<close>

inductive interests_reachable :: "'cid interests \<Rightarrow> bool" where
  "interests_reachable []"
| "interests_reachable w \<Longrightarrow> interests_reachable (record_session_interest s keys w)"
| "interests_reachable w \<Longrightarrow> interests_reachable (fst (remove_session s w))"
| "interests_reachable w \<Longrightarrow> interests_reachable (remove_session_wants s keys w)"
| "interests_reachable w \<Longrightarrow> interests_reachable (fst (remove_session_interested s keys w))"

lemma interests_reachable_wf: "interests_reachable w \<Longrightarrow> interests_wf w"
proof (induction rule: interests_reachable.induct)
  case 1
  then show ?case by (simp add: interests_wf_def)
qed (simp_all add: interests_wf_record interests_wf_remove_wants flag_remove_session(2)
    flag_remove_session_interested(2))

subsection \<open>Queries\<close>

lemma fold_wanted_inner:
  "fold (\<lambda>(_, wanted) ks. if wanted then hs_insert c ks else ks) inner ks =
     (if \<exists>s. (s, True) \<in> set inner then hs_insert c ks else ks)"
proof (induction inner arbitrary: ks)
  case (Cons x inner)
  have "hs_insert c (hs_insert c ks) = hs_insert c ks" by (simp add: List.insert_def)
  then show ?case using Cons by (cases x) auto
qed simp

lemma wanted_keys_set:
  assumes "interests_wf w"
  shows "set (fold (\<lambda>block ks. case map_of w (b_cid block) of
            None \<Rightarrow> ks
          | Some inner \<Rightarrow> fold (\<lambda>(_, wanted) ks. if wanted then hs_insert (b_cid block) ks else ks) inner ks)
        blocks ks) =
    set ks \<union> {c \<in> b_cid ` set blocks. \<exists>s. flag w c s = Some True}"
proof (induction blocks arbitrary: ks)
  case (Cons b blocks)
  have "(\<exists>s. (s, True) \<in> set inner) \<longleftrightarrow> (\<exists>s. flag w (b_cid b) s = Some True)"
    if get: "map_of w (b_cid b) = Some inner" for inner
  proof -
    have "hm_wf inner" using interests_wfD(2)[OF assms get] by simp
    from hm_get_mem[OF this] get show ?thesis by (simp add: flag_def)
  qed
  then show ?case
    using Cons by (cases "map_of w (b_cid b)") (auto simp: fold_wanted_inner, auto simp: flag_def)
qed simp

lemma fold_sessions_inner: "set (fold (\<lambda>(s, _). hs_insert s) inner ss) = set ss \<union> hm_keys inner"
  by (induction inner arbitrary: ss) auto

lemma interested_sessions_fold:
  "set (fold (\<lambda>key ss. case map_of w key of None \<Rightarrow> ss | Some inner \<Rightarrow> fold (\<lambda>(s, _). hs_insert s) inner ss) ks ss)
    = set ss \<union> {s. \<exists>c \<in> set ks. flag w c s \<noteq> None}"
proof (induction ks arbitrary: ss)
  case (Cons k ks)
  have "hm_keys inner = {s. flag w k s \<noteq> None}" if "map_of w k = Some inner" for inner
    using that by (auto simp: flag_def hm_keys_dom)
  then show ?case using Cons by (cases "map_of w k") (auto simp: fold_sessions_inner, auto simp: flag_def)
qed simp

subsection \<open>Properties of the interests\<close>

text \<open>
  When a session ends, or gives up some keys, exactly its own interest is dropped, and the keys that
  are reported (and whose wants are then cancelled) are exactly those in which some session was
  interested before and none is afterwards.
\<close>

theorem interest_removal:
  assumes "interests_reachable w"
  shows "(flag (fst (remove_session s w)) c s' = (if s' = s then None else flag w c s')) \<and>
    (c \<in> set (snd (remove_session s w)) \<longleftrightarrow>
       (\<exists>s'. flag w c s' \<noteq> None) \<and> (\<forall>s'. flag (fst (remove_session s w)) c s' = None)) \<and>
    (flag (fst (remove_session_interested s keys w)) c s' =
       (if s' = s \<and> c \<in> set keys then None else flag w c s')) \<and>
    (c \<in> set (snd (remove_session_interested s keys w)) \<longleftrightarrow>
       (\<exists>s'. flag w c s' \<noteq> None) \<and> (\<forall>s'. flag (fst (remove_session_interested s keys w)) c s' = None))"
proof -
  have wf: "interests_wf w" by (rule interests_reachable_wf[OF assms])
  note wf1 = interests_wfD(1)[OF wf]
  note key = interests_key[OF wf, of c] interests_key[OF flag_remove_session(2)[OF wf], of c s]
    interests_key[OF flag_remove_session_interested(2)[OF wf], of c s keys]
  have del: "c \<in> set (snd (remove_session s w)) \<longleftrightarrow> c \<in> hm_keys w \<and> c \<notin> hm_keys (fst (remove_session s w))"
    unfolding hm_get_None[symmetric] hm_keys_dom remove_session_eq(2)[OF wf1]
    by (auto simp: domIff remove_session_eq(1)[OF wf1] split: option.splits if_splits)
  have del': "c \<in> set (snd (remove_session_interested s keys w)) \<longleftrightarrow>
      c \<in> hm_keys w \<and> c \<notin> hm_keys (fst (remove_session_interested s keys w))"
    unfolding hm_keys_dom remove_session_interested_eq(2)[OF wf1]
    by (auto simp: domIff remove_session_interested_eq(1)[OF wf1] split: option.splits if_splits)
  show ?thesis
    unfolding del del' key using flag_remove_session(1)[OF wf] flag_remove_session_interested(1)[OF wf] by auto
qed

theorem interest_removal_witness:
  "(7::nat) \<in> set (snd (remove_session 2 (record_session_interest 2 [7, 8] [])))"
proof -
  let ?w = "record_session_interest 2 [7::nat, 8] []"
  have r: "interests_reachable ?w" by (intro interests_reachable.intros)
  have "7 \<in> set (snd (remove_session 2 ?w)) \<longleftrightarrow>
      (\<exists>s'. flag ?w 7 s' \<noteq> None) \<and> (\<forall>s'. flag (fst (remove_session 2 ?w)) 7 s' = None)"
    using interest_removal[OF r, of 2 7] by blast
  moreover have "\<exists>s'. flag ?w 7 s' \<noteq> None" by (rule exI[of _ 2]) (simp add: flag_record)
  ultimately show ?thesis
    by (simp add: flag_remove_session(1)[OF interests_reachable_wf[OF r]]) (simp add: flag_record)
qed

text \<open>
  Received blocks are split, in order, into those some session still wants and the rest, and the
  sessions that hear of a message are exactly those interested in one of its keys. The filter for one
  session keeps the keys it still wants, not all those it is interested in.
\<close>

theorem interest_queries:
  assumes "interests_reachable w"
  shows "split_wanted_unwanted blocks w =
      (filter (\<lambda>b. \<exists>s. flag w (b_cid b) s = Some True) blocks,
       filter (\<lambda>b. \<not> (\<exists>s. flag w (b_cid b) s = Some True)) blocks) \<and>
    set (interested_sessions ks haves dont_haves w) =
      {s. \<exists>c \<in> set ks \<union> set haves \<union> set dont_haves. flag w c s \<noteq> None} \<and>
    filter_session_interested s key_sets w = map (filter (\<lambda>c. flag w c s = Some True)) key_sets"
proof (intro conjI)
  have wf: "interests_wf w" by (rule interests_reachable_wf[OF assms])
  show "split_wanted_unwanted blocks w =
      (filter (\<lambda>b. \<exists>s. flag w (b_cid b) s = Some True) blocks,
       filter (\<lambda>b. \<not> (\<exists>s. flag w (b_cid b) s = Some True)) blocks)"
    unfolding split_wanted_unwanted_def Let_def wanted_keys_set[OF wf]
    by (auto intro!: filter_cong)
  show "set (interested_sessions ks haves dont_haves w) =
      {s. \<exists>c \<in> set ks \<union> set haves \<union> set dont_haves. flag w c s \<noteq> None}"
    unfolding interested_sessions_def interested_sessions_fold by (simp add: Un_assoc)
  have "(case map_of w c of None \<Rightarrow> False
      | Some inner \<Rightarrow> (case map_of inner s of None \<Rightarrow> False | Some b \<Rightarrow> b)) \<longleftrightarrow> flag w c s = Some True" for c
    by (auto simp: flag_def split: option.split)
  then show "filter_session_interested s key_sets w = map (filter (\<lambda>c. flag w c s = Some True)) key_sets"
    by (simp add: filter_session_interested_def)
qed

theorem interest_queries_witness:
  "filter_session_interested 1 [[7::nat, 8]] (remove_session_wants 1 [7] (record_session_interest 1 [7, 8] [])) = [[8]]"
  using interest_queries[of "remove_session_wants 1 [7] (record_session_interest 1 [7::nat, 8] [])" "[]" "[]" "[]" "[]" 1 "[[7, 8]]"]
  by (simp add: interests_reachable.intros flag_record flag_remove_wants)

subsection \<open>Properties of the presence\<close>

lemma flag_update_presence:
  "flag (update_block_presence p b k m) c p' =
     (if c = k \<and> p' = p then Some (flag m c p = Some True \<or> b) else flag m c p')"
  by (cases "map_of m k") (auto simp: update_block_presence_def flag_entry, auto simp: flag_def)

lemma flag_fold_presence:
  "flag (fold (update_block_presence p b) ks m) c p' =
     (if c \<in> set ks \<and> p' = p then Some (flag m c p = Some True \<or> b) else flag m c p')"
  by (induction ks arbitrary: m) (auto simp: flag_update_presence)

lemma presence_queries:
  "peer_has_block p c m \<longleftrightarrow> flag m c p = Some True"
  "peer_does_not_have_block p c m \<longleftrightarrow> flag m c p = Some False"
  by (auto simp: peer_has_block_def peer_does_not_have_block_def flag_def split: option.split)

text \<open>
  What a peer said last counts, except that a HAVE is never revoked: after a message the peer has a
  block if it had it before or announced it, lacks it if it said so and never announced it, and nothing
  changes for other peers or other keys. The keys all given peers lack are those each of them denied.
\<close>

theorem block_presence_sticky:
  "(peer_has_block p' c (BlockPresence_receive_from p haves dont_haves m) \<longleftrightarrow>
      peer_has_block p' c m \<or> (p' = p \<and> c \<in> set haves)) \<and>
   (peer_does_not_have_block p' c (BlockPresence_receive_from p haves dont_haves m) \<longleftrightarrow>
      \<not> peer_has_block p' c (BlockPresence_receive_from p haves dont_haves m) \<and>
      (peer_does_not_have_block p' c m \<or> (p' = p \<and> c \<in> set dont_haves))) \<and>
   (c \<in> set (all_peers_do_not_have_block peers keys m) \<longleftrightarrow>
      c \<in> set keys \<and> BlockPresence_has_key c m \<and> list_all (\<lambda>p. peer_does_not_have_block p c m) peers)"
proof -
  have "all_dont_have m peers c \<longleftrightarrow>
      BlockPresence_has_key c m \<and> list_all (\<lambda>p. peer_does_not_have_block p c m) peers"
    by (cases "map_of m c")
      (auto simp: all_dont_have_def BlockPresence_has_key_def peer_does_not_have_block_def
        hm_get_None[symmetric] dest: hm_get_key)
  then show ?thesis
    unfolding presence_queries BlockPresence_receive_from_def flag_fold_presence
    by (auto simp: all_peers_do_not_have_block_def presence_queries)
qed

end
