(* ===== verification/SessionState.thy ===== *)
theory SessionState
  imports Prelude
begin

text \<open>
  What a session keeps per CID and per peer: \<open>client/session/cid_queue.rs\<close>,
  \<open>client/session/sent_want_blocks_tracker.rs\<close>, \<open>client/session/peer_response_tracker.rs\<close> and
  \<open>client/session/session_wants.rs\<close>. The current time is an argument of the operations that read the
  clock, and random numbers are arguments too. An operation whose \<open>usize\<close> subtraction may underflow
  returns \<open>None\<close> when it panics; \<open>oc\<close> says whether overflow checks are compiled in.
\<close>

subsection \<open>Queue of CIDs\<close>

record 'cid cid_queue =
  cq_elements :: "'cid list"
  cq_set :: "'cid list"

definition CidQueue_default :: "'cid cid_queue" where
  "CidQueue_default = \<lparr>cq_elements = [], cq_set = []\<rparr>"

fun cid_queue_pop_loop :: "'cid list \<Rightarrow> 'cid list \<Rightarrow> 'cid list \<times> 'cid option" where
  "cid_queue_pop_loop s [] = ([], None)"
| "cid_queue_pop_loop s (el # els) = (if el \<in> set s then (els, Some el) else cid_queue_pop_loop s els)"

definition CidQueue_pop :: "'cid cid_queue \<Rightarrow> 'cid cid_queue \<times> 'cid option" where
  "CidQueue_pop q =
     (let (els, r) = cid_queue_pop_loop (cq_set q) (cq_elements q) in (q\<lparr>cq_elements := els\<rparr>, r))"

definition CidQueue_cids :: "'cid cid_queue \<Rightarrow> 'cid cid_queue \<times> 'cid list" where
  "CidQueue_cids q =
     (let els = filter (\<lambda>el. el \<in> set (cq_set q)) (cq_elements q) in (q\<lparr>cq_elements := els\<rparr>, els))"

definition CidQueue_push :: "'cid \<Rightarrow> 'cid cid_queue \<Rightarrow> 'cid cid_queue" where
  "CidQueue_push c q =
     (if c \<in> set (cq_set q) then q
      else q\<lparr>cq_set := hs_insert c (cq_set q), cq_elements := cq_elements q @ [c]\<rparr>)"

definition CidQueue_remove :: "'cid \<Rightarrow> 'cid cid_queue \<Rightarrow> 'cid cid_queue" where
  "CidQueue_remove c q = q\<lparr>cq_set := hs_remove c (cq_set q)\<rparr>"

definition CidQueue_has :: "'cid \<Rightarrow> 'cid cid_queue \<Rightarrow> bool" where
  "CidQueue_has c q \<longleftrightarrow> c \<in> set (cq_set q)"

definition CidQueue_len :: "'cid cid_queue \<Rightarrow> nat" where
  "CidQueue_len q = length (cq_set q)"

subsection \<open>Want-blocks that were sent, and first responders\<close>

type_synonym ('cid, 'peer) sent_want_blocks = "('peer, 'cid list) hmap"

definition add_sent_want_blocks_to ::
    "'peer \<Rightarrow> 'cid list \<Rightarrow> ('cid, 'peer) sent_want_blocks \<Rightarrow> ('cid, 'peer) sent_want_blocks" where
  "add_sent_want_blocks_to peer keys m = hm_entry peer [] (fold hs_insert keys) m"

definition have_sent_want_block_to :: "'peer \<Rightarrow> 'cid \<Rightarrow> ('cid, 'peer) sent_want_blocks \<Rightarrow> bool" where
  "have_sent_want_block_to peer c m =
     (case map_of m peer of None \<Rightarrow> False | Some cids \<Rightarrow> c \<in> set cids)"

text \<open>
  The choice of a peer computes with \<open>f64\<close>. Its arithmetic is left open: whatever the operations on
  floating-point numbers are, the choice is one of the candidates.
\<close>

record 'f f64_ops =
  f64_of_usize :: "nat \<Rightarrow> 'f"
  f64_add :: "'f \<Rightarrow> 'f \<Rightarrow> 'f"
  f64_div :: "'f \<Rightarrow> 'f \<Rightarrow> 'f"
  f64_gt :: "'f \<Rightarrow> 'f \<Rightarrow> bool"

definition received_block_from :: "'peer \<Rightarrow> ('peer, nat) hmap \<Rightarrow> ('peer, nat) hmap" where
  "received_block_from from m = hm_entry from 0 (\<lambda>n. n + 1) m"

definition get_peer_count :: "'peer \<Rightarrow> ('peer, nat) hmap \<Rightarrow> nat" where
  "get_peer_count peer m = (case map_of m peer of None \<Rightarrow> 1 | Some n \<Rightarrow> n)"

fun choose_loop :: "'f f64_ops \<Rightarrow> ('peer, nat) hmap \<Rightarrow> 'f \<Rightarrow> 'f \<Rightarrow> 'f \<Rightarrow> 'peer list \<Rightarrow> 'peer option" where
  "choose_loop fl m rnd tot counted [] = None"
| "choose_loop fl m rnd tot counted (peer # peers) =
     (let counted' = f64_add fl counted (f64_div fl (f64_of_usize fl (get_peer_count peer m)) tot)
      in if f64_gt fl counted' rnd then Some peer else choose_loop fl m rnd tot counted' peers)"

definition PeerResponseTracker_choose ::
    "'f f64_ops \<Rightarrow> 'f \<Rightarrow> 'peer list \<Rightarrow> ('peer, nat) hmap \<Rightarrow> 'peer option" where
  "PeerResponseTracker_choose fl rnd peers m =
     (if peers = [] then None
      else let tot = fold (\<lambda>peer t. f64_add fl t (f64_of_usize fl (get_peer_count peer m))) peers
                         (f64_of_usize fl 0)
           in case choose_loop fl m rnd tot (f64_of_usize fl 0) peers of
                Some peer \<Rightarrow> Some peer
              | None \<Rightarrow> Some (last peers))"

subsection \<open>Wants of a session\<close>

definition LIVE_WANTS_ORDER_GC_LIMIT :: nat where
  "LIVE_WANTS_ORDER_GC_LIMIT = 32"

record 'cid session_wants =
  sw_to_fetch :: "'cid cid_queue"
  sw_live_wants :: "('cid, instant) hmap"
  sw_live_wants_order :: "'cid list"
  sw_broadcast_limit :: nat

definition SessionWants_new :: "nat \<Rightarrow> 'cid session_wants" where
  "SessionWants_new limit =
     \<lparr>sw_to_fetch = CidQueue_default, sw_live_wants = [], sw_live_wants_order = [],
      sw_broadcast_limit = limit\<rparr>"

definition blocks_requested :: "'cid list \<Rightarrow> 'cid session_wants \<Rightarrow> 'cid session_wants" where
  "blocks_requested new_wants s = s\<lparr>sw_to_fetch := fold CidQueue_push new_wants (sw_to_fetch s)\<rparr>"

definition make_live :: "instant \<Rightarrow> 'cid \<Rightarrow> 'cid session_wants \<Rightarrow> 'cid session_wants" where
  "make_live now c s =
     s\<lparr>sw_live_wants_order := sw_live_wants_order s @ [c],
       sw_live_wants := hm_insert c now (sw_live_wants s)\<rparr>"

fun next_wants_loop ::
    "instant \<Rightarrow> nat \<Rightarrow> 'cid list \<Rightarrow> 'cid session_wants \<Rightarrow> 'cid session_wants \<times> 'cid list" where
  "next_wants_loop now 0 live s = (s, live)"
| "next_wants_loop now (Suc n) live s =
     (case CidQueue_pop (sw_to_fetch s) of
        (q, Some c) \<Rightarrow> next_wants_loop now n (hs_insert c live) (make_live now c (s\<lparr>sw_to_fetch := q\<rparr>))
      | (q, None) \<Rightarrow> (s\<lparr>sw_to_fetch := q\<rparr>, live))"

definition get_next_wants ::
    "bool \<Rightarrow> instant \<Rightarrow> 'cid session_wants \<Rightarrow> ('cid session_wants \<times> 'cid list) option" where
  "get_next_wants oc now s =
     (case usize_sub oc (sw_broadcast_limit s) (length (sw_live_wants s)) of
        None \<Rightarrow> None
      | Some to_add \<Rightarrow> Some (next_wants_loop now to_add [] s))"

definition want_sent :: "instant \<Rightarrow> 'cid \<Rightarrow> 'cid session_wants \<Rightarrow> 'cid session_wants" where
  "want_sent now key s =
     (if key \<notin> hm_keys (sw_live_wants s) \<and> CidQueue_has key (sw_to_fetch s)
      then make_live now key (s\<lparr>sw_to_fetch := CidQueue_remove key (sw_to_fetch s)\<rparr>) else s)"

definition wants_sent :: "instant \<Rightarrow> 'cid list \<Rightarrow> 'cid session_wants \<Rightarrow> 'cid session_wants" where
  "wants_sent now keys s = fold (want_sent now) keys s"

definition is_wanted :: "'cid \<Rightarrow> 'cid session_wants \<Rightarrow> bool" where
  "is_wanted key s =
     (if key \<notin> hm_keys (sw_live_wants s) then CidQueue_has key (sw_to_fetch s) else True)"

definition block_received ::
    "instant \<Rightarrow> 'cid \<Rightarrow> 'cid session_wants \<times> 'cid list \<times> duration \<Rightarrow>
      'cid session_wants \<times> 'cid list \<times> duration" where
  "block_received now key st =
     (let (s, wanted, total_latency) = st in
      if is_wanted key s then
        (s\<lparr>sw_live_wants := hm_remove key (sw_live_wants s),
           sw_to_fetch := CidQueue_remove key (sw_to_fetch s)\<rparr>,
         wanted @ [key],
         total_latency + (case map_of (sw_live_wants s) key of None \<Rightarrow> 0 | Some sent_at \<Rightarrow> now - sent_at))
      else st)"

definition blocks_received ::
    "bool \<Rightarrow> instant \<Rightarrow> 'cid list \<Rightarrow> 'cid session_wants \<Rightarrow>
      ('cid session_wants \<times> 'cid list \<times> duration) option" where
  "blocks_received oc now keys s =
     (let (s1, wanted, total_latency) = fold (block_received now) keys (s, [], 0) in
      case usize_sub oc (length (sw_live_wants_order s1)) (length (sw_live_wants s1)) of
        None \<Rightarrow> None
      | Some d \<Rightarrow>
          Some (if d > LIVE_WANTS_ORDER_GC_LIMIT
                then s1\<lparr>sw_live_wants_order :=
                       filter (\<lambda>k. k \<in> hm_keys (sw_live_wants s1)) (sw_live_wants_order s1)\<rparr>
                else s1, wanted, total_latency))"

fun broadcast_loop ::
    "nat \<Rightarrow> instant \<Rightarrow> 'cid list \<Rightarrow> ('cid, instant) hmap \<Rightarrow> 'cid list \<Rightarrow> ('cid, instant) hmap \<times> 'cid list" where
  "broadcast_loop limit now [] live_wants live = (live_wants, live)"
| "broadcast_loop limit now (key # keys) live_wants live =
     (if key \<in> hm_keys live_wants then
        let live_wants' = hm_insert key now live_wants; live' = hs_insert key live in
        if length live' = limit then (live_wants', live')
        else broadcast_loop limit now keys live_wants' live'
      else broadcast_loop limit now keys live_wants live)"

definition prepare_broadcast :: "instant \<Rightarrow> 'cid session_wants \<Rightarrow> 'cid session_wants \<times> 'cid list" where
  "prepare_broadcast now s =
     (let (lw, live) = broadcast_loop (sw_broadcast_limit s) now (sw_live_wants_order s) (sw_live_wants s) []
      in (s\<lparr>sw_live_wants := lw\<rparr>, live))"

definition SessionWants_cancel_pending :: "'cid list \<Rightarrow> 'cid session_wants \<Rightarrow> 'cid session_wants" where
  "SessionWants_cancel_pending keys s =
     s\<lparr>sw_to_fetch := fold CidQueue_remove keys (sw_to_fetch s)\<rparr>"

text \<open>\<open>gen_range\<close> maps the number of live wants to an index below it.\<close>

definition random_live_want :: "(nat \<Rightarrow> nat) \<Rightarrow> 'cid session_wants \<Rightarrow> 'cid option" where
  "random_live_want gen_range s =
     (if sw_live_wants s = [] then None
      else let i = gen_range (length (sw_live_wants s)) in
        if i < length (sw_live_wants s) then Some (fst (sw_live_wants s ! i)) else None)"

definition has_live_wants :: "'cid session_wants \<Rightarrow> bool" where
  "has_live_wants s \<longleftrightarrow> sw_live_wants s \<noteq> []"

subsection \<open>Queue lemmas\<close>

lemma cid_queue_pop_loop_spec:
  "cid_queue_pop_loop s els = (els', r) \<Longrightarrow>
     set els' \<subseteq> set els \<and>
     (case r of Some c \<Rightarrow> c \<in> set s \<and> c \<in> set els | None \<Rightarrow> set els \<inter> set s = {})"
  by (induction els) (auto split: if_splits option.splits)

lemma CidQueue_pop_spec:
  assumes "CidQueue_pop q = (q', r)"
  shows "cq_set q' = cq_set q" and "r = Some c \<Longrightarrow> CidQueue_has c q"
    and "r = None \<longleftrightarrow> set (cq_elements q) \<inter> set (cq_set q) = {}"
  using assms cid_queue_pop_loop_spec[of "cq_set q" "cq_elements q" "cq_elements q'" r]
  by (auto simp: CidQueue_pop_def CidQueue_has_def split: prod.splits option.splits)

lemma CidQueue_has_push: "CidQueue_has c (CidQueue_push d q) \<longleftrightarrow> c = d \<or> CidQueue_has c q"
  by (auto simp: CidQueue_has_def CidQueue_push_def)

lemma CidQueue_has_remove: "CidQueue_has c (CidQueue_remove d q) \<longleftrightarrow> c \<noteq> d \<and> CidQueue_has c q"
  by (auto simp: CidQueue_has_def CidQueue_remove_def)

lemma CidQueue_has_push_all: "CidQueue_has c (fold CidQueue_push ds q) \<longleftrightarrow> c \<in> set ds \<or> CidQueue_has c q"
  by (induction ds arbitrary: q) (auto simp: CidQueue_has_push)

lemma CidQueue_has_remove_all: "CidQueue_has c (fold CidQueue_remove ds q) \<longleftrightarrow> c \<notin> set ds \<and> CidQueue_has c q"
  by (induction ds arbitrary: q) (auto simp: CidQueue_has_remove)

subsection \<open>Invariant of the wants\<close>

text \<open>Every live want is in the list that records the order of the requests.\<close>

definition sw_wf :: "'cid session_wants \<Rightarrow> bool" where
  "sw_wf s \<longleftrightarrow> hm_wf (sw_live_wants s) \<and> hm_keys (sw_live_wants s) \<subseteq> set (sw_live_wants_order s)"

lemma sw_wf_length: "sw_wf s \<Longrightarrow> length (sw_live_wants s) \<le> length (sw_live_wants_order s)"
  unfolding sw_wf_def hm_size_keys
  by (metis card_length card_mono finite_set hm_size_keys order.trans)

lemma sw_wf_new: "sw_wf (SessionWants_new limit)"
  by (simp add: sw_wf_def SessionWants_new_def)

lemma sw_wf_to_fetch [simp]: "sw_wf (s\<lparr>sw_to_fetch := q\<rparr>) = sw_wf s"
  by (simp add: sw_wf_def)

lemma sw_wf_make_live [simp]: "sw_wf s \<Longrightarrow> sw_wf (make_live now c s)"
  by (auto simp: sw_wf_def make_live_def)

lemma sw_wf_want_sent: "sw_wf s \<Longrightarrow> sw_wf (want_sent now c s)"
  by (simp add: want_sent_def)

lemma sw_wf_wants_sent: "sw_wf s \<Longrightarrow> sw_wf (wants_sent now cs s)"
  unfolding wants_sent_def by (rule fold_invariant) (auto intro: sw_wf_want_sent)

lemma is_wanted_make_live: "is_wanted c (make_live now d s) \<longleftrightarrow> c = d \<or> is_wanted c s"
  by (auto simp: is_wanted_def make_live_def)

lemma is_wanted_wants_sent: "is_wanted c (wants_sent now cs s) \<longleftrightarrow> is_wanted c s"
proof -
  have "is_wanted c (want_sent now d s) \<longleftrightarrow> is_wanted c s" for d s
    by (auto simp: want_sent_def make_live_def is_wanted_def CidQueue_has_remove)
  then show ?thesis unfolding wants_sent_def by (induction cs arbitrary: s) simp_all
qed

subsection \<open>Moving wants from the fetch queue\<close>

lemma next_wants_loop_spec:
  assumes "sw_wf s" and "next_wants_loop now n live s = (s', live')"
  shows "sw_wf s' \<and>
    hm_keys (sw_live_wants s') \<union> set live = hm_keys (sw_live_wants s) \<union> set live' \<and> set live \<subseteq> set live' \<and>
    set live' - set live \<subseteq> set (cq_set (sw_to_fetch s)) \<and>
    hm_keys (sw_live_wants s) \<subseteq> hm_keys (sw_live_wants s') \<and>
    cq_set (sw_to_fetch s') = cq_set (sw_to_fetch s) \<and>
    length (sw_live_wants s') \<le> length (sw_live_wants s) + n \<and>
    sw_broadcast_limit s' = sw_broadcast_limit s \<and>
    (distinct live \<longrightarrow> distinct live')"
  using assms
proof (induction n arbitrary: live s)
  case (Suc n)
  obtain q r where pop: "CidQueue_pop (sw_to_fetch s) = (q, r)" by fastforce
  note spec = CidQueue_pop_spec[OF pop]
  show ?case
  proof (cases r)
    case None
    then show ?thesis using Suc.prems pop spec(1) by auto
  next
    case (Some c)
    let ?s1 = "make_live now c (s\<lparr>sw_to_fetch := q\<rparr>)"
    have rec: "next_wants_loop now n (hs_insert c live) ?s1 = (s', live')"
      using Suc.prems(2) pop Some by simp
    have wf1: "sw_wf ?s1" using Suc.prems(1) by simp
    have keys1: "hm_keys (sw_live_wants ?s1) = insert c (hm_keys (sw_live_wants s))"
      and set1: "cq_set (sw_to_fetch ?s1) = cq_set (sw_to_fetch s)"
      and lim1: "sw_broadcast_limit ?s1 = sw_broadcast_limit s"
      using spec(1) by (simp_all add: make_live_def)
    have c: "c \<in> set (cq_set (sw_to_fetch s))" using spec(2)[OF Some] by (simp add: CidQueue_has_def)
    have "hm_wf (sw_live_wants s)" using Suc.prems(1) by (simp add: sw_wf_def)
    then have len1: "length (sw_live_wants ?s1) \<le> Suc (length (sw_live_wants s))"
      by (simp add: make_live_def hm_size_keys card_insert_if)
    have sets: "K' \<union> L = K \<union> L'" if "K' \<union> insert c L = insert c K \<union> L'" "insert c L \<subseteq> L'" "insert c K \<subseteq> K'"
      for K K' L L' using that by auto
    note IH = Suc.IH[OF wf1 rec, unfolded keys1 set1 lim1 set_insert]
    show ?thesis
    proof (intro conjI)
      show "hm_keys (sw_live_wants s') \<union> set live = hm_keys (sw_live_wants s) \<union> set live'"
        by (rule sets) (use IH in blast)+
      show "set live' - set live \<subseteq> set (cq_set (sw_to_fetch s))" using IH c by blast
    qed (use IH len1 in \<open>auto simp: distinct_insert\<close>)
  qed
qed simp

lemma get_next_wants_ok:
  assumes "sw_wf s" and "length (sw_live_wants s) \<le> sw_broadcast_limit s"
  shows "\<exists>s' live. get_next_wants oc now s = Some (s', live) \<and> sw_wf s' \<and> distinct live \<and>
    hm_keys (sw_live_wants s') = hm_keys (sw_live_wants s) \<union> set live \<and>
    (\<forall>c \<in> set live. CidQueue_has c (sw_to_fetch s)) \<and>
    (\<forall>c. is_wanted c s' \<longleftrightarrow> is_wanted c s) \<and>
    length (sw_live_wants s') \<le> sw_broadcast_limit s'"
proof -
  let ?n = "sw_broadcast_limit s - length (sw_live_wants s)"
  obtain s' live where loop: "next_wants_loop now ?n [] s = (s', live)" by fastforce
  note spec = next_wants_loop_spec[OF assms(1) loop]
  have "get_next_wants oc now s = Some (s', live)"
    using assms(2) loop by (simp add: get_next_wants_def)
  moreover have "\<forall>c. is_wanted c s' \<longleftrightarrow> is_wanted c s"
    using spec by (auto simp: is_wanted_def CidQueue_has_def)
  ultimately show ?thesis using spec assms(2) by (auto simp: CidQueue_has_def)
qed

subsection \<open>Receiving blocks\<close>

definition latency_of :: "instant \<Rightarrow> 'cid session_wants \<Rightarrow> 'cid \<Rightarrow> duration" where
  "latency_of now s k = (case map_of (sw_live_wants s) k of None \<Rightarrow> 0 | Some sent_at \<Rightarrow> now - sent_at)"

lemma blocks_received_fold:
  assumes "sw_wf s"
  shows "\<exists>s1 w. fold (block_received now) keys (s, w0, t0) =
      (s1, w0 @ w, t0 + sum_list (map (latency_of now s) w)) \<and>
    sw_wf s1 \<and> distinct w \<and> set w = {k \<in> set keys. is_wanted k s} \<and>
    (\<forall>c. is_wanted c s1 \<longleftrightarrow> is_wanted c s \<and> c \<notin> set keys) \<and>
    sw_broadcast_limit s1 = sw_broadcast_limit s"
  using assms
proof (induction keys arbitrary: s w0 t0)
  case (Cons k keys)
  show ?case
  proof (cases "is_wanted k s")
    case False
    then have "block_received now k (s, w0, t0) = (s, w0, t0)" by (simp add: block_received_def)
    moreover have "{k' \<in> set (k # keys). is_wanted k' s} = {k' \<in> set keys. is_wanted k' s}" using False by auto
    ultimately show ?thesis using Cons.IH[OF Cons.prems, of w0 t0] False by auto
  next
    case True
    define s1 where "s1 = s\<lparr>sw_live_wants := hm_remove k (sw_live_wants s),
        sw_to_fetch := CidQueue_remove k (sw_to_fetch s)\<rparr>"
    have step: "block_received now k (s, w0, t0) = (s1, w0 @ [k], t0 + latency_of now s k)"
      using True by (simp add: block_received_def s1_def latency_of_def)
    have wf1: "sw_wf s1" using Cons.prems by (auto simp: sw_wf_def s1_def)
    have wanted1: "is_wanted c s1 \<longleftrightarrow> is_wanted c s \<and> c \<noteq> k" for c
      by (auto simp: is_wanted_def s1_def CidQueue_has_remove)
    obtain s2 w where IH: "fold (block_received now) keys (s1, w0 @ [k], t0 + latency_of now s k) =
        (s2, (w0 @ [k]) @ w, t0 + latency_of now s k + sum_list (map (latency_of now s1) w))"
      "sw_wf s2" "distinct w" "set w = {c \<in> set keys. is_wanted c s1}"
      "\<forall>c. is_wanted c s2 \<longleftrightarrow> is_wanted c s1 \<and> c \<notin> set keys" "sw_broadcast_limit s2 = sw_broadcast_limit s1"
      using Cons.IH[OF wf1, of "w0 @ [k]" "t0 + latency_of now s k"] by blast
    have "sum_list (map (latency_of now s1) w) = sum_list (map (latency_of now s) w)"
      using IH(4) wanted1 by (intro arg_cong[where f = sum_list] map_cong) (auto simp: latency_of_def s1_def)
    then have "fold (block_received now) (k # keys) (s, w0, t0) =
        (s2, w0 @ k # w, t0 + sum_list (map (latency_of now s) (k # w)))"
      using IH(1) step by simp
    moreover have "distinct (k # w)" "set (k # w) = {c \<in> set (k # keys). is_wanted c s}"
      using IH(3,4) wanted1 True by auto
    moreover have "\<forall>c. is_wanted c s2 \<longleftrightarrow> is_wanted c s \<and> c \<notin> set (k # keys)" using IH(5) wanted1 by auto
    moreover have "sw_broadcast_limit s2 = sw_broadcast_limit s" using IH(6) by (simp add: s1_def)
    ultimately show ?thesis using IH(2) by blast
  qed
qed simp

lemma blocks_received_ok:
  assumes "sw_wf s"
  shows "\<exists>s' w. blocks_received oc now keys s = Some (s', w, sum_list (map (latency_of now s) w)) \<and>
    sw_wf s' \<and> distinct w \<and> set w = {k \<in> set keys. is_wanted k s} \<and>
    (\<forall>c. is_wanted c s' \<longleftrightarrow> is_wanted c s \<and> c \<notin> set keys) \<and>
    sw_broadcast_limit s' = sw_broadcast_limit s"
proof -
  obtain s1 w where f: "fold (block_received now) keys (s, [], 0) =
      (s1, w, sum_list (map (latency_of now s) w))"
    and rest: "sw_wf s1" "distinct w" "set w = {k \<in> set keys. is_wanted k s}"
      "\<forall>c. is_wanted c s1 \<longleftrightarrow> is_wanted c s \<and> c \<notin> set keys"
      "sw_broadcast_limit s1 = sw_broadcast_limit s"
    using blocks_received_fold[OF assms, of now keys "[]" 0] by auto
  define s2 where "s2 = s1\<lparr>sw_live_wants_order :=
      filter (\<lambda>k. k \<in> hm_keys (sw_live_wants s1)) (sw_live_wants_order s1)\<rparr>"
  define s' where "s' = (if length (sw_live_wants_order s1) - length (sw_live_wants s1) > LIVE_WANTS_ORDER_GC_LIMIT
      then s2 else s1)"
  have wf2: "sw_wf s2" using rest(1) by (auto simp: sw_wf_def s2_def)
  have "blocks_received oc now keys s = Some (s', w, sum_list (map (latency_of now s) w))"
    using f sw_wf_length[OF rest(1)] by (simp add: blocks_received_def s'_def s2_def)
  moreover have "sw_wf s'" "sw_broadcast_limit s' = sw_broadcast_limit s1" "is_wanted c s' \<longleftrightarrow> is_wanted c s1" for c
    using rest(1) wf2 by (simp_all add: s'_def s2_def is_wanted_def)
  ultimately show ?thesis using rest by auto
qed

subsection \<open>Broadcasting\<close>

text \<open>The broadcast goes through the live wants: the loop is correct for what it has collected so far.\<close>

definition broadcast_ok ::
    "nat \<Rightarrow> instant \<Rightarrow> 'cid set \<Rightarrow> ('cid, instant) hmap \<Rightarrow> ('cid, instant) hmap \<Rightarrow> 'cid list \<Rightarrow> bool" where
  "broadcast_ok limit now seen lw lw' live \<longleftrightarrow>
     hm_wf lw' \<and> hm_keys lw' = hm_keys lw \<and> distinct live \<and> set live \<subseteq> hm_keys lw \<and>
     (\<forall>c. map_of lw' c = (if c \<in> set live then Some now else map_of lw c)) \<and>
     (limit = 0 \<or> length live \<le> limit) \<and>
     (limit = 0 \<or> length live \<noteq> limit \<longrightarrow> hm_keys lw \<inter> seen \<subseteq> set live)"

lemma broadcast_ok_skip:
  assumes "broadcast_ok limit now seen lw lw' live" and "k \<notin> hm_keys lw"
  shows "broadcast_ok limit now (insert k seen) lw lw' live"
proof -
  have "hm_keys lw \<inter> insert k seen = hm_keys lw \<inter> seen" using assms(2) by blast
  then show ?thesis using assms(1) unfolding broadcast_ok_def by simp
qed

lemma broadcast_ok_add:
  assumes ok: "broadcast_ok limit now seen lw lw' live" and k: "k \<in> hm_keys lw"
    and room: "limit = 0 \<or> length live < limit"
  shows "broadcast_ok limit now (insert k seen) lw (hm_insert k now lw') (hs_insert k live)"
proof -
  have parts: "hm_wf lw'" "hm_keys lw' = hm_keys lw" "distinct live" "set live \<subseteq> hm_keys lw"
    "map_of lw' c = (if c \<in> set live then Some now else map_of lw c)"
    "hm_keys lw \<inter> seen \<subseteq> set live" for c
    using ok room unfolding broadcast_ok_def by blast+
  show ?thesis
    unfolding broadcast_ok_def
  proof (intro conjI allI impI)
    have "length (hs_insert k live) \<le> Suc (length live)" by (simp add: List.insert_def)
    then show "limit = 0 \<or> length (hs_insert k live) \<le> limit" using room by linarith
    show "hm_keys lw \<inter> insert k seen \<subseteq> set (hs_insert k live)" using parts(6) unfolding set_insert by blast
    show "hm_keys (hm_insert k now lw') = hm_keys lw" using parts(2) k by (simp add: insert_absorb)
    show "map_of (hm_insert k now lw') c = (if c \<in> set (hs_insert k live) then Some now else map_of lw c)" for c
      using parts(5)[of c] by simp
    show "hm_wf (hm_insert k now lw')" "distinct (hs_insert k live)" "set (hs_insert k live) \<subseteq> hm_keys lw"
      using parts(1,3,4) k by simp_all
  qed
qed

lemma broadcast_loop_ok:
  assumes "broadcast_loop limit now keys lw' live = (lw'', live'')"
    and "broadcast_ok limit now seen lw lw' live" and "limit = 0 \<or> length live < limit"
  shows "\<exists>seen'. broadcast_ok limit now seen' lw lw'' live'' \<and>
    (limit = 0 \<or> length live'' \<noteq> limit \<longrightarrow> seen' = seen \<union> set keys)"
  using assms
proof (induction keys arbitrary: lw' live seen)
  case Nil
  then show ?case by (intro exI[of _ seen]) simp
next
  case (Cons k keys)
  have keys: "hm_keys lw' = hm_keys lw" using Cons.prems(2) by (simp add: broadcast_ok_def)
  show ?case
  proof (cases "k \<in> hm_keys lw")
    case False
    then have "broadcast_loop limit now keys lw' live = (lw'', live'')" using Cons.prems(1) keys by simp
    from Cons.IH[OF this broadcast_ok_skip[OF Cons.prems(2) False] Cons.prems(3)] show ?thesis by simp
  next
    case True
    note ok = broadcast_ok_add[OF Cons.prems(2) True Cons.prems(3)]
    show ?thesis
    proof (cases "length (hs_insert k live) = limit")
      case full: True
      then have "lw'' = hm_insert k now lw'" "live'' = hs_insert k live"
        using Cons.prems(1) True keys by simp_all
      moreover have "limit \<noteq> 0" using full by (auto simp: List.insert_def split: if_splits)
      ultimately show ?thesis using ok full by (intro exI[of _ "insert k seen"]) simp
    next
      case False
      then have rec: "broadcast_loop limit now keys (hm_insert k now lw') (hs_insert k live) = (lw'', live'')"
        using Cons.prems(1) True keys by simp
      have "limit = 0 \<or> length (hs_insert k live) < limit"
        using ok False unfolding broadcast_ok_def by linarith
      from Cons.IH[OF rec ok this] show ?thesis by simp
    qed
  qed
qed

lemma prepare_broadcast_ok:
  fixes s :: "'cid session_wants"
  assumes "sw_wf s"
  shows "\<exists>s' live. prepare_broadcast now s = (s', live) \<and> sw_wf s' \<and> distinct live \<and>
    set live \<subseteq> hm_keys (sw_live_wants s) \<and>
    length live = (if sw_broadcast_limit s = 0 then length (sw_live_wants s)
                   else min (sw_broadcast_limit s) (length (sw_live_wants s))) \<and>
    (\<forall>c. map_of (sw_live_wants s') c = (if c \<in> set live then Some now else map_of (sw_live_wants s) c)) \<and>
    (\<forall>c. is_wanted c s' \<longleftrightarrow> is_wanted c s) \<and> sw_broadcast_limit s' = sw_broadcast_limit s"
proof -
  let ?lw = "sw_live_wants s" and ?l = "sw_broadcast_limit s"
  have wf: "hm_wf ?lw" "hm_keys ?lw \<subseteq> set (sw_live_wants_order s)" using assms by (simp_all add: sw_wf_def)
  obtain lw live where loop: "broadcast_loop ?l now (sw_live_wants_order s) ?lw [] = (lw, live)" by fastforce
  have base: "broadcast_ok ?l now {} ?lw ?lw []" using wf(1) by (simp add: broadcast_ok_def)
  have room: "?l = 0 \<or> length ([] :: 'cid list) < ?l" by auto
  obtain seen where ok: "broadcast_ok ?l now seen ?lw lw live"
    and seen: "?l = 0 \<or> length live \<noteq> ?l \<longrightarrow> seen = {} \<union> set (sw_live_wants_order s)"
    using broadcast_loop_ok[OF loop base room] by blast
  then have spec: "hm_wf lw" "hm_keys lw = hm_keys ?lw" "distinct live" "set live \<subseteq> hm_keys ?lw"
    "\<forall>c. map_of lw c = (if c \<in> set live then Some now else map_of ?lw c)" "?l = 0 \<or> length live \<le> ?l"
    "?l = 0 \<or> length live \<noteq> ?l \<Longrightarrow> hm_keys ?lw \<inter> set (sw_live_wants_order s) \<subseteq> set live"
    unfolding broadcast_ok_def by blast+
  have card: "length live = card (set live)" "length ?lw = card (hm_keys ?lw)"
    using spec(3) wf(1) by (simp_all add: distinct_card hm_size_keys)
  have le: "length live \<le> length ?lw" using card spec(4) by (simp add: card_mono)
  have "length live = (if ?l = 0 then length ?lw else min ?l (length ?lw))"
  proof (cases "?l = 0 \<or> length live \<noteq> ?l")
    case True
    then have "set live = hm_keys ?lw" using spec(4,7) wf(2) by blast
    then have "length live = length ?lw" using card by simp
    then show ?thesis using True spec(6) by auto
  next
    case False
    then show ?thesis using le by simp
  qed
  moreover have "prepare_broadcast now s = (s\<lparr>sw_live_wants := lw\<rparr>, live)"
    using loop by (simp add: prepare_broadcast_def)
  moreover have "sw_wf (s\<lparr>sw_live_wants := lw\<rparr>)" using spec(1,2) wf(2) by (simp add: sw_wf_def)
  moreover have "\<forall>c. is_wanted c (s\<lparr>sw_live_wants := lw\<rparr>) \<longleftrightarrow> is_wanted c s"
    using spec(2) by (simp add: is_wanted_def)
  ultimately show ?thesis using spec(3,4,5)
    by (intro exI[of _ "s\<lparr>sw_live_wants := lw\<rparr>"] exI[of _ live] conjI) simp_all
qed

subsection \<open>Reachable wants\<close>

inductive sw_reachable :: "bool \<Rightarrow> 'cid session_wants \<Rightarrow> bool" for oc where
  "sw_reachable oc (SessionWants_new limit)"
| "sw_reachable oc s \<Longrightarrow> sw_reachable oc (blocks_requested keys s)"
| "sw_reachable oc s \<Longrightarrow> get_next_wants oc now s = Some (s', live) \<Longrightarrow> sw_reachable oc s'"
| "sw_reachable oc s \<Longrightarrow> sw_reachable oc (wants_sent now keys s)"
| "sw_reachable oc s \<Longrightarrow> blocks_received oc now keys s = Some (s', r) \<Longrightarrow> sw_reachable oc s'"
| "sw_reachable oc s \<Longrightarrow> sw_reachable oc (fst (prepare_broadcast now s))"
| "sw_reachable oc s \<Longrightarrow> sw_reachable oc (SessionWants_cancel_pending keys s)"

lemma sw_reachable_wf: "sw_reachable oc s \<Longrightarrow> sw_wf s"
proof (induction rule: sw_reachable.induct)
  case (3 s now s' live)
  then obtain n where "next_wants_loop now n [] s = (s', live)"
    by (auto simp: get_next_wants_def split: option.splits)
  from next_wants_loop_spec[OF 3(3) this] show ?case by simp
next
  case (5 s now keys s' r)
  then show ?case using blocks_received_ok[OF 5(3), of oc now keys] by auto
next
  case (6 s now)
  then show ?case using prepare_broadcast_ok[OF 6(2), of now] by auto
qed (simp_all add: sw_wf_new sw_wf_wants_sent blocks_requested_def SessionWants_cancel_pending_def)

subsection \<open>Properties\<close>

text \<open>
  C26: In every reachable state, receiving blocks does not underflow, reports exactly the keys that were
  wanted, each once, with the sum of their latencies, and afterwards precisely those keys are no longer
  wanted; no other operation that only moves wants changes what is wanted.
\<close>

theorem SessionWants_blocks_received:
  assumes "sw_reachable oc s"
  shows "(\<exists>s' w. blocks_received oc now keys s = Some (s', w, sum_list (map (latency_of now s) w)) \<and>
      distinct w \<and> set w = {k \<in> set keys. is_wanted k s} \<and>
      (\<forall>c. is_wanted c s' \<longleftrightarrow> is_wanted c s \<and> c \<notin> set keys)) \<and>
    (is_wanted c (wants_sent now keys s) \<longleftrightarrow> is_wanted c s) \<and>
    (is_wanted c (fst (prepare_broadcast now s)) \<longleftrightarrow> is_wanted c s) \<and>
    (is_wanted c (blocks_requested keys s) \<longleftrightarrow> is_wanted c s \<or> c \<in> set keys)"
proof (intro conjI)
  have wf: "sw_wf s" by (rule sw_reachable_wf[OF assms])
  show "\<exists>s' w. blocks_received oc now keys s = Some (s', w, sum_list (map (latency_of now s) w)) \<and>
      distinct w \<and> set w = {k \<in> set keys. is_wanted k s} \<and>
      (\<forall>c. is_wanted c s' \<longleftrightarrow> is_wanted c s \<and> c \<notin> set keys)"
    using blocks_received_ok[OF wf, of oc now keys] by blast
  show "is_wanted c (fst (prepare_broadcast now s)) \<longleftrightarrow> is_wanted c s"
    using prepare_broadcast_ok[OF wf, of now] by auto
  show "is_wanted c (blocks_requested keys s) \<longleftrightarrow> is_wanted c s \<or> c \<in> set keys"
    by (auto simp: is_wanted_def blocks_requested_def CidQueue_has_push_all)
qed (rule is_wanted_wants_sent)

text \<open>
  A broadcast covers live wants only, each once, as many as the broadcast limit allows (all of them
  when there are fewer, or when the limit is 0), and restarts the clock of exactly those.
\<close>

theorem SessionWants_prepare_broadcast:
  assumes "sw_reachable oc s"
  shows "\<exists>s' live. prepare_broadcast now s = (s', live) \<and> distinct live \<and>
    set live \<subseteq> hm_keys (sw_live_wants s) \<and>
    length live = (if sw_broadcast_limit s = 0 then length (sw_live_wants s)
                   else min (sw_broadcast_limit s) (length (sw_live_wants s))) \<and>
    (\<forall>c. map_of (sw_live_wants s') c = (if c \<in> set live then Some now else map_of (sw_live_wants s) c))"
  using prepare_broadcast_ok[OF sw_reachable_wf[OF assms], of now]
  by (elim exE conjE, intro exI conjI)

text \<open>
  As long as the live wants do not exceed the broadcast limit, \<open>get_next_wants\<close> moves wants from the
  fetch queue to the live ones and stays within the limit. When they do exceed it, which sending wants
  to peers can bring about, the subtraction underflows: it panics where overflow checks are on.
\<close>

theorem SessionWants_get_next_wants:
  assumes "sw_reachable oc s"
  shows "if length (sw_live_wants s) \<le> sw_broadcast_limit s
    then \<exists>s' live. get_next_wants oc now s = Some (s', live) \<and> distinct live \<and>
      hm_keys (sw_live_wants s') = hm_keys (sw_live_wants s) \<union> set live \<and>
      (\<forall>c \<in> set live. CidQueue_has c (sw_to_fetch s)) \<and>
      (\<forall>c. is_wanted c s' \<longleftrightarrow> is_wanted c s) \<and>
      length (sw_live_wants s') \<le> sw_broadcast_limit s'
    else get_next_wants True now s = None"
proof (cases "length (sw_live_wants s) \<le> sw_broadcast_limit s")
  case True
  then show ?thesis using get_next_wants_ok[OF sw_reachable_wf[OF assms] True, of oc now] by auto
next
  case False
  then show ?thesis by (simp add: get_next_wants_def)
qed

definition demo_wants :: "nat session_wants" where
  "demo_wants = wants_sent 5 [7, 8] (blocks_requested [7, 8, 9] (SessionWants_new 1))"

lemma demo_wants_reachable: "sw_reachable oc demo_wants"
  unfolding demo_wants_def
  by (rule sw_reachable.intros(4), rule sw_reachable.intros(2), rule sw_reachable.intros(1))

lemmas demo_wants_simps = demo_wants_def wants_sent_def want_sent_def make_live_def blocks_requested_def
  SessionWants_new_def CidQueue_push_def CidQueue_default_def CidQueue_has_def CidQueue_remove_def
  List.insert_def

theorem SessionWants_get_next_wants_witness: "get_next_wants True 9 demo_wants = None"
  using SessionWants_get_next_wants[OF demo_wants_reachable[of True], of 9]
  by (simp add: demo_wants_simps)

theorem SessionWants_prepare_broadcast_witness:
  "\<exists>s' live. prepare_broadcast 9 demo_wants = (s', live) \<and> length live = 1"
proof -
  have "sw_broadcast_limit demo_wants = 1" "length (sw_live_wants demo_wants) = 2"
    by (simp_all add: demo_wants_simps)
  then show ?thesis
    using SessionWants_prepare_broadcast[OF demo_wants_reachable[of True], of 9] by auto
qed

theorem SessionWants_blocks_received_witness:
  "\<exists>s' w l. blocks_received True 9 [7, 4, 7] demo_wants = Some (s', w, l) \<and> set w = {7}"
proof -
  have "is_wanted 7 demo_wants" "\<not> is_wanted 4 demo_wants"
    by (simp_all add: is_wanted_def demo_wants_simps)
  then have wanted: "{k \<in> set [7, 4, 7]. is_wanted k demo_wants} = {7}" by auto
  obtain s' w l where r: "blocks_received True 9 [7, 4, 7] demo_wants = Some (s', w, l)"
    and w: "set w = {k \<in> set [7, 4, 7]. is_wanted k demo_wants}"
    using SessionWants_blocks_received[OF demo_wants_reachable[of True], of 9 "[7, 4, 7]" 0] by blast
  from r trans[OF w wanted] show ?thesis by (intro exI conjI)
qed

lemma choose_loop_member: "choose_loop fl m rnd tot counted ps = Some p \<Longrightarrow> p \<in> set ps"
proof (induction ps arbitrary: counted)
  case (Cons q ps)
  let ?c = "f64_add fl counted (f64_div fl (f64_of_usize fl (get_peer_count q m)) tot)"
  have e: "choose_loop fl m rnd tot counted (q # ps) =
      (if f64_gt fl ?c rnd then Some q else choose_loop fl m rnd tot ?c ps)"
    by (simp only: choose_loop.simps Let_def)
  show ?case
  proof (cases "f64_gt fl ?c rnd")
    case True
    then show ?thesis using Cons.prems unfolding e by simp
  next
    case False
    then have "choose_loop fl m rnd tot ?c ps = Some p" using Cons.prems unfolding e by simp
    from Cons.IH[OF this] show ?thesis by simp
  qed
qed simp

text \<open>
  The peer that is asked next is one of the candidates, whatever the random number and the
  floating-point arithmetic; there is none only when there are no candidates.
\<close>

theorem PeerResponseTracker_choose_member:
  "(case PeerResponseTracker_choose fl rnd peers m of
      None \<Rightarrow> peers = []
    | Some p \<Rightarrow> p \<in> set peers)"
  by (auto simp: PeerResponseTracker_choose_def Let_def split: option.split dest: choose_loop_member)

text \<open>
  A CID that was popped off the queue stays in its membership set, so pushing it again has no effect:
  it is not fetched a second time until it is removed.
\<close>

theorem CidQueue_pop_keeps_member:
  assumes "CidQueue_pop q = (q', Some c)"
  shows "CidQueue_has c q' \<and> CidQueue_push c q' = q'"
  using CidQueue_pop_spec(1,2)[OF assms] by (simp add: CidQueue_has_def CidQueue_push_def)

theorem CidQueue_pop_keeps_member_witness:
  "CidQueue_has (7::nat) (fst (CidQueue_pop (CidQueue_push 7 CidQueue_default)))"
  using CidQueue_pop_keeps_member[of "CidQueue_push (7::nat) CidQueue_default"
      "fst (CidQueue_pop (CidQueue_push (7::nat) CidQueue_default))" 7]
  by (simp add: CidQueue_pop_def CidQueue_push_def CidQueue_default_def)

end
