(* ===== verification/PeerWants.thy ===== *)
theory PeerWants
  imports Prelude
begin

text \<open>
  The wants that were sent to each peer, \<open>client/peer_want_manager.rs\<close>. What the manager tells the
  message queues of the peers is the list of \<open>queue_cmd\<close>s an operation returns; \<open>peer_queues\<close> is the
  list of the peers that have a queue. The counts that feed metrics change nothing and only appear as
  the function \<open>want_peer_counts\<close>.
\<close>

subsection \<open>State and operations\<close>

record 'cid peer_want =
  pw_want_blocks :: "'cid list"
  pw_want_haves :: "'cid list"

record ('cid, 'peer) peer_want_manager =
  pm_peer_wants :: "('peer, 'cid peer_want) hmap"
  pm_want_peers :: "('cid, 'peer list) hmap"
  pm_broadcast_wants :: "'cid list"

datatype ('cid, 'peer) queue_cmd =
    AddBroadcastWantHaves 'peer "'cid list"
  | AddWants 'peer "'cid list" "'cid list"
  | AddCancels 'peer "'cid list"

definition PeerWantManager_default :: "('cid, 'peer) peer_want_manager" where
  "PeerWantManager_default = \<lparr>pm_peer_wants = [], pm_want_peers = [], pm_broadcast_wants = []\<rparr>"

definition PeerWantManager_add_peer ::
    "'peer \<Rightarrow> ('cid, 'peer) peer_want_manager \<Rightarrow>
      ('cid, 'peer) peer_want_manager \<times> ('cid, 'peer) queue_cmd list" where
  "PeerWantManager_add_peer peer s =
     (if peer \<in> hm_keys (pm_peer_wants s) then (s, [])
      else (s\<lparr>pm_peer_wants := hm_insert peer \<lparr>pw_want_blocks = [], pw_want_haves = []\<rparr> (pm_peer_wants s)\<rparr>,
            if pm_broadcast_wants s \<noteq> [] then [AddBroadcastWantHaves peer (pm_broadcast_wants s)] else []))"

definition reverse_index_remove :: "'peer \<Rightarrow> 'cid \<Rightarrow> ('cid, 'peer list) hmap \<Rightarrow> ('cid, 'peer list) hmap" where
  "reverse_index_remove peer c idx =
     (case map_of idx c of
        None \<Rightarrow> idx
      | Some peers \<Rightarrow>
          (let idx' = hm_insert c (hs_remove peer peers) idx
           in if hs_remove peer peers = [] then hm_remove c idx' else idx'))"

definition PeerWantManager_remove_peer ::
    "'peer \<Rightarrow> ('cid, 'peer) peer_want_manager \<Rightarrow> ('cid, 'peer) peer_want_manager" where
  "PeerWantManager_remove_peer peer s =
     (case map_of (pm_peer_wants s) peer of
        None \<Rightarrow> s
      | Some pw \<Rightarrow>
          s\<lparr>pm_peer_wants := hm_remove peer (pm_peer_wants s),
            pm_want_peers := fold (reverse_index_remove peer) (pw_want_haves pw)
              (fold (reverse_index_remove peer) (pw_want_blocks pw) (pm_want_peers s))\<rparr>)"

definition broadcast_want_haves ::
    "'cid list \<Rightarrow> 'peer list \<Rightarrow> ('cid, 'peer) peer_want_manager \<Rightarrow>
      ('cid, 'peer) peer_want_manager \<times> ('cid, 'peer) queue_cmd list" where
  "broadcast_want_haves want_haves peer_queues s =
     (let unsent = filter (\<lambda>c. c \<notin> set (pm_broadcast_wants s)) want_haves;
          s1 = s\<lparr>pm_broadcast_wants := fold hs_insert unsent (pm_broadcast_wants s)\<rparr>
      in (s1, concat (map (\<lambda>(peer, pw).
           let peer_unsent = hs_of_list (filter (\<lambda>c. c \<notin> set (pw_want_blocks pw) \<and> c \<notin> set (pw_want_haves pw)) unsent)
           in if peer_unsent \<noteq> [] \<and> peer \<in> set peer_queues
              then [AddBroadcastWantHaves peer peer_unsent] else []) (pm_peer_wants s1))))"

text \<open>The state of the loops of \<open>send_wants\<close>: the wants of the peer, the index, and what to send.\<close>

definition send_want_block ::
    "'peer \<Rightarrow> 'cid \<Rightarrow> 'cid peer_want \<times> ('cid, 'peer list) hmap \<times> 'cid list \<Rightarrow>
      'cid peer_want \<times> ('cid, 'peer list) hmap \<times> 'cid list" where
  "send_want_block peer c st =
     (let (pw, idx, flt) = st in
      if c \<in> set (pw_want_blocks pw) then st
      else (pw\<lparr>pw_want_haves := hs_remove c (pw_want_haves pw), pw_want_blocks := hs_insert c (pw_want_blocks pw)\<rparr>,
            hm_entry c [] (hs_insert peer) idx, flt @ [c]))"

definition send_want_have ::
    "'cid list \<Rightarrow> 'peer \<Rightarrow> 'cid \<Rightarrow> 'cid peer_want \<times> ('cid, 'peer list) hmap \<times> 'cid list \<Rightarrow>
      'cid peer_want \<times> ('cid, 'peer list) hmap \<times> 'cid list" where
  "send_want_have broadcast peer c st =
     (let (pw, idx, flt) = st in
      if c \<in> set broadcast then st
      else if c \<notin> set (pw_want_blocks pw) \<and> c \<notin> set (pw_want_haves pw)
      then (pw\<lparr>pw_want_haves := hs_insert c (pw_want_haves pw)\<rparr>, hm_entry c [] (hs_insert peer) idx, flt @ [c])
      else st)"

definition PeerWantManager_send_wants ::
    "'peer \<Rightarrow> 'cid list \<Rightarrow> 'cid list \<Rightarrow> ('cid, 'peer) peer_want_manager \<Rightarrow>
      ('cid, 'peer) peer_want_manager \<times> ('cid, 'peer) queue_cmd list" where
  "PeerWantManager_send_wants peer want_blocks want_haves s =
     (case map_of (pm_peer_wants s) peer of
        None \<Rightarrow> (s, [])
      | Some pw \<Rightarrow>
          (let (pw1, idx1, flt_want_blocks) = fold (send_want_block peer) want_blocks (pw, pm_want_peers s, []);
               (pw2, idx2, flt_want_haves) =
                 fold (send_want_have (pm_broadcast_wants s) peer) want_haves (pw1, idx1, [])
           in (s\<lparr>pm_peer_wants := hm_insert peer pw2 (pm_peer_wants s), pm_want_peers := idx2\<rparr>,
               if flt_want_blocks \<noteq> [] \<or> flt_want_haves \<noteq> []
               then [AddWants peer flt_want_blocks flt_want_haves] else [])))"

text \<open>The macro \<open>send!\<close>: the wants of one peer after the cancels, and what to tell its queue.\<close>

definition cancel_one ::
    "'cid list \<Rightarrow> 'cid \<Rightarrow> 'cid peer_want \<times> 'cid list \<Rightarrow> 'cid peer_want \<times> 'cid list" where
  "cancel_one broadcast c st =
     (let (pw, to_cancel) = st in
      if c \<notin> set (pw_want_blocks pw) \<and> c \<notin> set (pw_want_haves pw) then st
      else (pw\<lparr>pw_want_blocks := hs_remove c (pw_want_blocks pw), pw_want_haves := hs_remove c (pw_want_haves pw)\<rparr>,
            if c \<notin> set broadcast then hs_insert c to_cancel else to_cancel))"

definition cancel_peer ::
    "'cid list \<Rightarrow> 'cid list \<Rightarrow> 'cid list \<Rightarrow> 'peer list \<Rightarrow> 'peer \<Rightarrow> 'cid peer_want \<Rightarrow>
      'cid peer_want \<times> ('cid, 'peer) queue_cmd list" where
  "cancel_peer broadcast broadcast_cancels cancels peer_queues peer pw =
     (let (pw', to_cancel) = fold (cancel_one broadcast) cancels (pw, broadcast_cancels)
      in (pw', if to_cancel \<noteq> [] \<and> peer \<in> set peer_queues then [AddCancels peer to_cancel] else []))"

definition send_cancels_step where
  "send_cancels_step broadcast broadcast_cancels cancels peer_queues peer st =
     (let (m, cmds) = st in
      case map_of m peer of
        None \<Rightarrow> st
      | Some pw \<Rightarrow>
          (let (pw', out) = cancel_peer broadcast broadcast_cancels cancels peer_queues peer pw
           in (hm_insert peer pw' m, cmds @ out)))"

definition PeerWantManager_send_cancels ::
    "'cid list \<Rightarrow> 'peer list \<Rightarrow> ('cid, 'peer) peer_want_manager \<Rightarrow>
      ('cid, 'peer) peer_want_manager \<times> ('cid, 'peer) queue_cmd list" where
  "PeerWantManager_send_cancels cancels peer_queues s =
     (if cancels = [] then (s, [])
      else
        let broadcast = pm_broadcast_wants s;
            broadcast_cancels = hs_of_list (filter (\<lambda>c. c \<in> set broadcast) cancels);
            peers = (if broadcast_cancels = []
                     then hs_of_list (concat (map (\<lambda>c. case map_of (pm_want_peers s) c of None \<Rightarrow> [] | Some ps \<Rightarrow> ps) cancels))
                     else map fst (pm_peer_wants s));
            (m, cmds) = fold (send_cancels_step broadcast broadcast_cancels cancels peer_queues) peers (pm_peer_wants s, [])
        in (s\<lparr>pm_peer_wants := m,
              pm_broadcast_wants := filter (\<lambda>c. c \<notin> set broadcast_cancels) broadcast,
              pm_want_peers := fold hm_remove cancels (pm_want_peers s)\<rparr>, cmds))"

record want_peer_counts =
  wc_want_block :: nat
  wc_want_have :: nat
  wc_is_broadcast :: bool

definition want_peer_counts_of :: "'cid \<Rightarrow> ('cid, 'peer) peer_want_manager \<Rightarrow> want_peer_counts" where
  "want_peer_counts_of c s =
     fold (\<lambda>peer n. case map_of (pm_peer_wants s) peer of
         None \<Rightarrow> n
       | Some pw \<Rightarrow>
           if c \<in> set (pw_want_blocks pw) then n\<lparr>wc_want_block := wc_want_block n + 1\<rparr>
           else if c \<in> set (pw_want_haves pw) then n\<lparr>wc_want_have := wc_want_have n + 1\<rparr> else n)
       (case map_of (pm_want_peers s) c of None \<Rightarrow> [] | Some peers \<Rightarrow> peers)
       \<lparr>wc_want_block = 0, wc_want_have = 0, wc_is_broadcast = (c \<in> set (pm_broadcast_wants s))\<rparr>"

definition want_peer_counts_wanted :: "want_peer_counts \<Rightarrow> bool" where
  "want_peer_counts_wanted n \<longleftrightarrow> wc_want_block n > 0 \<or> wc_want_have n > 0 \<or> wc_is_broadcast n"

definition get_want_blocks :: "('cid, 'peer) peer_want_manager \<Rightarrow> 'cid list" where
  "get_want_blocks s = hs_of_list (concat (map (\<lambda>(_, pw). pw_want_blocks pw) (pm_peer_wants s)))"

definition get_want_haves :: "('cid, 'peer) peer_want_manager \<Rightarrow> 'cid list" where
  "get_want_haves s =
     hs_of_list (concat (map (\<lambda>(_, pw). pw_want_haves pw) (pm_peer_wants s)) @ pm_broadcast_wants s)"

definition get_wants :: "('cid, 'peer) peer_want_manager \<Rightarrow> 'cid list" where
  "get_wants s = hs_of_list (pm_broadcast_wants s @ map fst (pm_want_peers s))"

subsection \<open>Invariant\<close>

definition sent_blocks :: "('cid, 'peer) peer_want_manager \<Rightarrow> 'peer \<Rightarrow> 'cid set" where
  "sent_blocks s p = (case map_of (pm_peer_wants s) p of None \<Rightarrow> {} | Some pw \<Rightarrow> set (pw_want_blocks pw))"

definition sent_haves :: "('cid, 'peer) peer_want_manager \<Rightarrow> 'peer \<Rightarrow> 'cid set" where
  "sent_haves s p = (case map_of (pm_peer_wants s) p of None \<Rightarrow> {} | Some pw \<Rightarrow> set (pw_want_haves pw))"

definition index_of :: "('cid, 'peer list) hmap \<Rightarrow> 'cid \<Rightarrow> 'peer set" where
  "index_of idx c = (case map_of idx c of None \<Rightarrow> {} | Some ps \<Rightarrow> set ps)"

text \<open>
  No want is recorded both as a want-block and as a want-have of a peer, and the index is exactly the
  reverse of the wants of the peers, with no empty entries.
\<close>

definition pwm_wf :: "('cid, 'peer) peer_want_manager \<Rightarrow> bool" where
  "pwm_wf s \<longleftrightarrow>
     hm_wf (pm_peer_wants s) \<and>
     (\<forall>p. sent_blocks s p \<inter> sent_haves s p = {}) \<and>
     (\<forall>c. index_of (pm_want_peers s) c = {p. c \<in> sent_blocks s p \<union> sent_haves s p}) \<and>
     (\<forall>c. map_of (pm_want_peers s) c \<noteq> Some [])"

lemma pwm_wfI:
  assumes "hm_wf (pm_peer_wants s)" and "\<And>p. sent_blocks s p \<inter> sent_haves s p = {}"
    and "\<And>c p. p \<in> index_of (pm_want_peers s) c \<longleftrightarrow> c \<in> sent_blocks s p \<or> c \<in> sent_haves s p"
    and "\<And>c. map_of (pm_want_peers s) c \<noteq> Some []"
  shows "pwm_wf s"
  unfolding pwm_wf_def using assms by blast

lemma pwm_wfD:
  assumes "pwm_wf s"
  shows "hm_wf (pm_peer_wants s)" and "sent_blocks s p \<inter> sent_haves s p = {}"
    and "p \<in> index_of (pm_want_peers s) c \<longleftrightarrow> c \<in> sent_blocks s p \<or> c \<in> sent_haves s p"
    and "map_of (pm_want_peers s) c \<noteq> Some []"
  using assms unfolding pwm_wf_def by blast+

lemma sent_lookup:
  "map_of (pm_peer_wants s) p = Some pw \<Longrightarrow> sent_blocks s p = set (pw_want_blocks pw)"
  "map_of (pm_peer_wants s) p = Some pw \<Longrightarrow> sent_haves s p = set (pw_want_haves pw)"
  "map_of (pm_peer_wants s) p = None \<Longrightarrow> sent_blocks s p = {}"
  "map_of (pm_peer_wants s) p = None \<Longrightarrow> sent_haves s p = {}"
  by (simp_all add: sent_blocks_def sent_haves_def)

lemma pwm_wf_default: "pwm_wf PeerWantManager_default"
  by (simp add: pwm_wf_def PeerWantManager_default_def sent_blocks_def sent_haves_def index_of_def)

subsection \<open>The index\<close>

definition index_ne :: "('cid, 'peer list) hmap \<Rightarrow> bool" where
  "index_ne idx \<longleftrightarrow> (\<forall>c. map_of idx c \<noteq> Some [])"

lemma index_ne_entry [simp]: "index_ne idx \<Longrightarrow> index_ne (hm_entry c [] (hs_insert p) idx)"
  by (auto simp: index_ne_def hm_entry_def List.insert_def split: option.split)

lemma index_of_entry:
  "index_of (hm_entry c [] (hs_insert p) idx) c' = (if c' = c then insert p (index_of idx c) else index_of idx c')"
  by (simp add: index_of_def hm_entry_def split: option.split)

lemma index_of_remove:
  "index_of (reverse_index_remove p c idx) c' = index_of idx c' - (if c' = c then {p} else {})"
proof (cases "map_of idx c")
  case None
  then show ?thesis by (simp add: index_of_def reverse_index_remove_def)
next
  case (Some ps)
  have "hs_remove p ps = [] \<Longrightarrow> set ps \<subseteq> {p}" by (metis Diff_eq_empty_iff list.set(1) set_removeAll)
  then show ?thesis using Some by (auto simp: index_of_def reverse_index_remove_def Let_def)
qed

lemma index_ne_remove: "index_ne idx \<Longrightarrow> index_ne (reverse_index_remove p c idx)"
  by (auto simp: index_ne_def reverse_index_remove_def Let_def split: option.split)

lemma index_fold_remove:
  "index_of (fold (reverse_index_remove p) cs idx) c = index_of idx c - (if c \<in> set cs then {p} else {})"
  "index_ne idx \<Longrightarrow> index_ne (fold (reverse_index_remove p) cs idx)"
  by (induction cs arbitrary: idx) (auto simp: index_of_remove index_ne_remove)

subsection \<open>Adding and removing peers\<close>

lemma add_peer_wf:
  assumes "pwm_wf s"
  shows "pwm_wf (fst (PeerWantManager_add_peer peer s))"
proof (cases "peer \<in> hm_keys (pm_peer_wants s)")
  case True
  then show ?thesis using assms by (simp add: PeerWantManager_add_peer_def)
next
  case False
  let ?s' = "fst (PeerWantManager_add_peer peer s)"
  have none: "map_of (pm_peer_wants s) peer = None" using False by (simp add: hm_get_None)
  have s': "pm_peer_wants ?s' = hm_insert peer \<lparr>pw_want_blocks = [], pw_want_haves = []\<rparr> (pm_peer_wants s)"
    "pm_want_peers ?s' = pm_want_peers s"
    using False by (simp_all add: PeerWantManager_add_peer_def)
  have same: "sent_blocks ?s' p = sent_blocks s p" "sent_haves ?s' p = sent_haves s p" for p
    using none by (simp_all add: sent_blocks_def sent_haves_def s')
  show ?thesis
    by (rule pwm_wfI) (use pwm_wfD[OF assms] s' same in simp_all)
qed

lemma remove_peer_sent:
  "sent_blocks (PeerWantManager_remove_peer peer s) p = (if p = peer then {} else sent_blocks s p)"
  "sent_haves (PeerWantManager_remove_peer peer s) p = (if p = peer then {} else sent_haves s p)"
  by (auto simp: sent_blocks_def sent_haves_def PeerWantManager_remove_peer_def split: option.split)

lemma remove_peer_wf:
  assumes "pwm_wf s"
  shows "pwm_wf (PeerWantManager_remove_peer peer s)"
proof (cases "map_of (pm_peer_wants s) peer")
  case None
  then show ?thesis using assms by (simp add: PeerWantManager_remove_peer_def)
next
  case (Some pw)
  let ?s' = "PeerWantManager_remove_peer peer s"
  have s': "pm_peer_wants ?s' = hm_remove peer (pm_peer_wants s)"
    "pm_want_peers ?s' = fold (reverse_index_remove peer) (pw_want_haves pw)
       (fold (reverse_index_remove peer) (pw_want_blocks pw) (pm_want_peers s))"
    using Some by (simp_all add: PeerWantManager_remove_peer_def)
  show ?thesis
  proof (rule pwm_wfI)
    show "p \<in> index_of (pm_want_peers ?s') c \<longleftrightarrow> c \<in> sent_blocks ?s' p \<or> c \<in> sent_haves ?s' p" for c p
      using pwm_wfD(3)[OF assms, of p c] sent_lookup(1,2)[OF Some]
      by (auto simp: remove_peer_sent s'(2) index_fold_remove(1))
    have "index_ne (pm_want_peers s)" using pwm_wfD(4)[OF assms] by (simp add: index_ne_def)
    then have "index_ne (pm_want_peers ?s')" unfolding s'(2) by (intro index_fold_remove(2))
    then show "map_of (pm_want_peers ?s') c \<noteq> Some []" for c by (simp add: index_ne_def)
    show "sent_blocks ?s' p \<inter> sent_haves ?s' p = {}" for p
      using pwm_wfD(2)[OF assms, of p] by (simp add: remove_peer_sent)
  qed (use pwm_wfD(1)[OF assms] s'(1) in simp)
qed

lemma broadcast_wf: "pwm_wf s \<Longrightarrow> pwm_wf (fst (broadcast_want_haves whs qs s))"
  by (simp add: broadcast_want_haves_def Let_def pwm_wf_def sent_blocks_def sent_haves_def)

subsection \<open>Sending wants\<close>

lemma send_want_step:
  "c \<in> set (pw_want_blocks pw) \<Longrightarrow> send_want_block peer c (pw, idx, flt) = (pw, idx, flt)"
  "c \<notin> set (pw_want_blocks pw) \<Longrightarrow> send_want_block peer c (pw, idx, flt) =
     (pw\<lparr>pw_want_haves := hs_remove c (pw_want_haves pw), pw_want_blocks := hs_insert c (pw_want_blocks pw)\<rparr>,
      hm_entry c [] (hs_insert peer) idx, flt @ [c])"
  "c \<in> set bc \<or> c \<in> set (pw_want_blocks pw) \<or> c \<in> set (pw_want_haves pw) \<Longrightarrow>
     send_want_have bc peer c (pw, idx, flt) = (pw, idx, flt)"
  "\<not> (c \<in> set bc \<or> c \<in> set (pw_want_blocks pw) \<or> c \<in> set (pw_want_haves pw)) \<Longrightarrow>
     send_want_have bc peer c (pw, idx, flt) =
     (pw\<lparr>pw_want_haves := hs_insert c (pw_want_haves pw)\<rparr>, hm_entry c [] (hs_insert peer) idx, flt @ [c])"
  by (auto simp: send_want_block_def send_want_have_def)

lemma send_want_block_fold:
  assumes "set (pw_want_blocks pw) \<inter> set (pw_want_haves pw) = {}" and "index_ne idx"
    and "fold (send_want_block peer) cs (pw, idx, flt) = (pw', idx', flt')"
  shows "set (pw_want_blocks pw') = set (pw_want_blocks pw) \<union> set cs \<and>
    set (pw_want_haves pw') = set (pw_want_haves pw) - set cs \<and> index_ne idx' \<and>
    (\<forall>c. index_of idx' c = index_of idx c \<union> (if c \<in> set cs - set (pw_want_blocks pw) then {peer} else {})) \<and>
    (\<exists>f. flt' = flt @ f \<and> distinct f \<and> set f = set cs - set (pw_want_blocks pw))"
  using assms
proof (induction cs arbitrary: pw idx flt)
  case (Cons c cs)
  show ?case
  proof (cases "c \<in> set (pw_want_blocks pw)")
    case True
    then have "fold (send_want_block peer) cs (pw, idx, flt) = (pw', idx', flt')"
      using Cons.prems(3) by (simp add: send_want_step)
    from Cons.IH[OF Cons.prems(1,2) this] True Cons.prems(1) show ?thesis by auto
  next
    case False
    let ?pw = "pw\<lparr>pw_want_haves := hs_remove c (pw_want_haves pw), pw_want_blocks := hs_insert c (pw_want_blocks pw)\<rparr>"
    let ?idx = "hm_entry c [] (hs_insert peer) idx"
    have rec: "fold (send_want_block peer) cs (?pw, ?idx, flt @ [c]) = (pw', idx', flt')"
      using Cons.prems(3) False by (simp add: send_want_step)
    have disj: "set (pw_want_blocks ?pw) \<inter> set (pw_want_haves ?pw) = {}" using Cons.prems(1) by auto
    obtain f where f: "flt' = (flt @ [c]) @ f" "distinct f" "set f = set cs - insert c (set (pw_want_blocks pw))"
      using Cons.IH[OF disj index_ne_entry[OF Cons.prems(2)] rec] by auto
    have "\<exists>f. flt' = flt @ f \<and> distinct f \<and> set f = set (c # cs) - set (pw_want_blocks pw)"
      using f False by (intro exI[of _ "c # f"]) auto
    then show ?thesis
      using Cons.IH[OF disj index_ne_entry[OF Cons.prems(2)] rec] False by (auto simp: index_of_entry)
  qed
qed simp

lemma send_want_have_fold:
  assumes "index_ne idx"
    and "fold (send_want_have bc peer) cs (pw, idx, flt) = (pw', idx', flt')"
  shows "pw_want_blocks pw' = pw_want_blocks pw \<and>
    set (pw_want_haves pw') = set (pw_want_haves pw) \<union> (set cs - set bc - set (pw_want_blocks pw)) \<and>
    index_ne idx' \<and>
    (\<forall>c. index_of idx' c = index_of idx c \<union>
       (if c \<in> set cs - set bc - set (pw_want_blocks pw) - set (pw_want_haves pw) then {peer} else {})) \<and>
    (\<exists>f. flt' = flt @ f \<and> distinct f \<and>
       set f = set cs - set bc - set (pw_want_blocks pw) - set (pw_want_haves pw))"
  using assms
proof (induction cs arbitrary: pw idx flt)
  case (Cons c cs)
  show ?case
  proof (cases "c \<in> set bc \<or> c \<in> set (pw_want_blocks pw) \<or> c \<in> set (pw_want_haves pw)")
    case True
    then have "fold (send_want_have bc peer) cs (pw, idx, flt) = (pw', idx', flt')"
      using Cons.prems(2) by (simp add: send_want_step)
    from Cons.IH[OF Cons.prems(1) this] True show ?thesis by auto
  next
    case False
    let ?pw = "pw\<lparr>pw_want_haves := hs_insert c (pw_want_haves pw)\<rparr>"
    let ?idx = "hm_entry c [] (hs_insert peer) idx"
    have rec: "fold (send_want_have bc peer) cs (?pw, ?idx, flt @ [c]) = (pw', idx', flt')"
      using Cons.prems(2) False by (simp add: send_want_step)
    note IH = Cons.IH[OF index_ne_entry[OF Cons.prems(1)] rec]
    obtain f where f: "flt' = (flt @ [c]) @ f" "distinct f"
      "set f = set cs - set bc - set (pw_want_blocks pw) - insert c (set (pw_want_haves pw))"
      using IH by auto
    have "\<exists>f. flt' = flt @ f \<and> distinct f \<and>
        set f = set (c # cs) - set bc - set (pw_want_blocks pw) - set (pw_want_haves pw)"
      using f False by (intro exI[of _ "c # f"]) auto
    then show ?thesis using IH False by (auto simp: index_of_entry)
  qed
qed simp

text \<open>What \<open>send_wants\<close> records and what it sends, for a peer that is known.\<close>

lemma send_wants_ok:
  assumes wf: "pwm_wf s" and get: "map_of (pm_peer_wants s) peer = Some pw"
    and res: "PeerWantManager_send_wants peer wbs whs s = (s', cmds)"
  shows "pwm_wf s'"
    and "sent_blocks s' p = sent_blocks s p \<union> (if p = peer then set wbs else {})"
    and "sent_haves s' p = (if p = peer
      then (sent_haves s p - set wbs) \<union> (set whs - set (pm_broadcast_wants s) - sent_blocks s p - set wbs)
      else sent_haves s p)"
    and "\<exists>fb fh. cmds = (if fb \<noteq> [] \<or> fh \<noteq> [] then [AddWants peer fb fh] else []) \<and>
      distinct fb \<and> set fb = set wbs - sent_blocks s peer \<and>
      distinct fh \<and> set fh = set whs - set (pm_broadcast_wants s) - sent_blocks s peer - set wbs - sent_haves s peer"
    and "pm_broadcast_wants s' = pm_broadcast_wants s"
proof -
  have sent: "sent_blocks s peer = set (pw_want_blocks pw)" "sent_haves s peer = set (pw_want_haves pw)"
    using sent_lookup(1,2)[OF get] by simp_all
  have disj: "set (pw_want_blocks pw) \<inter> set (pw_want_haves pw) = {}"
    using pwm_wfD(2)[OF wf, of peer] sent by simp
  have ne: "index_ne (pm_want_peers s)" using pwm_wfD(4)[OF wf] by (simp add: index_ne_def)
  obtain pw1 idx1 fb where 1: "fold (send_want_block peer) wbs (pw, pm_want_peers s, []) = (pw1, idx1, fb)"
    by (metis prod_cases3)
  obtain pw2 idx2 fh where 2: "fold (send_want_have (pm_broadcast_wants s) peer) whs (pw1, idx1, []) = (pw2, idx2, fh)"
    by (metis prod_cases3)
  have s': "s' = s\<lparr>pm_peer_wants := hm_insert peer pw2 (pm_peer_wants s), pm_want_peers := idx2\<rparr>"
    and cmds: "cmds = (if fb \<noteq> [] \<or> fh \<noteq> [] then [AddWants peer fb fh] else [])"
    using res get 1 2 by (simp_all add: PeerWantManager_send_wants_def)
  note f1 = send_want_block_fold[OF disj ne 1]
  have ne1: "index_ne idx1" and b1: "set (pw_want_blocks pw1) = sent_blocks s peer \<union> set wbs"
    and h1: "set (pw_want_haves pw1) = sent_haves s peer - set wbs"
    using f1[THEN conjunct2, THEN conjunct2, THEN conjunct1] f1[THEN conjunct1] f1[THEN conjunct2, THEN conjunct1]
    unfolding sent .
  have fb: "distinct fb" "set fb = set wbs - sent_blocks s peer"
    using f1[THEN conjunct2, THEN conjunct2, THEN conjunct2, THEN conjunct2] unfolding sent by auto
  note f2 = send_want_have_fold[OF ne1 2]
  have b2: "pw_want_blocks pw2 = pw_want_blocks pw1" and ne2: "index_ne idx2"
    and h2: "set (pw_want_haves pw2) = set (pw_want_haves pw1) \<union>
      (set whs - set (pm_broadcast_wants s) - set (pw_want_blocks pw1))"
    using f2[THEN conjunct1] f2[THEN conjunct2, THEN conjunct2, THEN conjunct1] f2[THEN conjunct2, THEN conjunct1]
    .
  have fh: "distinct fh" "set fh = set whs - set (pm_broadcast_wants s) - set (pw_want_blocks pw1) - set (pw_want_haves pw1)"
    using f2[THEN conjunct2, THEN conjunct2, THEN conjunct2, THEN conjunct2] by auto
  show blocks: "sent_blocks s' p = sent_blocks s p \<union> (if p = peer then set wbs else {})" for p
    using b1 b2 by (simp add: sent_blocks_def s')
  show haves: "sent_haves s' p = (if p = peer
      then (sent_haves s p - set wbs) \<union> (set whs - set (pm_broadcast_wants s) - sent_blocks s p - set wbs)
      else sent_haves s p)" for p
  proof (cases "p = peer")
    case True
    then have "sent_haves s' p = set (pw_want_haves pw2)" by (simp add: sent_haves_def s')
    then show ?thesis unfolding h2 h1 b1 using True by auto
  next
    case False
    then show ?thesis by (simp add: sent_haves_def s')
  qed
  have "set fh = set whs - set (pm_broadcast_wants s) - sent_blocks s peer - set wbs - sent_haves s peer"
    unfolding fh(2) b1 h1 by blast
  then show "\<exists>fb fh. cmds = (if fb \<noteq> [] \<or> fh \<noteq> [] then [AddWants peer fb fh] else []) \<and>
      distinct fb \<and> set fb = set wbs - sent_blocks s peer \<and>
      distinct fh \<and> set fh = set whs - set (pm_broadcast_wants s) - sent_blocks s peer - set wbs - sent_haves s peer"
    using fb fh(1) cmds by blast
  show "pm_broadcast_wants s' = pm_broadcast_wants s" by (simp add: s')
  show "pwm_wf s'"
  proof (rule pwm_wfI)
    show "hm_wf (pm_peer_wants s')" using pwm_wfD(1)[OF wf] by (simp add: s')
    show "sent_blocks s' p \<inter> sent_haves s' p = {}" for p
      using pwm_wfD(2)[OF wf, of p] unfolding blocks haves by auto
    have idx: "index_of (pm_want_peers s') c = index_of (pm_want_peers s) c \<union>
        (if c \<in> set wbs - sent_blocks s peer then {peer} else {}) \<union>
        (if c \<in> set fh then {peer} else {})" for c
    proof -
      have "index_of idx1 c = index_of (pm_want_peers s) c \<union>
          (if c \<in> set wbs - sent_blocks s peer then {peer} else {})"
        using f1[THEN conjunct2, THEN conjunct2, THEN conjunct2, THEN conjunct1, rule_format, of c] unfolding sent .
      moreover have "index_of idx2 c = index_of idx1 c \<union> (if c \<in> set fh then {peer} else {})"
        using f2[THEN conjunct2, THEN conjunct2, THEN conjunct2, THEN conjunct1, rule_format, of c] unfolding fh(2) .
      ultimately show ?thesis by (simp add: s')
    qed
    show "p \<in> index_of (pm_want_peers s') c \<longleftrightarrow> c \<in> sent_blocks s' p \<or> c \<in> sent_haves s' p" for c p
    proof (cases "p = peer")
      case True
      then show ?thesis using pwm_wfD(3)[OF wf, of peer c] by (simp add: idx blocks haves fh(2) b1 h1) blast
    next
      case False
      then show ?thesis using pwm_wfD(3)[OF wf, of p c] by (simp add: idx blocks haves)
    qed
    show "map_of (pm_want_peers s') c \<noteq> Some []" for c
      using ne2 by (simp add: s' index_ne_def)
  qed
qed

subsection \<open>Cancelling wants\<close>

lemma cancel_one_step:
  "c \<notin> set (pw_want_blocks pw) \<and> c \<notin> set (pw_want_haves pw) \<Longrightarrow> cancel_one bc c (pw, tc) = (pw, tc)"
  "\<not> (c \<notin> set (pw_want_blocks pw) \<and> c \<notin> set (pw_want_haves pw)) \<Longrightarrow> cancel_one bc c (pw, tc) =
     (pw\<lparr>pw_want_blocks := hs_remove c (pw_want_blocks pw), pw_want_haves := hs_remove c (pw_want_haves pw)\<rparr>,
      if c \<notin> set bc then hs_insert c tc else tc)"
  by (auto simp: cancel_one_def)

lemma cancel_one_fold:
  assumes "fold (cancel_one bc) cs (pw, tc) = (pw', tc')"
  shows "set (pw_want_blocks pw') = set (pw_want_blocks pw) - set cs \<and>
    set (pw_want_haves pw') = set (pw_want_haves pw) - set cs \<and>
    set tc' = set tc \<union> {c \<in> set cs. c \<notin> set bc \<and> c \<in> set (pw_want_blocks pw) \<union> set (pw_want_haves pw)}"
  using assms
proof (induction cs arbitrary: pw tc)
  case (Cons c cs)
  show ?case
  proof (cases "c \<notin> set (pw_want_blocks pw) \<and> c \<notin> set (pw_want_haves pw)")
    case True
    then have "fold (cancel_one bc) cs (pw, tc) = (pw', tc')" using Cons.prems by (simp add: cancel_one_step)
    from Cons.IH[OF this] True show ?thesis by auto
  next
    case False
    then have "fold (cancel_one bc) cs
        (pw\<lparr>pw_want_blocks := hs_remove c (pw_want_blocks pw), pw_want_haves := hs_remove c (pw_want_haves pw)\<rparr>,
         if c \<notin> set bc then hs_insert c tc else tc) = (pw', tc')"
      using Cons.prems by (simp add: cancel_one_step)
    from Cons.IH[OF this] False show ?thesis by (auto split: if_splits)
  qed
qed simp

text \<open>What the queue of a peer is told, given what was sent to it.\<close>

definition cancels_for :: "'cid list \<Rightarrow> 'cid list \<Rightarrow> 'cid peer_want \<Rightarrow> 'cid set" where
  "cancels_for bc cs pw = {c \<in> set cs. c \<in> set bc \<or> c \<in> set (pw_want_blocks pw) \<union> set (pw_want_haves pw)}"

lemma cancel_peer_spec:
  assumes "cancel_peer bc (hs_of_list (filter (\<lambda>c. c \<in> set bc) cs)) cs qs p pw = (pw', out)"
  shows "set (pw_want_blocks pw') = set (pw_want_blocks pw) - set cs"
    and "set (pw_want_haves pw') = set (pw_want_haves pw) - set cs"
    and "\<exists>tc. set tc = cancels_for bc cs pw \<and>
      out = (if tc \<noteq> [] \<and> p \<in> set qs then [AddCancels p tc] else [])"
proof -
  obtain pw1 tc where f: "fold (cancel_one bc) cs (pw, hs_of_list (filter (\<lambda>c. c \<in> set bc) cs)) = (pw1, tc)"
    by fastforce
  then have eq: "pw' = pw1" "out = (if tc \<noteq> [] \<and> p \<in> set qs then [AddCancels p tc] else [])"
    using assms by (simp_all add: cancel_peer_def)
  note spec = cancel_one_fold[OF f]
  show "set (pw_want_blocks pw') = set (pw_want_blocks pw) - set cs"
    "set (pw_want_haves pw') = set (pw_want_haves pw) - set cs"
    using spec eq by simp_all
  have "set tc = cancels_for bc cs pw" using spec by (auto simp: cancels_for_def)
  then show "\<exists>tc. set tc = cancels_for bc cs pw \<and>
      out = (if tc \<noteq> [] \<and> p \<in> set qs then [AddCancels p tc] else [])" using eq(2) by blast
qed

lemma send_cancels_fold:
  assumes "distinct peers" and "hm_wf m"
    and "fold (send_cancels_step bc bcc cs qs) peers (m, cmds) = (m', cmds')"
  shows "hm_wf m' \<and>
    (\<forall>p. map_of m' p = (if p \<in> set peers then map_option (\<lambda>pw. fst (cancel_peer bc bcc cs qs p pw)) (map_of m p)
                        else map_of m p)) \<and>
    cmds' = cmds @ concat (map (\<lambda>p. case map_of m p of None \<Rightarrow> []
                                     | Some pw \<Rightarrow> snd (cancel_peer bc bcc cs qs p pw)) peers)"
  using assms
proof (induction peers arbitrary: m cmds)
  case (Cons q peers)
  show ?case
  proof (cases "map_of m q")
    case None
    then have "fold (send_cancels_step bc bcc cs qs) peers (m, cmds) = (m', cmds')"
      using Cons.prems(3) by (simp add: send_cancels_step_def[of bc bcc cs qs q])
    from Cons.IH[OF _ Cons.prems(2) this] Cons.prems(1) None show ?thesis by auto
  next
    case (Some pw)
    obtain pw' out where c: "cancel_peer bc bcc cs qs q pw = (pw', out)" by fastforce
    have rec: "fold (send_cancels_step bc bcc cs qs) peers (hm_insert q pw' m, cmds @ out) = (m', cmds')"
      using Cons.prems(3) Some c by (simp add: send_cancels_step_def[of bc bcc cs qs q])
    have other: "map_of (hm_insert q pw' m) p = map_of m p" if "p \<in> set peers" for p
      using that Cons.prems(1) by auto
    have same: "map (\<lambda>p. case map_of (hm_insert q pw' m) p of None \<Rightarrow> []
            | Some pw \<Rightarrow> snd (cancel_peer bc bcc cs qs p pw)) peers =
        map (\<lambda>p. case map_of m p of None \<Rightarrow> [] | Some pw \<Rightarrow> snd (cancel_peer bc bcc cs qs p pw)) peers"
      by (rule map_cong[OF refl]) (simp only: other)
    note IH = Cons.IH[OF _ hm_wf_insert[OF Cons.prems(2)] rec, unfolded same]
    show ?thesis using IH Cons.prems(1) Some c by auto
  qed
qed simp

lemma fold_hm_remove_index: "map_of (fold hm_remove ks m) k = (if k \<in> set ks then None else map_of m k)"
  by (induction ks arbitrary: m) auto

text \<open>
  The loop over the peers visits every peer that anything is to be cancelled for: all of them when a
  broadcast want is cancelled, and otherwise those the index lists.
\<close>

definition cancel_peers :: "'cid list \<Rightarrow> ('cid, 'peer) peer_want_manager \<Rightarrow> 'peer list" where
  "cancel_peers cs s =
     (if hs_of_list (filter (\<lambda>c. c \<in> set (pm_broadcast_wants s)) cs) = []
      then hs_of_list (concat (map (\<lambda>c. case map_of (pm_want_peers s) c of None \<Rightarrow> [] | Some ps \<Rightarrow> ps) cs))
      else map fst (pm_peer_wants s))"

lemma cancel_peers_complete:
  assumes wf: "pwm_wf s" and get: "map_of (pm_peer_wants s) p = Some pw" and p: "p \<notin> set (cancel_peers cs s)"
  shows "cancels_for (pm_broadcast_wants s) cs pw = {}"
    and "set (pw_want_blocks pw) - set cs = set (pw_want_blocks pw)"
    and "set (pw_want_haves pw) - set cs = set (pw_want_haves pw)"
proof -
  let ?bcc = "hs_of_list (filter (\<lambda>c. c \<in> set (pm_broadcast_wants s)) cs)"
  have "?bcc = []" using p hm_get_key[OF get] by (auto simp: cancel_peers_def split: if_splits)
  then have bc: "c \<notin> set (pm_broadcast_wants s)" if "c \<in> set cs" for c
    using that set_hs_of_list[of "filter (\<lambda>c. c \<in> set (pm_broadcast_wants s)) cs"] by auto
  have "p \<notin> index_of (pm_want_peers s) c" if "c \<in> set cs" for c
    using p \<open>?bcc = []\<close> that by (auto simp: cancel_peers_def index_of_def split: option.splits)
  then have sent: "c \<notin> set (pw_want_blocks pw)" "c \<notin> set (pw_want_haves pw)" if "c \<in> set cs" for c
    using that pwm_wfD(3)[OF wf, of p c] sent_lookup(1,2)[OF get] by auto
  show "cancels_for (pm_broadcast_wants s) cs pw = {}" using bc sent by (auto simp: cancels_for_def)
  show "set (pw_want_blocks pw) - set cs = set (pw_want_blocks pw)"
    "set (pw_want_haves pw) - set cs = set (pw_want_haves pw)" using sent by auto
qed

lemma send_cancels_ok:
  assumes wf: "pwm_wf s" and res: "PeerWantManager_send_cancels cs qs s = (s', cmds)" and ne: "cs \<noteq> []"
  shows "hm_wf (pm_peer_wants s')"
    and "pm_broadcast_wants s' = filter (\<lambda>c. c \<notin> set cs) (pm_broadcast_wants s)"
    and "pm_want_peers s' = fold hm_remove cs (pm_want_peers s)"
    and "map_of (pm_peer_wants s) p = None \<Longrightarrow> map_of (pm_peer_wants s') p = None"
    and "map_of (pm_peer_wants s) p = Some pw \<Longrightarrow> \<exists>pw'. map_of (pm_peer_wants s') p = Some pw' \<and>
      set (pw_want_blocks pw') = set (pw_want_blocks pw) - set cs \<and>
      set (pw_want_haves pw') = set (pw_want_haves pw) - set cs"
    and "AddCancels p tc \<in> set cmds \<Longrightarrow> \<exists>pw. map_of (pm_peer_wants s) p = Some pw \<and> p \<in> set qs \<and> tc \<noteq> [] \<and>
      set tc = cancels_for (pm_broadcast_wants s) cs pw"
    and "p \<in> set qs \<Longrightarrow> map_of (pm_peer_wants s) p = Some pw \<Longrightarrow>
      cancels_for (pm_broadcast_wants s) cs pw \<noteq> {} \<Longrightarrow> \<exists>tc. AddCancels p tc \<in> set cmds"
proof -
  let ?bc = "pm_broadcast_wants s" and ?m = "pm_peer_wants s" and ?ps = "cancel_peers cs s"
  let ?bcc = "hs_of_list (filter (\<lambda>c. c \<in> set ?bc) cs)"
  obtain m' cmds' where f: "fold (send_cancels_step ?bc ?bcc cs qs) ?ps (?m, []) = (m', cmds')" by fastforce
  have s': "s' = s\<lparr>pm_peer_wants := m', pm_broadcast_wants := filter (\<lambda>c. c \<notin> set ?bcc) ?bc,
      pm_want_peers := fold hm_remove cs (pm_want_peers s)\<rparr>" and cmds: "cmds = cmds'"
    using res f ne by (simp_all add: PeerWantManager_send_cancels_def cancel_peers_def Let_def)
  have "distinct ?ps" using pwm_wfD(1)[OF wf] by (simp add: cancel_peers_def)
  note fold = send_cancels_fold[OF this pwm_wfD(1)[OF wf] f]
  show "hm_wf (pm_peer_wants s')" using fold by (simp add: s')
  show "pm_broadcast_wants s' = filter (\<lambda>c. c \<notin> set cs) ?bc" by (auto simp: s' intro!: filter_cong)
  show "pm_want_peers s' = fold hm_remove cs (pm_want_peers s)" by (simp add: s')
  have get': "map_of (pm_peer_wants s') p = (if p \<in> set ?ps
      then map_option (\<lambda>pw. fst (cancel_peer ?bc ?bcc cs qs p pw)) (map_of ?m p) else map_of ?m p)" for p
    using fold by (simp add: s')
  then show "map_of ?m p = None \<Longrightarrow> map_of (pm_peer_wants s') p = None" by simp
  have cmd: "AddCancels p tc \<in> set cmds \<longleftrightarrow> (\<exists>q \<in> set ?ps. \<exists>pw. map_of ?m q = Some pw \<and>
      AddCancels p tc \<in> set (snd (cancel_peer ?bc ?bcc cs qs q pw)))" for tc p
  proof -
    let ?F = "\<lambda>q. case map_of ?m q of None \<Rightarrow> [] | Some pw \<Rightarrow> snd (cancel_peer ?bc ?bcc cs qs q pw)"
    have "set cmds = (\<Union>q \<in> set ?ps. set (?F q))" using fold by (simp add: cmds)
    moreover have "x \<in> set (?F q) \<longleftrightarrow> (\<exists>pw. map_of ?m q = Some pw \<and>
        x \<in> set (snd (cancel_peer ?bc ?bcc cs qs q pw)))" for q x
      by (cases "map_of ?m q") simp_all
    ultimately show ?thesis by blast
  qed
  show "\<exists>pw'. map_of (pm_peer_wants s') p = Some pw' \<and>
      set (pw_want_blocks pw') = set (pw_want_blocks pw) - set cs \<and>
      set (pw_want_haves pw') = set (pw_want_haves pw) - set cs" if get: "map_of ?m p = Some pw"
  proof (cases "p \<in> set ?ps")
    case True
    then show ?thesis
      using get get'[of p] cancel_peer_spec(1,2)[of ?bc cs qs p pw] by (metis option.simps(9) prod.collapse)
  next
    case False
    then show ?thesis using get get'[of p] cancel_peers_complete(2,3)[OF wf get False] by simp
  qed
  show "\<exists>pw. map_of ?m p = Some pw \<and> p \<in> set qs \<and> tc \<noteq> [] \<and> set tc = cancels_for ?bc cs pw"
    if sent: "AddCancels p tc \<in> set cmds"
  proof -
    obtain q pw where q: "map_of ?m q = Some pw" "AddCancels p tc \<in> set (snd (cancel_peer ?bc ?bcc cs qs q pw))"
      using sent unfolding cmd by blast
    obtain tc' where tc': "set tc' = cancels_for ?bc cs pw"
      "snd (cancel_peer ?bc ?bcc cs qs q pw) = (if tc' \<noteq> [] \<and> q \<in> set qs then [AddCancels q tc'] else [])"
      using cancel_peer_spec(3)[of ?bc cs qs q pw] by (metis prod.collapse)
    then show ?thesis using q by (auto split: if_splits)
  qed
  show "\<exists>tc. AddCancels p tc \<in> set cmds"
    if p: "p \<in> set qs" and get: "map_of ?m p = Some pw" and some: "cancels_for ?bc cs pw \<noteq> {}"
  proof -
    obtain tc' where tc': "set tc' = cancels_for ?bc cs pw"
      "snd (cancel_peer ?bc ?bcc cs qs p pw) = (if tc' \<noteq> [] \<and> p \<in> set qs then [AddCancels p tc'] else [])"
      using cancel_peer_spec(3)[of ?bc cs qs p pw] by (metis prod.collapse)
    moreover have "p \<in> set ?ps" using cancel_peers_complete(1)[OF wf get] some by blast
    ultimately have "AddCancels p tc' \<in> set cmds" unfolding cmd using p get some
      by (intro bexI[of _ p] exI[of _ pw] conjI) auto
    then show ?thesis by blast
  qed
qed

lemma send_cancels_wf:
  assumes wf: "pwm_wf s" and res: "PeerWantManager_send_cancels cs qs s = (s', cmds)"
  shows "pwm_wf s'"
    and "sent_blocks s' p = sent_blocks s p - set cs" and "sent_haves s' p = sent_haves s p - set cs"
proof -
  have "pwm_wf s' \<and> (\<forall>p. sent_blocks s' p = sent_blocks s p - set cs \<and> sent_haves s' p = sent_haves s p - set cs)"
  proof (cases "cs = []")
    case True
    then show ?thesis using res wf by (simp add: PeerWantManager_send_cancels_def)
  next
    case False
    note ok = send_cancels_ok[OF wf res False]
    have blocks: "sent_blocks s' p = sent_blocks s p - set cs" for p
      using ok(4,5)[of p] by (cases "map_of (pm_peer_wants s) p") (auto simp: sent_blocks_def)
    have haves: "sent_haves s' p = sent_haves s p - set cs" for p
      using ok(4,5)[of p] by (cases "map_of (pm_peer_wants s) p") (auto simp: sent_haves_def)
    have idx: "index_of (pm_want_peers s') c = (if c \<in> set cs then {} else index_of (pm_want_peers s) c)" for c
      by (simp add: index_of_def ok(3) fold_hm_remove_index)
    have "pwm_wf s'"
    proof (rule pwm_wfI)
      show "p \<in> index_of (pm_want_peers s') c \<longleftrightarrow> c \<in> sent_blocks s' p \<or> c \<in> sent_haves s' p" for c p
        using pwm_wfD(3)[OF wf, of p c] by (simp add: idx blocks haves)
      show "sent_blocks s' p \<inter> sent_haves s' p = {}" for p
        using pwm_wfD(2)[OF wf, of p] unfolding blocks haves by blast
      show "map_of (pm_want_peers s') c \<noteq> Some []" for c
        using pwm_wfD(4)[OF wf, of c] by (simp add: ok(3) fold_hm_remove_index)
    qed (rule ok(1))
    with blocks haves show ?thesis by simp
  qed
  then show "pwm_wf s'" "sent_blocks s' p = sent_blocks s p - set cs" "sent_haves s' p = sent_haves s p - set cs"
    by simp_all
qed

subsection \<open>Reachable states and properties\<close>

inductive pwm_reachable :: "('cid, 'peer) peer_want_manager \<Rightarrow> bool" where
  "pwm_reachable PeerWantManager_default"
| "pwm_reachable s \<Longrightarrow> pwm_reachable (fst (PeerWantManager_add_peer peer s))"
| "pwm_reachable s \<Longrightarrow> pwm_reachable (PeerWantManager_remove_peer peer s)"
| "pwm_reachable s \<Longrightarrow> pwm_reachable (fst (broadcast_want_haves whs qs s))"
| "pwm_reachable s \<Longrightarrow> pwm_reachable (fst (PeerWantManager_send_wants peer wbs whs s))"
| "pwm_reachable s \<Longrightarrow> pwm_reachable (fst (PeerWantManager_send_cancels cs qs s))"

lemma pwm_reachable_wf: "pwm_reachable s \<Longrightarrow> pwm_wf s"
proof (induction rule: pwm_reachable.induct)
  case (5 s peer wbs whs)
  show ?case
  proof (cases "map_of (pm_peer_wants s) peer")
    case None
    then show ?thesis using 5 by (simp add: PeerWantManager_send_wants_def)
  next
    case (Some pw)
    then show ?thesis using send_wants_ok(1)[OF 5(2) Some, of wbs whs] by (metis prod.collapse)
  qed
next
  case (6 s cs qs)
  then show ?case using send_cancels_wf(1)[OF 6(2), of cs qs] by (metis prod.collapse)
qed (simp_all add: pwm_wf_default add_peer_wf remove_peer_wf broadcast_wf)

text \<open>
  C23: In every reachable state the index of peers by CID is exactly the reverse of the wants recorded per
  peer, no want is recorded both as a want-block and as a want-have, and the list of all wants is the
  union of the broadcast wants and the wants of the peers.
\<close>

theorem PeerWantManager_index:
  assumes "pwm_reachable s"
  shows "sent_blocks s p \<inter> sent_haves s p = {} \<and>
    (p \<in> index_of (pm_want_peers s) c \<longleftrightarrow> c \<in> sent_blocks s p \<or> c \<in> sent_haves s p) \<and>
    set (get_wants s) = set (pm_broadcast_wants s) \<union> (\<Union>p. sent_blocks s p \<union> sent_haves s p)"
proof -
  have wf: "pwm_wf s" by (rule pwm_reachable_wf[OF assms])
  have "c \<in> hm_keys (pm_want_peers s) \<longleftrightarrow> (\<exists>p. p \<in> index_of (pm_want_peers s) c)" for c
  proof (cases "map_of (pm_want_peers s) c")
    case None
    then show ?thesis by (simp add: index_of_def hm_get_None)
  next
    case (Some ps)
    then have "ps \<noteq> []" using pwm_wfD(4)[OF wf, of c] by auto
    then show ?thesis using hm_get_key[OF Some] Some by (auto simp: index_of_def intro: list.set_sel(1))
  qed
  then have keys: "hm_keys (pm_want_peers s) = (\<Union>p. sent_blocks s p \<union> sent_haves s p)"
    using pwm_wfD(3)[OF wf] by (intro set_eqI) (simp only: UN_iff Un_iff UNIV_I, blast)
  show ?thesis
    using pwm_wfD(2,3)[OF wf] keys by (simp add: get_wants_def)
qed

text \<open>
  C25: \<open>send_wants\<close> never repeats itself: the queue of the peer is told of exactly the want-blocks that were
  not yet sent to it as want-blocks, and of exactly the want-haves that are neither broadcast nor sent to
  it in any form, each once; both are then recorded, and an upgraded want-have becomes a want-block.
\<close>

theorem PeerWantManager_send_wants_no_repeat:
  assumes "pwm_reachable s" and "peer \<in> hm_keys (pm_peer_wants s)"
  shows "\<exists>fb fh. snd (PeerWantManager_send_wants peer wbs whs s) =
        (if fb \<noteq> [] \<or> fh \<noteq> [] then [AddWants peer fb fh] else []) \<and>
      distinct fb \<and> set fb = set wbs - sent_blocks s peer \<and>
      distinct fh \<and> set fh = set whs - set (pm_broadcast_wants s) - sent_blocks s peer - set wbs - sent_haves s peer \<and>
      sent_blocks (fst (PeerWantManager_send_wants peer wbs whs s)) peer = sent_blocks s peer \<union> set fb \<and>
      sent_haves (fst (PeerWantManager_send_wants peer wbs whs s)) peer = (sent_haves s peer - set fb) \<union> set fh"
proof -
  have wf: "pwm_wf s" by (rule pwm_reachable_wf[OF assms(1)])
  obtain pw where get: "map_of (pm_peer_wants s) peer = Some pw" using assms(2) by (auto simp: hm_keys_dom)
  obtain s' cmds where res: "PeerWantManager_send_wants peer wbs whs s = (s', cmds)" by fastforce
  note ok = send_wants_ok[OF wf get res]
  have disj: "sent_blocks s peer \<inter> sent_haves s peer = {}" by (rule pwm_wfD(2)[OF wf])
  obtain fb fh where f: "cmds = (if fb \<noteq> [] \<or> fh \<noteq> [] then [AddWants peer fb fh] else [])"
    "distinct fb" "set fb = set wbs - sent_blocks s peer" "distinct fh"
    "set fh = set whs - set (pm_broadcast_wants s) - sent_blocks s peer - set wbs - sent_haves s peer"
    using ok(4) by blast
  have "sent_blocks s' peer = sent_blocks s peer \<union> set fb" using ok(2)[of peer] f(3) by auto
  moreover have "sent_haves s' peer = (sent_haves s peer - set fb) \<union> set fh"
    using ok(3)[of peer] f(3,5) disj by auto
  ultimately show ?thesis using f res by (intro exI[of _ fb] exI[of _ fh]) simp
qed

text \<open>
  C24: After \<open>send_cancels\<close> none of the cancelled wants is recorded for any peer or as a broadcast, all other
  wants are untouched, and a cancel goes to exactly the connected peers that were sent one of the wants
  (all known peers for a broadcast want), listing exactly the wants that were sent to that peer.
\<close>

theorem PeerWantManager_send_cancels_exact:
  assumes "pwm_reachable s" and "PeerWantManager_send_cancels cs qs s = (s', cmds)"
  shows "sent_blocks s' p = sent_blocks s p - set cs \<and> sent_haves s' p = sent_haves s p - set cs \<and>
    set (pm_broadcast_wants s') = set (pm_broadcast_wants s) - set cs \<and>
    (\<forall>tc. AddCancels p tc \<in> set cmds \<longrightarrow> p \<in> set qs \<and> p \<in> hm_keys (pm_peer_wants s) \<and>
       set tc = {c \<in> set cs. c \<in> set (pm_broadcast_wants s) \<or> c \<in> sent_blocks s p \<or> c \<in> sent_haves s p}) \<and>
    (p \<in> set qs \<and> p \<in> hm_keys (pm_peer_wants s) \<and>
       (\<exists>c \<in> set cs. c \<in> set (pm_broadcast_wants s) \<or> c \<in> sent_blocks s p \<or> c \<in> sent_haves s p) \<longrightarrow>
     (\<exists>tc. AddCancels p tc \<in> set cmds))"
proof -
  have wf: "pwm_wf s" by (rule pwm_reachable_wf[OF assms(1)])
  have for_p: "cancels_for (pm_broadcast_wants s) cs pw =
      {c \<in> set cs. c \<in> set (pm_broadcast_wants s) \<or> c \<in> sent_blocks s p \<or> c \<in> sent_haves s p}"
    if "map_of (pm_peer_wants s) p = Some pw" for pw
    using sent_lookup(1,2)[OF that] by (simp add: cancels_for_def)
  show ?thesis
  proof (cases "cs = []")
    case True
    then show ?thesis using assms(2) by (simp add: PeerWantManager_send_cancels_def)
  next
    case False
    note ok = send_cancels_ok[OF wf assms(2) False]
    have "\<exists>tc. AddCancels p tc \<in> set cmds"
      if h: "p \<in> set qs" "p \<in> hm_keys (pm_peer_wants s)"
        "\<exists>c \<in> set cs. c \<in> set (pm_broadcast_wants s) \<or> c \<in> sent_blocks s p \<or> c \<in> sent_haves s p"
    proof -
      obtain pw where pw: "map_of (pm_peer_wants s) p = Some pw" using h(2) by (auto simp: hm_keys_dom)
      then show ?thesis using ok(7)[OF h(1) pw] for_p[OF pw] h(3) by blast
    qed
    moreover have "p \<in> set qs \<and> p \<in> hm_keys (pm_peer_wants s) \<and>
        set tc = {c \<in> set cs. c \<in> set (pm_broadcast_wants s) \<or> c \<in> sent_blocks s p \<or> c \<in> sent_haves s p}"
      if sent: "AddCancels p tc \<in> set cmds" for tc
    proof -
      obtain pw where pw: "map_of (pm_peer_wants s) p = Some pw" and "p \<in> set qs"
        "set tc = cancels_for (pm_broadcast_wants s) cs pw" using ok(6)[OF sent] by blast
      then show ?thesis using for_p[OF pw] hm_get_key[OF pw] by simp
    qed
    ultimately show ?thesis using send_cancels_wf(2,3)[OF wf assms(2)] ok(2) by auto
  qed
qed

definition demo_pwm :: "(nat, nat) peer_want_manager" where
  "demo_pwm = fst (PeerWantManager_send_wants 1 [7] [8] (fst (PeerWantManager_add_peer 1 PeerWantManager_default)))"

lemma demo_pwm_reachable: "pwm_reachable demo_pwm"
  unfolding demo_pwm_def by (intro pwm_reachable.intros)

lemmas demo_pwm_simps = demo_pwm_def PeerWantManager_send_wants_def PeerWantManager_add_peer_def
  PeerWantManager_default_def send_want_block_def send_want_have_def List.insert_def

theorem PeerWantManager_index_witness: "1 \<in> index_of (pm_want_peers demo_pwm) 7"
  using PeerWantManager_index[OF demo_pwm_reachable, of 1 7]
  by (simp add: sent_blocks_def demo_pwm_simps)

theorem PeerWantManager_send_wants_no_repeat_witness:
  "\<exists>fb fh. snd (PeerWantManager_send_wants 1 [7, 9] [] demo_pwm) =
     (if fb \<noteq> [] \<or> fh \<noteq> [] then [AddWants 1 fb fh] else []) \<and> set fb = {9}"
proof -
  have "1 \<in> hm_keys (pm_peer_wants demo_pwm)" "set [7, 9] - sent_blocks demo_pwm 1 = {9}"
    by (auto simp: sent_blocks_def demo_pwm_simps)
  then show ?thesis
    using PeerWantManager_send_wants_no_repeat[OF demo_pwm_reachable, of 1 "[7, 9]" "[]"] by metis
qed

theorem PeerWantManager_send_cancels_exact_witness:
  "7 \<notin> sent_blocks (fst (PeerWantManager_send_cancels [7] [1] demo_pwm)) 1"
  using PeerWantManager_send_cancels_exact[OF demo_pwm_reachable, of "[7]" "[1]"
      "fst (PeerWantManager_send_cancels [7] [1] demo_pwm)" "snd (PeerWantManager_send_cancels [7] [1] demo_pwm)" 1]
  by simp

end
