(* ===== verification/DontHaveTimeout.thy ===== *)
theory DontHaveTimeout
  imports Prelude
begin

text \<open>
  The manager of DONT_HAVE timeouts of a message queue
  (\<open>client/message_queue/dont_have_timeout_manager.rs\<close>): want-blocks that were sent and not answered
  are reported as DONT_HAVE once a timeout has passed, and the timeout follows the measured latency.

  Instants and durations are natural numbers of nanoseconds (subtraction of instants saturates at
  zero in Rust as it does on natural numbers). The \<open>f64\<close> computations are left open as the record
  \<open>dur_ops\<close>; \<open>Duration::from_secs_f64\<close> panics on a value it cannot represent, which is \<open>None\<close>. What
  the manager sends into its trigger channel is counted in \<open>dm_triggers\<close>, what it fires is returned.
\<close>

subsection \<open>State\<close>

record 'f dur_ops =
  du_as_secs :: "duration \<Rightarrow> 'f"
  du_from_secs :: "'f \<Rightarrow> duration option"
  du_of_u64 :: "nat \<Rightarrow> 'f"
  du_one :: 'f
  du_add :: "'f \<Rightarrow> 'f \<Rightarrow> 'f"
  du_sub :: "'f \<Rightarrow> 'f \<Rightarrow> 'f"
  du_mul :: "'f \<Rightarrow> 'f \<Rightarrow> 'f"
  du_div :: "'f \<Rightarrow> 'f \<Rightarrow> 'f"
  du_lt :: "'f \<Rightarrow> 'f \<Rightarrow> bool"

definition from_secs :: "nat \<Rightarrow> duration" where
  "from_secs s = s * 1000000000"

definition DONT_HAVE_TIMEOUT :: duration where
  "DONT_HAVE_TIMEOUT = from_secs 5"

definition MAX_EXPECTED_WANT_PROCESS_TIME :: duration where
  "MAX_EXPECTED_WANT_PROCESS_TIME = from_secs 2"

definition MAX_TIMEOUT :: duration where
  "MAX_TIMEOUT = from_secs 7"

definition PING_LATENCY_MULTIPLIER :: "'f dur_ops \<Rightarrow> 'f" where
  "PING_LATENCY_MULTIPLIER fl = du_of_u64 fl 3"

definition MESSAGE_LATENCY_ALPHA :: "'f dur_ops \<Rightarrow> 'f" where
  "MESSAGE_LATENCY_ALPHA fl = du_div fl (du_one fl) (du_of_u64 fl 2)"

definition MESSAGE_LATENCY_MULTIPLIER :: "'f dur_ops \<Rightarrow> 'f" where
  "MESSAGE_LATENCY_MULTIPLIER fl = du_of_u64 fl 2"

record 'cid pending_want =
  pd_cid :: 'cid
  pd_active :: bool
  pd_sent :: instant

record 'f latency_ewma =
  le_alpha :: 'f
  le_samples :: nat
  le_latency :: duration

record ('cid, 'peer, 'f) dh_inner =
  dh_target :: 'peer
  dh_active_wants :: "('cid, 'cid pending_want) hmap"
  dh_want_queue :: "'cid pending_want list"
  dh_timeout :: duration
  dh_message_latency :: "'f latency_ewma"

record ('cid, 'peer, 'f) dh_manager =
  dm_max_timeout :: duration
  dm_message_latency_multiplier :: 'f
  dm_worker :: bool
  dm_triggers :: nat
  dm_inner :: "('cid, 'peer, 'f) dh_inner"

subsection \<open>Latency and timeouts\<close>

definition LatencyEwma_update :: "'f dur_ops \<Rightarrow> duration \<Rightarrow> 'f latency_ewma \<Rightarrow> 'f latency_ewma option" where
  "LatencyEwma_update fl elapsed l =
     (let samples = le_samples l + 1;
          alpha0 = du_div fl (du_one fl) (du_of_u64 fl samples);
          alpha = (if du_lt fl alpha0 (le_alpha l) then le_alpha l else alpha0)
      in case du_from_secs fl (du_add fl (du_mul fl (du_as_secs fl elapsed) alpha)
                (du_mul fl (du_sub fl (du_one fl) alpha) (du_as_secs fl (le_latency l)))) of
           None \<Rightarrow> None
         | Some latency \<Rightarrow> Some (l\<lparr>le_samples := samples, le_latency := latency\<rparr>))"

definition calculate_timeout_from_message_latency ::
    "'f dur_ops \<Rightarrow> duration \<Rightarrow> 'f \<Rightarrow> duration \<Rightarrow> duration option" where
  "calculate_timeout_from_message_latency fl message_latency multiplier max_timeout =
     (case du_from_secs fl (du_mul fl (du_as_secs fl message_latency) multiplier) of
        None \<Rightarrow> None
      | Some timeout \<Rightarrow> Some (if timeout > max_timeout then max_timeout else timeout))"

definition calculate_timeout_from_ping_latency ::
    "'f dur_ops \<Rightarrow> duration \<Rightarrow> duration \<Rightarrow> 'f \<Rightarrow> duration \<Rightarrow> duration option" where
  "calculate_timeout_from_ping_latency fl latency max_expected multiplier max_timeout =
     (case du_from_secs fl (du_add fl (du_as_secs fl max_expected)
                (du_mul fl multiplier (du_as_secs fl latency))) of
        None \<Rightarrow> None
      | Some timeout \<Rightarrow> Some (if timeout > max_timeout then max_timeout else timeout))"

subsection \<open>Operations of the manager\<close>

definition DontHaveTimeoutManager_new :: "'f dur_ops \<Rightarrow> 'peer \<Rightarrow> ('cid, 'peer, 'f) dh_manager" where
  "DontHaveTimeoutManager_new fl target =
     \<lparr>dm_max_timeout = MAX_TIMEOUT,
      dm_message_latency_multiplier = MESSAGE_LATENCY_MULTIPLIER fl,
      dm_worker = False, dm_triggers = 0,
      dm_inner = \<lparr>dh_target = target, dh_active_wants = [], dh_want_queue = [],
                  dh_timeout = DONT_HAVE_TIMEOUT,
                  dh_message_latency = \<lparr>le_alpha = MESSAGE_LATENCY_ALPHA fl, le_samples = 0, le_latency = 0\<rparr>\<rparr>\<rparr>"

definition dh_start :: "('cid, 'peer, 'f) dh_manager \<Rightarrow> ('cid, 'peer, 'f) dh_manager" where
  "dh_start m = (if dm_worker m then m else m\<lparr>dm_worker := True, dm_triggers := 0\<rparr>)"

definition dh_stop :: "('cid, 'peer, 'f) dh_manager \<Rightarrow> ('cid, 'peer, 'f) dh_manager" where
  "dh_stop m = m\<lparr>dm_worker := False\<rparr>"

definition dh_trigger :: "('cid, 'peer, 'f) dh_manager \<Rightarrow> ('cid, 'peer, 'f) dh_manager" where
  "dh_trigger m = (if dm_worker m then m\<lparr>dm_triggers := dm_triggers m + 1\<rparr> else m)"

text \<open>What the worker does with the result of its ping (\<open>None\<close> is an error of the ping).\<close>

definition dh_ping_result ::
    "'f dur_ops \<Rightarrow> duration option \<Rightarrow> ('cid, 'peer, 'f) dh_manager \<Rightarrow> ('cid, 'peer, 'f) dh_manager option" where
  "dh_ping_result fl ping m =
     (case ping of
        None \<Rightarrow> Some m
      | Some latency \<Rightarrow>
          if le_samples (dh_message_latency (dm_inner m)) = 0
          then case calculate_timeout_from_ping_latency fl latency MAX_EXPECTED_WANT_PROCESS_TIME
                      (PING_LATENCY_MULTIPLIER fl) MAX_TIMEOUT of
                 None \<Rightarrow> None
               | Some timeout \<Rightarrow> Some (m\<lparr>dm_inner := (dm_inner m)\<lparr>dh_timeout := timeout\<rparr>,
                                        dm_triggers := dm_triggers m + 1\<rparr>)
          else Some m)"

definition update_message_latency ::
    "'f dur_ops \<Rightarrow> duration \<Rightarrow> ('cid, 'peer, 'f) dh_manager \<Rightarrow> ('cid, 'peer, 'f) dh_manager option" where
  "update_message_latency fl elapsed m =
     (case LatencyEwma_update fl elapsed (dh_message_latency (dm_inner m)) of
        None \<Rightarrow> None
      | Some l \<Rightarrow>
          (case calculate_timeout_from_message_latency fl (le_latency l)
                  (dm_message_latency_multiplier m) (dm_max_timeout m) of
             None \<Rightarrow> None
           | Some timeout \<Rightarrow>
               let old_timeout = dh_timeout (dm_inner m);
                   m' = m\<lparr>dm_inner := (dm_inner m)\<lparr>dh_message_latency := l, dh_timeout := timeout\<rparr>\<rparr>
               in Some (if timeout < old_timeout then dh_trigger m' else m')))"

definition add_pending_one ::
    "instant \<Rightarrow> 'cid \<Rightarrow> ('cid, 'peer, 'f) dh_inner \<Rightarrow> ('cid, 'peer, 'f) dh_inner" where
  "add_pending_one start c i =
     (if c \<notin> hm_keys (dh_active_wants i)
      then let pw = \<lparr>pd_cid = c, pd_active = True, pd_sent = start\<rparr>
           in i\<lparr>dh_active_wants := hm_insert c pw (dh_active_wants i),
                dh_want_queue := dh_want_queue i @ [pw]\<rparr>
      else i)"

definition add_pending ::
    "instant \<Rightarrow> 'cid list \<Rightarrow> ('cid, 'peer, 'f) dh_manager \<Rightarrow> ('cid, 'peer, 'f) dh_manager" where
  "add_pending start pending m =
     (if pending = [] then m
      else let queue_was_empty = (dh_active_wants (dm_inner m) = []);
               m' = m\<lparr>dm_inner := fold (add_pending_one start) pending (dm_inner m)\<rparr>
           in if queue_was_empty then dh_trigger m' else m')"

text \<open>
  The flag is cleared on the entry of the map, which is removed at once; the queue holds its own
  copies of the entries.
\<close>

definition cancel_pending_one :: "'cid \<Rightarrow> ('cid, 'peer, 'f) dh_inner \<Rightarrow> ('cid, 'peer, 'f) dh_inner" where
  "cancel_pending_one c i =
     (case map_of (dh_active_wants i) c of
        None \<Rightarrow> i
      | Some pw \<Rightarrow>
          i\<lparr>dh_active_wants := hm_remove c (hm_insert c (pw\<lparr>pd_active := False\<rparr>) (dh_active_wants i))\<rparr>)"

definition cancel_pending ::
    "'cid list \<Rightarrow> ('cid, 'peer, 'f) dh_manager \<Rightarrow> ('cid, 'peer, 'f) dh_manager" where
  "cancel_pending cancels m = m\<lparr>dm_inner := fold cancel_pending_one cancels (dm_inner m)\<rparr>"

text \<open>
  The loop \<open>while let Some(pw) = self.want_queue.pop()\<close>, on the reversed queue: the rest of the
  queue (reversed), the active wants and the expired keys.
\<close>

fun check_loop ::
    "instant \<Rightarrow> duration \<Rightarrow> 'cid pending_want list \<Rightarrow> ('cid, 'cid pending_want) hmap \<Rightarrow> 'cid list \<Rightarrow>
      'cid pending_want list \<times> ('cid, 'cid pending_want) hmap \<times> 'cid list" where
  "check_loop now timeout [] active expired = ([], active, expired)"
| "check_loop now timeout (pw # q) active expired =
     (if pd_active pw
      then if now - pd_sent pw < timeout then (q, active, expired)
           else check_loop now timeout q (hm_remove (pd_cid pw) active) (expired @ [pd_cid pw])
      else check_loop now timeout q active expired)"

text \<open>The new state, the keys given to \<open>on_dont_have_timeout\<close> and the time until the next check.\<close>

definition check_for_timeouts ::
    "instant \<Rightarrow> ('cid, 'peer, 'f) dh_inner \<Rightarrow>
      ('cid, 'peer, 'f) dh_inner \<times> 'cid list option \<times> duration option" where
  "check_for_timeouts now i =
     (if dh_want_queue i = [] then (i, None, None)
      else let (q, active, expired) = check_loop now (dh_timeout i) (rev (dh_want_queue i)) (dh_active_wants i) [];
               i' = i\<lparr>dh_want_queue := rev q, dh_active_wants := active\<rparr>;
               fired = (if expired \<noteq> [] then Some expired else None)
           in (i', fired,
               case dh_want_queue i' of
                 [] \<Rightarrow> None
               | oldest # _ \<Rightarrow> Some (pd_sent oldest + dh_timeout i' - now)))"

text \<open>One turn of the worker's loop: a trigger is consumed or the delay has elapsed.\<close>

datatype dh_wake = Triggered | DelayElapsed

definition dh_worker_turn ::
    "dh_wake \<Rightarrow> instant \<Rightarrow> ('cid, 'peer, 'f) dh_manager \<Rightarrow>
      ('cid, 'peer, 'f) dh_manager \<times> 'cid list option \<times> instant option" where
  "dh_worker_turn wake now m =
     (let (i, fired, next) = check_for_timeouts now (dm_inner m);
          m' = m\<lparr>dm_inner := i, dm_triggers := (if wake = Triggered then dm_triggers m - 1 else dm_triggers m)\<rparr>
      in (m', fired,
          case next of
            Some n \<Rightarrow> Some (now + n)
          | None \<Rightarrow> (case wake of Triggered \<Rightarrow> None | DelayElapsed \<Rightarrow> Some (now + from_secs (60 * 5)))))"

subsection \<open>Reachable managers\<close>

text \<open>The managers that exist at an instant; operations happen at the instant, and time only grows.\<close>

inductive dh_reachable :: "'f dur_ops \<Rightarrow> instant \<Rightarrow> ('cid, 'peer, 'f) dh_manager \<Rightarrow> bool" for fl where
  dh_new: "dh_reachable fl now (DontHaveTimeoutManager_new fl target)"
| dh_time: "dh_reachable fl t m \<Longrightarrow> t \<le> now \<Longrightarrow> dh_reachable fl now m"
| dh_started: "dh_reachable fl now m \<Longrightarrow> dh_reachable fl now (dh_start m)"
| dh_stopped: "dh_reachable fl now m \<Longrightarrow> dh_reachable fl now (dh_stop m)"
| dh_pinged: "dh_reachable fl now m \<Longrightarrow> dh_ping_result fl ping m = Some m' \<Longrightarrow> dh_reachable fl now m'"
| dh_updated: "dh_reachable fl now m \<Longrightarrow> update_message_latency fl elapsed m = Some m' \<Longrightarrow> dh_reachable fl now m'"
| dh_added: "dh_reachable fl now m \<Longrightarrow> dh_reachable fl now (add_pending now cs m)"
| dh_cancelled: "dh_reachable fl now m \<Longrightarrow> dh_reachable fl now (cancel_pending cs m)"
| dh_turned: "dh_reachable fl now m \<Longrightarrow> dh_reachable fl now (fst (dh_worker_turn wake now m))"

text \<open>
  The invariant: the timeout is capped, the queue is in order of sending, and every entry of the queue
  still has its flag set.
\<close>

definition dh_queue_ok :: "instant \<Rightarrow> 'cid pending_want list \<Rightarrow> bool" where
  "dh_queue_ok now q \<longleftrightarrow>
     sorted (map pd_sent q) \<and> (\<forall>pw \<in> set q. pd_active pw \<and> pd_sent pw \<le> now)"

definition dh_wf :: "instant \<Rightarrow> ('cid, 'peer, 'f) dh_manager \<Rightarrow> bool" where
  "dh_wf now m \<longleftrightarrow>
     dm_max_timeout m = MAX_TIMEOUT \<and> dh_timeout (dm_inner m) \<le> MAX_TIMEOUT \<and>
     hm_wf (dh_active_wants (dm_inner m)) \<and> dh_queue_ok now (dh_want_queue (dm_inner m))"

lemma dh_queue_ok_snoc:
  "dh_queue_ok now q \<Longrightarrow> dh_queue_ok now (q @ [\<lparr>pd_cid = c, pd_active = True, pd_sent = now\<rparr>])"
  by (auto simp: dh_queue_ok_def sorted_append)

lemma dh_queue_ok_take: "dh_queue_ok now q \<Longrightarrow> dh_queue_ok now (take n q)"
  by (auto simp: dh_queue_ok_def take_map[symmetric] dest: in_set_takeD intro: sorted_wrt_take)

lemma dh_queue_ok_later: "dh_queue_ok t q \<Longrightarrow> t \<le> now \<Longrightarrow> dh_queue_ok now q"
  by (fastforce simp: dh_queue_ok_def)

lemma add_pending_fold:
  assumes "hm_wf (dh_active_wants i)" and "dh_queue_ok now (dh_want_queue i)"
  shows "hm_wf (dh_active_wants (fold (add_pending_one now) cs i)) \<and>
    dh_queue_ok now (dh_want_queue (fold (add_pending_one now) cs i)) \<and>
    dh_timeout (fold (add_pending_one now) cs i) = dh_timeout i"
  using assms
proof (induction cs arbitrary: i)
  case (Cons c cs)
  have "hm_wf (dh_active_wants (add_pending_one now c i))" "dh_queue_ok now (dh_want_queue (add_pending_one now c i))"
    "dh_timeout (add_pending_one now c i) = dh_timeout i"
    using Cons.prems by (simp_all add: add_pending_one_def dh_queue_ok_snoc Let_def)
  then show ?case using Cons.IH[of "add_pending_one now c i"] by simp
qed simp

lemma cancel_pending_fold:
  assumes "hm_wf (dh_active_wants i)"
  shows "hm_wf (dh_active_wants (fold cancel_pending_one cs i)) \<and>
    dh_want_queue (fold cancel_pending_one cs i) = dh_want_queue i \<and>
    dh_timeout (fold cancel_pending_one cs i) = dh_timeout i"
  using assms
proof (induction cs arbitrary: i)
  case (Cons c cs)
  have "hm_wf (dh_active_wants (cancel_pending_one c i))"
    "dh_want_queue (cancel_pending_one c i) = dh_want_queue i" "dh_timeout (cancel_pending_one c i) = dh_timeout i"
    using Cons.prems by (simp_all add: cancel_pending_one_def split: option.split)
  then show ?case using Cons.IH[of "cancel_pending_one c i"] by simp
qed simp

text \<open>With the entries in order, one check fires either nothing or the whole queue.\<close>

lemma check_loop_expired:
  assumes "\<forall>pw \<in> set q. pd_active pw \<and> timeout \<le> now - pd_sent pw"
  shows "check_loop now timeout q active expired =
    ([], fold (\<lambda>pw. hm_remove (pd_cid pw)) q active, expired @ map pd_cid q)"
  using assms by (induction q arbitrary: active expired) auto

lemma check_for_timeouts_exact:
  assumes "dh_queue_ok now (dh_want_queue i)" and "dh_want_queue i = q @ [newest]"
  shows "now - pd_sent newest < dh_timeout i \<Longrightarrow>
      check_for_timeouts now i = (i\<lparr>dh_want_queue := q\<rparr>, None,
        case q of [] \<Rightarrow> None | oldest # _ \<Rightarrow> Some (pd_sent oldest + dh_timeout i - now))"
    and "dh_timeout i \<le> now - pd_sent newest \<Longrightarrow>
      check_for_timeouts now i =
        (i\<lparr>dh_want_queue := [], dh_active_wants := fold (\<lambda>pw. hm_remove (pd_cid pw)) (rev (q @ [newest])) (dh_active_wants i)\<rparr>,
         Some (rev (map pd_cid (q @ [newest]))), None)"
proof -
  have active: "pd_active newest" using assms by (simp add: dh_queue_ok_def)
  show "check_for_timeouts now i = (i\<lparr>dh_want_queue := q\<rparr>, None,
        case q of [] \<Rightarrow> None | oldest # _ \<Rightarrow> Some (pd_sent oldest + dh_timeout i - now))"
    if "now - pd_sent newest < dh_timeout i"
    using that active by (simp add: check_for_timeouts_def assms(2) split: list.split)
  show "check_for_timeouts now i =
        (i\<lparr>dh_want_queue := [], dh_active_wants := fold (\<lambda>pw. hm_remove (pd_cid pw)) (rev (q @ [newest])) (dh_active_wants i)\<rparr>,
         Some (rev (map pd_cid (q @ [newest]))), None)"
    if late: "dh_timeout i \<le> now - pd_sent newest"
  proof -
    have "pd_sent pw \<le> pd_sent newest" if "pw \<in> set (q @ [newest])" for pw
      using assms that by (auto simp: dh_queue_ok_def sorted_append)
    then have "\<forall>pw \<in> set (rev (q @ [newest])). pd_active pw \<and> dh_timeout i \<le> now - pd_sent pw"
      using assms late by (fastforce simp: dh_queue_ok_def)
    from check_loop_expired[OF this] show ?thesis
      by (simp add: check_for_timeouts_def assms(2) rev_map)
  qed
qed

lemma hm_wf_remove_all: "hm_wf m \<Longrightarrow> hm_wf (fold (\<lambda>pw. hm_remove (pd_cid pw)) q m)"
  by (induction q arbitrary: m) auto

lemma check_for_timeouts_wf:
  assumes "hm_wf (dh_active_wants i)" and "dh_queue_ok now (dh_want_queue i)"
  shows "hm_wf (dh_active_wants (fst (check_for_timeouts now i)))"
    and "dh_queue_ok now (dh_want_queue (fst (check_for_timeouts now i)))"
    and "dh_timeout (fst (check_for_timeouts now i)) = dh_timeout i"
proof -
  have "hm_wf (dh_active_wants (fst (check_for_timeouts now i))) \<and>
    dh_queue_ok now (dh_want_queue (fst (check_for_timeouts now i))) \<and>
    dh_timeout (fst (check_for_timeouts now i)) = dh_timeout i"
  proof (cases "dh_want_queue i" rule: rev_cases)
    case Nil
    then show ?thesis using assms by (simp add: check_for_timeouts_def)
  next
    case (snoc q newest)
    have q: "dh_queue_ok now q" using dh_queue_ok_take[OF assms(2), of "length q"] snoc by simp
    show ?thesis
    proof (cases "now - pd_sent newest < dh_timeout i")
      case True
      then show ?thesis using check_for_timeouts_exact(1)[OF assms(2) snoc True] assms q by simp
    next
      case False
      then have "dh_timeout i \<le> now - pd_sent newest" by simp
      from check_for_timeouts_exact(2)[OF assms(2) snoc this] show ?thesis
        using assms(1) by (simp add: dh_queue_ok_def hm_wf_remove_all)
    qed
  qed
  then show "hm_wf (dh_active_wants (fst (check_for_timeouts now i)))"
    and "dh_queue_ok now (dh_want_queue (fst (check_for_timeouts now i)))"
    and "dh_timeout (fst (check_for_timeouts now i)) = dh_timeout i" by blast+
qed

lemma dh_reachable_wf: "dh_reachable fl now m \<Longrightarrow> dh_wf now m"
proof (induction rule: dh_reachable.induct)
  case (dh_new now target)
  show ?case by (simp add: dh_wf_def DontHaveTimeoutManager_new_def dh_queue_ok_def DONT_HAVE_TIMEOUT_def
        MAX_TIMEOUT_def from_secs_def)
next
  case (dh_time t m now)
  then show ?case by (auto simp: dh_wf_def intro: dh_queue_ok_later)
next
  case (dh_pinged now m ping m')
  then show ?case
    by (auto simp: dh_ping_result_def dh_wf_def calculate_timeout_from_ping_latency_def
        split: option.splits if_splits)
next
  case (dh_updated now m elapsed m')
  then show ?case
    by (auto simp: update_message_latency_def dh_wf_def calculate_timeout_from_message_latency_def
        dh_trigger_def Let_def split: option.splits if_splits)
next
  case (dh_added now m cs)
  then show ?case using add_pending_fold[of "dm_inner m" now cs]
    by (auto simp: add_pending_def dh_wf_def dh_trigger_def Let_def)
next
  case (dh_cancelled now m cs)
  then show ?case using cancel_pending_fold[of "dm_inner m" cs] by (simp add: cancel_pending_def dh_wf_def)
next
  case (dh_turned now m wake)
  then show ?case using check_for_timeouts_wf[of "dm_inner m" now]
    by (cases "check_for_timeouts now (dm_inner m)") (auto simp: dh_worker_turn_def dh_wf_def)
qed (simp_all add: dh_wf_def dh_start_def dh_stop_def)

subsection \<open>Properties\<close>

text \<open>
  C36: In every reachable state the timeout is at most the maximum, whatever the floating-point results,
  and one check of the timeouts fires everything or nothing: if the newest want of the queue is over
  the timeout, all queued wants are reported, newest first, also those that were cancelled in between;
  otherwise nothing is reported, however old the other wants are, and the newest want leaves the queue
  without being reported although it stays active.
\<close>

theorem check_for_timeouts_all_or_nothing:
  assumes "dh_reachable fl now m" and "dh_want_queue (dm_inner m) = q @ [newest]"
    and "check_for_timeouts now (dm_inner m) = (i, fired, next)"
  shows "dh_timeout (dm_inner m) \<le> MAX_TIMEOUT \<and>
    (if dh_timeout (dm_inner m) \<le> now - pd_sent newest
     then fired = Some (rev (map pd_cid (q @ [newest]))) \<and> dh_want_queue i = [] \<and> next = None \<and>
       hm_keys (dh_active_wants i) = hm_keys (dh_active_wants (dm_inner m)) - pd_cid ` set (q @ [newest])
     else fired = None \<and> dh_want_queue i = q \<and> dh_active_wants i = dh_active_wants (dm_inner m))"
proof -
  have wf: "dh_wf now m" by (rule dh_reachable_wf[OF assms(1)])
  have q: "dh_queue_ok now (dh_want_queue (dm_inner m))" using wf by (simp add: dh_wf_def)
  have keys: "hm_keys (fold (\<lambda>pw. hm_remove (pd_cid pw)) ps a) = hm_keys a - pd_cid ` set ps"
    for ps and a :: "('b, 'b pending_want) hmap"
    by (induction ps arbitrary: a) auto
  show ?thesis
  proof (cases "dh_timeout (dm_inner m) \<le> now - pd_sent newest")
    case True
    from check_for_timeouts_exact(2)[OF q assms(2) True] assms(3)
    have "i = (dm_inner m)\<lparr>dh_want_queue := [],
        dh_active_wants := fold (\<lambda>pw. hm_remove (pd_cid pw)) (rev (q @ [newest])) (dh_active_wants (dm_inner m))\<rparr>"
      "fired = Some (rev (map pd_cid (q @ [newest])))" "next = None" by simp_all
    then show ?thesis using True wf keys[of "rev (q @ [newest])"] by (simp add: dh_wf_def)
  next
    case False
    then have "now - pd_sent newest < dh_timeout (dm_inner m)" by simp
    from check_for_timeouts_exact(1)[OF q assms(2) this] assms(3) show ?thesis
      using False wf by (auto simp: dh_wf_def)
  qed
qed

definition demo_dur :: "nat dur_ops" where
  "demo_dur = \<lparr>du_as_secs = (\<lambda>d. d), du_from_secs = Some, du_of_u64 = (\<lambda>n. n), du_one = 1,
     du_add = (+), du_sub = (-), du_mul = (*), du_div = (div), du_lt = (<)\<rparr>"

text \<open>A want is sent at instant 0 and cancelled; at seven seconds it is still reported.\<close>

theorem check_for_timeouts_all_or_nothing_witness:
  "fst (snd (check_for_timeouts (from_secs 7) (dm_inner (cancel_pending [9 :: nat]
     (add_pending 0 [9] (DontHaveTimeoutManager_new demo_dur (1 :: nat))))))) = Some [9]"
proof -
  let ?m = "cancel_pending [9 :: nat] (add_pending 0 [9] (DontHaveTimeoutManager_new demo_dur (1 :: nat)))"
  have r: "dh_reachable demo_dur (from_secs 7) ?m"
    by (rule dh_time[of _ 0]) (intro dh_cancelled dh_added dh_new, simp)
  have q: "dh_want_queue (dm_inner ?m) = [] @ [\<lparr>pd_cid = 9, pd_active = True, pd_sent = 0\<rparr>]"
    by (simp add: cancel_pending_def add_pending_def add_pending_one_def cancel_pending_one_def
        DontHaveTimeoutManager_new_def dh_trigger_def Let_def)
  obtain i f n where c: "check_for_timeouts (from_secs 7) (dm_inner ?m) = (i, f, n)" by (metis prod_cases3)
  from check_for_timeouts_all_or_nothing[OF r q c] show ?thesis
    using c by (simp add: MAX_TIMEOUT_def)
qed

end
