(* ===== verification/MessageQueue.thy ===== *)
theory MessageQueue
  imports Wantlist DontHaveTimeout
begin

text \<open>
  The message queue of one peer (\<open>client/message_queue.rs\<close>): wants and cancels come in through the
  handle, the actor collects them as pending work and turns pending work into outgoing messages.

  The network is not part of the queue: whether a sender could be opened and supports HAVE
  (\<open>ne_open\<close>), whether the message was sent (\<open>ne_sent\<close>) and the clock (\<open>ne_now\<close>) are given per
  event. The channels are lists; \<open>try_send\<close> on a full channel has no effect. One turn of the loop of
  \<open>run\<close> is the function \<open>run_event\<close> of the branch that \<open>select!\<close> took.
\<close>

subsection \<open>The handle\<close>

datatype 'cid wants_update =
    BroadcastWantHaves "'cid list"
  | Wants "'cid list" "'cid list"
  | Cancels "'cid list"

record 'cid mq_handle =
  mh_running :: bool
  mh_sender_wants :: "'cid wants_update list"
  mh_sender_responses :: "'cid list list"

definition send_wants_update :: "'cid wants_update \<Rightarrow> 'cid mq_handle \<Rightarrow> 'cid mq_handle" where
  "send_wants_update u h =
     (if mh_running h then h\<lparr>mh_sender_wants := mh_sender_wants h @ [u]\<rparr> else h)"

definition add_broadcast_want_haves :: "'cid list \<Rightarrow> 'cid mq_handle \<Rightarrow> 'cid mq_handle" where
  "add_broadcast_want_haves want_haves h =
     (if want_haves = [] \<or> \<not> mh_running h then h
      else send_wants_update (BroadcastWantHaves want_haves) h)"

definition add_wants :: "'cid list \<Rightarrow> 'cid list \<Rightarrow> 'cid mq_handle \<Rightarrow> 'cid mq_handle" where
  "add_wants want_blocks want_haves h =
     (if (want_blocks = [] \<and> want_haves = []) \<or> \<not> mh_running h then h
      else send_wants_update (Wants want_blocks want_haves) h)"

definition add_cancels :: "'cid list \<Rightarrow> 'cid mq_handle \<Rightarrow> 'cid mq_handle" where
  "add_cancels cancels h =
     (if cancels = [] \<or> \<not> mh_running h then h else send_wants_update (Cancels cancels) h)"

definition response_received :: "'cid list \<Rightarrow> 'cid mq_handle \<Rightarrow> 'cid mq_handle" where
  "response_received cids h =
     (if cids = [] \<or> \<not> mh_running h then h
      else if length (mh_sender_responses h) < 64
      then h\<lparr>mh_sender_responses := mh_sender_responses h @ [cids]\<rparr> else h)"

definition MessageQueue_stop :: "'cid mq_handle \<Rightarrow> 'cid mq_handle" where
  "MessageQueue_stop h = h\<lparr>mh_running := False, mh_sender_wants := [], mh_sender_responses := []\<rparr>"

subsection \<open>The actor\<close>

record mq_config =
  mc_max_message_size :: nat
  mc_send_error_backof :: duration
  mc_max_valid_latency :: duration
  mc_max_priority :: priority
  mc_rebroadcast_interval :: duration
  mc_send_message_max_delay :: duration
  mc_send_message_cutoff :: nat
  mc_send_message_debounce :: duration
  mc_send_timeout :: duration
  mc_max_retries :: nat

definition Config_default :: mq_config where
  "Config_default =
     \<lparr>mc_max_message_size = 1024 * 1024 * 2,
      mc_send_error_backof = 100 * 1000000,
      mc_max_valid_latency = from_secs 30,
      mc_max_priority = 2147483647,
      mc_rebroadcast_interval = from_secs 30,
      mc_send_message_max_delay = 20 * 1000000,
      mc_send_message_cutoff = 256,
      mc_send_message_debounce = 1000000,
      mc_send_timeout = from_secs 30,
      mc_max_retries = 3\<rparr>"

record ('cid, 'peer, 'f) mq_actor =
  mq_peer :: 'peer
  mq_config :: mq_config
  mq_wants :: "'cid wants"
  mq_dh_timeout_manager :: "('cid, 'peer, 'f) dh_manager"
  mq_outgoing_work :: "instant list"
  mq_sender :: "bool option"

text \<open>What the network and the clock do during one event.\<close>

record net_env =
  ne_open :: "bool option"
  ne_sent :: bool
  ne_now :: instant

definition Wants_new :: "priority \<Rightarrow> 'cid wants" where
  "Wants_new p = \<lparr>ws_bcst_wants = RecallWantlist_default, ws_peer_wants = RecallWantlist_default,
     ws_cancels = [], ws_priority = p\<rparr>"

definition MessageQueueActor_new :: "'f dur_ops \<Rightarrow> mq_config \<Rightarrow> 'peer \<Rightarrow> ('cid, 'peer, 'f) mq_actor" where
  "MessageQueueActor_new fl config peer =
     \<lparr>mq_peer = peer, mq_config = config, mq_wants = Wants_new (mc_max_priority config),
      mq_dh_timeout_manager = DontHaveTimeoutManager_new fl peer,
      mq_outgoing_work = [], mq_sender = None\<rparr>"

definition signal_work :: "instant \<Rightarrow> ('cid, 'peer, 'f) mq_actor \<Rightarrow> ('cid, 'peer, 'f) mq_actor" where
  "signal_work now a =
     (if length (mq_outgoing_work a) < 2
      then a\<lparr>mq_outgoing_work := mq_outgoing_work a @ [now]\<rparr> else a)"

text \<open>\<open>priority -= 1\<close> on an \<open>i32\<close>, which wraps around where overflow checks are off.\<close>

definition i32_pred :: "int \<Rightarrow> int" where
  "i32_pred p = (if p = - 2147483648 then 2147483647 else p - 1)"

definition add_bcst_want :: "'cid \<Rightarrow> 'cid wants \<Rightarrow> 'cid wants" where
  "add_bcst_want c ws =
     ws\<lparr>ws_bcst_wants := RecallWantlist_add c (ws_priority ws) WantHave (ws_bcst_wants ws),
        ws_priority := i32_pred (ws_priority ws),
        ws_cancels := hs_remove c (ws_cancels ws)\<rparr>"

definition add_peer_want :: "want_type \<Rightarrow> 'cid \<Rightarrow> 'cid wants \<Rightarrow> 'cid wants" where
  "add_peer_want t c ws =
     ws\<lparr>ws_peer_wants := RecallWantlist_add c (ws_priority ws) t (ws_peer_wants ws),
        ws_priority := i32_pred (ws_priority ws),
        ws_cancels := hs_remove c (ws_cancels ws)\<rparr>"

definition cancel_want :: "'cid \<Rightarrow> 'cid wants \<times> bool \<Rightarrow> 'cid wants \<times> bool" where
  "cancel_want c = (\<lambda>(ws, work_ready).
     let was_sent_bcst = Wantlist_contains (rw_sent (ws_bcst_wants ws)) c;
         was_sent_peer = Wantlist_contains (rw_sent (ws_peer_wants ws)) c;
         ws1 = ws\<lparr>ws_bcst_wants := RecallWantlist_remove c (ws_bcst_wants ws),
                  ws_peer_wants := RecallWantlist_remove c (ws_peer_wants ws)\<rparr>
     in if was_sent_bcst \<or> was_sent_peer
        then (ws1\<lparr>ws_cancels := hs_insert c (ws_cancels ws1)\<rparr>, True)
        else (ws1, work_ready))"

fun handle_wants_update ::
    "instant \<Rightarrow> 'cid wants_update \<Rightarrow> ('cid, 'peer, 'f) mq_actor \<Rightarrow> ('cid, 'peer, 'f) mq_actor" where
  "handle_wants_update now (BroadcastWantHaves want_haves) a =
     signal_work now (a\<lparr>mq_wants := fold add_bcst_want want_haves (mq_wants a)\<rparr>)"
| "handle_wants_update now (Wants want_blocks want_haves) a =
     signal_work now (a\<lparr>mq_wants := fold (add_peer_want WantBlock) want_blocks
       (fold (add_peer_want WantHave) want_haves (mq_wants a))\<rparr>)"
| "handle_wants_update now (Cancels cancels) a =
     (let (ws, work_ready) = fold cancel_want cancels (mq_wants a, False);
          a1 = a\<lparr>mq_dh_timeout_manager := cancel_pending cancels (mq_dh_timeout_manager a), mq_wants := ws\<rparr>
      in if work_ready then signal_work now a1 else a1)"

definition transfer_rebroadcast_wants :: "('cid, 'peer, 'f) mq_actor \<Rightarrow> ('cid, 'peer, 'f) mq_actor \<times> bool" where
  "transfer_rebroadcast_wants a =
     (let ws = mq_wants a; b = ws_bcst_wants ws; p = ws_peer_wants ws
      in if Wantlist_is_empty (rw_sent b) \<and> Wantlist_is_empty (rw_sent p) then (a, False)
         else (a\<lparr>mq_wants := ws\<lparr>ws_bcst_wants := b\<lparr>rw_pending := Wantlist_extend (rw_sent b) (rw_pending b)\<rparr>,
                                ws_peer_wants := p\<lparr>rw_pending := Wantlist_extend (rw_sent p) (rw_pending p)\<rparr>\<rparr>\<rparr>,
               True))"

subsection \<open>Outgoing messages\<close>

text \<open>
  The loops that add to the message until it is too big: the message, its size, how many were added
  and whether the limit was reached.
\<close>

fun add_until_full ::
    "('x \<Rightarrow> 'cid bitswap_message \<Rightarrow> 'cid bitswap_message \<times> nat) \<Rightarrow> nat \<Rightarrow> 'x list \<Rightarrow>
      'cid bitswap_message \<Rightarrow> nat \<Rightarrow> nat \<Rightarrow> 'cid bitswap_message \<times> nat \<times> nat \<times> bool" where
  "add_until_full add limit [] msg sz n = (msg, sz, n, False)"
| "add_until_full add limit (x # xs) msg sz n =
     (let (msg', k) = add x msg
      in if sz + k \<ge> limit then (msg', sz + k, n + 1, True)
         else add_until_full add limit xs msg' (sz + k) (n + 1))"

definition drop_want_have :: "'cid wl_entry \<Rightarrow> 'cid recall_wantlist \<times> 'cid wl_entry list \<Rightarrow>
    'cid recall_wantlist \<times> 'cid wl_entry list" where
  "drop_want_have e = (\<lambda>(r, kept).
     if we_want_type e = WantHave then (RecallWantlist_remove_type (we_cid e) WantHave r, kept)
     else (r, kept @ [e]))"

definition mark_sent_step :: "'cid wl_entry \<Rightarrow> 'cid recall_wantlist \<times> 'cid bitswap_message \<times> 'cid wl_entry list \<Rightarrow>
    'cid recall_wantlist \<times> 'cid bitswap_message \<times> 'cid wl_entry list" where
  "mark_sent_step e = (\<lambda>(r, msg, kept).
     let (r', ok) = RecallWantlist_mark_sent e r
     in if \<not> ok then (r', BitswapMessage_remove (we_cid e) msg, kept) else (r', msg, kept @ [e]))"

definition cancel_sent_step :: "'cid \<Rightarrow> 'cid list \<times> 'cid bitswap_message \<Rightarrow> 'cid list \<times> 'cid bitswap_message" where
  "cancel_sent_step c = (\<lambda>(cancels, msg).
     if c \<notin> set cancels then (cancels, BitswapMessage_remove c msg) else (hs_remove c cancels, msg))"

definition take_peer_entries ::
    "bool \<Rightarrow> 'cid recall_wantlist \<Rightarrow> 'cid recall_wantlist \<times> 'cid wl_entry list" where
  "take_peer_entries supports_have r =
     (let (pending, es) = Wantlist_entries (rw_pending r); r1 = r\<lparr>rw_pending := pending\<rparr>
      in if supports_have then (r1, es) else fold drop_want_have es (r1, []))"

text \<open>The body of \<open>extract_outgoing_message\<close> once there is a sender.\<close>

definition extract_wants ::
    "('cid, 'mh) cid_ops \<Rightarrow> (pb_entry \<Rightarrow> nat) \<Rightarrow> nat \<Rightarrow> bool \<Rightarrow> 'cid wants \<Rightarrow>
      'cid wants \<times> 'cid bitswap_message \<times> 'cid wl_entry list \<times> 'cid wl_entry list" where
  "extract_wants ops elen max_message_size supports_have ws =
     (let (pw0, peer_entries) = take_peer_entries supports_have (ws_peer_wants ws);
          (bpend, bcst_entries) = Wantlist_entries (rw_pending (ws_bcst_wants ws));
          bw0 = (ws_bcst_wants ws)\<lparr>rw_pending := bpend\<rparr>;
          cancels = ws_cancels ws;
          (msg1, sz1, sent_cancels, done1) =
            add_until_full (BitswapMessage_cancel ops elen) max_message_size cancels (BitswapMessage_new False) 0 0;
          (msg2, sz2, sent_peer, done2) =
            (if \<not> done1
             then add_until_full (\<lambda>e. BitswapMessage_add_entry ops elen (we_cid e) (we_priority e) (we_want_type e) True)
                    max_message_size peer_entries msg1 sz1 0
             else (msg1, sz1, 0, done1));
          (msg3, sz3, sent_bcst, done3) =
            (if \<not> done2
             then add_until_full (\<lambda>e. BitswapMessage_add_entry ops elen (we_cid e) (we_priority e)
                      (if supports_have then WantHave else WantBlock) False)
                    max_message_size bcst_entries msg2 sz2 0
             else (msg2, sz2, 0, done2));
          (pw1, msg4, peer_sent) = fold mark_sent_step (take sent_peer peer_entries) (pw0, msg3, []);
          (bw1, msg5, bcst_sent) = fold mark_sent_step (take sent_bcst bcst_entries) (bw0, msg4, []);
          (cancels1, msg6) = fold cancel_sent_step (take sent_cancels cancels) (cancels, msg5)
      in (ws\<lparr>ws_peer_wants := pw1, ws_bcst_wants := bw1, ws_cancels := cancels1\<rparr>, msg6, peer_sent, bcst_sent))"

definition extract_outgoing_message ::
    "('cid, 'mh) cid_ops \<Rightarrow> (pb_entry \<Rightarrow> nat) \<Rightarrow> bool option \<Rightarrow> ('cid, 'peer, 'f) mq_actor \<Rightarrow>
      ('cid, 'peer, 'f) mq_actor \<times> ('cid bitswap_message \<times> 'cid wl_entry list \<times> 'cid wl_entry list) option" where
  "extract_outgoing_message ops elen opened a =
     (case (if mq_sender a = None then opened else mq_sender a) of
        None \<Rightarrow> (a, None)
      | Some supports_have \<Rightarrow>
          let (ws, res) = extract_wants ops elen (mc_max_message_size (mq_config a)) supports_have (mq_wants a)
          in (a\<lparr>mq_sender := Some supports_have, mq_wants := ws\<rparr>, Some res))"

definition simulate_dont_have_with_timeout ::
    "instant \<Rightarrow> 'cid msg_entry list \<Rightarrow> ('cid, 'peer, 'f) mq_actor \<Rightarrow> ('cid, 'peer, 'f) mq_actor" where
  "simulate_dont_have_with_timeout now wl a =
     (let pending_wants = map me_cid (filter (\<lambda>e. me_want_type e = WantBlock \<and> me_send_dont_have e \<and>
            Wantlist_contains (rw_sent (ws_peer_wants (mq_wants a))) (me_cid e)) wl)
      in a\<lparr>mq_dh_timeout_manager := add_pending now pending_wants (mq_dh_timeout_manager a)\<rparr>)"

text \<open>The actor, the message that was sent if one was, and whether a fatal error ends the loop.\<close>

definition send_message ::
    "('cid, 'mh) cid_ops \<Rightarrow> (pb_entry \<Rightarrow> nat) \<Rightarrow> net_env \<Rightarrow> ('cid, 'peer, 'f) mq_actor \<Rightarrow>
      ('cid, 'peer, 'f) mq_actor \<times> 'cid bitswap_message option \<times> bool" where
  "send_message ops elen env a0 =
     (let a1 = a0\<lparr>mq_dh_timeout_manager := dh_start (mq_dh_timeout_manager a0)\<rparr>;
          (a2, res) = extract_outgoing_message ops elen (ne_open env) a1
      in case res of
           None \<Rightarrow> (a2, None, True)
         | Some (msg, peer_entries, bcst_entries) \<Rightarrow>
             if BitswapMessage_is_empty msg then (a2, None, False)
             else if \<not> ne_sent env then (a2, None, True)
             else let ws = mq_wants a2;
                      p = fold (\<lambda>e. RecallWantlist_sent_at (we_cid e) (ne_now env)) peer_entries (ws_peer_wants ws);
                      b = fold (\<lambda>e. RecallWantlist_sent_at (we_cid e) (ne_now env)) bcst_entries (ws_bcst_wants ws);
                      a3 = a2\<lparr>mq_wants := ws\<lparr>ws_peer_wants := p, ws_bcst_wants := b\<rparr>\<rparr>;
                      a4 = simulate_dont_have_with_timeout (ne_now env) (BitswapMessage_wantlist msg) a3
                  in (if Wants_has_pending_work (mq_wants a4) then signal_work (ne_now env) a4 else a4,
                      Some msg, False))"

definition rebroadcast_wantlist ::
    "('cid, 'mh) cid_ops \<Rightarrow> (pb_entry \<Rightarrow> nat) \<Rightarrow> net_env \<Rightarrow> ('cid, 'peer, 'f) mq_actor \<Rightarrow>
      ('cid, 'peer, 'f) mq_actor \<times> 'cid bitswap_message option \<times> bool" where
  "rebroadcast_wantlist ops elen env a =
     (let (a1, ready) = transfer_rebroadcast_wants a
      in if ready then send_message ops elen env a1 else (a1, None, False))"

definition send_if_ready ::
    "('cid, 'mh) cid_ops \<Rightarrow> (pb_entry \<Rightarrow> nat) \<Rightarrow> net_env \<Rightarrow> ('cid, 'peer, 'f) mq_actor \<Rightarrow>
      ('cid, 'peer, 'f) mq_actor \<times> 'cid bitswap_message option \<times> bool" where
  "send_if_ready ops elen env a =
     (if Wants_has_pending_work (mq_wants a) then send_message ops elen env a else (a, None, False))"

subsection \<open>Responses\<close>

definition earlier :: "mq_config \<Rightarrow> instant \<Rightarrow> instant \<Rightarrow> instant option \<Rightarrow> bool" where
  "earlier config now at earliest \<longleftrightarrow>
     (case earliest of None \<Rightarrow> True | Some e \<Rightarrow> at < e) \<and> now - at < mc_max_valid_latency config"

definition response_step ::
    "mq_config \<Rightarrow> instant \<Rightarrow> 'cid \<Rightarrow> 'cid wants \<times> instant option \<Rightarrow> 'cid wants \<times> instant option" where
  "response_step config now c = (\<lambda>(ws, earliest).
     let (ws1, earliest1) =
           (case map_of (rw_sent_at (ws_bcst_wants ws)) c of
              None \<Rightarrow> (ws, earliest)
            | Some at \<Rightarrow> (ws\<lparr>ws_bcst_wants := RecallWantlist_clear_sent_at c (ws_bcst_wants ws)\<rparr>,
                          if earlier config now at earliest then Some at else earliest))
     in case map_of (rw_sent_at (ws_peer_wants ws1)) c of
          None \<Rightarrow> (ws1, earliest1)
        | Some at \<Rightarrow>
            if earlier config now at earliest1
            then (ws1\<lparr>ws_peer_wants := RecallWantlist_clear_sent_at c (ws_peer_wants ws1)\<rparr>, Some at)
            else (ws1, earliest1))"

definition handle_response ::
    "'f dur_ops \<Rightarrow> instant \<Rightarrow> 'cid list \<Rightarrow> ('cid, 'peer, 'f) mq_actor \<Rightarrow> ('cid, 'peer, 'f) mq_actor option" where
  "handle_response fl now response a =
     (let (ws, earliest) = fold (response_step (mq_config a) now) response (mq_wants a, None);
          a1 = a\<lparr>mq_wants := ws\<rparr>
      in case earliest of
           None \<Rightarrow> Some a1
         | Some e \<Rightarrow> map_option (\<lambda>dh. a1\<lparr>mq_dh_timeout_manager := dh\<rparr>)
             (update_message_latency fl (now - e) (mq_dh_timeout_manager a1)))"

subsection \<open>The event loop\<close>

datatype 'cid mq_event =
    EvWants "'cid wants_update"
  | EvResponses "'cid list"
  | EvRebroadcast
  | EvOutgoingWork
  | EvScheduledWork
  | EvClosed

record ('cid, 'peer, 'f) mq_run =
  mr_actor :: "('cid, 'peer, 'f) mq_actor"
  mr_work_scheduled :: "instant option"
  mr_schedule_work_enabled :: bool

datatype 's mq_outcome = Running 's | Stopped 's | Panicked

definition after_send :: "('cid, 'peer, 'f) mq_run \<Rightarrow>
    ('cid, 'peer, 'f) mq_actor \<times> 'cid bitswap_message option \<times> bool \<Rightarrow>
    ('cid, 'peer, 'f) mq_run mq_outcome \<times> 'cid bitswap_message option" where
  "after_send st = (\<lambda>(a, msg, fatal).
     (if fatal then Stopped (st\<lparr>mr_actor := a\<rparr>) else Running (st\<lparr>mr_actor := a\<rparr>), msg))"

fun run_event ::
    "('cid, 'mh) cid_ops \<Rightarrow> (pb_entry \<Rightarrow> nat) \<Rightarrow> 'f dur_ops \<Rightarrow> net_env \<Rightarrow> 'cid mq_event \<Rightarrow>
      ('cid, 'peer, 'f) mq_run \<Rightarrow> ('cid, 'peer, 'f) mq_run mq_outcome \<times> 'cid bitswap_message option" where
  "run_event ops elen fl env (EvWants u) st =
     (Running (st\<lparr>mr_actor := handle_wants_update (ne_now env) u (mr_actor st)\<rparr>), None)"
| "run_event ops elen fl env (EvResponses cs) st =
     (case handle_response fl (ne_now env) cs (mr_actor st) of
        None \<Rightarrow> (Panicked, None)
      | Some a \<Rightarrow> (Running (st\<lparr>mr_actor := a\<rparr>), None))"
| "run_event ops elen fl env EvRebroadcast st =
     after_send st (rebroadcast_wantlist ops elen env (mr_actor st))"
| "run_event ops elen fl env EvOutgoingWork st =
     (case mq_outgoing_work (mr_actor st) of
        [] \<Rightarrow> (Running st, None)
      | when # rest \<Rightarrow>
          let a = (mr_actor st)\<lparr>mq_outgoing_work := rest\<rparr>;
              (since, enabled) = (case mr_work_scheduled st of
                   None \<Rightarrow> (when, mr_schedule_work_enabled st)
                 | Some t \<Rightarrow> (t, False));
              st1 = st\<lparr>mr_actor := a, mr_work_scheduled := Some since, mr_schedule_work_enabled := enabled\<rparr>
          in if Wants_pending_work_count (mq_wants a) > mc_send_message_cutoff (mq_config a) \<or>
                ne_now env - since \<ge> mc_send_message_max_delay (mq_config a)
             then after_send (st1\<lparr>mr_work_scheduled := None\<rparr>) (send_if_ready ops elen env a)
             else (Running (st1\<lparr>mr_schedule_work_enabled := True\<rparr>), None))"
| "run_event ops elen fl env EvScheduledWork st =
     (if \<not> mr_schedule_work_enabled st then (Running st, None)
      else after_send (st\<lparr>mr_work_scheduled := None, mr_schedule_work_enabled := False\<rparr>)
             (send_if_ready ops elen env (mr_actor st)))"
| "run_event ops elen fl env EvClosed st = (Stopped st, None)"

definition run_start :: "('cid, 'peer, 'f) mq_actor \<Rightarrow> ('cid, 'peer, 'f) mq_run" where
  "run_start a = \<lparr>mr_actor = a, mr_work_scheduled = None, mr_schedule_work_enabled = False\<rparr>"

subsection \<open>The sets of CIDs behind the lists\<close>

definition ws_pending :: "'cid wants \<Rightarrow> 'cid set" where
  "ws_pending ws = wl_cids (rw_pending (ws_bcst_wants ws)) \<union> wl_cids (rw_pending (ws_peer_wants ws))"

definition ws_sent :: "'cid wants \<Rightarrow> 'cid set" where
  "ws_sent ws = wl_cids (rw_sent (ws_bcst_wants ws)) \<union> wl_cids (rw_sent (ws_peer_wants ws))"

subsection \<open>Filling a message\<close>

lemma add_until_full_spec:
  assumes "add_until_full add limit xs msg sz n = (msg', sz', n', full)"
  shows "n \<le> n'" and "n' \<le> n + length xs" and "\<not> full \<Longrightarrow> n' = n + length xs"
    and "xs \<noteq> [] \<Longrightarrow> n < n'"
    and "msg' = fold (\<lambda>x m. fst (add x m)) (take (n' - n) xs) msg"
proof -
  have "n \<le> n' \<and> n' \<le> n + length xs \<and> (\<not> full \<longrightarrow> n' = n + length xs) \<and> (xs \<noteq> [] \<longrightarrow> n < n') \<and>
      msg' = fold (\<lambda>x m. fst (add x m)) (take (n' - n) xs) msg"
    using assms
  proof (induction xs arbitrary: msg sz n)
    case (Cons x xs)
    obtain m1 k where a: "add x msg = (m1, k)" by fastforce
    show ?case
    proof (cases "limit \<le> sz + k")
      case True
      then show ?thesis using Cons.prems a by auto
    next
      case False
      then have "add_until_full add limit xs m1 (sz + k) (n + 1) = (msg', sz', n', full)"
        using Cons.prems a by simp
      note ih = Cons.IH[OF this]
      then have "n' - n = Suc (n' - (n + 1))" by linarith
      then show ?thesis using ih a by simp
    qed
  qed simp
  then show "n \<le> n'" and "n' \<le> n + length xs" and "\<not> full \<Longrightarrow> n' = n + length xs"
    and "xs \<noteq> [] \<Longrightarrow> n < n'" and "msg' = fold (\<lambda>x m. fst (add x m)) (take (n' - n) xs) msg" by blast+
qed

lemma listed_cancels_fold:
  "listed_cancel (fold (\<lambda>x m. fst (BitswapMessage_cancel ops elen x m)) cs m) c =
     (if c \<in> set cs then Some True else listed_cancel m c)"
  by (induction cs arbitrary: m) (auto simp: BitswapMessage_cancel_def listed_cancel_add_full)

lemma listed_entries_fold:
  "listed_cancel (fold (\<lambda>e m. fst (BitswapMessage_add_entry ops elen (we_cid e) (we_priority e) (t e) sdh m)) es m) c =
     (if c \<in> we_cid ` set es then Some (listed_cancel m c = Some True) else listed_cancel m c)"
  by (induction es arbitrary: m) (auto simp: BitswapMessage_add_entry_def listed_cancel_add_full)

subsection \<open>Marking entries as sent\<close>

text \<open>Moving an entry from the pending to the sent list, which is what marking does for an entry as it is pending.\<close>

definition move_sent :: "'cid wl_entry \<Rightarrow> 'cid recall_wantlist \<Rightarrow> 'cid recall_wantlist" where
  "move_sent e r =
     r\<lparr>rw_pending := fst (Wantlist_remove (we_cid e) (rw_pending r)),
       rw_sent := fst (Wantlist_add (we_cid e) (we_priority e) (we_want_type e) (rw_sent r))\<rparr>"

definition sent_blocks_only :: "'cid recall_wantlist \<Rightarrow> bool" where
  "sent_blocks_only r \<longleftrightarrow> (\<forall>c e. Wantlist_get (rw_sent r) c = Some e \<longrightarrow> we_want_type e = WantBlock)"

lemma move_sent_simps [simp]:
  "wl_cids (rw_pending (move_sent e r)) = wl_cids (rw_pending r) - {we_cid e}"
  "wl_cids (rw_sent (move_sent e r)) = insert (we_cid e) (wl_cids (rw_sent r))"
  "rw_sent_at (move_sent e r) = rw_sent_at r"
  "recall_wf r \<Longrightarrow> recall_wf (move_sent e r)"
  by (simp_all add: move_sent_def recall_wf_def)

lemma move_sent_blocks: "sent_blocks_only r \<Longrightarrow> we_want_type e = WantBlock \<Longrightarrow> sent_blocks_only (move_sent e r)"
  by (simp add: sent_blocks_only_def move_sent_def Wantlist_get_add)

lemma move_sent_fold [simp]:
  "wl_cids (rw_pending (fold move_sent es r)) = wl_cids (rw_pending r) - we_cid ` set es"
  "wl_cids (rw_sent (fold move_sent es r)) = wl_cids (rw_sent r) \<union> we_cid ` set es"
  "rw_sent_at (fold move_sent es r) = rw_sent_at r"
  "recall_wf r \<Longrightarrow> recall_wf (fold move_sent es r)"
  by (induction es arbitrary: r) auto

lemma move_sent_fold_blocks:
  "sent_blocks_only r \<Longrightarrow> \<forall>e \<in> set es. we_want_type e = WantBlock \<Longrightarrow> sent_blocks_only (fold move_sent es r)"
  by (induction es arbitrary: r) (auto simp: move_sent_blocks)

lemma mark_sent_one:
  assumes "Wantlist_get (rw_pending r) (we_cid e) = Some e"
  shows "RecallWantlist_mark_sent e r = (move_sent e r, True)"
  using assms
  by (auto simp: RecallWantlist_mark_sent_def Wantlist_remove_type_def Wantlist_remove_def Wantlist_get_def
      move_sent_def)

lemma mark_sent_step_one:
  "Wantlist_get (rw_pending r) (we_cid e) = Some e \<Longrightarrow>
   mark_sent_step e (r, msg, kept) = (move_sent e r, msg, kept @ [e])"
  by (simp add: mark_sent_step_def mark_sent_one)

lemma mark_sent_fold:
  assumes "distinct (map we_cid es)" and "\<forall>e \<in> set es. Wantlist_get (rw_pending r) (we_cid e) = Some e"
  shows "fold mark_sent_step es (r, msg, kept) = (fold move_sent es r, msg, kept @ es)"
  using assms
proof (induction es arbitrary: r kept)
  case (Cons e es)
  have "\<forall>e' \<in> set es. Wantlist_get (rw_pending (move_sent e r)) (we_cid e') = Some e'"
  proof
    fix e' assume e': "e' \<in> set es"
    then have "we_cid e' \<noteq> we_cid e"
      using Cons.prems(1) by (metis distinct.simps(2) list.simps(9) list.set_map imageI)
    then show "Wantlist_get (rw_pending (move_sent e r)) (we_cid e') = Some e'"
      using Cons.prems(2)[THEN bspec, of e'] e' by (simp add: move_sent_def Wantlist_get_remove)
  qed
  then show ?case using Cons by (simp add: mark_sent_step_one)
qed simp

lemma cancel_sent_step_one: "c \<in> set cs \<Longrightarrow> cancel_sent_step c (cs, msg) = (hs_remove c cs, msg)"
  by (simp add: cancel_sent_step_def)

lemma cancel_sent_fold:
  assumes "set xs \<subseteq> set cs" and "distinct xs" and "fold cancel_sent_step xs (cs, msg) = (cs', msg')"
  shows "msg' = msg \<and> cs' = filter (\<lambda>c. c \<notin> set xs) cs"
  using assms
proof (induction xs arbitrary: cs)
  case (Cons x xs)
  have "fold cancel_sent_step xs (hs_remove x cs, msg) = (cs', msg')"
    using Cons.prems(1,3) by (simp add: cancel_sent_step_one)
  moreover have "set xs \<subseteq> set (hs_remove x cs)" using Cons.prems(1,2) by auto
  ultimately have "msg' = msg \<and> cs' = filter (\<lambda>c. c \<notin> set xs) (hs_remove x cs)"
    using Cons.IH[of "hs_remove x cs"] Cons.prems(2) by simp
  then show ?case by (auto simp: removeAll_filter_not_eq intro: filter_cong)
qed simp

subsection \<open>Taking the entries of the peer\<close>

definition drop_pending :: "'cid wl_entry \<Rightarrow> 'cid recall_wantlist \<Rightarrow> 'cid recall_wantlist" where
  "drop_pending e r = r\<lparr>rw_pending := fst (Wantlist_remove (we_cid e) (rw_pending r))\<rparr>"

lemma drop_pending_simps [simp]:
  "rw_sent (drop_pending e r) = rw_sent r" "rw_sent_at (drop_pending e r) = rw_sent_at r"
  "recall_wf r \<Longrightarrow> recall_wf (drop_pending e r)"
  "Wantlist_get (rw_pending (drop_pending e r)) = (Wantlist_get (rw_pending r))(we_cid e := None)"
  by (simp_all add: drop_pending_def recall_wf_def Wantlist_get_remove)

lemma drop_pending_fold [simp]:
  "rw_sent (fold drop_pending es r) = rw_sent r" "rw_sent_at (fold drop_pending es r) = rw_sent_at r"
  "recall_wf r \<Longrightarrow> recall_wf (fold drop_pending es r)"
  by (induction es arbitrary: r) auto

lemma drop_pending_fold_get:
  "Wantlist_get (rw_pending (fold drop_pending es r)) c =
     (if c \<in> we_cid ` set es then None else Wantlist_get (rw_pending r) c)"
  by (induction es arbitrary: r) auto

lemma drop_want_have_one:
  assumes "sent_blocks_only r" and "Wantlist_get (rw_pending r) (we_cid e) = Some e"
  shows "drop_want_have e (r, kept) =
    (if we_want_type e = WantHave then (drop_pending e r, kept) else (r, kept @ [e]))"
proof -
  have "Wantlist_remove_type (we_cid e) WantHave (rw_sent r) = (rw_sent r, None)"
    using assms(1) by (auto simp: sent_blocks_only_def Wantlist_remove_type_def Wantlist_get_def split: option.split)
  moreover have "Wantlist_remove_type (we_cid e) WantHave (rw_pending r) =
      (fst (Wantlist_remove (we_cid e) (rw_pending r)), Some e)" if "we_want_type e = WantHave"
    using assms(2) that by (simp add: Wantlist_remove_type_def Wantlist_remove_def Wantlist_get_def)
  ultimately show ?thesis
    by (simp add: drop_want_have_def RecallWantlist_remove_type_def drop_pending_def Let_def)
qed

lemma drop_want_have_fold:
  assumes "sent_blocks_only r" and "distinct (map we_cid es)"
    and "\<forall>e \<in> set es. Wantlist_get (rw_pending r) (we_cid e) = Some e"
  shows "fold drop_want_have es (r, kept) =
    (fold drop_pending (filter (\<lambda>e. we_want_type e = WantHave) es) r,
     kept @ filter (\<lambda>e. we_want_type e \<noteq> WantHave) es)"
  using assms
proof (induction es arbitrary: r kept)
  case (Cons e es)
  have "\<forall>e' \<in> set es. Wantlist_get (rw_pending (drop_pending e r)) (we_cid e') = Some e'"
  proof
    fix e' assume e': "e' \<in> set es"
    then have "we_cid e' \<noteq> we_cid e"
      using Cons.prems(2) by (metis distinct.simps(2) list.simps(9) list.set_map imageI)
    then show "Wantlist_get (rw_pending (drop_pending e r)) (we_cid e') = Some e'"
      using Cons.prems(3)[THEN bspec, of e'] e' by simp
  qed
  moreover have "sent_blocks_only (drop_pending e r)" using Cons.prems(1) by (simp add: sent_blocks_only_def)
  ultimately show ?case using Cons by (simp add: drop_want_have_one)
qed simp

lemma take_peer_entries_spec:
  assumes "recall_wf r" and "take_peer_entries supports_have r = (r', es)"
    and blocks: "supports_have \<or> sent_blocks_only r"
  shows "recall_wf r'" and "rw_sent r' = rw_sent r" and "rw_sent_at r' = rw_sent_at r"
    and "distinct (map we_cid es)"
    and "\<forall>e \<in> set es. Wantlist_get (rw_pending r') (we_cid e) = Some e"
    and "wl_cids (rw_pending r') = we_cid ` set es"
    and "wl_cids (rw_pending r') \<subseteq> wl_cids (rw_pending r)"
    and "supports_have \<Longrightarrow> wl_cids (rw_pending r') = wl_cids (rw_pending r)"
    and "\<not> supports_have \<Longrightarrow> \<forall>e \<in> set es. we_want_type e = WantBlock"
proof -
  let ?p = "Wantlist_entries (rw_pending r)"
  let ?r = "r\<lparr>rw_pending := fst ?p\<rparr>"
  have wfp: "wantlist_wf (rw_pending r)" using assms(1) by (simp add: recall_wf_def)
  have wf: "recall_wf ?r" using assms(1) Wantlist_entries_spec(4)[OF wfp] by (simp add: recall_wf_def)
  have get: "Wantlist_get (rw_pending ?r) = Wantlist_get (rw_pending r)"
    using Wantlist_entries_spec(3)[OF wfp] by (simp add: Wantlist_get_def fun_eq_iff)
  have mem: "e \<in> set (snd ?p) \<longleftrightarrow> Wantlist_get (rw_pending ?r) (we_cid e) = Some e" for e
    unfolding get by (rule Wantlist_entries_set[OF wfp])
  note d = entries_distinct[OF wfp]
  have blk: "we_want_type e \<noteq> WantHave \<longleftrightarrow> we_want_type e = WantBlock" for e :: "'a wl_entry"
    by (cases "we_want_type e") simp_all
  have eq: "take_peer_entries supports_have r = (if supports_have then (?r, snd ?p) else fold drop_want_have (snd ?p) (?r, []))"
    by (simp add: take_peer_entries_def Let_def split: prod.split)
  have "recall_wf r' \<and> rw_sent r' = rw_sent r \<and> rw_sent_at r' = rw_sent_at r \<and> distinct (map we_cid es) \<and>
    (\<forall>e \<in> set es. Wantlist_get (rw_pending r') (we_cid e) = Some e) \<and>
    wl_cids (rw_pending r') = we_cid ` set es \<and> wl_cids (rw_pending r') \<subseteq> wl_cids (rw_pending r) \<and>
    (supports_have \<longrightarrow> wl_cids (rw_pending r') = wl_cids (rw_pending r)) \<and>
    (\<not> supports_have \<longrightarrow> (\<forall>e \<in> set es. we_want_type e = WantBlock))"
  proof (cases supports_have)
    case True
    then have "r' = ?r" "es = snd ?p" using assms(2) eq by simp_all
    then show ?thesis using wf d mem True by simp
  next
    case False
    let ?h = "filter (\<lambda>e. we_want_type e = WantHave) (snd ?p)"
    have "sent_blocks_only ?r" using blocks False by (simp add: sent_blocks_only_def)
    moreover have "\<forall>e \<in> set (snd ?p). Wantlist_get (rw_pending ?r) (we_cid e) = Some e" using mem by blast
    ultimately have r': "r' = fold drop_pending ?h ?r" and es: "es = filter (\<lambda>e. we_want_type e \<noteq> WantHave) (snd ?p)"
      using assms(2) eq False drop_want_have_fold[OF _ d(1), of ?r "[]"] by simp_all
    have inj: "e = e'" if "e \<in> set (snd ?p)" "e' \<in> set (snd ?p)" "we_cid e = we_cid e'" for e e'
      using d(1) that by (simp add: distinct_map inj_on_def)
    have g: "Wantlist_get (rw_pending r') c = (if c \<in> we_cid ` set ?h then None else Wantlist_get (rw_pending ?r) c)" for c
      unfolding r' by (rule drop_pending_fold_get)
    have kept: "\<forall>e \<in> set es. Wantlist_get (rw_pending r') (we_cid e) = Some e"
      unfolding g es using mem inj by fastforce
    have cids: "wl_cids (rw_pending r') = we_cid ` set es"
    proof
      show "we_cid ` set es \<subseteq> wl_cids (rw_pending r')"
        by (rule image_subsetI) (simp add: wl_cids_get kept)
      show "wl_cids (rw_pending r') \<subseteq> we_cid ` set es"
      proof
        fix c assume "c \<in> wl_cids (rw_pending r')"
        then have "c \<notin> we_cid ` set ?h" "Wantlist_get (rw_pending ?r) c \<noteq> None"
          by (auto simp: wl_cids_get g split: if_splits)
        then have "c \<in> we_cid ` set (snd ?p)" "c \<notin> we_cid ` set ?h" using d(2) get wl_cids_get by metis+
        then show "c \<in> we_cid ` set es" unfolding es set_filter by blast
      qed
    qed
    have f1: "wl_cids (rw_pending r') \<subseteq> wl_cids (rw_pending r)" unfolding cids es using d(2) by auto
    have f2: "distinct (map we_cid es)" using d(1) unfolding es by (rule distinct_map_filter)
    have f3: "\<not> supports_have \<longrightarrow> (\<forall>e \<in> set es. we_want_type e = WantBlock)" unfolding es using blk by simp
    have f4: "recall_wf r'" unfolding r' by (rule drop_pending_fold(3)[OF wf])
    have f5: "rw_sent r' = rw_sent r" "rw_sent_at r' = rw_sent_at r" unfolding r' drop_pending_fold by simp_all
    have "supports_have \<longrightarrow> wl_cids (rw_pending r') = wl_cids (rw_pending r)" using False by simp
    then show ?thesis using f1 f2 f3 f4 f5 kept cids by (intro conjI)
  qed
  note all = this
  show "recall_wf r'" and "rw_sent r' = rw_sent r" and "rw_sent_at r' = rw_sent_at r"
    and "distinct (map we_cid es)"
    and "\<forall>e \<in> set es. Wantlist_get (rw_pending r') (we_cid e) = Some e"
    and "wl_cids (rw_pending r') = we_cid ` set es"
    and "wl_cids (rw_pending r') \<subseteq> wl_cids (rw_pending r)"
    using all by - (elim conjE, assumption)+
  show "supports_have \<Longrightarrow> wl_cids (rw_pending r') = wl_cids (rw_pending r)"
    and "\<not> supports_have \<Longrightarrow> \<forall>e \<in> set es. we_want_type e = WantBlock"
    using all by - (elim conjE, simp only: simp_thms)+
qed

end
