(* ===== verification/MessageQueueSync.thy ===== *)
theory MessageQueueSync
  imports MessageQueue
begin

text \<open>
  What the message queue guarantees: how much of the pending work a message takes, the invariant of the
  queue over all its events, and what the peer at the other end knows of the wants.
\<close>

subsection \<open>What an outgoing message takes\<close>

definition ws_wf :: "'cid wants \<Rightarrow> bool" where
  "ws_wf ws \<longleftrightarrow> recall_wf (ws_bcst_wants ws) \<and> recall_wf (ws_peer_wants ws) \<and>
     rw_sent_at (ws_bcst_wants ws) = [] \<and> rw_sent_at (ws_peer_wants ws) = [] \<and>
     distinct (ws_cancels ws) \<and> set (ws_cancels ws) \<inter> (ws_pending ws \<union> ws_sent ws) = {}"

lemma ws_wfD:
  assumes "ws_wf ws"
  shows "recall_wf (ws_bcst_wants ws)" "recall_wf (ws_peer_wants ws)"
    "rw_sent_at (ws_bcst_wants ws) = []" "rw_sent_at (ws_peer_wants ws) = []"
    "distinct (ws_cancels ws)" "set (ws_cancels ws) \<inter> (ws_pending ws \<union> ws_sent ws) = {}"
  using assms by (simp_all add: ws_wf_def)

lemma pending_work_card:
  assumes "ws_wf ws"
  shows "Wants_pending_work_count ws = card (wl_cids (rw_pending (ws_bcst_wants ws))) +
    card (wl_cids (rw_pending (ws_peer_wants ws))) + card (set (ws_cancels ws))"
  using ws_wfD(1,2,5)[OF assms]
  by (simp add: Wants_pending_work_count_def recall_wf_def Wantlist_len_card distinct_card)

text \<open>
  The relation between the wants before and after a message: \<open>P\<close> are the CIDs it asks for and \<open>C\<close>
  the CIDs it cancels.
\<close>

definition extracted :: "bool \<Rightarrow> 'cid wants \<Rightarrow> 'cid set \<Rightarrow> 'cid set \<Rightarrow> 'cid wants \<Rightarrow> bool" where
  "extracted supports_have ws P C ws' \<longleftrightarrow>
     ws_wf ws' \<and> ws_sent ws' = ws_sent ws \<union> P \<and> P \<subseteq> ws_pending ws \<and>
     C \<subseteq> set (ws_cancels ws) \<and> set (ws_cancels ws') = set (ws_cancels ws) - C \<and>
     ws_pending ws' \<subseteq> ws_pending ws \<and> (supports_have \<longrightarrow> ws_pending ws \<subseteq> ws_pending ws' \<union> P) \<and>
     (Wants_has_pending_work ws \<longrightarrow> Wants_pending_work_count ws' < Wants_pending_work_count ws) \<and>
     (\<not> supports_have \<longrightarrow> sent_blocks_only (ws_peer_wants ws'))"

lemma extractedD:
  assumes "extracted sh ws P C ws'"
  shows "ws_wf ws'" "ws_sent ws' = ws_sent ws \<union> P" "P \<subseteq> ws_pending ws" "C \<subseteq> set (ws_cancels ws)"
    "set (ws_cancels ws') = set (ws_cancels ws) - C" "ws_pending ws' \<subseteq> ws_pending ws"
    "sh \<Longrightarrow> ws_pending ws \<subseteq> ws_pending ws' \<union> P"
    "Wants_has_pending_work ws \<Longrightarrow> Wants_pending_work_count ws' < Wants_pending_work_count ws"
    "\<not> sh \<Longrightarrow> sent_blocks_only (ws_peer_wants ws')"
  using assms unfolding extracted_def by blast+

lemma disjoint_shrink:
  "A \<inter> (P \<union> S) = {} \<Longrightarrow> P' \<subseteq> P \<Longrightarrow> T \<subseteq> P \<Longrightarrow> (A - C) \<inter> (P' \<union> (S \<union> T)) = {}"
  by blast

lemma Diff_cover: "B \<union> P \<subseteq> (B - D) \<union> (P - A) \<union> (A \<union> D)"
  by blast

lemma card_Diff_less: "finite A \<Longrightarrow> B \<subseteq> A \<Longrightarrow> B \<noteq> {} \<Longrightarrow> card (A - B) < card A"
  by (rule psubset_card_mono) auto

text \<open>
  The effect on the wants, for the numbers of cancels and entries that fitted: every loop that is
  reached with something to do does at least one step.
\<close>

lemma extracted_by_counts:
  fixes ws :: "'cid wants"
  assumes wf: "ws_wf ws" and blocks: "supports_have \<or> sent_blocks_only (ws_peer_wants ws)"
    and tp: "take_peer_entries supports_have (ws_peer_wants ws) = (pw0, pes)"
    and be: "Wantlist_entries (rw_pending (ws_bcst_wants ws)) = (bpend, bes)"
    and np: "np \<le> length pes" and nb: "nb \<le> length bes" and nc: "nc \<le> length (ws_cancels ws)"
    and prog_c: "ws_cancels ws \<noteq> [] \<Longrightarrow> 0 < nc"
    and prog_p: "ws_cancels ws = [] \<Longrightarrow> pes \<noteq> [] \<Longrightarrow> 0 < np"
    and prog_b: "ws_cancels ws = [] \<Longrightarrow> pes = [] \<Longrightarrow> bes \<noteq> [] \<Longrightarrow> 0 < nb"
  shows "extracted supports_have ws (we_cid ` set (take np pes) \<union> we_cid ` set (take nb bes))
      (set (take nc (ws_cancels ws)))
      (ws\<lparr>ws_peer_wants := fold move_sent (take np pes) pw0,
          ws_bcst_wants := fold move_sent (take nb bes) ((ws_bcst_wants ws)\<lparr>rw_pending := bpend\<rparr>),
          ws_cancels := filter (\<lambda>c. c \<notin> set (take nc (ws_cancels ws))) (ws_cancels ws)\<rparr>)"
    (is "extracted _ _ (?P \<union> ?B) ?C ?ws")
proof -
  note D = ws_wfD[OF wf]
  note T = take_peer_entries_spec[OF D(2) tp blocks]
  have bwf: "wantlist_wf (rw_pending (ws_bcst_wants ws))" using D(1) by (simp add: recall_wf_def)
  note E = entries_distinct[OF bwf, unfolded be snd_conv]
  have bpend: "wl_cids bpend = wl_cids (rw_pending (ws_bcst_wants ws))"
    using wl_cids_entries[of "rw_pending (ws_bcst_wants ws)"] unfolding be by simp
  have bwf': "wantlist_wf bpend" using Wantlist_entries_spec(4)[OF bwf] by (simp add: be)
  let ?b = "(ws_bcst_wants ws)\<lparr>rw_pending := bpend\<rparr>"
  have bw: "recall_wf ?b" using D(1) bwf' by (simp add: recall_wf_def)
  have P: "?P \<subseteq> wl_cids (rw_pending pw0)" unfolding T(6) by (auto dest: in_set_takeD)
  have B: "?B \<subseteq> wl_cids (rw_pending (ws_bcst_wants ws))" unfolding E(2)[symmetric] by (auto dest: in_set_takeD)
  have C: "?C \<subseteq> set (ws_cancels ws)" by (rule set_take_subset)
  have pend_p: "wl_cids (rw_pending (ws_peer_wants ?ws)) = wl_cids (rw_pending pw0) - ?P" by simp
  have pend_b: "wl_cids (rw_pending (ws_bcst_wants ?ws)) = wl_cids (rw_pending (ws_bcst_wants ws)) - ?B"
    using bpend by simp
  have sent: "ws_sent ?ws = ws_sent ws \<union> (?P \<union> ?B)" using T(2) by (auto simp: ws_sent_def)
  have canc: "set (ws_cancels ?ws) = set (ws_cancels ws) - ?C" by auto
  have pend: "ws_pending ?ws \<subseteq> ws_pending ws"
    unfolding ws_pending_def pend_p pend_b by (rule Un_mono[OF Diff_subset order_trans[OF Diff_subset T(7)]])
  have taken: "?P \<union> ?B \<subseteq> ws_pending ws"
    unfolding ws_pending_def using order_trans[OF P T(7)] B by (rule Un_least[OF le_supI2 le_supI1])
  have wf': "ws_wf ?ws" unfolding ws_wf_def
  proof (intro conjI)
    show "recall_wf (ws_bcst_wants ?ws)" "recall_wf (ws_peer_wants ?ws)" using bw T(1) by simp_all
    show "rw_sent_at (ws_bcst_wants ?ws) = []" "rw_sent_at (ws_peer_wants ?ws) = []" using D(3,4) T(3) by simp_all
    show "distinct (ws_cancels ?ws)" using D(5) by simp
    show "set (ws_cancels ?ws) \<inter> (ws_pending ?ws \<union> ws_sent ?ws) = {}"
      unfolding canc sent by (rule disjoint_shrink[OF D(6) pend taken])
  qed
  have less: "Wants_pending_work_count ?ws < Wants_pending_work_count ws" if h: "Wants_has_pending_work ws"
  proof -
    let ?p = "wl_cids (rw_pending (ws_peer_wants ws))" and ?q = "wl_cids (rw_pending (ws_bcst_wants ws))"
    let ?c = "set (ws_cancels ws)"
    have le: "card (wl_cids (rw_pending pw0) - ?P) \<le> card ?p" "card (?q - ?B) \<le> card ?q" "card (?c - ?C) \<le> card ?c"
      using T(7) by (auto intro!: card_mono)
    have "card (wl_cids (rw_pending pw0) - ?P) < card ?p \<or> card (?q - ?B) < card ?q \<or> card (?c - ?C) < card ?c"
    proof (cases "ws_cancels ws = []")
      case False
      then have "?C \<noteq> {}" using prog_c by (cases "ws_cancels ws") (auto simp: take_Cons' )
      then show ?thesis using card_Diff_less[OF _ C] by simp
    next
      case nocancel: True
      show ?thesis
      proof (cases "pes = []")
        case False
        then have "?P \<noteq> {}" using prog_p[OF nocancel] by (cases pes) (auto simp: take_Cons')
        then have "card (wl_cids (rw_pending pw0) - ?P) < card (wl_cids (rw_pending pw0))"
          using card_Diff_less[OF _ P] by simp
        also have "\<dots> \<le> card ?p" using T(7) by (auto intro: card_mono)
        finally show ?thesis by simp
      next
        case nopeer: True
        then have none: "wl_cids (rw_pending pw0) = {}" using T(6) by simp
        show ?thesis
        proof (cases "?p = {}")
          case False
          then have "0 < card ?p" by (auto simp: card_gt_0_iff)
          then show ?thesis unfolding none by simp
        next
          case True
          then have "?q \<noteq> {}" using h nocancel by (auto simp: Wants_has_pending_work_def pending_work_card[OF wf])
          then have "bes \<noteq> []" using E(2) by auto
          then have "?B \<noteq> {}" using prog_b[OF nocancel nopeer] by (cases bes) (auto simp: take_Cons')
          then show ?thesis using card_Diff_less[OF _ B] by simp
        qed
      qed
    qed
    then show ?thesis using le unfolding pending_work_card[OF wf] pending_work_card[OF wf'] pend_p pend_b canc by linarith
  qed
  have all: "ws_pending ws \<subseteq> ws_pending ?ws \<union> (?P \<union> ?B)" if supports_have
    unfolding ws_pending_def pend_p pend_b T(8)[OF that] by (rule Diff_cover)
  have bl: "sent_blocks_only (ws_peer_wants ?ws)" if "\<not> supports_have"
  proof -
    have "sent_blocks_only pw0" using blocks that T(2) by (simp add: sent_blocks_only_def)
    moreover have "\<forall>e \<in> set (take np pes). we_want_type e = WantBlock" using T(9)[OF that] by (auto dest: in_set_takeD)
    ultimately show ?thesis by (simp add: move_sent_fold_blocks)
  qed
  show ?thesis unfolding extracted_def
    using wf' sent pend taken C canc less all bl by (intro conjI impI)
qed

lemma ball_take: "\<forall>x \<in> set xs. Q x \<Longrightarrow> \<forall>x \<in> set (take n xs). Q x"
  by (auto dest: in_set_takeD)

lemma listed_three:
  assumes "C \<inter> (P \<union> B) = {}"
  shows "(if c \<in> B then Some ((if c \<in> P then Some ((if c \<in> C then Some True else None) = Some True)
        else if c \<in> C then Some True else None) = Some True)
      else if c \<in> P then Some ((if c \<in> C then Some True else None) = Some True)
      else if c \<in> C then Some True else None) =
    (if c \<in> C then Some True else if c \<in> P \<union> B then Some False else None)"
  using assms by (cases "c \<in> B"; cases "c \<in> P"; cases "c \<in> C") auto

lemma extract_wants_spec:
  assumes wf: "ws_wf ws" and blocks: "supports_have \<or> sent_blocks_only (ws_peer_wants ws)"
    and res: "extract_wants ops elen limit supports_have ws = (ws', msg, pe, be)"
  obtains P C where "extracted supports_have ws P C ws'"
    and "\<And>c. listed_cancel msg c = (if c \<in> C then Some True else if c \<in> P then Some False else None)"
    and "we_cid ` set pe \<subseteq> wl_cids (rw_sent (ws_peer_wants ws'))"
    and "we_cid ` set be \<subseteq> wl_cids (rw_sent (ws_bcst_wants ws'))"
proof -
  note D = ws_wfD[OF wf]
  have bwf: "wantlist_wf (rw_pending (ws_bcst_wants ws))" using D(1) by (simp add: recall_wf_def)
  obtain pw0 pes where tp: "take_peer_entries supports_have (ws_peer_wants ws) = (pw0, pes)" by fastforce
  note T = take_peer_entries_spec[OF D(2) tp blocks]
  obtain bpend bes where be: "Wantlist_entries (rw_pending (ws_bcst_wants ws)) = (bpend, bes)" by fastforce
  note E = entries_distinct[OF bwf, unfolded be snd_conv]
  have gb: "Wantlist_get bpend (we_cid e) = Some e" if "e \<in> set bes" for e
    using Wantlist_entries_set[OF bwf, of e] Wantlist_entries_spec(3)[OF bwf] that
    by (simp add: be Wantlist_get_def)
  let ?add_p = "\<lambda>e. BitswapMessage_add_entry ops elen (we_cid e) (we_priority e) (we_want_type e) True"
  let ?add_b = "\<lambda>e. BitswapMessage_add_entry ops elen (we_cid e) (we_priority e)
      (if supports_have then WantHave else WantBlock) False"
  let ?cs = "ws_cancels ws"
  obtain msg1 sz1 nc d1 where c1: "add_until_full (BitswapMessage_cancel ops elen) limit ?cs (BitswapMessage_new False) 0 0 = (msg1, sz1, nc, d1)"
    by (metis prod_cases4)
  let ?s2 = "if \<not> d1 then add_until_full ?add_p limit pes msg1 sz1 0 else (msg1, sz1, 0, d1)"
  obtain msg2 sz2 np d2 where c2: "?s2 = (msg2, sz2, np, d2)" by (cases ?s2 rule: prod_cases4) (rule that)
  let ?s3 = "if \<not> d2 then add_until_full ?add_b limit bes msg2 sz2 0 else (msg2, sz2, 0, d2)"
  obtain msg3 sz3 nb d3 where c3: "?s3 = (msg3, sz3, nb, d3)" by (cases ?s3 rule: prod_cases4) (rule that)
  note S1 = add_until_full_spec[OF c1]
  have S2: "np \<le> length pes" "msg2 = fold (\<lambda>x m. fst (?add_p x m)) (take np pes) msg1" "\<not> d1 \<Longrightarrow> pes \<noteq> [] \<Longrightarrow> 0 < np"
    "d1 \<Longrightarrow> d2" "\<not> d1 \<Longrightarrow> pes = [] \<Longrightarrow> \<not> d2"
    using c2 add_until_full_spec[of ?add_p limit pes msg1 sz1 0 msg2 sz2 np d2] by (cases d1; auto)+
  have S3: "nb \<le> length bes" "msg3 = fold (\<lambda>x m. fst (?add_b x m)) (take nb bes) msg2" "\<not> d2 \<Longrightarrow> bes \<noteq> [] \<Longrightarrow> 0 < nb"
    using c3 add_until_full_spec[of ?add_b limit bes msg2 sz2 0 msg3 sz3 nb d3] by (cases d2; auto)+
  have nocancel: "\<not> d1" if "?cs = []" using c1 that by simp
  have dp: "distinct (map we_cid (take np pes))" and db: "distinct (map we_cid (take nb bes))"
    using T(4) E(1) by (simp_all add: take_map[symmetric])
  have mp: "fold mark_sent_step (take np pes) (pw0, msg3, []) = (fold move_sent (take np pes) pw0, msg3, [] @ take np pes)"
    by (rule mark_sent_fold[OF dp ball_take[OF T(5)]])
  let ?b = "(ws_bcst_wants ws)\<lparr>rw_pending := bpend\<rparr>"
  have mb: "fold mark_sent_step (take nb bes) (?b, msg3, []) = (fold move_sent (take nb bes) ?b, msg3, [] @ take nb bes)"
    by (rule mark_sent_fold[OF db ball_take]) (simp add: gb)
  obtain cs' msg6 where mc: "fold cancel_sent_step (take nc ?cs) (?cs, msg3) = (cs', msg6)" by fastforce
  have cs': "msg6 = msg3" "cs' = filter (\<lambda>c. c \<notin> set (take nc ?cs)) ?cs"
    using cancel_sent_fold[OF set_take_subset _ mc] D(5) by simp_all
  let ?ws = "ws\<lparr>ws_peer_wants := fold move_sent (take np pes) pw0,
      ws_bcst_wants := fold move_sent (take nb bes) ?b, ws_cancels := filter (\<lambda>c. c \<notin> set (take nc ?cs)) ?cs\<rparr>"
  have "extract_wants ops elen limit supports_have ws = (?ws, msg3, take np pes, take nb bes)"
    using mp mb mc unfolding cs' extract_wants_def tp be Let_def prod.case c1 c2 c3 by simp
  then have ws': "ws' = ?ws" and msg: "msg = msg3" and out: "pe = take np pes" "be = take nb bes"
    using res by simp_all
  have ext: "extracted supports_have ws (we_cid ` set (take np pes) \<union> we_cid ` set (take nb bes)) (set (take nc ?cs)) ws'"
    unfolding ws'
    by (rule extracted_by_counts[OF wf blocks tp be S2(1) S3(1)]) (use S1 S2 S3 nocancel in auto)
  have "set (take nc ?cs) \<inter> (we_cid ` set (take np pes) \<union> we_cid ` set (take nb bes)) = {}"
    using D(6) extractedD(3,4)[OF ext] by blast
  from listed_three[OF this] have l: "listed_cancel msg c = (if c \<in> set (take nc ?cs) then Some True
      else if c \<in> we_cid ` set (take np pes) \<union> we_cid ` set (take nb bes) then Some False else None)" for c
    using S1(5) by (simp only: msg S3(2) S2(2) listed_entries_fold listed_cancels_fold listed_cancel_new diff_zero)
  show thesis by (rule that[OF ext l]) (simp_all add: out ws')
qed

text \<open>The peer learns exactly what the message takes.\<close>

lemma apply_listed:
  assumes "\<And>c. listed_cancel msg c = (if c \<in> C then Some True else if c \<in> P then Some False else None)"
    and "C \<inter> P = {}"
  shows "apply_message msg V = (V - C) \<union> P" and "BitswapMessage_is_empty msg \<Longrightarrow> C = {} \<and> P = {}"
proof -
  show "apply_message msg V = (V - C) \<union> P" using assms(2) by (auto simp: apply_message_def assms(1))
  show "C = {} \<and> P = {}" if "BitswapMessage_is_empty msg"
  proof -
    have none: "listed_cancel msg c = None" for c
      using that by (simp add: BitswapMessage_is_empty_def listed_cancel_def)
    have "c \<notin> C \<and> c \<notin> P" for c using none[of c] assms(1)[of c] by (simp split: if_splits)
    then show ?thesis by blast
  qed
qed

subsection \<open>The invariant of the actor\<close>

definition mq_inv :: "('cid, 'peer, 'f) mq_actor \<Rightarrow> bool" where
  "mq_inv a \<longleftrightarrow> ws_wf (mq_wants a) \<and>
     (mq_sender a \<noteq> Some True \<longrightarrow> sent_blocks_only (ws_peer_wants (mq_wants a)))"

definition apply_sent :: "'cid bitswap_message option \<Rightarrow> 'cid set \<Rightarrow> 'cid set" where
  "apply_sent m V = (case m of None \<Rightarrow> V | Some msg \<Rightarrow> apply_message msg V)"

lemma sent_at_fold:
  "we_cid ` set es \<subseteq> wl_cids (rw_sent r) \<Longrightarrow>
   fold (\<lambda>e. RecallWantlist_sent_at (we_cid e) now) es r = r"
  by (induction es) (simp_all add: sent_at_of_sent Wantlist_contains_def)

lemma mq_wants_signal [simp]:
  "mq_wants (signal_work now a) = mq_wants a" "mq_sender (signal_work now a) = mq_sender a"
  "mq_config (signal_work now a) = mq_config a"
  by (simp_all add: signal_work_def)

lemma mq_wants_simulate [simp]:
  "mq_wants (simulate_dont_have_with_timeout now wl a) = mq_wants a"
  "mq_sender (simulate_dont_have_with_timeout now wl a) = mq_sender a"
  "mq_config (simulate_dont_have_with_timeout now wl a) = mq_config a"
  by (simp_all add: simulate_dont_have_with_timeout_def Let_def)

text \<open>Sending a message: the invariant is kept and the peer learns what the message took.\<close>

lemma send_message_spec:
  assumes inv: "mq_inv a" and res: "send_message ops elen env a = (a', m, False)"
  obtains P C supports_have where "mq_inv a'" and "mq_sender a' = Some supports_have"
    and "supports_have = (case mq_sender a of Some h \<Rightarrow> h | None \<Rightarrow> the (ne_open env))"
    and "extracted supports_have (mq_wants a) P C (mq_wants a')"
    and "\<And>V. apply_sent m V = (V - C) \<union> P"
proof -
  let ?a1 = "a\<lparr>mq_dh_timeout_manager := dh_start (mq_dh_timeout_manager a)\<rparr>"
  let ?s = "if mq_sender a = None then ne_open env else mq_sender a"
  have wf: "ws_wf (mq_wants a)" using inv by (simp add: mq_inv_def)
  obtain h where h: "?s = Some h"
  proof (cases ?s)
    case None
    then show ?thesis using res by (simp add: send_message_def extract_outgoing_message_def split: if_splits)
  qed (rule that)
  obtain ws msg pe be where e: "extract_wants ops elen (mc_max_message_size (mq_config a)) h (mq_wants a) = (ws, msg, pe, be)"
    by (metis prod_cases4)
  have bl: "h \<or> sent_blocks_only (ws_peer_wants (mq_wants a))" using inv h by (auto simp: mq_inv_def split: if_splits)
  obtain P C where ext: "extracted h (mq_wants a) P C ws"
    and l: "\<And>c. listed_cancel msg c = (if c \<in> C then Some True else if c \<in> P then Some False else None)"
    and out: "we_cid ` set pe \<subseteq> wl_cids (rw_sent (ws_peer_wants ws))"
      "we_cid ` set be \<subseteq> wl_cids (rw_sent (ws_bcst_wants ws))"
    using extract_wants_spec[OF wf bl e] by blast
  have CP: "C \<inter> P = {}" using extractedD(3,4)[OF ext] ws_wfD(6)[OF wf] by blast
  note app = apply_listed[OF l CP]
  have x: "extract_outgoing_message ops elen (ne_open env) ?a1 =
      (?a1\<lparr>mq_sender := Some h, mq_wants := ws\<rparr>, Some (msg, pe, be))"
    using h e by (cases "mq_sender a") (simp_all add: extract_outgoing_message_def)
  have eq: "mq_wants a' = ws \<and> mq_sender a' = Some h \<and> (\<forall>V. apply_sent m V = (V - C) \<union> P)"
  proof (cases "BitswapMessage_is_empty msg")
    case True
    then have "a' = ?a1\<lparr>mq_sender := Some h, mq_wants := ws\<rparr>" "m = None"
      using res unfolding send_message_def Let_def x by simp_all
    then show ?thesis using app(2)[OF True] by (simp add: apply_sent_def)
  next
    case False
    have ok: "ne_sent env" using res False unfolding send_message_def Let_def x by (simp split: if_splits)
    have "ws\<lparr>ws_peer_wants := ws_peer_wants ws, ws_bcst_wants := ws_bcst_wants ws\<rparr> = ws" by simp
    then have "mq_wants a' = ws" "mq_sender a' = Some h" "m = Some msg"
      using res False ok unfolding send_message_def Let_def x by (auto simp: sent_at_fold[OF out(1)] sent_at_fold[OF out(2)] split: if_splits)
    then show ?thesis using app(1) by (simp add: apply_sent_def)
  qed
  have "mq_inv a'" using eq extractedD(1,9)[OF ext] by (auto simp: mq_inv_def)
  moreover have "h = (case mq_sender a of Some h \<Rightarrow> h | None \<Rightarrow> the (ne_open env))"
    using h by (auto split: option.split if_splits)
  ultimately show thesis using that[of h P C] eq ext by simp
qed

subsection \<open>Wants and cancels coming in\<close>

lemma ws_pending_wf_simps [simp]:
  "ws_pending (ws\<lparr>ws_cancels := cs\<rparr>) = ws_pending ws" "ws_sent (ws\<lparr>ws_cancels := cs\<rparr>) = ws_sent ws"
  by (simp_all add: ws_pending_def ws_sent_def)

lemma rw_sent_at_simps [simp]:
  "rw_sent_at (RecallWantlist_add c p t r) = rw_sent_at r"
  "rw_sent_at (RecallWantlist_remove c r) = hm_remove c (rw_sent_at r)"
  by (simp_all add: RecallWantlist_add_def RecallWantlist_remove_def)

lemma add_want_spec:
  assumes "ws_wf ws" and "ws' = add_bcst_want c ws \<or> ws' = add_peer_want t c ws"
  shows "ws_wf ws'" and "ws_pending ws' = insert c (ws_pending ws)" and "ws_sent ws' = ws_sent ws"
    and "set (ws_cancels ws') = set (ws_cancels ws) - {c}"
    and "rw_sent (ws_peer_wants ws') = rw_sent (ws_peer_wants ws)"
proof -
  show p: "ws_pending ws' = insert c (ws_pending ws)" and s: "ws_sent ws' = ws_sent ws"
    and x: "set (ws_cancels ws') = set (ws_cancels ws) - {c}"
    and "rw_sent (ws_peer_wants ws') = rw_sent (ws_peer_wants ws)"
    using assms(2) by - (elim disjE; simp add: add_bcst_want_def add_peer_want_def RecallWantlist_add_def
        ws_pending_def ws_sent_def set_diff_eq[symmetric])+
  have "distinct (ws_cancels ws')" "recall_wf (ws_bcst_wants ws')" "recall_wf (ws_peer_wants ws')"
    "rw_sent_at (ws_bcst_wants ws') = []" "rw_sent_at (ws_peer_wants ws') = []"
    using assms(2) ws_wfD(1-5)[OF assms(1)]
    by - (elim disjE; simp add: add_bcst_want_def add_peer_want_def distinct_removeAll)+
  moreover have "set (ws_cancels ws') \<inter> (ws_pending ws' \<union> ws_sent ws') = {}"
    unfolding p s x using ws_wfD(6)[OF assms(1)] by blast
  ultimately show "ws_wf ws'" by (simp add: ws_wf_def)
qed

text \<open>What a batch of wants does.\<close>

definition wants_added :: "'cid wants \<Rightarrow> 'cid set \<Rightarrow> 'cid wants \<Rightarrow> bool" where
  "wants_added ws A ws' \<longleftrightarrow> ws_wf ws' \<and> ws_pending ws' = ws_pending ws \<union> A \<and> ws_sent ws' = ws_sent ws \<and>
     set (ws_cancels ws') = set (ws_cancels ws) - A \<and>
     rw_sent (ws_peer_wants ws') = rw_sent (ws_peer_wants ws)"

lemma wants_added_trans: "wants_added ws A ws' \<Longrightarrow> wants_added ws' B ws'' \<Longrightarrow> wants_added ws (A \<union> B) ws''"
  by (auto simp: wants_added_def)

lemma wants_added_one:
  assumes "ws_wf ws"
  shows "wants_added ws {c} (add_bcst_want c ws)" and "wants_added ws {c} (add_peer_want t c ws)"
  using add_want_spec[OF assms, of "add_bcst_want c ws" c t] add_want_spec[OF assms, of "add_peer_want t c ws" c t]
  by (simp_all add: wants_added_def)

lemma wants_added_fold:
  assumes "\<And>c ws. ws_wf ws \<Longrightarrow> wants_added ws {c} (f c ws)" and "ws_wf ws"
  shows "wants_added ws (set cs) (fold f cs ws)"
  using assms(2)
proof (induction cs arbitrary: ws)
  case Nil
  then show ?case by (simp add: wants_added_def)
next
  case (Cons c cs)
  note one = assms(1)[OF Cons.prems, of c]
  then have "ws_wf (f c ws)" by (simp add: wants_added_def)
  from wants_added_trans[OF one Cons.IH[OF this]] show ?case by simp
qed

lemma cancel_want_spec:
  assumes "ws_wf ws" and "cancel_want c (ws, ready) = (ws', ready')"
  shows "ws_wf ws'" and "ws_pending ws' = ws_pending ws - {c}" and "ws_sent ws' = ws_sent ws - {c}"
    and "set (ws_cancels ws') = set (ws_cancels ws) \<union> ({c} \<inter> ws_sent ws)"
    and "sent_blocks_only (ws_peer_wants ws) \<Longrightarrow> sent_blocks_only (ws_peer_wants ws')"
proof -
  let ?ws1 = "ws\<lparr>ws_bcst_wants := RecallWantlist_remove c (ws_bcst_wants ws),
      ws_peer_wants := RecallWantlist_remove c (ws_peer_wants ws)\<rparr>"
  have ws': "ws' = (if c \<in> ws_sent ws then ?ws1\<lparr>ws_cancels := hs_insert c (ws_cancels ws)\<rparr> else ?ws1)"
    using assms(2) by (auto simp: cancel_want_def Let_def Wantlist_contains_def ws_sent_def split: if_splits)
  have same: "ws_bcst_wants ws' = RecallWantlist_remove c (ws_bcst_wants ws)"
    "ws_peer_wants ws' = RecallWantlist_remove c (ws_peer_wants ws)" by (simp_all add: ws')
  show p: "ws_pending ws' = ws_pending ws - {c}" and s: "ws_sent ws' = ws_sent ws - {c}"
    by (auto simp: ws_pending_def ws_sent_def same RecallWantlist_remove_def)
  show x: "set (ws_cancels ws') = set (ws_cancels ws) \<union> ({c} \<inter> ws_sent ws)" by (auto simp: ws')
  show "sent_blocks_only (ws_peer_wants ws')" if "sent_blocks_only (ws_peer_wants ws)"
    using that by (simp add: sent_blocks_only_def same RecallWantlist_remove_def Wantlist_get_remove)
  have "recall_wf (ws_bcst_wants ws')" "recall_wf (ws_peer_wants ws')"
    "rw_sent_at (ws_bcst_wants ws') = []" "rw_sent_at (ws_peer_wants ws') = []" "distinct (ws_cancels ws')"
    using ws_wfD(1-5)[OF assms(1)]
    by (simp_all add: same) (simp_all add: RecallWantlist_remove_def ws')
  moreover have "set (ws_cancels ws') \<inter> (ws_pending ws' \<union> ws_sent ws') = {}"
    unfolding p s x using ws_wfD(6)[OF assms(1)] by blast
  ultimately show "ws_wf ws'" by (simp add: ws_wf_def)
qed

lemma cancel_want_fold:
  assumes "ws_wf ws" and "fold cancel_want cs (ws, ready) = (ws', ready')"
  shows "ws_wf ws' \<and> ws_pending ws' = ws_pending ws - set cs \<and> ws_sent ws' = ws_sent ws - set cs \<and>
    set (ws_cancels ws') = set (ws_cancels ws) \<union> (set cs \<inter> ws_sent ws) \<and>
    (sent_blocks_only (ws_peer_wants ws) \<longrightarrow> sent_blocks_only (ws_peer_wants ws'))"
  using assms
proof (induction cs arbitrary: ws ready)
  case (Cons c cs)
  obtain ws1 r1 where one: "cancel_want c (ws, ready) = (ws1, r1)" by fastforce
  note s = cancel_want_spec[OF Cons.prems(1) one]
  have "fold cancel_want cs (ws1, r1) = (ws', ready')" using Cons.prems(2) one by simp
  note ih = Cons.IH[OF s(1) this]
  then show ?case using s(2-5) by auto
qed simp

subsection \<open>The queue and what its peer knows\<close>

text \<open>
  \<open>V\<close> is what the peer has been told: it knows of all wants recorded as sent. In the strict form it
  knows of no other want, except for those with a cancel still to be sent.
\<close>

definition view_ok :: "bool \<Rightarrow> ('cid, 'peer, 'f) mq_actor \<Rightarrow> 'cid set \<Rightarrow> bool" where
  "view_ok strict a V \<longleftrightarrow> mq_inv a \<and> ws_sent (mq_wants a) \<subseteq> V \<and>
     (strict \<longrightarrow> V \<subseteq> ws_sent (mq_wants a) \<union> set (ws_cancels (mq_wants a)))"

lemma view_ok_cong:
  "mq_wants a' = mq_wants a \<Longrightarrow> mq_sender a' = mq_sender a \<Longrightarrow> view_ok strict a' V = view_ok strict a V"
  by (simp add: view_ok_def mq_inv_def)

lemma view_ok_send:
  assumes "view_ok strict a V" and "send_message ops elen env a = (a', m, False)"
  shows "view_ok strict a' (apply_sent m V)"
proof -
  have inv: "mq_inv a" using assms(1) by (simp add: view_ok_def)
  from send_message_spec[OF inv assms(2)] obtain P C h where inv': "mq_inv a'"
    and ext: "extracted h (mq_wants a) P C (mq_wants a')" and app: "\<And>V. apply_sent m V = (V - C) \<union> P" by metis
  have "C \<inter> ws_sent (mq_wants a) = {}"
    using extractedD(4)[OF ext] ws_wfD(6)[of "mq_wants a"] inv unfolding mq_inv_def by blast
  then show ?thesis
    using assms(1) inv' unfolding view_ok_def app extractedD(2,5)[OF ext] by blast
qed

lemma view_ok_send_if_ready:
  assumes "view_ok strict a V" and "send_if_ready ops elen env a = (a', m, False)"
  shows "view_ok strict a' (apply_sent m V)"
  using assms view_ok_send[OF assms(1)]
  by (auto simp: send_if_ready_def apply_sent_def split: if_splits)

lemma view_ok_added:
  assumes "view_ok strict a V" and "wants_added (mq_wants a) A ws"
    and "strict \<Longrightarrow> A \<inter> set (ws_cancels (mq_wants a)) = {}"
  shows "view_ok strict (a\<lparr>mq_wants := ws\<rparr>) V"
proof -
  have "set (ws_cancels ws) = set (ws_cancels (mq_wants a))" if strict
    using assms(2) assms(3)[OF that] by (auto simp: wants_added_def)
  then show ?thesis
    using assms(1,2) by (auto simp: view_ok_def mq_inv_def wants_added_def sent_blocks_only_def)
qed

lemma view_ok_transfer:
  assumes "view_ok strict a V" and "transfer_rebroadcast_wants a = (a', ready)"
  shows "view_ok strict a' V"
proof -
  let ?ws = "mq_wants a"
  have wf: "ws_wf ?ws" using assms(1) by (simp add: view_ok_def mq_inv_def)
  note D = ws_wfD[OF wf]
  have wfs: "wantlist_wf (rw_sent (ws_bcst_wants ?ws))" "wantlist_wf (rw_sent (ws_peer_wants ?ws))"
    using D(1,2) by (simp_all add: recall_wf_def)
  consider "a' = a" | "a' = a\<lparr>mq_wants := ?ws\<lparr>
      ws_bcst_wants := (ws_bcst_wants ?ws)\<lparr>rw_pending := Wantlist_extend (rw_sent (ws_bcst_wants ?ws)) (rw_pending (ws_bcst_wants ?ws))\<rparr>,
      ws_peer_wants := (ws_peer_wants ?ws)\<lparr>rw_pending := Wantlist_extend (rw_sent (ws_peer_wants ?ws)) (rw_pending (ws_peer_wants ?ws))\<rparr>\<rparr>\<rparr>"
    using assms(2) by (auto simp: transfer_rebroadcast_wants_def Let_def split: if_splits)
  then show ?thesis
  proof cases
    case 2
    have s: "ws_sent (mq_wants a') = ws_sent ?ws" "ws_cancels (mq_wants a') = ws_cancels ?ws" "mq_sender a' = mq_sender a"
      and p: "ws_pending (mq_wants a') = ws_sent ?ws \<union> ws_pending ?ws"
      unfolding 2 ws_sent_def ws_pending_def using wfs by (simp_all add: Un_ac)
    have "ws_wf (mq_wants a')" unfolding ws_wf_def s p
      using D wfs by (simp add: 2 recall_wf_def) blast
    moreover have "sent_blocks_only (ws_peer_wants (mq_wants a')) = sent_blocks_only (ws_peer_wants ?ws)"
      by (simp add: 2 sent_blocks_only_def)
    ultimately show ?thesis using assms(1) unfolding view_ok_def mq_inv_def s by simp
  qed (use assms(1) in simp)
qed

text \<open>The wants that an event adds.\<close>

fun event_wants :: "'cid mq_event \<Rightarrow> 'cid set" where
  "event_wants (EvWants (BroadcastWantHaves cs)) = set cs"
| "event_wants (EvWants (Wants want_blocks want_haves)) = set want_blocks \<union> set want_haves"
| "event_wants _ = {}"

lemma view_ok_update:
  assumes "view_ok strict a V"
    and "strict \<Longrightarrow> event_wants (EvWants u) \<inter> set (ws_cancels (mq_wants a)) = {}"
  shows "view_ok strict (handle_wants_update now u a) V"
proof -
  have wf: "ws_wf (mq_wants a)" using assms(1) by (simp add: view_ok_def mq_inv_def)
  show ?thesis
  proof (cases u)
    case (BroadcastWantHaves cs)
    have add: "wants_added (mq_wants a) (set cs) (fold add_bcst_want cs (mq_wants a))"
      by (rule wants_added_fold[OF wants_added_one(1) wf])
    from view_ok_added[OF assms(1) add] show ?thesis
      using assms(2) by (simp add: BroadcastWantHaves view_ok_cong[OF mq_wants_signal(1,2)])
  next
    case (Wants bs hs)
    have one: "wants_added (mq_wants a) (set hs) (fold (add_peer_want WantHave) hs (mq_wants a))"
      by (rule wants_added_fold[OF wants_added_one(2) wf])
    then have "ws_wf (fold (add_peer_want WantHave) hs (mq_wants a))" by (simp add: wants_added_def)
    from wants_added_trans[OF one wants_added_fold[OF wants_added_one(2) this]]
    have add: "wants_added (mq_wants a) (set hs \<union> set bs)
        (fold (add_peer_want WantBlock) bs (fold (add_peer_want WantHave) hs (mq_wants a)))" .
    from view_ok_added[OF assms(1) add] show ?thesis
      using assms(2) by (simp add: Wants view_ok_cong[OF mq_wants_signal(1,2)] Un_commute)
  next
    case (Cancels cs)
    obtain ws r where f: "fold cancel_want cs (mq_wants a, False) = (ws, r)" by fastforce
    let ?a = "a\<lparr>mq_dh_timeout_manager := cancel_pending cs (mq_dh_timeout_manager a), mq_wants := ws\<rparr>"
    have "view_ok strict ?a V"
      using cancel_want_fold[OF wf f] assms(1) by (auto simp: view_ok_def mq_inv_def)
    then show ?thesis using f by (simp add: Cancels Let_def view_ok_cong[OF mq_wants_signal(1,2)])
  qed
qed

text \<open>No sent time is ever recorded, so a response changes nothing.\<close>

lemma handle_response_noop:
  assumes "ws_wf (mq_wants a)"
  shows "handle_response fl now cs a = Some a"
proof -
  have "response_step cfg now c (mq_wants a, e) = (mq_wants a, e)" for cfg c e
    using ws_wfD(3,4)[OF assms] by (simp add: response_step_def)
  then have "fold (response_step cfg now) cs (mq_wants a, e) = (mq_wants a, e)" for cfg e
    by (induction cs) simp_all
  then show ?thesis by (simp add: handle_response_def)
qed

lemma after_send_Running:
  "after_send st r = (Running st', m) \<longleftrightarrow> (\<exists>a. r = (a, m, False) \<and> st' = st\<lparr>mr_actor := a\<rparr>)"
  by (cases r) (auto simp: after_send_def split: if_splits)

lemma view_ok_event:
  assumes ok: "view_ok strict (mr_actor st) V" and res: "run_event ops elen fl env ev st = (Running st', m)"
    and guard: "strict \<Longrightarrow> event_wants ev \<inter> set (ws_cancels (mq_wants (mr_actor st))) = {}"
  shows "view_ok strict (mr_actor st') (apply_sent m V)"
proof (cases ev)
  case (EvWants u)
  then show ?thesis using res view_ok_update[OF ok, of u] guard by (auto simp: apply_sent_def)
next
  case (EvResponses cs)
  have "ws_wf (mq_wants (mr_actor st))" using ok by (simp add: view_ok_def mq_inv_def)
  then show ?thesis using res ok by (auto simp: EvResponses handle_response_noop apply_sent_def)
next
  case EvRebroadcast
  obtain a1 ready where t: "transfer_rebroadcast_wants (mr_actor st) = (a1, ready)" by fastforce
  obtain a where r: "rebroadcast_wantlist ops elen env (mr_actor st) = (a, m, False)" and st': "st' = st\<lparr>mr_actor := a\<rparr>"
    using res EvRebroadcast by (auto simp: after_send_Running)
  show ?thesis
  proof (cases ready)
    case True
    then have "send_message ops elen env a1 = (a, m, False)" using r t by (simp add: rebroadcast_wantlist_def)
    from view_ok_send[OF view_ok_transfer[OF ok t] this] show ?thesis by (simp add: st')
  next
    case False
    then have "a = a1" "m = None" using r t by (simp_all add: rebroadcast_wantlist_def)
    then show ?thesis using view_ok_transfer[OF ok t] by (simp add: st' apply_sent_def)
  qed
next
  case EvOutgoingWork
  show ?thesis
  proof (cases "mq_outgoing_work (mr_actor st)")
    case Nil
    then show ?thesis using res ok by (auto simp: EvOutgoingWork apply_sent_def)
  next
    case (Cons w rest)
    let ?a = "(mr_actor st)\<lparr>mq_outgoing_work := rest\<rparr>"
    have a: "view_ok strict ?a V" using ok by (simp add: view_ok_cong[of ?a "mr_actor st"])
    have "(\<exists>a. send_if_ready ops elen env ?a = (a, m, False) \<and> mr_actor st' = a) \<or> (m = None \<and> mr_actor st' = ?a)"
      using res unfolding EvOutgoingWork
      by (auto simp: Cons Let_def after_send_Running split: if_splits option.splits)
    then show ?thesis using view_ok_send_if_ready[OF a] a by (auto simp: apply_sent_def)
  qed
next
  case EvScheduledWork
  then show ?thesis using res ok view_ok_send_if_ready[OF ok]
    by (auto simp: after_send_Running apply_sent_def split: if_splits)
qed (use res in simp)

text \<open>
  The states of the event loop with what the peer was told so far. In the strict form no want is
  repeated while a cancel for it waits to be sent.
\<close>

inductive mq_reachable ::
    "('cid, 'mh) cid_ops \<Rightarrow> (pb_entry \<Rightarrow> nat) \<Rightarrow> 'f dur_ops \<Rightarrow> bool \<Rightarrow> ('cid, 'peer, 'f) mq_run \<Rightarrow> 'cid set \<Rightarrow> bool"
    for ops elen fl strict where
  mq_started: "mq_reachable ops elen fl strict (run_start (MessageQueueActor_new fl cfg peer)) {}"
| mq_event: "mq_reachable ops elen fl strict st V \<Longrightarrow> run_event ops elen fl env ev st = (Running st', m) \<Longrightarrow>
    (strict \<longrightarrow> event_wants ev \<inter> set (ws_cancels (mq_wants (mr_actor st))) = {}) \<Longrightarrow>
    mq_reachable ops elen fl strict st' (apply_sent m V)"

lemma mq_reachable_view: "mq_reachable ops elen fl strict st V \<Longrightarrow> view_ok strict (mr_actor st) V"
proof (induction rule: mq_reachable.induct)
  case (mq_started cfg peer)
  have "sent_blocks_only RecallWantlist_default"
    by (simp add: sent_blocks_only_def RecallWantlist_default_def Wantlist_get_def Wantlist_default_def)
  then show ?case
    by (auto simp: view_ok_def mq_inv_def run_start_def MessageQueueActor_new_def Wants_new_def ws_wf_def ws_sent_def
        ws_pending_def) (simp_all add: RecallWantlist_default_def Wantlist_default_def)
next
  case (mq_event st V env ev st' m)
  then show ?case by (auto intro: view_ok_event)
qed

subsection \<open>Draining the queue\<close>

text \<open>One round of sending what is pending, and what the peer knows afterwards.\<close>

definition flush_round ::
    "('cid, 'mh) cid_ops \<Rightarrow> (pb_entry \<Rightarrow> nat) \<Rightarrow> net_env \<Rightarrow> ('cid, 'peer, 'f) mq_actor \<times> 'cid set \<Rightarrow>
      ('cid, 'peer, 'f) mq_actor \<times> 'cid set" where
  "flush_round ops elen env = (\<lambda>(a, V).
     case send_if_ready ops elen env a of (a', m, fatal) \<Rightarrow> (a', apply_sent m V))"

text \<open>The network works and the peer supports HAVE.\<close>

definition net_good :: "net_env \<Rightarrow> ('cid, 'peer, 'f) mq_actor \<Rightarrow> bool" where
  "net_good env a \<longleftrightarrow> ne_open env = Some True \<and> ne_sent env \<and> mq_sender a \<noteq> Some False"

lemma send_message_good:
  assumes "net_good env a"
  obtains a' m where "send_message ops elen env a = (a', m, False)"
proof -
  have s: "(if mq_sender a = None then ne_open env else mq_sender a) = Some True"
    using assms by (cases "mq_sender a") (auto simp: net_good_def)
  have "\<not> snd (snd (send_message ops elen env a))"
    using s assms by (auto simp: send_message_def extract_outgoing_message_def net_good_def Let_def split: prod.splits option.splits)
  then show thesis using that by (metis prod.collapse)
qed

lemma flush_round_step:
  assumes ok: "view_ok strict a V" and good: "net_good env a" and r: "flush_round ops elen env (a, V) = (a', V')"
  shows "view_ok strict a' V'" and "net_good env a'"
    and "ws_sent (mq_wants a') \<union> ws_pending (mq_wants a') = ws_sent (mq_wants a) \<union> ws_pending (mq_wants a)"
    and "Wants_pending_work_count (mq_wants a') \<le> Wants_pending_work_count (mq_wants a) - 1"
proof -
  have "view_ok strict a' V' \<and> net_good env a' \<and>
    ws_sent (mq_wants a') \<union> ws_pending (mq_wants a') = ws_sent (mq_wants a) \<union> ws_pending (mq_wants a) \<and>
    Wants_pending_work_count (mq_wants a') \<le> Wants_pending_work_count (mq_wants a) - 1"
  proof (cases "Wants_has_pending_work (mq_wants a)")
    case False
    then show ?thesis using ok good r
      by (simp add: flush_round_def send_if_ready_def apply_sent_def Wants_has_pending_work_def)
  next
    case True
    obtain a1 m where s: "send_message ops elen env a = (a1, m, False)" by (rule send_message_good[OF good])
    have a': "a' = a1" "V' = apply_sent m V" using r s True by (simp_all add: flush_round_def send_if_ready_def)
    have inv: "mq_inv a" using ok by (simp add: view_ok_def)
    from send_message_spec[OF inv s] obtain P C h where h: "mq_sender a1 = Some h"
      "h = (case mq_sender a of Some h \<Rightarrow> h | None \<Rightarrow> the (ne_open env))"
      and ext: "extracted h (mq_wants a) P C (mq_wants a1)" by metis
    have hT: "h" using h(2) good by (auto simp: net_good_def split: option.splits)
    have "ws_sent (mq_wants a1) \<union> ws_pending (mq_wants a1) = ws_sent (mq_wants a) \<union> ws_pending (mq_wants a)"
      using extractedD(2,3,6)[OF ext] extractedD(7)[OF ext hT] by blast
    moreover have "net_good env a1" using good h(1) hT by (simp add: net_good_def)
    ultimately show ?thesis
      using view_ok_send[OF ok s] extractedD(8)[OF ext True] unfolding a' by simp
  qed
  then show "view_ok strict a' V'" and "net_good env a'"
    and "ws_sent (mq_wants a') \<union> ws_pending (mq_wants a') = ws_sent (mq_wants a) \<union> ws_pending (mq_wants a)"
    and "Wants_pending_work_count (mq_wants a') \<le> Wants_pending_work_count (mq_wants a) - 1" by blast+
qed

lemma flush_rounds:
  assumes "view_ok strict a V" and "net_good env a" and "Wants_pending_work_count (mq_wants a) \<le> n"
    and "(flush_round ops elen env ^^ n) (a, V) = (a', V')"
  shows "view_ok strict a' V' \<and> Wants_pending_work_count (mq_wants a') = 0 \<and>
    ws_sent (mq_wants a') \<union> ws_pending (mq_wants a') = ws_sent (mq_wants a) \<union> ws_pending (mq_wants a)"
  using assms
proof (induction n arbitrary: a V)
  case (Suc n)
  obtain a1 V1 where r: "flush_round ops elen env (a, V) = (a1, V1)" by fastforce
  note s = flush_round_step[OF Suc.prems(1,2) r]
  have "(flush_round ops elen env ^^ n) (a1, V1) = (a', V')" using Suc.prems(4) r by (simp add: funpow_swap1)
  from Suc.IH[OF s(1,2) _ this] show ?case using s(3,4) Suc.prems(3) by auto
qed simp

lemma no_work_empty:
  assumes "ws_wf ws" and "Wants_pending_work_count ws = 0"
  shows "ws_pending ws = {}" and "ws_cancels ws = []"
  using assms(2) unfolding pending_work_card[OF assms(1)] by (auto simp: ws_pending_def)

subsection \<open>Single updates of a reachable queue\<close>

definition step_update :: "'cid wants_update \<Rightarrow> ('cid, 'peer, 'f) mq_run \<Rightarrow> ('cid, 'peer, 'f) mq_run" where
  "step_update u st = st\<lparr>mr_actor := handle_wants_update 0 u (mr_actor st)\<rparr>"

lemma step_update_reachable:
  "mq_reachable ops elen fl False st V \<Longrightarrow> mq_reachable ops elen fl False (step_update u st) V"
  using mq_event[of ops elen fl False st V "\<lparr>ne_open = None, ne_sent = False, ne_now = 0\<rparr>" "EvWants u" "step_update u st" None]
  by (simp add: apply_sent_def step_update_def)

lemma step_update_want:
  assumes "mq_reachable ops elen fl False st V"
  shows "ws_pending (mq_wants (mr_actor (step_update (Wants [c] []) st))) = insert c (ws_pending (mq_wants (mr_actor st)))"
    and "ws_sent (mq_wants (mr_actor (step_update (Wants [c] []) st))) = ws_sent (mq_wants (mr_actor st))"
    and "set (ws_cancels (mq_wants (mr_actor (step_update (Wants [c] []) st)))) = set (ws_cancels (mq_wants (mr_actor st))) - {c}"
  using add_want_spec[of "mq_wants (mr_actor st)" "add_peer_want WantBlock c (mq_wants (mr_actor st))" c WantBlock]
    mq_reachable_view[OF assms] by (simp_all add: view_ok_def mq_inv_def step_update_def)

lemma step_update_cancel:
  assumes "mq_reachable ops elen fl False st V"
  shows "ws_pending (mq_wants (mr_actor (step_update (Cancels [c]) st))) = ws_pending (mq_wants (mr_actor st)) - {c}"
    and "ws_sent (mq_wants (mr_actor (step_update (Cancels [c]) st))) = ws_sent (mq_wants (mr_actor st)) - {c}"
    and "set (ws_cancels (mq_wants (mr_actor (step_update (Cancels [c]) st)))) =
      set (ws_cancels (mq_wants (mr_actor st))) \<union> ({c} \<inter> ws_sent (mq_wants (mr_actor st)))"
proof -
  obtain ws b where f: "cancel_want c (mq_wants (mr_actor st), False) = (ws, b)" by fastforce
  have "ws_wf (mq_wants (mr_actor st))" using mq_reachable_view[OF assms] by (simp add: view_ok_def mq_inv_def)
  from cancel_want_spec(2-4)[OF this f]
  show "ws_pending (mq_wants (mr_actor (step_update (Cancels [c]) st))) = ws_pending (mq_wants (mr_actor st)) - {c}"
    and "ws_sent (mq_wants (mr_actor (step_update (Cancels [c]) st))) = ws_sent (mq_wants (mr_actor st)) - {c}"
    and "set (ws_cancels (mq_wants (mr_actor (step_update (Cancels [c]) st)))) =
      set (ws_cancels (mq_wants (mr_actor st))) \<union> ({c} \<inter> ws_sent (mq_wants (mr_actor st)))"
    using f by (simp_all add: Let_def step_update_def)
qed

text \<open>A want is added to a new queue and sent.\<close>

lemma first_want_sent:
  "\<exists>st V env m. run_event ops elen fl env EvOutgoingWork
       (step_update (Wants [c] []) (run_start (MessageQueueActor_new fl Config_default peer))) = (Running st, m) \<and>
     mq_reachable ops elen fl False (st :: ('cid, 'peer, 'f) mq_run) V \<and> c \<in> V \<and>
     ws_sent (mq_wants (mr_actor st)) = {c} \<and> ws_pending (mq_wants (mr_actor st)) = {} \<and>
     ws_cancels (mq_wants (mr_actor st)) = []"
proof -
  let ?env = "\<lparr>ne_open = Some True, ne_sent = True, ne_now = mc_send_message_max_delay Config_default\<rparr>"
  let ?s0 = "run_start (MessageQueueActor_new fl Config_default peer) :: ('cid, 'peer, 'f) mq_run"
  let ?s1 = "step_update (Wants [c] []) ?s0"
  let ?a = "(mr_actor ?s1)\<lparr>mq_outgoing_work := []\<rparr>"
  have r0: "mq_reachable ops elen fl False ?s0 {}" by (rule mq_started)
  have r1: "mq_reachable ops elen fl False ?s1 {}" by (rule step_update_reachable[OF r0])
  note init = run_start_def MessageQueueActor_new_def Wants_new_def RecallWantlist_default_def Wantlist_default_def
  have w0: "ws_sent (mq_wants (mr_actor ?s0)) = {}" "ws_pending (mq_wants (mr_actor ?s0)) = {}"
    "ws_cancels (mq_wants (mr_actor ?s0)) = []" by (simp_all add: init ws_sent_def ws_pending_def)
  have w1: "ws_sent (mq_wants ?a) = {}" "ws_pending (mq_wants ?a) = {c}" "ws_cancels (mq_wants ?a) = []"
    using step_update_want[OF r0, of c] w0 by simp_all
  have count: "Wants_pending_work_count (mq_wants ?a) = 1"
    by (simp add: step_update_def init Wants_pending_work_count_def add_peer_want_def RecallWantlist_add_def
        Wantlist_add_def Wantlist_len_def)
  have good: "net_good ?env ?a" by (simp add: net_good_def step_update_def init signal_work_def)
  obtain a' m where s: "send_message ops elen ?env ?a = (a', m, False)" by (rule send_message_good[OF good])
  let ?s2 = "?s1\<lparr>mr_actor := a', mr_work_scheduled := None\<rparr>"
  have run: "run_event ops elen fl ?env EvOutgoingWork ?s1 = (Running ?s2, m)"
    using s count by (simp add: step_update_def signal_work_def init after_send_def send_if_ready_def
        Wants_has_pending_work_def)
  from mq_event[OF r1 run] have r2: "mq_reachable ops elen fl False ?s2 (apply_sent m {})" by simp
  have inv: "mq_inv ?a" using mq_reachable_view[OF r1] by (simp add: view_ok_def mq_inv_def)
  obtain P C h where h: "mq_inv a'" "mq_sender a' = Some h" "h = (case mq_sender ?a of Some h \<Rightarrow> h | None \<Rightarrow> the (ne_open ?env))"
    and ext: "extracted h (mq_wants ?a) P C (mq_wants a')" and app: "\<And>V. apply_sent m V = (V - C) \<union> P"
    by (rule send_message_spec[OF inv s]) (rule that)
  have "h" using h(3) good by (auto simp: net_good_def split: option.splits)
  have "Wants_pending_work_count (mq_wants a') = 0"
    using extractedD(8)[OF ext] count by (simp add: Wants_has_pending_work_def)
  then have drained: "ws_pending (mq_wants a') = {}" "ws_cancels (mq_wants a') = []"
    using h(1) no_work_empty[of "mq_wants a'"] by (simp_all add: mq_inv_def)
  then have P: "P = {c}" using extractedD(3)[OF ext] extractedD(7)[OF ext \<open>h\<close>] w1 by auto
  show ?thesis
    using run r2 drained P app[of "{}"] extractedD(2)[OF ext] w1
    by (intro exI[of _ ?s2] exI[of _ "apply_sent m {}"] exI[of _ ?env] exI[of _ m] conjI) simp_all
qed

subsection \<open>Properties\<close>

text \<open>
  C14: In every reachable state of the event loop the peer has been told of every want that is recorded as
  sent, no want is pending or sent while its cancel waits, and, as long as no want was repeated while its
  cancel was still waiting, the peer knows of no other wants than those sent or about to be cancelled.
\<close>

theorem MessageQueue_peer_view:
  assumes "mq_reachable ops elen fl strict st V"
  shows "ws_sent (mq_wants (mr_actor st)) \<subseteq> V \<and>
    set (ws_cancels (mq_wants (mr_actor st))) \<inter>
      (ws_pending (mq_wants (mr_actor st)) \<union> ws_sent (mq_wants (mr_actor st))) = {} \<and>
    (strict \<longrightarrow> V \<subseteq> ws_sent (mq_wants (mr_actor st)) \<union> set (ws_cancels (mq_wants (mr_actor st))))"
  using mq_reachable_view[OF assms] ws_wfD(6)[of "mq_wants (mr_actor st)"]
  unfolding view_ok_def mq_inv_def by blast


text \<open>
  C37: The latency of a peer is never measured: in every reachable state a response leaves the queue as it
  is, because the time of sending is recorded only for wants that are not in the sent list, and it is
  recorded after the wants were moved there.
\<close>

theorem MessageQueue_latency_never_measured:
  assumes "mq_reachable ops elen fl strict st V"
  shows "handle_response fl now cs (mr_actor st) = Some (mr_actor st)"
  using mq_reachable_view[OF assms] by (intro handle_response_noop) (simp add: view_ok_def mq_inv_def)

text \<open>
  C38: A want that is repeated and cancelled again before its first cancel was sent is never cancelled at
  the peer: a state is reachable in which the queue has no wants and no work left while the peer still
  believes that the CID is wanted.
\<close>

theorem MessageQueue_lost_cancel:
  "\<exists>st V. mq_reachable ops elen fl False (st :: ('cid, 'peer, 'f) mq_run) V \<and> c \<in> V \<and>
     ws_sent (mq_wants (mr_actor st)) = {} \<and> \<not> Wants_has_pending_work (mq_wants (mr_actor st))"
proof -
  obtain s1 :: "('cid, 'peer, 'f) mq_run" and V where r1: "mq_reachable ops elen fl False s1 V" and V: "c \<in> V"
    and s1: "ws_sent (mq_wants (mr_actor s1)) = {c}" "ws_pending (mq_wants (mr_actor s1)) = {}"
      "ws_cancels (mq_wants (mr_actor s1)) = []"
    using first_want_sent by metis
  let ?s2 = "step_update (Cancels [c]) s1" and ?s3 = "step_update (Wants [c] []) (step_update (Cancels [c]) s1)"
  let ?s4 = "step_update (Cancels [c]) ?s3"
  note r2 = step_update_reachable[OF r1, of "Cancels [c]"]
  note r3 = step_update_reachable[OF r2, of "Wants [c] []"]
  note r4 = step_update_reachable[OF r3, of "Cancels [c]"]
  have s4: "ws_sent (mq_wants (mr_actor ?s4)) = {}" "ws_pending (mq_wants (mr_actor ?s4)) = {}"
    "set (ws_cancels (mq_wants (mr_actor ?s4))) = {}"
    using s1 step_update_cancel[OF r1, of c] step_update_want[OF r2, of c] step_update_cancel[OF r3, of c] by simp_all
  have "ws_wf (mq_wants (mr_actor ?s4))" using mq_reachable_view[OF r4] by (simp add: view_ok_def mq_inv_def)
  then have "\<not> Wants_has_pending_work (mq_wants (mr_actor ?s4))"
    using s4(2,3) by (simp add: Wants_has_pending_work_def pending_work_card ws_pending_def)
  then show ?thesis using r4 V s4(1) by blast
qed

text \<open>A queue to which one want was given, and what the peer then learns.\<close>

definition demo_run :: "(bytes, nat, nat) mq_run" where
  "demo_run = step_update (Wants [[7]] []) (run_start (MessageQueueActor_new demo_dur Config_default 1))"

lemma demo_run_reachable: "mq_reachable demo_ops (\<lambda>_. 1) demo_dur True demo_run {}"
  using mq_event[OF mq_started[of demo_ops "\<lambda>_. 1" demo_dur True Config_default 1],
      of "\<lparr>ne_open = None, ne_sent = False, ne_now = 0\<rparr>" "EvWants (Wants [[7]] [])" demo_run None]
  by (simp add: apply_sent_def demo_run_def step_update_def run_start_def MessageQueueActor_new_def Wants_new_def)

lemmas demo_run_simps = demo_run_def step_update_def run_start_def MessageQueueActor_new_def Wants_new_def
  RecallWantlist_default_def Wantlist_default_def add_peer_want_def RecallWantlist_add_def Wantlist_add_def
  ws_sent_def ws_pending_def signal_work_def

theorem MessageQueue_peer_view_witness: "ws_sent (mq_wants (mr_actor demo_run)) \<subseteq> {}"
  using MessageQueue_peer_view[OF demo_run_reachable] by blast


theorem MessageQueue_latency_never_measured_witness:
  "handle_response demo_dur 5 [[7]] (mr_actor demo_run) = Some (mr_actor demo_run)"
  by (rule MessageQueue_latency_never_measured[OF demo_run_reachable])

end
