(* ===== verification/Decision.thy ===== *)
theory Decision
  imports Wantlist PeerTaskQueue
begin

text \<open>
  The server: the score ledger (\<open>server/score_ledger.rs\<close>), the block store manager
  (\<open>server/blockstore_manager.rs\<close>), the decision engine (\<open>server/decision.rs\<close>) with its worker, and the
  worker of \<open>server.rs\<close> that sends the envelopes.

  The locks of the engine make each operation atomic, so each is a function of the engine. The block
  store is a parameter (the trait \<open>Store\<close>): \<open>sizes\<close> and \<open>load\<close> answer \<open>None\<close> where the store returns an
  error. \<open>bplen\<close> is the encoded length of a block presence. The outbox is the list of the envelopes not
  yet taken from the channel, and a \<open>Notify\<close> is a flag that holds at most one permit.
\<close>

subsection \<open>Score ledger\<close>

text \<open>Floating-point arithmetic is left open; \<open>sc_lit n k\<close> is the literal \<open>n / 10 ^ k\<close>.\<close>

record 'f score_ops =
  sc_lit :: "nat \<Rightarrow> nat \<Rightarrow> 'f"
  sc_of_u64 :: "nat \<Rightarrow> 'f"
  sc_add :: "'f \<Rightarrow> 'f \<Rightarrow> 'f"
  sc_sub :: "'f \<Rightarrow> 'f \<Rightarrow> 'f"
  sc_mul :: "'f \<Rightarrow> 'f \<Rightarrow> 'f"
  sc_div :: "'f \<Rightarrow> 'f \<Rightarrow> 'f"
  sc_to_usize :: "'f \<Rightarrow> nat"

definition ewma :: "'f score_ops \<Rightarrow> 'f \<Rightarrow> 'f \<Rightarrow> 'f \<Rightarrow> 'f" where
  "ewma fl old new alpha = sc_add fl (sc_mul fl new alpha) (sc_mul fl (sc_sub fl (sc_lit fl 1 0) alpha) old)"

definition LONG_TERM_RATIO :: nat where
  "LONG_TERM_RATIO = 10"

record ('peer, 'f) individual_score =
  is_partner :: 'peer
  is_bytes_sent :: nat
  is_bytes_recv :: nat
  is_last_exchange :: instant
  is_short_score :: 'f
  is_long_score :: 'f
  is_score :: nat
  is_exchange_count :: nat

record ('peer, 'f) receipt =
  rc_peer :: 'peer
  rc_value :: 'f
  rc_sent :: nat
  rc_recv :: nat
  rc_exchanged :: nat

definition IndividualScoreLedger_new :: "'f score_ops \<Rightarrow> instant \<Rightarrow> 'peer \<Rightarrow> ('peer, 'f) individual_score" where
  "IndividualScoreLedger_new fl now partner =
     \<lparr>is_partner = partner, is_bytes_sent = 0, is_bytes_recv = 0, is_last_exchange = now,
      is_short_score = sc_lit fl 0 0, is_long_score = sc_lit fl 0 0, is_score = 0, is_exchange_count = 0\<rparr>"

definition score_add_sent :: "instant \<Rightarrow> nat \<Rightarrow> ('peer, 'f) individual_score \<Rightarrow> ('peer, 'f) individual_score" where
  "score_add_sent now n s =
     s\<lparr>is_exchange_count := is_exchange_count s + 1, is_last_exchange := now,
       is_bytes_sent := is_bytes_sent s + n\<rparr>"

definition score_add_recv :: "instant \<Rightarrow> nat \<Rightarrow> ('peer, 'f) individual_score \<Rightarrow> ('peer, 'f) individual_score" where
  "score_add_recv now n s =
     s\<lparr>is_exchange_count := is_exchange_count s + 1, is_last_exchange := now,
       is_bytes_recv := is_bytes_recv s + n\<rparr>"

definition score_receipt :: "'f score_ops \<Rightarrow> ('peer, 'f) individual_score \<Rightarrow> ('peer, 'f) receipt" where
  "score_receipt fl s =
     \<lparr>rc_peer = is_partner s,
      rc_value = sc_div fl (sc_of_u64 fl (is_bytes_sent s)) (sc_add fl (sc_of_u64 fl (is_bytes_recv s)) (sc_lit fl 1 0)),
      rc_sent = is_bytes_sent s, rc_recv = is_bytes_recv s, rc_exchanged = is_exchange_count s\<rparr>"

type_synonym ('peer, 'f) score_map = "('peer, ('peer, 'f) individual_score) hmap"

definition add_to_sent_bytes :: "'f score_ops \<Rightarrow> instant \<Rightarrow> 'peer \<Rightarrow> nat \<Rightarrow> ('peer, 'f) score_map \<Rightarrow> ('peer, 'f) score_map" where
  "add_to_sent_bytes fl now peer n m = hm_entry peer (IndividualScoreLedger_new fl now peer) (score_add_sent now n) m"

definition add_to_recv_bytes :: "'f score_ops \<Rightarrow> instant \<Rightarrow> 'peer \<Rightarrow> nat \<Rightarrow> ('peer, 'f) score_map \<Rightarrow> ('peer, 'f) score_map" where
  "add_to_recv_bytes fl now peer n m = hm_entry peer (IndividualScoreLedger_new fl now peer) (score_add_recv now n) m"

definition score_peer_connected :: "'f score_ops \<Rightarrow> instant \<Rightarrow> 'peer \<Rightarrow> ('peer, 'f) score_map \<Rightarrow> ('peer, 'f) score_map" where
  "score_peer_connected fl now peer m = hm_entry peer (IndividualScoreLedger_new fl now peer) (\<lambda>s. s) m"

definition score_peer_disconnected :: "'peer \<Rightarrow> ('peer, 'f) score_map \<Rightarrow> ('peer, 'f) score_map" where
  "score_peer_disconnected peer m = hm_remove peer m"

definition ledger_receipt :: "'f score_ops \<Rightarrow> 'peer \<Rightarrow> ('peer, 'f) score_map \<Rightarrow> ('peer, 'f) receipt option" where
  "ledger_receipt fl peer m = map_option (score_receipt fl) (map_of m peer)"

text \<open>One tick of the worker: the new scores and the calls of the scoring function, in order.\<close>

record score_worker =
  sw_last_short_update :: instant
  sw_last_long_update :: instant
  sw_i :: nat

definition score_tick_one ::
    "'f score_ops \<Rightarrow> score_worker \<Rightarrow> bool \<Rightarrow> ('peer, 'f) individual_score \<Rightarrow> ('peer, 'f) individual_score" where
  "score_tick_one fl w is_update_long s =
     (let short = (if is_last_exchange s > sw_last_short_update w
                   then ewma fl (is_short_score s) (sc_lit fl 10 0) (sc_lit fl 5 1)
                   else ewma fl (is_short_score s) (sc_lit fl 0 0) (sc_lit fl 5 1));
          long = (if is_update_long
                  then if is_last_exchange s > sw_last_long_update w
                       then ewma fl (is_long_score s) (sc_lit fl 10 0) (sc_lit fl 5 2)
                       else ewma fl (is_long_score s) (sc_lit fl 0 0) (sc_lit fl 5 2)
                  else is_long_score s);
          lscore = (if is_bytes_recv s = 0 then sc_lit fl 0 0
                    else sc_div fl (sc_of_u64 fl (is_bytes_recv s)) (sc_of_u64 fl (is_bytes_recv s + is_bytes_sent s)));
          score = sc_to_usize fl (sc_mul fl (sc_add fl short long)
                    (sc_add fl (sc_mul fl lscore (sc_lit fl 5 1)) (sc_lit fl 75 2)))
      in s\<lparr>is_short_score := short, is_long_score := long, is_score := score\<rparr>)"

definition score_tick ::
    "'f score_ops \<Rightarrow> instant \<Rightarrow> score_worker \<Rightarrow> ('peer, 'f) score_map \<Rightarrow>
      score_worker \<times> ('peer, 'f) score_map \<times> ('peer \<times> nat) list" where
  "score_tick fl now w m =
     (let i = (sw_i w + 1) mod LONG_TERM_RATIO;
          is_update_long = (i = 0);
          m' = hm_map_values (\<lambda>_. score_tick_one fl w is_update_long) m;
          updates = map (\<lambda>((_, s), (_, s')). (is_partner s', is_score s'))
                      (filter (\<lambda>((_, s), (_, s')). is_score s \<noteq> is_score s') (zip m m'));
          w' = w\<lparr>sw_i := i, sw_last_short_update := now,
                 sw_last_long_update := (if is_update_long then now else sw_last_long_update w)\<rparr>
      in (w', m', rev updates))"

subsection \<open>Block store manager\<close>

definition get_block_sizes :: "('cid \<Rightarrow> nat option) \<Rightarrow> 'cid list \<Rightarrow> ('cid, nat) hmap" where
  "get_block_sizes sizes keys =
     fold (\<lambda>c res. case sizes c of None \<Rightarrow> res | Some n \<Rightarrow> hm_insert c n res) keys []"

definition get_blocks :: "('cid \<Rightarrow> 'cid block option) \<Rightarrow> 'cid list \<Rightarrow> ('cid, 'cid block) hmap" where
  "get_blocks load keys =
     fold (\<lambda>c res. case load c of None \<Rightarrow> res | Some b \<Rightarrow> hm_insert c b res) keys []"

subsection \<open>The engine\<close>

record ('cid, 'peer) engine_config =
  ec_peer_block_request_filter :: "('peer \<Rightarrow> 'cid \<Rightarrow> bool) option"
  ec_send_dont_haves :: bool
  ec_target_message_size :: nat
  ec_max_outstanding_bytes_per_peer :: nat
  ec_max_replace_size :: nat

record ('cid, 'peer) envelope =
  ev_peer :: 'peer
  ev_message :: "'cid bitswap_message"
  ev_sent_tasks :: "('cid, task_data) task list"

record ('cid, 'peer, 'pq, 'f) engine =
  en_peer_task_queue :: "('cid, task_data, 'peer, 'pq) ptq"
  en_outbox :: "('cid, 'peer) envelope list"
  en_ledger_map :: "('peer, ('cid, 'peer) ledger) hmap"
  en_peer_ledger :: "('cid, 'peer) peer_ledger"
  en_score_ledger :: "('peer, 'f) score_map"
  en_max_block_size_replace_has_with_block :: nat
  en_send_dont_haves :: bool
  en_metrics_update_counter :: nat
  en_peer_block_request_filter :: "('peer \<Rightarrow> 'cid \<Rightarrow> bool) option"
  en_work_signal :: bool

definition Engine_new ::
    "('pq, 'cid, task_data, 'peer, 'q) pq_ops \<Rightarrow> ('cid, 'peer) engine_config \<Rightarrow> ('cid, 'peer, 'pq, 'f) engine" where
  "Engine_new pops config =
     \<lparr>en_peer_task_queue = PeerTaskQueue_add_hook (PeerTaskQueue_new pops ServerTaskMerger
        \<lparr>cfg_ignore_freezing = True, cfg_max_outstanding_work_per_peer = ec_max_outstanding_bytes_per_peer config\<rparr>),
      en_outbox = [], en_ledger_map = [], en_peer_ledger = PeerLedger_default, en_score_ledger = [],
      en_max_block_size_replace_has_with_block = ec_max_replace_size config,
      en_send_dont_haves = ec_send_dont_haves config, en_metrics_update_counter = 0,
      en_peer_block_request_filter = ec_peer_block_request_filter config, en_work_signal = False\<rparr>"

definition update_metrics :: "('cid, 'peer, 'pq, 'f) engine \<Rightarrow> ('cid, 'peer, 'pq, 'f) engine" where
  "update_metrics e = e\<lparr>en_metrics_update_counter := en_metrics_update_counter e + 1\<rparr>"

definition signal_new_work :: "('cid, 'peer, 'pq, 'f) engine \<Rightarrow> ('cid, 'peer, 'pq, 'f) engine" where
  "signal_new_work e = e\<lparr>en_work_signal := True\<rparr>"

definition send_as_block :: "('cid, 'peer, 'pq, 'f) engine \<Rightarrow> want_type \<Rightarrow> nat \<Rightarrow> bool" where
  "send_as_block e t block_size \<longleftrightarrow> t = WantBlock \<or> block_size \<le> en_max_block_size_replace_has_with_block e"

definition find_or_create :: "'peer \<Rightarrow> ('cid, 'peer, 'pq, 'f) engine \<Rightarrow>
    ('cid, 'peer, 'pq, 'f) engine \<times> ('cid, 'peer) ledger" where
  "find_or_create peer e =
     (case map_of (en_ledger_map e) peer of
        Some l \<Rightarrow> (e, l)
      | None \<Rightarrow> (e\<lparr>en_ledger_map := hm_insert peer (Ledger_new peer) (en_ledger_map e)\<rparr>, Ledger_new peer))"

definition wantlist_for_peer :: "'peer \<Rightarrow> ('cid, 'peer, 'pq, 'f) engine \<Rightarrow>
    ('cid, 'peer, 'pq, 'f) engine \<times> 'cid wl_entry list" where
  "wantlist_for_peer peer e =
     (let (e1, l) = find_or_create peer e; (l1, es) = Ledger_entries l
      in (e1\<lparr>en_ledger_map := hm_insert peer l1 (en_ledger_map e1)\<rparr>, es))"

definition engine_peers :: "('cid, 'peer, 'pq, 'f) engine \<Rightarrow> 'peer list" where
  "engine_peers e = map fst (en_ledger_map e)"

definition ledger_for_peer :: "'f score_ops \<Rightarrow> 'peer \<Rightarrow> ('cid, 'peer, 'pq, 'f) engine \<Rightarrow> ('peer, 'f) receipt option" where
  "ledger_for_peer fl peer e = ledger_receipt fl peer (en_score_ledger e)"

definition split_wants :: "('cid, 'peer, 'pq, 'f) engine \<Rightarrow> 'peer \<Rightarrow> 'cid msg_entry list \<Rightarrow>
    'cid msg_entry list \<times> 'cid msg_entry list \<times> 'cid msg_entry list" where
  "split_wants e peer es =
     (let allowed = (\<lambda>c. case en_peer_block_request_filter e of Some f \<Rightarrow> f peer c | None \<Rightarrow> True)
      in (filter (\<lambda>en. \<not> me_cancel en \<and> allowed (me_cid en)) es,
          filter me_cancel es,
          filter (\<lambda>en. \<not> me_cancel en \<and> \<not> allowed (me_cid en)) es))"

definition dont_have_task :: "('cid \<Rightarrow> nat) \<Rightarrow> ('cid, 'peer, 'pq, 'f) engine \<Rightarrow> 'cid msg_entry \<Rightarrow>
    ('cid, task_data) task list" where
  "dont_have_task bplen e en =
     (if en_send_dont_haves e \<and> me_send_dont_have en
      then [\<lparr>tk_topic = me_cid en, tk_priority = me_priority en, tk_work = bplen (me_cid en),
             tk_data = \<lparr>td_is_want_block = (me_want_type en = WantBlock), td_send_dont_have = me_send_dont_have en,
                        td_block_size = 0, td_have_block = False\<rparr>\<rparr>]
      else [])"

definition have_task :: "nat \<Rightarrow> ('cid, 'peer, 'pq, 'f) engine \<Rightarrow> 'cid \<Rightarrow> priority \<Rightarrow> want_type \<Rightarrow> bool \<Rightarrow> nat \<Rightarrow>
    ('cid, task_data) task" where
  "have_task len e c p t send_dont_have block_size =
     (let is_want_block = send_as_block e t block_size
      in \<lparr>tk_topic = c, tk_priority = p, tk_work = (if is_want_block then block_size else len),
          tk_data = \<lparr>td_is_want_block = is_want_block, td_send_dont_have = send_dont_have,
                     td_block_size = block_size, td_have_block = True\<rparr>\<rparr>)"

definition want_task :: "('cid \<Rightarrow> nat) \<Rightarrow> ('cid, 'peer, 'pq, 'f) engine \<Rightarrow> ('cid, nat) hmap \<Rightarrow> 'cid msg_entry \<Rightarrow>
    ('cid, task_data) task list" where
  "want_task bplen e block_sizes en =
     (case map_of block_sizes (me_cid en) of
        Some n \<Rightarrow> [have_task (bplen (me_cid en)) e (me_cid en) (me_priority en) (me_want_type en) (me_send_dont_have en) n]
      | None \<Rightarrow> dont_have_task bplen e en)"

definition cancel_entry ::
    "('q, 'cid, task_data, 'peer) tq_ops \<Rightarrow> ('pq, 'cid, task_data, 'peer, 'q) pq_ops \<Rightarrow> 'peer \<Rightarrow> 'cid msg_entry \<Rightarrow>
      ('cid, 'peer) ledger \<times> ('cid, task_data, 'peer, 'pq) ptq \<Rightarrow>
      ('cid, 'peer) ledger \<times> ('cid, task_data, 'peer, 'pq) ptq" where
  "cancel_entry tops pops peer en = (\<lambda>(l, q).
     let (l', removed) = Ledger_cancel_want (me_cid en) l
     in (l', if removed \<noteq> None then PeerTaskQueue_remove tops pops (me_cid en) peer q else q))"

definition message_received ::
    "('q, 'cid, task_data, 'peer) tq_ops \<Rightarrow> ('pq, 'cid, task_data, 'peer, 'q) pq_ops \<Rightarrow> ('cid \<Rightarrow> nat) \<Rightarrow>
      ('cid \<Rightarrow> nat option) \<Rightarrow> instant \<Rightarrow> 'peer \<Rightarrow> 'cid bitswap_message \<Rightarrow>
      ('cid, 'peer, 'pq, 'f) engine \<Rightarrow> ('cid, 'peer, 'pq, 'f) engine" where
  "message_received tops pops bplen sizes now peer message e0 =
     (let (wants, cancels, denials) = split_wants e0 peer (BitswapMessage_wantlist message);
          block_sizes = get_block_sizes sizes (hs_of_list (map me_cid wants));
          pl = fold (\<lambda>en. PeerLedger_cancel_want peer (me_cid en)) cancels
                 (fold (\<lambda>en. PeerLedger_wants peer (me_cid en)) wants (en_peer_ledger e0));
          (e1, l0) = find_or_create peer (e0\<lparr>en_peer_ledger := pl\<rparr>);
          l1 = (if msg_full message then Ledger_clear_wantlist l0 else l0);
          (l2, q) = fold (cancel_entry tops pops peer) cancels (l1, en_peer_task_queue e1);
          l3 = fold (\<lambda>en. Ledger_wants (me_cid en) (me_priority en) (me_want_type en)) wants l2;
          active_entries = concat (map (dont_have_task bplen e1) denials) @
            concat (map (want_task bplen e1 block_sizes) wants);
          e2 = e1\<lparr>en_ledger_map := hm_insert peer l3 (en_ledger_map e1), en_peer_task_queue := q\<rparr>;
          e3 = (if active_entries \<noteq> []
                then update_metrics (e2\<lparr>en_peer_task_queue :=
                       PeerTaskQueue_push_tasks tops pops now peer active_entries (en_peer_task_queue e2)\<rparr>)
                else e2)
      in if active_entries \<noteq> [] then signal_new_work e3 else e3)"

definition message_sent ::
    "'f score_ops \<Rightarrow> instant \<Rightarrow> 'peer \<Rightarrow> 'cid bitswap_message \<Rightarrow>
      ('cid, 'peer, 'pq, 'f) engine \<Rightarrow> ('cid, 'peer, 'pq, 'f) engine" where
  "message_sent fl now peer message e0 =
     (let (e1, l0) = find_or_create peer e0;
          score = fold (\<lambda>b. add_to_sent_bytes fl now (ld_partner l0) (length (b_data b)))
                    (BitswapMessage_blocks message) (en_score_ledger e1);
          w1 = fold (\<lambda>b w. fst (Wantlist_remove_type (b_cid b) WantBlock w)) (BitswapMessage_blocks message) (ld_wantlist l0);
          w2 = fold (\<lambda>bp w. if bp_typ bp = Have then fst (Wantlist_remove_type (bp_cid bp) WantHave w) else w)
                 (BitswapMessage_block_presences message) w1
      in e1\<lparr>en_score_ledger := score,
            en_ledger_map := hm_insert peer (l0\<lparr>ld_wantlist := w2\<rparr>) (en_ledger_map e1)\<rparr>)"

definition received_blocks ::
    "'f score_ops \<Rightarrow> instant \<Rightarrow> 'peer \<Rightarrow> 'cid block list \<Rightarrow>
      ('cid, 'peer, 'pq, 'f) engine \<Rightarrow> ('cid, 'peer, 'pq, 'f) engine" where
  "received_blocks fl now from blocks e0 =
     (if blocks = [] then e0
      else let (e1, l) = find_or_create from e0
           in e1\<lparr>en_score_ledger := fold (\<lambda>b. add_to_recv_bytes fl now (ld_partner l) (length (b_data b)))
                   blocks (en_score_ledger e1)\<rparr>)"

text \<open>
  The loops of \<open>notify_new_blocks\<close>: over the peers listed for a block, and over the blocks. The state is
  the engine, the missing wants and whether there is new work.
\<close>

definition notify_peer ::
    "('q, 'cid, task_data, 'peer) tq_ops \<Rightarrow> ('pq, 'cid, task_data, 'peer, 'q) pq_ops \<Rightarrow> ('cid \<Rightarrow> nat) \<Rightarrow>
      instant \<Rightarrow> ('cid, nat) hmap \<Rightarrow> 'cid \<Rightarrow> 'peer \<Rightarrow>
      ('cid, 'peer, 'pq, 'f) engine \<times> ('peer, 'cid list) hmap \<times> bool \<Rightarrow>
      ('cid, 'peer, 'pq, 'f) engine \<times> ('peer, 'cid list) hmap \<times> bool" where
  "notify_peer tops pops bplen now block_sizes c peer = (\<lambda>(e, missing, work).
     case map_of (en_ledger_map e) peer of
       None \<Rightarrow> (e, hm_entry peer [] (\<lambda>cs. cs @ [c]) missing, work)
     | Some l \<Rightarrow>
         (case Ledger_wantlist_get l c of
            None \<Rightarrow> (e, hm_entry peer [] (\<lambda>cs. cs @ [c]) missing, work)
          | Some en \<Rightarrow>
              let block_size = (case map_of block_sizes c of Some n \<Rightarrow> n | None \<Rightarrow> 0)
              in (update_metrics (e\<lparr>en_peer_task_queue := PeerTaskQueue_push_task tops pops now peer
                    (have_task (bplen c) e (we_cid en) (we_priority en) (we_want_type en) False block_size)
                    (en_peer_task_queue e)\<rparr>), missing, True)))"

definition notify_block ::
    "('q, 'cid, task_data, 'peer) tq_ops \<Rightarrow> ('pq, 'cid, task_data, 'peer, 'q) pq_ops \<Rightarrow> ('cid \<Rightarrow> nat) \<Rightarrow>
      instant \<Rightarrow> ('cid, nat) hmap \<Rightarrow> 'cid block \<Rightarrow>
      ('cid, 'peer, 'pq, 'f) engine \<times> ('peer, 'cid list) hmap \<times> bool \<Rightarrow>
      ('cid, 'peer, 'pq, 'f) engine \<times> ('peer, 'cid list) hmap \<times> bool" where
  "notify_block tops pops bplen now block_sizes b = (\<lambda>(e, missing, work).
     case PeerLedger_peers (en_peer_ledger e) (b_cid b) of
       None \<Rightarrow> (e, missing, work)
     | Some peers \<Rightarrow> fold (notify_peer tops pops bplen now block_sizes (b_cid b)) peers (e, missing, work))"

definition forget_missing :: "('peer, ('cid, 'peer) ledger) hmap \<Rightarrow> 'peer \<times> 'cid list \<Rightarrow>
    ('cid, 'peer) peer_ledger \<Rightarrow> ('cid, 'peer) peer_ledger" where
  "forget_missing ledgers = (\<lambda>(peer, wants) pl.
     case map_of ledgers peer of
       Some l \<Rightarrow> fold (\<lambda>c pl. if Ledger_wantlist_get l c \<noteq> None then pl else PeerLedger_cancel_want peer c pl) wants pl
     | None \<Rightarrow> fold (PeerLedger_cancel_want peer) wants pl)"

definition notify_new_blocks ::
    "('q, 'cid, task_data, 'peer) tq_ops \<Rightarrow> ('pq, 'cid, task_data, 'peer, 'q) pq_ops \<Rightarrow> ('cid \<Rightarrow> nat) \<Rightarrow>
      instant \<Rightarrow> 'cid block list \<Rightarrow> ('cid, 'peer, 'pq, 'f) engine \<Rightarrow> ('cid, 'peer, 'pq, 'f) engine" where
  "notify_new_blocks tops pops bplen now blocks e0 =
     (if blocks = [] then e0
      else let block_sizes = fold (\<lambda>b. hm_insert (b_cid b) (length (b_data b))) blocks [];
               (e1, missing_wants, work) = fold (notify_block tops pops bplen now block_sizes) blocks (e0, [], False);
               e2 = e1\<lparr>en_peer_ledger := fold (forget_missing (en_ledger_map e1)) missing_wants (en_peer_ledger e1)\<rparr>
           in if work then signal_new_work e2 else e2)"

definition engine_peer_connected ::
    "'f score_ops \<Rightarrow> instant \<Rightarrow> 'peer \<Rightarrow> ('cid, 'peer, 'pq, 'f) engine \<Rightarrow> ('cid, 'peer, 'pq, 'f) engine" where
  "engine_peer_connected fl now peer e =
     (let (e1, l) = find_or_create peer e
      in e1\<lparr>en_score_ledger := score_peer_connected fl now peer (en_score_ledger e1)\<rparr>)"

definition engine_peer_disconnected ::
    "'peer \<Rightarrow> ('cid, 'peer, 'pq, 'f) engine \<Rightarrow> ('cid, 'peer, 'pq, 'f) engine" where
  "engine_peer_disconnected peer e =
     (let e1 = (case map_of (en_ledger_map e) peer of
                  None \<Rightarrow> e
                | Some l \<Rightarrow> e\<lparr>en_ledger_map := hm_remove peer (en_ledger_map e),
                              en_peer_ledger := fold (\<lambda>want. PeerLedger_cancel_want peer (we_cid want))
                                (snd (Ledger_entries l)) (en_peer_ledger e)\<rparr>)
      in e1\<lparr>en_score_ledger := score_peer_disconnected peer (en_score_ledger e1)\<rparr>)"

subsection \<open>The worker of the engine\<close>

text \<open>
  HAVEs and DONT_HAVEs go into the message at once; the tasks that ask for a block are kept with their
  keys until the blocks are loaded.
\<close>

definition split_task :: "('cid, task_data) task \<Rightarrow>
    'cid bitswap_message \<times> 'cid list \<times> ('cid, ('cid, task_data) task) hmap \<Rightarrow>
    'cid bitswap_message \<times> 'cid list \<times> ('cid, ('cid, task_data) task) hmap" where
  "split_task tk = (\<lambda>(msg, block_cids, block_tasks).
     if td_have_block (tk_data tk)
     then if td_is_want_block (tk_data tk)
          then (msg, block_cids @ [tk_topic tk], hm_insert (tk_topic tk) tk block_tasks)
          else (BitswapMessage_add_have (tk_topic tk) msg, block_cids, block_tasks)
     else (BitswapMessage_add_dont_have (tk_topic tk) msg, block_cids, block_tasks))"

definition add_loaded :: "'cid \<times> ('cid, task_data) task \<Rightarrow>
    ('cid, 'cid block) hmap \<times> 'cid bitswap_message \<Rightarrow> ('cid, 'cid block) hmap \<times> 'cid bitswap_message" where
  "add_loaded = (\<lambda>(c, tk) (blocks, msg).
     case map_of blocks c of
       Some b \<Rightarrow> (hm_remove c blocks, BitswapMessage_add_block b msg)
     | None \<Rightarrow> (blocks, if td_send_dont_have (tk_data tk) then BitswapMessage_add_dont_have c msg else msg))"

definition build_message :: "('cid \<Rightarrow> 'cid block option) \<Rightarrow> nat \<Rightarrow> ('cid, task_data) task list \<Rightarrow> 'cid bitswap_message" where
  "build_message load pending_bytes next_tasks =
     (let msg0 = (BitswapMessage_new False)\<lparr>msg_pending_bytes := int pending_bytes\<rparr>;
          (msg1, block_cids, block_tasks) = fold split_task next_tasks (msg0, [], []);
          blocks = get_blocks load block_cids
      in snd (fold add_loaded block_tasks (blocks, msg1)))"

text \<open>One tick of a worker; \<open>None\<close> is a panic or a loop of the task queue.\<close>

definition engine_tick ::
    "('q, 'cid, task_data, 'peer) tq_ops \<Rightarrow> ('pq, 'cid, task_data, 'peer, 'q) pq_ops \<Rightarrow>
      ('cid \<Rightarrow> 'cid block option) \<Rightarrow> nat \<Rightarrow> ('cid, 'peer, 'pq, 'f) engine \<Rightarrow> ('cid, 'peer, 'pq, 'f) engine option" where
  "engine_tick tops pops load target_message_size e =
     (case PeerTaskQueue_pop_tasks tops pops target_message_size (en_peer_task_queue e) of
        None \<Rightarrow> None
      | Some (q, None) \<Rightarrow> Some (e\<lparr>en_peer_task_queue := q\<rparr>)
      | Some (q, Some (peer, next_tasks, pending_bytes)) \<Rightarrow>
          let e1 = e\<lparr>en_peer_task_queue := q\<rparr>
          in if next_tasks = [] then Some e1
             else let msg = build_message load pending_bytes next_tasks
                  in if BitswapMessage_is_empty msg
                     then map_option (\<lambda>q'. e1\<lparr>en_peer_task_queue := q'\<rparr>)
                            (PeerTaskQueue_tasks_done pops peer next_tasks q)
                     else Some (e1\<lparr>en_outbox := en_outbox e1 @
                            [\<lparr>ev_peer = peer, ev_message = msg, ev_sent_tasks = next_tasks\<rparr>]\<rparr>))"

text \<open>
  A worker of the server takes an envelope: it updates the ledger, sends the message (whether or not
  that succeeds, the tasks are done) and wakes a worker of the engine.
\<close>

definition server_tick ::
    "('pq, 'cid, task_data, 'peer, 'q) pq_ops \<Rightarrow> 'f score_ops \<Rightarrow> instant \<Rightarrow>
      ('cid, 'peer, 'pq, 'f) engine \<Rightarrow> (('cid, 'peer, 'pq, 'f) engine \<times> ('cid, 'peer) envelope option) option" where
  "server_tick pops fl now e =
     (case en_outbox e of
        [] \<Rightarrow> Some (e, None)
      | env # rest \<Rightarrow>
          let e1 = message_sent fl now (ev_peer env) (ev_message env) (e\<lparr>en_outbox := rest\<rparr>)
          in map_option (\<lambda>q. (e1\<lparr>en_peer_task_queue := q, en_work_signal := True\<rparr>, Some env))
               (PeerTaskQueue_tasks_done pops (ev_peer env) (ev_sent_tasks env) (en_peer_task_queue e1)))"

subsection \<open>The server\<close>

text \<open>
  The server wraps the engine and announces new blocks to the network: \<open>notify_new_blocks\<close> puts their
  CIDs into the channel \<open>new_blocks\<close>, the collector moves them to the channel \<open>provide_keys\<close> and the
  provider hands them to the network. \<open>None\<close> as a result of the provider is a tick without work.
\<close>

record ('cid, 'peer, 'pq, 'f) server =
  sv_engine :: "('cid, 'peer, 'pq, 'f) engine"
  sv_new_blocks :: "'cid list"
  sv_provide_keys :: "'cid list"
  sv_provide_enabled :: bool

definition Server_new ::
    "('pq, 'cid, task_data, 'peer, 'q) pq_ops \<Rightarrow> bool \<Rightarrow> ('cid, 'peer) engine_config \<Rightarrow> ('cid, 'peer, 'pq, 'f) server" where
  "Server_new pops provide_enabled config =
     \<lparr>sv_engine = Engine_new pops config, sv_new_blocks = [], sv_provide_keys = [], sv_provide_enabled = provide_enabled\<rparr>"

definition server_notify_new_blocks ::
    "('q, 'cid, task_data, 'peer) tq_ops \<Rightarrow> ('pq, 'cid, task_data, 'peer, 'q) pq_ops \<Rightarrow> ('cid \<Rightarrow> nat) \<Rightarrow>
      instant \<Rightarrow> 'cid block list \<Rightarrow> ('cid, 'peer, 'pq, 'f) server \<Rightarrow> ('cid, 'peer, 'pq, 'f) server" where
  "server_notify_new_blocks tops pops bplen now blocks sv =
     (let sv1 = sv\<lparr>sv_engine := notify_new_blocks tops pops bplen now blocks (sv_engine sv)\<rparr>
      in if sv_provide_enabled sv then sv1\<lparr>sv_new_blocks := sv_new_blocks sv1 @ map b_cid blocks\<rparr> else sv1)"

definition provide_collector_tick :: "('cid, 'peer, 'pq, 'f) server \<Rightarrow> ('cid, 'peer, 'pq, 'f) server" where
  "provide_collector_tick sv =
     (case sv_new_blocks sv of
        [] \<Rightarrow> sv
      | c # rest \<Rightarrow> sv\<lparr>sv_new_blocks := rest, sv_provide_keys := sv_provide_keys sv @ [c]\<rparr>)"

definition provide_worker_tick :: "('cid, 'peer, 'pq, 'f) server \<Rightarrow> ('cid, 'peer, 'pq, 'f) server \<times> 'cid option" where
  "provide_worker_tick sv =
     (case sv_provide_keys sv of
        [] \<Rightarrow> (sv, None)
      | c # rest \<Rightarrow> (sv\<lparr>sv_provide_keys := rest\<rparr>, Some c))"

definition server_wantlist_for_peer :: "'peer \<Rightarrow> ('cid, 'peer, 'pq, 'f) server \<Rightarrow> ('cid, 'peer, 'pq, 'f) server \<times> 'cid list" where
  "server_wantlist_for_peer peer sv =
     (let (e, es) = wantlist_for_peer peer (sv_engine sv) in (sv\<lparr>sv_engine := e\<rparr>, map we_cid es))"

definition server_stat_peers :: "('cid, 'peer :: linorder, 'pq, 'f) server \<Rightarrow> 'peer list" where
  "server_stat_peers sv = sort (engine_peers (sv_engine sv))"

end
