(* ===== verification/EngineInv.thy ===== *)
theory EngineInv
  imports Decision
begin

text \<open>
  What the decision engine guarantees: the ledgers follow the messages of the peers, the index of peers
  by CID covers the ledgers, and nothing that the request filter denies is ever sent.
\<close>

subsection \<open>Ledgers as sets of CIDs\<close>

abbreviation ledger_cids :: "('cid, 'peer) ledger \<Rightarrow> 'cid set" where
  "ledger_cids l \<equiv> wl_cids (ld_wantlist l)"

text \<open>What the server believes that the peer wants.\<close>

definition server_view :: "('cid, 'peer, 'pq, 'f) engine \<Rightarrow> 'peer \<Rightarrow> 'cid set" where
  "server_view e p = (case map_of (en_ledger_map e) p of None \<Rightarrow> {} | Some l \<Rightarrow> ledger_cids l)"

definition engine_allows :: "('cid, 'peer, 'pq, 'f) engine \<Rightarrow> 'peer \<Rightarrow> 'cid \<Rightarrow> bool" where
  "engine_allows e p c = (case en_peer_block_request_filter e of Some f \<Rightarrow> f p c | None \<Rightarrow> True)"

lemma Ledger_cids_simps [simp]:
  "ledger_cids (Ledger_new p) = {}"
  "ledger_cids (Ledger_clear_wantlist l) = {}"
  "ledger_cids (Ledger_wants c pr t l) = insert c (ledger_cids l)"
  "ledger_cids (fst (Ledger_cancel_want c l)) = ledger_cids l - {c}"
  by (simp_all add: Ledger_new_def Ledger_clear_wantlist_def Wantlist_clear_def Ledger_wants_def
      Ledger_cancel_want_def case_prod_beta)

lemma Ledger_wf_simps [simp]:
  "wantlist_wf (ld_wantlist (Ledger_new p))"
  "wantlist_wf (ld_wantlist (Ledger_clear_wantlist l))"
  "wantlist_wf (ld_wantlist l) \<Longrightarrow> wantlist_wf (ld_wantlist (Ledger_wants c pr t l))"
  "wantlist_wf (ld_wantlist l) \<Longrightarrow> wantlist_wf (ld_wantlist (fst (Ledger_cancel_want c l)))"
  by (simp_all add: Ledger_new_def Ledger_clear_wantlist_def Ledger_wants_def Ledger_cancel_want_def case_prod_beta)

lemma Ledger_get_cids: "Ledger_wantlist_get l c \<noteq> None \<longleftrightarrow> c \<in> ledger_cids l"
  by (simp add: Ledger_wantlist_get_def wl_cids_get)

lemma Ledger_wants_fold:
  "ledger_cids (fold (\<lambda>en. Ledger_wants (me_cid en) (me_priority en) (me_want_type en)) ens l) =
     ledger_cids l \<union> me_cid ` set ens"
  "wantlist_wf (ld_wantlist l) \<Longrightarrow>
     wantlist_wf (ld_wantlist (fold (\<lambda>en. Ledger_wants (me_cid en) (me_priority en) (me_want_type en)) ens l))"
  by (induction ens arbitrary: l) auto

lemma cancel_entry_fst:
  "fst (cancel_entry tops pops peer en (l, q)) = fst (Ledger_cancel_want (me_cid en) l)"
  by (simp add: cancel_entry_def case_prod_beta)

lemma cancel_entry_fold:
  assumes "fold (cancel_entry tops pops peer) ens (l, q) = (l', q')"
  shows "ledger_cids l' = ledger_cids l - me_cid ` set ens \<and>
    (wantlist_wf (ld_wantlist l) \<longrightarrow> wantlist_wf (ld_wantlist l'))"
  using assms
proof (induction ens arbitrary: l q)
  case (Cons en ens)
  obtain l1 q1 where c: "cancel_entry tops pops peer en (l, q) = (l1, q1)" by fastforce
  then have l1: "l1 = fst (Ledger_cancel_want (me_cid en) l)" using cancel_entry_fst[of tops pops peer en l q] by simp
  have "fold (cancel_entry tops pops peer) ens (l1, q1) = (l', q')" using Cons.prems c by simp
  note ih = Cons.IH[OF this]
  have "ledger_cids l' = ledger_cids l - me_cid ` set (en # ens)"
    unfolding ih[THEN conjunct1] l1 Ledger_cids_simps by auto
  then show ?case using ih l1 by simp
qed simp

lemma listed_wants_fold:
  "listed (fold (\<lambda>en. PeerLedger_wants p (me_cid en)) ens pl) p' c \<longleftrightarrow>
     listed pl p' c \<or> (p' = p \<and> c \<in> me_cid ` set ens)"
  by (induction ens arbitrary: pl) (auto simp: listed_wants)

lemma listed_cancel_fold:
  "listed (fold (\<lambda>x. PeerLedger_cancel_want p (f x)) xs pl) p' c \<longleftrightarrow>
     listed pl p' c \<and> \<not> (p' = p \<and> c \<in> f ` set xs)"
  by (induction xs arbitrary: pl) (auto simp: listed_cancel)

subsection \<open>What a message does to the ledgers\<close>

lemma find_or_create_spec:
  assumes "find_or_create peer e = (e', l)"
  shows "map_of (en_ledger_map e') = (map_of (en_ledger_map e))(peer \<mapsto> l)"
    and "l = (case map_of (en_ledger_map e) peer of Some l \<Rightarrow> l | None \<Rightarrow> Ledger_new peer)"
    and "hm_wf (en_ledger_map e) \<Longrightarrow> hm_wf (en_ledger_map e')"
    and "e' = e\<lparr>en_ledger_map := en_ledger_map e'\<rparr>"
  using assms by (auto simp: find_or_create_def split: option.splits)

text \<open>The CIDs that a message asks for and cancels.\<close>

definition msg_wants :: "'cid bitswap_message \<Rightarrow> 'cid set" where
  "msg_wants m = {c. listed_cancel m c = Some False}"

definition msg_cancels :: "'cid bitswap_message \<Rightarrow> 'cid set" where
  "msg_cancels m = {c. listed_cancel m c = Some True}"

lemma apply_message_sets: "apply_message m V = (V - msg_cancels m) \<union> msg_wants m"
  by (auto simp: apply_message_def msg_wants_def msg_cancels_def split: option.splits)

lemma wantlist_entries_cids:
  assumes "message_wf m"
  shows "me_cid ` set (filter (\<lambda>en. me_cancel en) (BitswapMessage_wantlist m)) = msg_cancels m"
    and "me_cid ` set (filter (\<lambda>en. \<not> me_cancel en \<and> Q (me_cid en)) (BitswapMessage_wantlist m)) = {c \<in> msg_wants m. Q c}"
proof -
  have dist: "hm_wf (msg_wantlist m)" and own: "\<And>c en. map_of (msg_wantlist m) c = Some en \<Longrightarrow> me_cid en = c"
    using assms unfolding message_wf_def by blast+
  have mem: "en \<in> set (BitswapMessage_wantlist m) \<longleftrightarrow> map_of (msg_wantlist m) (me_cid en) = Some en" for en
  proof
    assume "en \<in> set (BitswapMessage_wantlist m)"
    then obtain c where "(c, en) \<in> set (msg_wantlist m)" by (auto simp: BitswapMessage_wantlist_def)
    then have "map_of (msg_wantlist m) c = Some en" by (simp only: hm_get_mem[OF dist])
    then show "map_of (msg_wantlist m) (me_cid en) = Some en" using own by metis
  next
    assume "map_of (msg_wantlist m) (me_cid en) = Some en"
    from map_of_SomeD[OF this] show "en \<in> set (BitswapMessage_wantlist m)"
      by (force simp: BitswapMessage_wantlist_def)
  qed
  have img: "c \<in> me_cid ` {en \<in> set (BitswapMessage_wantlist m). R en} \<longleftrightarrow>
      (\<exists>en. map_of (msg_wantlist m) c = Some en \<and> R en)" for c R
  proof
    assume "c \<in> me_cid ` {en \<in> set (BitswapMessage_wantlist m). R en}"
    then show "\<exists>en. map_of (msg_wantlist m) c = Some en \<and> R en" using mem by blast
  next
    assume "\<exists>en. map_of (msg_wantlist m) c = Some en \<and> R en"
    then obtain en where en: "map_of (msg_wantlist m) c = Some en" "R en" by blast
    then show "c \<in> me_cid ` {en \<in> set (BitswapMessage_wantlist m). R en}"
      using own[OF en(1)] mem[of en] by (intro image_eqI[of _ _ en]) simp_all
  qed
  show "me_cid ` set (filter (\<lambda>en. me_cancel en) (BitswapMessage_wantlist m)) = msg_cancels m"
    unfolding set_filter by (rule set_eqI) (simp add: img msg_cancels_def listed_cancel_def)
  show "me_cid ` set (filter (\<lambda>en. \<not> me_cancel en \<and> Q (me_cid en)) (BitswapMessage_wantlist m)) = {c \<in> msg_wants m. Q c}"
    unfolding set_filter img by (rule set_eqI, unfold img) (use own in \<open>fastforce simp: msg_wants_def listed_cancel_def\<close>)
qed

lemma split_wants_eq:
  "split_wants e peer es =
    (filter (\<lambda>en. \<not> me_cancel en \<and> engine_allows e peer (me_cid en)) es, filter (\<lambda>en. me_cancel en) es,
     filter (\<lambda>en. \<not> me_cancel en \<and> \<not> engine_allows e peer (me_cid en)) es)"
  by (simp add: split_wants_def engine_allows_def)

text \<open>The parts of the engine after a message.\<close>

lemma message_received_parts:
  assumes wf: "message_wf m" and lwf: "\<And>l. map_of (en_ledger_map e) peer = Some l \<Longrightarrow> wantlist_wf (ld_wantlist l)"
    and e': "e' = message_received tops pops bplen sizes now peer m e"
  obtains l q tks where "map_of (en_ledger_map e') = (map_of (en_ledger_map e))(peer \<mapsto> l)"
    and "wantlist_wf (ld_wantlist l)"
    and "ledger_cids l = ((if msg_full m then {} else server_view e peer) - msg_cancels m) \<union>
      {c \<in> msg_wants m. engine_allows e peer c}"
    and "\<And>p c. listed (en_peer_ledger e') p c \<longleftrightarrow>
      (listed (en_peer_ledger e) p c \<or> (p = peer \<and> c \<in> msg_wants m \<and> engine_allows e peer c)) \<and>
      \<not> (p = peer \<and> c \<in> msg_cancels m)"
    and "\<exists>l0 l1. fold (cancel_entry tops pops peer) (filter (\<lambda>en. me_cancel en) (BitswapMessage_wantlist m))
      (l0, en_peer_task_queue e) = (l1, q)"
    and "en_peer_task_queue e' = (if tks = [] then q else PeerTaskQueue_push_tasks tops pops now peer tks q)"
    and "\<And>tk. tk \<in> set tks \<Longrightarrow> td_have_block (tk_data tk) \<Longrightarrow> engine_allows e peer (tk_topic tk)"
    and "en_peer_block_request_filter e' = en_peer_block_request_filter e" and "en_outbox e' = en_outbox e"
    and "hm_wf (en_ledger_map e) \<Longrightarrow> hm_wf (en_ledger_map e')"
proof -
  let ?es = "BitswapMessage_wantlist m"
  let ?wants = "filter (\<lambda>en. \<not> me_cancel en \<and> engine_allows e peer (me_cid en)) ?es"
  let ?cancels = "filter (\<lambda>en. me_cancel en) ?es"
  let ?denials = "filter (\<lambda>en. \<not> me_cancel en \<and> \<not> engine_allows e peer (me_cid en)) ?es"
  let ?sizes = "get_block_sizes sizes (hs_of_list (map me_cid ?wants))"
  let ?pl = "fold (\<lambda>en. PeerLedger_cancel_want peer (me_cid en)) ?cancels
      (fold (\<lambda>en. PeerLedger_wants peer (me_cid en)) ?wants (en_peer_ledger e))"
  obtain e1 l0 where f: "find_or_create peer (e\<lparr>en_peer_ledger := ?pl\<rparr>) = (e1, l0)" by fastforce
  note F = find_or_create_spec[OF f]
  let ?l1 = "if msg_full m then Ledger_clear_wantlist l0 else l0"
  obtain l2 q where c: "fold (cancel_entry tops pops peer) ?cancels (?l1, en_peer_task_queue e1) = (l2, q)" by fastforce
  let ?l3 = "fold (\<lambda>en. Ledger_wants (me_cid en) (me_priority en) (me_want_type en)) ?wants l2"
  define tks where "tks = concat (map (dont_have_task bplen e1) ?denials) @ concat (map (want_task bplen e1 ?sizes) ?wants)"
  let ?e2 = "e1\<lparr>en_ledger_map := hm_insert peer ?l3 (en_ledger_map e1), en_peer_task_queue := q\<rparr>"
  have e'_eq: "e' = (if tks \<noteq> [] then signal_new_work (update_metrics (?e2\<lparr>en_peer_task_queue :=
      PeerTaskQueue_push_tasks tops pops now peer tks q\<rparr>)) else ?e2)"
    unfolding e' message_received_def split_wants_eq Let_def prod.case f c tks_def[symmetric] by simp
  have e1: "e1 = e\<lparr>en_peer_ledger := ?pl, en_ledger_map := en_ledger_map e1\<rparr>"
    using F(4) by simp
  have lm: "en_ledger_map e' = hm_insert peer ?l3 (en_ledger_map e1)"
    and pl: "en_peer_ledger e' = ?pl" and out: "en_outbox e' = en_outbox e"
    and flt: "en_peer_block_request_filter e' = en_peer_block_request_filter e"
    and ptq: "en_peer_task_queue e' = (if tks = [] then q else PeerTaskQueue_push_tasks tops pops now peer tks q)"
    unfolding e'_eq by (subst e1, simp add: signal_new_work_def update_metrics_def)+
  have l0: "ledger_cids l0 = server_view e peer" "wantlist_wf (ld_wantlist l0)"
    using F(2) lwf by (auto simp: server_view_def split: option.splits)
  have l2: "ledger_cids l2 = (if msg_full m then {} else server_view e peer) - msg_cancels m" "wantlist_wf (ld_wantlist l2)"
    using cancel_entry_fold[OF c] l0 unfolding wantlist_entries_cids(1)[OF wf] by simp_all
  have q0: "en_peer_task_queue e1 = en_peer_task_queue e" by (subst e1) simp
  show thesis
  proof (rule that[of ?l3 q tks])
    show "map_of (en_ledger_map e') = (map_of (en_ledger_map e))(peer \<mapsto> ?l3)" using lm F(1) by simp
    show "wantlist_wf (ld_wantlist ?l3)" by (rule Ledger_wants_fold(2)[OF l2(2)])
    show "ledger_cids ?l3 = ((if msg_full m then {} else server_view e peer) - msg_cancels m) \<union>
        {c \<in> msg_wants m. engine_allows e peer c}"
      unfolding Ledger_wants_fold(1) l2(1) wantlist_entries_cids(2)[OF wf] ..
    show "listed (en_peer_ledger e') p c \<longleftrightarrow>
        (listed (en_peer_ledger e) p c \<or> (p = peer \<and> c \<in> msg_wants m \<and> engine_allows e peer c)) \<and>
        \<not> (p = peer \<and> c \<in> msg_cancels m)" for p c
      unfolding pl listed_cancel_fold listed_wants_fold wantlist_entries_cids[OF wf] by blast
    show "\<exists>l0 l1. fold (cancel_entry tops pops peer) ?cancels (l0, en_peer_task_queue e) = (l1, q)"
      using c unfolding q0 by blast
    show "engine_allows e peer (tk_topic tk)" if "tk \<in> set tks" "td_have_block (tk_data tk)" for tk
      using that by (auto simp: tks_def dont_have_task_def want_task_def have_task_def Let_def split: if_splits option.splits)
    show "hm_wf (en_ledger_map e')" if "hm_wf (en_ledger_map e)" using lm F(3) that by simp
  qed (fact ptq flt out)+
qed

subsection \<open>The pending tasks of the queue\<close>

text \<open>A task that promises a block or a HAVE is only about a CID that is allowed.\<close>

definition task_ok :: "('cid \<Rightarrow> bool) \<Rightarrow> ('cid, task_data) task \<Rightarrow> bool" where
  "task_ok A tk \<longleftrightarrow> (td_have_block (tk_data tk) \<longrightarrow> A (tk_topic tk))"

definition tracker_ok :: "('q, 'cid, task_data, 'peer) tq_ops \<Rightarrow> ('cid \<Rightarrow> bool) \<Rightarrow> ('cid, task_data, 'peer, 'q) peer_tracker \<Rightarrow> bool" where
  "tracker_ok tops A t \<longleftrightarrow> (\<forall>k qt. kpq_get tops (pt_pending_tasks t) k = Some qt \<longrightarrow> task_ok A (qt_task qt))"

definition ptq_ok :: "('q, 'cid, task_data, 'peer) tq_ops \<Rightarrow> ('pq, 'cid, task_data, 'peer, 'q) pq_ops \<Rightarrow>
    ('peer \<Rightarrow> 'cid \<Rightarrow> bool) \<Rightarrow> ('cid, task_data, 'peer, 'pq) ptq \<Rightarrow> bool" where
  "ptq_ok tops pops A s \<longleftrightarrow> ptq_wf tops pops ServerTaskMerger s \<and>
     (\<forall>p t. kpq_get pops (tq_peer_queue s) p = Some t \<longrightarrow> tracker_ok tops (A p) t)"

lemma tracker_okI:
  "(\<And>k qt. kpq_get tops (pt_pending_tasks t) k = Some qt \<Longrightarrow> task_ok A (qt_task qt)) \<Longrightarrow> tracker_ok tops A t"
  by (simp add: tracker_ok_def)

lemma tracker_okD: "tracker_ok tops A t \<Longrightarrow> kpq_get tops (pt_pending_tasks t) k = Some qt \<Longrightarrow> task_ok A (qt_task qt)"
  by (simp add: tracker_ok_def)

lemma ptq_okD:
  assumes "ptq_ok tops pops A s"
  shows "ptq_wf tops pops ServerTaskMerger s"
    and "kpq_get pops (tq_peer_queue s) p = Some t \<Longrightarrow> tracker_ok tops (A p) t"
  using assms by (auto simp: ptq_ok_def)

text \<open>A change to the tracker of one peer.\<close>

lemma ptq_ok_update:
  assumes "ptq_ok tops pops A s" and "ptq_wf tops pops ServerTaskMerger s'"
    and "kpq_get pops (tq_peer_queue s') = (kpq_get pops (tq_peer_queue s))(p := x)"
    and "\<And>t. x = Some t \<Longrightarrow> tracker_ok tops (A p) t"
  shows "ptq_ok tops pops A s'"
  using assms(2-4) ptq_okD(2)[OF assms(1)] unfolding ptq_ok_def by (auto split: if_splits)

lemma merge_task_ok:
  assumes "task_ok A tk" and "task_ok A e" and "tk_topic e = tk_topic tk"
  shows "task_ok A (TaskMerger_merge tk e)"
  using assms by (auto simp: task_ok_def TaskMerger_merge_def Let_def)

lemma push_one_ok:
  assumes laws: "kpq_laws cmp tops" and wf: "tracker_wf tops t" and m: "pt_task_merger t = ServerTaskMerger"
    and ok: "tracker_ok tops A t" and tk: "task_ok A tk"
  shows "tracker_ok tops A (push_one_task tops now tk t)"
proof (cases "task_has_more_info_than_active_tasks tk t")
  case True
  let ?g = "kpq_get tops (pt_pending_tasks t)"
  note built = tracker_wfD(1)[OF wf]
  obtain q e where rem: "kpq_remove tops (tk_topic tk) (pt_pending_tasks t) = (q, e)" by fastforce
  have e: "e = ?g (tk_topic tk)" using kpq_lawsD(4)[OF laws built, of "tk_topic tk"] rem by simp
  have q: "kpq_built tops {qt. qt_target qt = pt_target t} q" "kpq_get tops q = ?g(tk_topic tk := None)"
    using kpq_built.built_remove[OF built, of "tk_topic tk"] kpq_lawsD(3)[OF laws built, of "tk_topic tk"] rem by simp_all
  show ?thesis
  proof (cases e)
    case None
    then have "push_one_task tops now tk t =
        t\<lparr>pt_pending_tasks := kpq_push tops (tk_topic tk) (QueueTask_new tk (pt_target t) now) (pt_pending_tasks t)\<rparr>"
      using rem True by (simp add: push_one_task_def)
    then show ?thesis
      using tk by (intro tracker_okI)
        (auto simp: kpq_lawsD(2)[OF laws built] QueueTask_new_def split: if_splits dest: tracker_okD[OF ok])
  next
    case (Some existing)
    define e1 where "e1 = (if tk_priority tk > tk_priority (qt_task existing)
      then (qt_task existing)\<lparr>tk_priority := tk_priority tk\<rparr> else qt_task existing)"
    have ex: "?g (tk_topic tk) = Some existing" using e Some by simp
    have "task_ok A e1" "tk_topic e1 = tk_topic tk"
      using tracker_okD[OF ok ex] tracker_wfD(2)[OF wf ex] by (simp_all add: e1_def task_ok_def)
    then have merged: "task_ok A (TaskMerger_merge tk e1)" using merge_task_ok[OF tk] by blast
    have "push_one_task tops now tk t =
        t\<lparr>pt_pending_tasks := kpq_push tops (tk_topic tk) (existing\<lparr>qt_task := TaskMerger_merge tk e1\<rparr>) q\<rparr>"
      using rem Some True m by (simp add: push_one_task_def Let_def e1_def ServerTaskMerger_def)
    then show ?thesis
      using merged by (intro tracker_okI)
        (auto simp: kpq_lawsD(2)[OF laws q(1)] q(2) split: if_splits dest: tracker_okD[OF ok])
  qed
qed (simp add: push_one_task_def ok)

lemma push_tasks_ok:
  assumes laws: "kpq_laws cmp tops" and "tracker_wf tops t" and "pt_task_merger t = ServerTaskMerger"
    and "tracker_ok tops A t" and tks: "\<And>tk. tk \<in> set tks \<Longrightarrow> task_ok A tk"
  shows "tracker_ok tops A (PeerTracker_push_tasks tops now tks t)"
proof -
  let ?P = "\<lambda>t. tracker_wf tops t \<and> pt_task_merger t = ServerTaskMerger \<and> tracker_ok tops A t"
  have "?P (fold (push_one_task tops now) tks t)"
  proof (rule fold_invariant)
    show "?P t" using assms by blast
    show "?P (push_one_task tops now tk t)" if "tk \<in> set tks" "?P t" for tk t
      using that(2) stm.push_one_wf[OF laws] push_one_ok[OF laws _ _ _ tks[OF that(1)]] by (simp add: push_one_same)
  qed
  then show ?thesis by (simp add: PeerTracker_push_tasks_def)
qed

lemma ptq_push_ok:
  assumes tl: "kpq_laws QueueTask_cmp tops" and pl: "kpq_laws pcmp pops" and ok: "ptq_ok tops pops A s"
    and tks: "\<And>tk. tk \<in> set tks \<Longrightarrow> task_ok (A peer) tk"
  shows "ptq_ok tops pops A (PeerTaskQueue_push_tasks tops pops now peer tks s)"
proof -
  note wf = ptq_okD(1)[OF ok]
  obtain q0 old where rem: "kpq_remove pops peer (tq_peer_queue s) = (q0, old)" by fastforce
  note re = requeue[OF pl ptq_wfD(1)[OF wf] rem]
  define t0 where "t0 = (case old of Some t \<Rightarrow> t
    | None \<Rightarrow> PeerTracker_new tops peer ServerTaskMerger (tq_max_outstanding_work_per_peer s))"
  have t0: "tracker_wf tops t0 \<and> pt_task_merger t0 = ServerTaskMerger \<and> tracker_ok tops (A peer) t0"
  proof (cases old)
    case None
    then show ?thesis using tracker_wf_new[OF tl]
      by (simp add: t0_def) (simp add: PeerTracker_new_def tracker_ok_def kpq_get_new[OF tl])
  next
    case (Some t)
    then have get: "kpq_get pops (tq_peer_queue s) peer = Some t" using re(5) by simp
    then show ?thesis using ptq_wfD(2,4)[OF wf get] ptq_okD(2)[OF ok get] Some by (simp add: t0_def)
  qed
  have q: "tq_peer_queue (PeerTaskQueue_push_tasks tops pops now peer tks s) =
      kpq_push pops peer (PeerTracker_push_tasks tops now tks t0) q0"
    using rem ptq_wfD(5)[OF wf]
    by (simp add: PeerTaskQueue_push_tasks_def t0_def call_hook_def Let_def split: option.split)
  show ?thesis
  proof (rule ptq_ok_update[OF ok stm.ptq_push_tasks_wf[OF tl pl wf], where p = peer])
    show "kpq_get pops (tq_peer_queue (PeerTaskQueue_push_tasks tops pops now peer tks s)) =
        (kpq_get pops (tq_peer_queue s))(peer \<mapsto> PeerTracker_push_tasks tops now tks t0)"
      unfolding q by (rule re(2))
    show "tracker_ok tops (A peer) t" if "Some (PeerTracker_push_tasks tops now tks t0) = Some t" for t
      using that push_tasks_ok[OF tl _ _ _ tks] t0 by blast
  qed
qed

lemma ptq_remove_ok:
  assumes tl: "kpq_laws QueueTask_cmp tops" and pl: "kpq_laws pcmp pops" and ok: "ptq_ok tops pops A s"
  shows "ptq_ok tops pops A (PeerTaskQueue_remove tops pops topic peer s)"
proof -
  note wf = ptq_okD(1)[OF ok]
  obtain q0 old where rem: "kpq_remove pops peer (tq_peer_queue s) = (q0, old)" by fastforce
  note re = requeue[OF pl ptq_wfD(1)[OF wf] rem]
  note upd = ptq_ok_update[OF ok ptq_remove_wf[OF tl pl wf, of topic peer], where p = peer]
  show ?thesis
  proof (cases old)
    case None
    then show ?thesis by (intro upd[of None]) (simp_all add: PeerTaskQueue_remove_def rem re(4))
  next
    case (Some t)
    then have get: "kpq_get pops (tq_peer_queue s) peer = Some t" using re(5) by simp
    note built = tracker_wfD(1)[OF ptq_wfD(2)[OF wf get]]
    obtain t0 removed where r: "PeerTracker_remove tops topic t = (t0, removed)" by fastforce
    define t1 where "t1 = (if removed \<and> \<not> tq_ignore_freezing s then PeerTracker_freeze t0 else t0)"
    have pend: "pt_pending_tasks t1 = fst (kpq_remove tops topic (pt_pending_tasks t))"
      using r by (auto simp: t1_def PeerTracker_freeze_def PeerTracker_remove_def Let_def split: prod.splits)
    have "tracker_ok tops (A peer) t1"
      using ptq_okD(2)[OF ok get] by (intro tracker_okI) (auto simp: pend kpq_lawsD(3)[OF tl built] split: if_splits dest: tracker_okD)
    moreover have "tq_peer_queue (PeerTaskQueue_remove tops pops topic peer s) = kpq_push pops peer t1 q0"
      using rem Some r by (simp add: PeerTaskQueue_remove_def t1_def Let_def)
    ultimately show ?thesis by (intro upd[of "Some t1"]) (simp_all add: re(2))
  qed
qed

lemma ptq_done_ok:
  assumes pl: "kpq_laws pcmp pops" and ok: "ptq_ok tops pops A s"
  shows "\<exists>s'. PeerTaskQueue_tasks_done pops peer tks s = Some s' \<and> ptq_ok tops pops A s'"
proof -
  note wf = ptq_okD(1)[OF ok]
  obtain s' where s': "PeerTaskQueue_tasks_done pops peer tks s = Some s'" "ptq_wf tops pops ServerTaskMerger s'"
    using ptq_tasks_done_wf[OF pl wf] by blast
  obtain q0 old where rem: "kpq_remove pops peer (tq_peer_queue s) = (q0, old)" by fastforce
  note re = requeue[OF pl ptq_wfD(1)[OF wf] rem]
  note upd = ptq_ok_update[OF ok s'(2), where p = peer]
  have "ptq_ok tops pops A s'"
  proof (cases old)
    case None
    then have "tq_peer_queue s' = q0" using s'(1) rem by (auto simp: PeerTaskQueue_tasks_done_def)
    then show ?thesis by (intro upd[of None]) (simp_all add: re(4))
  next
    case (Some t)
    then have get: "kpq_get pops (tq_peer_queue s) peer = Some t" using re(5) by simp
    obtain t' where t': "tasks_done_loop tks t = Some t'" "pt_pending_tasks t' = pt_pending_tasks t"
      using tasks_done_loop_ok[OF ptq_wfD(2)[OF wf get]] by blast
    have "tq_peer_queue s' = kpq_push pops peer t' q0" using s'(1) rem Some t'(1) by (auto simp: PeerTaskQueue_tasks_done_def)
    moreover have "tracker_ok tops (A peer) t'" using ptq_okD(2)[OF ok get] t'(2) by (simp add: tracker_ok_def)
    ultimately show ?thesis by (intro upd[of "Some t'"]) (simp_all add: re(2))
  qed
  then show ?thesis using s'(1) by blast
qed

text \<open>Popping: the queue keeps the property, and the tasks that are handed out have it too.\<close>

lemma ptq_pop_ok:
  assumes tl: "kpq_laws QueueTask_cmp tops" and pl: "kpq_laws pcmp pops" and ok: "ptq_ok tops pops A s"
  obtains s' res where "PeerTaskQueue_pop_tasks tops pops w s = Some (s', res)" and "ptq_ok tops pops A s'"
    and "\<And>peer ts n tk. res = Some (peer, ts, n) \<Longrightarrow> tk \<in> set ts \<Longrightarrow> task_ok (A peer) tk"
    and "\<And>peer ts n. res = Some (peer, ts, n) \<Longrightarrow> distinct (map tk_topic ts)"
proof -
  obtain s' res where s': "PeerTaskQueue_pop_tasks tops pops w s = Some (s', res)"
    "ptq_popped tops pops w s s' res" "ptq_wf tops pops ServerTaskMerger s'"
    using ptq_pop_tasks_ok[OF tl pl ptq_okD(1)[OF ok]] by blast
  show thesis
  proof (cases res)
    case None
    then have "s' = s" using s'(2) by (simp add: ptq_popped_def)
    then show ?thesis using that[of s' res] s'(1) ok None by simp
  next
    case (Some r)
    obtain peer ts n where r: "r = (peer, ts, n)" by (cases r)
    obtain t t' where t: "kpq_get pops (tq_peer_queue s) peer = Some t" "popped_ok tops w 0 t t' ts"
      and get': "kpq_get pops (tq_peer_queue s') = (kpq_get pops (tq_peer_queue s))(peer :=
        (if PeerTracker_is_idle tops t' then None else Some t'))"
      using s'(2) Some r by (auto simp: ptq_popped_def split: if_splits)
    note tok = ptq_okD(2)[OF ok t(1)]
    have "tracker_ok tops (A peer) t'"
    proof (rule tracker_okI)
      fix k qt assume "kpq_get tops (pt_pending_tasks t') k = Some qt"
      then have "kpq_get tops (pt_pending_tasks t) k = Some qt" using t(2) by (simp add: popped_ok_def split: if_splits)
      then show "task_ok (A peer) (qt_task qt)" by (rule tracker_okD[OF tok])
    qed
    then have "ptq_ok tops pops A s'" by (intro ptq_ok_update[OF ok s'(3) get']) (simp split: if_splits)
    moreover have "task_ok (A peer) tk" if "tk \<in> set ts" for tk
    proof -
      have "map_option qt_task (kpq_get tops (pt_pending_tasks t) (tk_topic tk)) = Some tk"
        using t(2) that by (simp add: popped_ok_def)
      then show ?thesis using tracker_okD[OF tok] by auto
    qed
    moreover have "distinct (map tk_topic ts)" using t(2) by (simp add: popped_ok_def)
    ultimately show ?thesis using that[of s' res] s'(1) Some r by auto
  qed
qed

subsection \<open>The message of an envelope\<close>

text \<open>The documented behaviour of the store: it returns the block that was asked for.\<close>

definition store_ok :: "('cid \<Rightarrow> 'cid block option) \<Rightarrow> bool" where
  "store_ok load \<longleftrightarrow> (\<forall>c b. load c = Some b \<longrightarrow> b_cid b = c)"

abbreviation task_map :: "('cid, task_data) task list \<Rightarrow> ('cid, ('cid, task_data) task) hmap" where
  "task_map ts \<equiv> map (\<lambda>tk. (tk_topic tk, tk)) ts"

definition asks_block :: "('cid, task_data) task \<Rightarrow> bool" where
  "asks_block tk \<longleftrightarrow> td_have_block (tk_data tk) \<and> td_is_want_block (tk_data tk)"

lemma get_blocks_get: "map_of (get_blocks load keys) c = (if c \<in> set keys then load c else None)"
proof -
  have "map_of (fold (\<lambda>c res. case load c of None \<Rightarrow> res | Some b \<Rightarrow> hm_insert c b res) keys res) c =
      (if c \<in> set keys \<and> load c \<noteq> None then load c else map_of res c)" for res
    by (induction keys arbitrary: res) (auto split: option.splits)
  from this[of "[]"] show ?thesis by (auto simp: get_blocks_def)
qed

lemma get_block_sizes_get: "map_of (get_block_sizes sizes keys) c = (if c \<in> set keys then sizes c else None)"
proof -
  have "map_of (fold (\<lambda>c res. case sizes c of None \<Rightarrow> res | Some b \<Rightarrow> hm_insert c b res) keys res) c =
      (if c \<in> set keys \<and> sizes c \<noteq> None then sizes c else map_of res c)" for res
    by (induction keys arbitrary: res) (auto split: option.splits)
  from this[of "[]"] show ?thesis by (auto simp: get_block_sizes_def)
qed

lemma split_task_fold:
  assumes "distinct (map tk_topic ts)" and "msg_blocks msg = []"
    and "\<And>tk. tk \<in> set ts \<Longrightarrow> tk_topic tk \<notin> hm_keys bt"
    and "fold split_task ts (msg, cids, bt) = (msg', cids', bt')"
  shows "msg_blocks msg' = [] \<and> cids' = cids @ map tk_topic (filter asks_block ts) \<and>
    bt' = bt @ task_map (filter asks_block ts) \<and>
    (\<forall>c. map_of (msg_block_presences msg') c =
      (case map_of (task_map ts) c of
         None \<Rightarrow> map_of (msg_block_presences msg) c
       | Some tk \<Rightarrow> if asks_block tk then map_of (msg_block_presences msg) c
                    else if td_have_block (tk_data tk) then Some Have else Some DontHave))"
  using assms
proof (induction ts arbitrary: msg cids bt)
  case (Cons tk ts)
  let ?msg = "if asks_block tk then msg else if td_have_block (tk_data tk) then BitswapMessage_add_have (tk_topic tk) msg
    else BitswapMessage_add_dont_have (tk_topic tk) msg"
  let ?cids = "if asks_block tk then cids @ [tk_topic tk] else cids"
  let ?bt = "if asks_block tk then bt @ [(tk_topic tk, tk)] else bt"
  have fresh: "tk_topic tk \<notin> hm_keys bt" using Cons.prems(3) by simp
  have one: "split_task tk (msg, cids, bt) = (?msg, ?cids, ?bt)"
    using hm_insert_fresh[OF fresh, of tk] by (simp add: split_task_def asks_block_def)
  have blocks: "msg_blocks ?msg = []"
    using Cons.prems(2) by (simp add: BitswapMessage_add_have_def BitswapMessage_add_dont_have_def
        BitswapMessage_add_block_presence_def)
  have pres: "map_of (msg_block_presences ?msg) c = (if c = tk_topic tk \<and> \<not> asks_block tk
      then Some (if td_have_block (tk_data tk) then Have else DontHave) else map_of (msg_block_presences msg) c)" for c
    using Cons.prems(2) by (simp add: BitswapMessage_add_have_def BitswapMessage_add_dont_have_def
        BitswapMessage_add_block_presence_def)
  have d: "distinct (map tk_topic ts)" and notin: "tk_topic tk \<notin> tk_topic ` set ts" using Cons.prems(1) by simp_all
  have fresh': "tk_topic tk' \<notin> hm_keys ?bt" if "tk' \<in> set ts" for tk'
  proof -
    have "tk_topic tk' \<noteq> tk_topic tk" using notin that by (metis imageI)
    then show ?thesis using Cons.prems(3)[of tk'] that by auto
  qed
  have "fold split_task ts (?msg, ?cids, ?bt) = (msg', cids', bt')"
    using Cons.prems(4) one by (simp only: fold_Cons comp_apply)
  note ih = Cons.IH[OF d blocks fresh' this]
  have none: "map_of (task_map ts) (tk_topic tk) = None"
    using notin by (auto simp: map_of_eq_None_iff)
  have "map_of (msg_block_presences msg') c =
      (case map_of (task_map (tk # ts)) c of
         None \<Rightarrow> map_of (msg_block_presences msg) c
       | Some tk \<Rightarrow> if asks_block tk then map_of (msg_block_presences msg) c
                    else if td_have_block (tk_data tk) then Some Have else Some DontHave)" for c
    using ih[THEN conjunct2, THEN conjunct2, THEN conjunct2, rule_format, of c] none
    unfolding pres by (cases "c = tk_topic tk") (auto split: option.splits)
  then show ?case using ih by simp
qed simp

lemma disjoint_insert_sub: "A \<inter> B = {} \<Longrightarrow> k \<notin> A \<Longrightarrow> C \<subseteq> insert k B \<Longrightarrow> A \<inter> C = {}"
  by blast

lemma add_loaded_fold:
  assumes "store_ok load" and "distinct (map fst bt)" and "\<And>c. c \<in> hm_keys bt \<Longrightarrow> map_of blocks c = load c"
    and "hm_keys bt \<inter> hm_keys (msg_blocks msg) = {}" and "hm_keys bt \<inter> hm_keys (msg_block_presences msg) = {}"
    and "fold add_loaded bt (blocks, msg) = (blocks', msg')"
  shows "map_of (msg_blocks msg') c = (case map_of bt c of None \<Rightarrow> map_of (msg_blocks msg) c | Some tk \<Rightarrow> load c) \<and>
    map_of (msg_block_presences msg') c = (case map_of bt c of
        None \<Rightarrow> map_of (msg_block_presences msg) c
      | Some tk \<Rightarrow> if load c = None \<and> td_send_dont_have (tk_data tk) then Some DontHave else None)"
  using assms(2-6)
proof (induction bt arbitrary: blocks msg)
  case (Cons ct bt)
  obtain k tk where ct: "ct = (k, tk)" by (cases ct)
  have k: "k \<notin> hm_keys bt" "map_of blocks k = load k" "k \<notin> hm_keys (msg_blocks msg)" "k \<notin> hm_keys (msg_block_presences msg)"
    using Cons.prems ct by auto
  let ?blocks = "if load k = None then blocks else hm_remove k blocks"
  let ?msg = "case load k of Some b \<Rightarrow> BitswapMessage_add_block b msg
    | None \<Rightarrow> if td_send_dont_have (tk_data tk) then BitswapMessage_add_dont_have k msg else msg"
  have one: "add_loaded ct (blocks, msg) = (?blocks, ?msg)"
    using k(2) by (simp add: add_loaded_def ct split: option.split)
  have own: "b_cid b = k" if "load k = Some b" for b using assms(1) that by (simp add: store_ok_def)
  have mb: "map_of (msg_blocks ?msg) c = (if c = k then load k else map_of (msg_blocks msg) c)"
    and kb: "hm_keys (msg_blocks ?msg) \<subseteq> insert k (hm_keys (msg_blocks msg))"
    and mp: "map_of (msg_block_presences ?msg) c = (if c = k then if load k = None \<and> td_send_dont_have (tk_data tk)
        then Some DontHave else None else map_of (msg_block_presences msg) c)"
    and kp: "hm_keys (msg_block_presences ?msg) \<subseteq> insert k (hm_keys (msg_block_presences msg))" for c
    using own k(3,4) by (auto simp: BitswapMessage_add_block_def BitswapMessage_add_dont_have_def
        BitswapMessage_add_block_presence_def split: option.split)
  have d: "distinct (map fst bt)" using Cons.prems(1) by simp
  have rest: "map_of ?blocks c = load c" if "c \<in> hm_keys bt" for c
    using Cons.prems(2)[of c] that k(1) by auto
  have dis: "hm_keys bt \<inter> hm_keys (msg_blocks ?msg) = {}" "hm_keys bt \<inter> hm_keys (msg_block_presences ?msg) = {}"
    using disjoint_insert_sub[OF _ k(1) kb] disjoint_insert_sub[OF _ k(1) kp] Cons.prems(3,4) by simp_all
  have "fold add_loaded bt (?blocks, ?msg) = (blocks', msg')" using Cons.prems(5) one by (simp only: fold_Cons comp_apply)
  note ih = Cons.IH[OF d rest dis this]
  have none: "map_of bt k = None" using k(1) by simp
  show ?case using ih none unfolding mb mp by (cases "c = k") (simp_all add: ct)
qed simp

text \<open>What the message of an envelope says of each task.\<close>

lemma build_message_spec:
  assumes st: "store_ok load" and d: "distinct (map tk_topic ts)"
  shows "map_of (msg_blocks (build_message load n ts)) c =
      (case map_of (task_map ts) c of Some tk \<Rightarrow> if asks_block tk then load c else None | None \<Rightarrow> None)" (is ?B)
    and "map_of (msg_block_presences (build_message load n ts)) c =
      (case map_of (task_map ts) c of
         None \<Rightarrow> None
       | Some tk \<Rightarrow> if asks_block tk then if load c = None \<and> td_send_dont_have (tk_data tk) then Some DontHave else None
                    else if td_have_block (tk_data tk) then Some Have else Some DontHave)" (is ?P)
proof -
  let ?msg0 = "(BitswapMessage_new False)\<lparr>msg_pending_bytes := int n\<rparr>"
  have m0: "msg_blocks ?msg0 = []" "msg_block_presences ?msg0 = []" by (simp_all add: BitswapMessage_new_def)
  obtain msg1 cids bt where s: "fold split_task ts (?msg0, [], []) = (msg1, cids, bt)" by (metis prod_cases3)
  note S = split_task_fold[OF d m0(1) _ s]
  have S1: "msg_blocks msg1 = []" "cids = map tk_topic (filter asks_block ts)" "bt = task_map (filter asks_block ts)"
    and S4: "\<And>c. map_of (msg_block_presences msg1) c = (case map_of (task_map ts) c of None \<Rightarrow> None
       | Some tk \<Rightarrow> if asks_block tk then None else if td_have_block (tk_data tk) then Some Have else Some DontHave)"
    using S unfolding m0 by (simp_all split: option.split)
  have db: "distinct (map fst bt)" using distinct_map_filter[OF d] by (simp add: S1(3) comp_def)
  have get: "map_of (task_map ts) (tk_topic tk) = Some tk" if "tk \<in> set ts" for tk
    using d that by (auto simp: map_of_eq_Some_iff comp_def)
  have bt_get: "map_of bt c = (case map_of (task_map ts) c of Some tk \<Rightarrow> if asks_block tk then Some tk else None | None \<Rightarrow> None)" for c
  proof -
    have "bt = filter (\<lambda>(_, tk). asks_block tk) (task_map ts)" unfolding S1(3) by (induction ts) simp_all
    moreover have "hm_wf (task_map ts)" using d by (simp add: comp_def)
    ultimately show ?thesis by (simp add: map_of_hm_filter split: option.split)
  qed
  have loaded: "map_of (get_blocks load cids) c = load c" if "c \<in> hm_keys bt" for c
    using that by (auto simp: get_blocks_get S1)
  have dis: "hm_keys bt \<inter> hm_keys (msg_blocks msg1) = {}" "hm_keys bt \<inter> hm_keys (msg_block_presences msg1) = {}"
  proof -
    have "c \<notin> hm_keys (msg_block_presences msg1)" if "c \<in> hm_keys bt" for c
      using that S4[of c] get by (auto simp: S1(3) hm_get_None[symmetric])
    then show "hm_keys bt \<inter> hm_keys (msg_block_presences msg1) = {}" by blast
  qed (simp add: S1)
  obtain bl msg2 where f: "fold add_loaded bt (get_blocks load cids, msg1) = (bl, msg2)" by fastforce
  have msg: "build_message load n ts = msg2" using s f by (simp add: build_message_def)
  note A = add_loaded_fold[OF st db loaded dis f, of c]
  show ?B using A S1(1) unfolding msg bt_get by (auto split: option.splits)
  show ?P using A S4[of c] unfolding msg bt_get by (auto split: option.splits)
qed

subsection \<open>Tasks that have their block\<close>

text \<open>The tracker holds a task for the CID that knows the block, pending or active.\<close>

definition tracker_has :: "('q, 'cid, task_data, 'peer) tq_ops \<Rightarrow> ('cid, task_data, 'peer, 'q) peer_tracker \<Rightarrow> 'cid \<Rightarrow> bool" where
  "tracker_has tops t c \<longleftrightarrow>
     (\<exists>qt. kpq_get tops (pt_pending_tasks t) c = Some qt \<and> td_have_block (tk_data (qt_task qt))) \<or>
     (\<exists>tks tk. map_of (pt_active_tasks t) c = Some tks \<and> tk \<in> set tks \<and> td_have_block (tk_data tk))"

definition ptq_has :: "('q, 'cid, task_data, 'peer) tq_ops \<Rightarrow> ('pq, 'cid, task_data, 'peer, 'q) pq_ops \<Rightarrow>
    ('cid, task_data, 'peer, 'pq) ptq \<Rightarrow> 'peer \<Rightarrow> 'cid \<Rightarrow> bool" where
  "ptq_has tops pops s p c \<longleftrightarrow> (\<exists>t. kpq_get pops (tq_peer_queue s) p = Some t \<and> tracker_has tops t c)"

lemma merge_has_block:
  "td_have_block (tk_data (TaskMerger_merge tk e)) \<longleftrightarrow>
     (if \<not> td_is_want_block (tk_data e) \<and> td_is_want_block (tk_data tk) \<and> \<not> td_have_block (tk_data e)
      then td_have_block (tk_data tk) else td_have_block (tk_data e) \<or> td_have_block (tk_data tk))"
  by (auto simp: TaskMerger_merge_def Let_def)

lemma push_one_has:
  assumes laws: "kpq_laws cmp tops" and wf: "tracker_wf tops t" and m: "pt_task_merger t = ServerTaskMerger"
    and has: "tracker_has tops t c \<or> (c = tk_topic tk \<and> td_have_block (tk_data tk))"
  shows "tracker_has tops (push_one_task tops now tk t) c"
proof (cases "task_has_more_info_than_active_tasks tk t")
  case True
  let ?g = "kpq_get tops (pt_pending_tasks t)"
  note built = tracker_wfD(1)[OF wf]
  obtain q e where rem: "kpq_remove tops (tk_topic tk) (pt_pending_tasks t) = (q, e)" by fastforce
  have e: "e = ?g (tk_topic tk)" using kpq_lawsD(4)[OF laws built, of "tk_topic tk"] rem by simp
  have q: "kpq_built tops {qt. qt_target qt = pt_target t} q" "kpq_get tops q = ?g(tk_topic tk := None)"
    using kpq_built.built_remove[OF built, of "tk_topic tk"] kpq_lawsD(3)[OF laws built, of "tk_topic tk"] rem by simp_all
  show ?thesis
  proof (cases e)
    case None
    then have "push_one_task tops now tk t =
        t\<lparr>pt_pending_tasks := kpq_push tops (tk_topic tk) (QueueTask_new tk (pt_target t) now) (pt_pending_tasks t)\<rparr>"
      using rem True by (simp add: push_one_task_def)
    then show ?thesis
      using has e None by (auto simp: tracker_has_def kpq_lawsD(2)[OF laws built] QueueTask_new_def)
  next
    case (Some existing)
    define e1 where "e1 = (if tk_priority tk > tk_priority (qt_task existing)
      then (qt_task existing)\<lparr>tk_priority := tk_priority tk\<rparr> else qt_task existing)"
    have e1: "tk_data e1 = tk_data (qt_task existing)" by (simp add: e1_def)
    have "push_one_task tops now tk t =
        t\<lparr>pt_pending_tasks := kpq_push tops (tk_topic tk) (existing\<lparr>qt_task := TaskMerger_merge tk e1\<rparr>) q\<rparr>"
      using rem Some True m by (simp add: push_one_task_def Let_def e1_def ServerTaskMerger_def)
    then show ?thesis
      using has e Some by (auto simp: tracker_has_def kpq_lawsD(2)[OF laws q(1)] q(2) merge_has_block e1 split: if_splits)
  qed
next
  case False
  then have same: "push_one_task tops now tk t = t" by (simp add: push_one_task_def)
  have "tracker_has tops t c" if "c = tk_topic tk" "td_have_block (tk_data tk)"
    using False that m by (auto simp: task_has_more_info_than_active_tasks_def ServerTaskMerger_def tracker_has_def
        TaskMerger_has_new_info_def Let_def list_ex_iff split: option.splits if_splits)
  then show ?thesis using has same by auto
qed

lemma push_tasks_has:
  assumes laws: "kpq_laws cmp tops" and "tracker_wf tops t" and "pt_task_merger t = ServerTaskMerger"
    and "tracker_has tops t c \<or> (\<exists>tk \<in> set tks. c = tk_topic tk \<and> td_have_block (tk_data tk))"
  shows "tracker_has tops (PeerTracker_push_tasks tops now tks t) c"
  unfolding PeerTracker_push_tasks_def using assms(2-4)
proof (induction tks arbitrary: t)
  case (Cons tk tks)
  let ?t = "push_one_task tops now tk t"
  have wf: "tracker_wf tops ?t" "pt_task_merger ?t = ServerTaskMerger"
    using stm.push_one_wf[OF laws Cons.prems(1,2)] Cons.prems(2) by (simp_all add: push_one_same)
  have "tracker_has tops ?t c \<or> (\<exists>tk \<in> set tks. c = tk_topic tk \<and> td_have_block (tk_data tk))"
    using push_one_has[OF laws Cons.prems(1,2), of c tk now] Cons.prems(3) by auto
  from Cons.IH[OF wf this] show ?case by simp
qed simp

lemma ptq_push_has:
  assumes tl: "kpq_laws QueueTask_cmp tops" and pl: "kpq_laws pcmp pops" and wf: "ptq_wf tops pops ServerTaskMerger s"
    and has: "ptq_has tops pops s p c \<or> (p = peer \<and> c = tk_topic tk \<and> td_have_block (tk_data tk))"
  shows "ptq_has tops pops (PeerTaskQueue_push_task tops pops now peer tk s) p c"
proof -
  obtain q0 old where rem: "kpq_remove pops peer (tq_peer_queue s) = (q0, old)" by fastforce
  note re = requeue[OF pl ptq_wfD(1)[OF wf] rem]
  define t0 where "t0 = (case old of Some t \<Rightarrow> t
    | None \<Rightarrow> PeerTracker_new tops peer ServerTaskMerger (tq_max_outstanding_work_per_peer s))"
  have t0: "tracker_wf tops t0" "pt_task_merger t0 = ServerTaskMerger"
    using tracker_wf_new[OF tl] re(5)[symmetric] ptq_wfD(2,4)[OF wf, of peer]
    by (auto simp: t0_def PeerTracker_new_def split: option.splits)
  have "tq_peer_queue (PeerTaskQueue_push_task tops pops now peer tk s) =
      kpq_push pops peer (PeerTracker_push_tasks tops now [tk] t0) q0"
    using rem ptq_wfD(5)[OF wf]
    by (simp add: PeerTaskQueue_push_task_def PeerTaskQueue_push_tasks_def t0_def call_hook_def Let_def split: option.split)
  then have get: "kpq_get pops (tq_peer_queue (PeerTaskQueue_push_task tops pops now peer tk s)) =
      (kpq_get pops (tq_peer_queue s))(peer \<mapsto> PeerTracker_push_tasks tops now [tk] t0)" using re(2) by simp
  show ?thesis
  proof (cases "p = peer")
    case True
    have "tracker_has tops t0 c \<or> (\<exists>tk \<in> set [tk]. c = tk_topic tk \<and> td_have_block (tk_data tk))"
      using has True re(5) by (auto simp: ptq_has_def t0_def split: option.splits)
    from push_tasks_has[OF tl t0 this] show ?thesis by (simp add: ptq_has_def get True)
  next
    case False
    then show ?thesis using has by (simp add: ptq_has_def get)
  qed
qed

subsection \<open>New blocks\<close>

text \<open>
  What the loops of \<open>notify_new_blocks\<close> keep of the engine: ledgers, index and filter do not change, and
  the task queue keeps its invariant and its tasks.
\<close>

definition notified :: "('q, 'cid, task_data, 'peer) tq_ops \<Rightarrow> ('pq, 'cid, task_data, 'peer, 'q) pq_ops \<Rightarrow>
    ('cid, 'peer, 'pq, 'f) engine \<Rightarrow>
    ('cid, 'peer, 'pq, 'f) engine \<times> ('peer, 'cid list) hmap \<times> bool \<Rightarrow> bool" where
  "notified tops pops e0 = (\<lambda>(e, missing, work).
     en_ledger_map e = en_ledger_map e0 \<and> en_peer_ledger e = en_peer_ledger e0 \<and>
     en_peer_block_request_filter e = en_peer_block_request_filter e0 \<and> en_outbox e = en_outbox e0 \<and>
     ptq_ok tops pops (engine_allows e0) (en_peer_task_queue e) \<and>
     (\<forall>p c. ptq_has tops pops (en_peer_task_queue e0) p c \<longrightarrow> ptq_has tops pops (en_peer_task_queue e) p c))"

lemma Ledger_get_None: "c \<notin> ledger_cids l \<Longrightarrow> Ledger_wantlist_get l c = None"
  using Ledger_get_cids[of l c] by simp

text \<open>The ledgers are well-formed and have only wants that the request filter allows.\<close>

definition views_ok :: "('cid, 'peer, 'pq, 'f) engine \<Rightarrow> bool" where
  "views_ok e \<longleftrightarrow> (\<forall>p l. map_of (en_ledger_map e) p = Some l \<longrightarrow> wantlist_wf (ld_wantlist l)) \<and>
     (\<forall>p c. c \<in> server_view e p \<longrightarrow> engine_allows e p c)"

lemma views_okD:
  assumes "views_ok e"
  shows "map_of (en_ledger_map e) p = Some l \<Longrightarrow> wantlist_wf (ld_wantlist l)"
    and "c \<in> server_view e p \<Longrightarrow> engine_allows e p c"
  using assms by (auto simp: views_ok_def)

lemma notify_peer_ok:
  assumes tl: "kpq_laws QueueTask_cmp tops" and pl: "kpq_laws pcmp pops"
    and views: "views_ok e0"
    and st: "notified tops pops e0 (e, missing, work)"
  shows "notified tops pops e0 (notify_peer tops pops bplen now sizes c peer (e, missing, work))"
    and "c \<in> server_view e0 peer \<Longrightarrow> ptq_has tops pops (en_peer_task_queue
      (fst (notify_peer tops pops bplen now sizes c peer (e, missing, work)))) peer c"
    and "ptq_has tops pops (en_peer_task_queue e) p d \<Longrightarrow> ptq_has tops pops (en_peer_task_queue
      (fst (notify_peer tops pops bplen now sizes c peer (e, missing, work)))) p d"
proof -
  have lm: "en_ledger_map e = en_ledger_map e0" and ok: "ptq_ok tops pops (engine_allows e0) (en_peer_task_queue e)"
    using st by (simp_all add: notified_def)
  let ?st = "notify_peer tops pops bplen now sizes c peer (e, missing, work)"
  have "notified tops pops e0 ?st \<and> (c \<in> server_view e0 peer \<longrightarrow> ptq_has tops pops (en_peer_task_queue (fst ?st)) peer c) \<and>
    (\<forall>p d. ptq_has tops pops (en_peer_task_queue e) p d \<longrightarrow> ptq_has tops pops (en_peer_task_queue (fst ?st)) p d)"
  proof (cases "c \<in> server_view e0 peer")
    case False
    then have eq: "?st = (e, hm_entry peer [] (\<lambda>cs. cs @ [c]) missing, work)"
      by (auto simp: notify_peer_def lm server_view_def Ledger_get_None split: option.splits)
    have "notified tops pops e0 ?st" unfolding eq using st False
      by (simp add: notified_def)
    then show ?thesis using False by (simp add: eq)
  next
    case True
    then obtain l where l0: "map_of (en_ledger_map e0) peer = Some l" "c \<in> ledger_cids l"
      by (auto simp: server_view_def split: option.splits)
    then obtain en where l: "map_of (en_ledger_map e0) peer = Some l" "Ledger_wantlist_get l c = Some en"
      using Ledger_get_cids[of l c] by auto
    then have cid: "we_cid en = c" using Wantlist_get_cid[OF views_okD(1)[OF views l(1)]] by (simp add: Ledger_wantlist_get_def)
    let ?tk = "have_task (bplen c) e (we_cid en) (we_priority en) (we_want_type en) False
      (case map_of sizes c of Some n \<Rightarrow> n | None \<Rightarrow> 0)"
    let ?q = "PeerTaskQueue_push_task tops pops now peer ?tk (en_peer_task_queue e)"
    have eq: "?st = (update_metrics (e\<lparr>en_peer_task_queue := ?q\<rparr>), missing, True)"
      using l by (simp add: notify_peer_def lm)
    have tk: "tk_topic ?tk = c" "td_have_block (tk_data ?tk)" by (simp_all add: have_task_def cid Let_def)
    have "task_ok (engine_allows e0 peer) ?tk" using views_okD(2)[OF views True] by (simp only: task_ok_def tk simp_thms)
    then have qok: "ptq_ok tops pops (engine_allows e0) ?q"
      unfolding PeerTaskQueue_push_task_def by (intro ptq_push_ok[OF tl pl ok]) simp
    note has = ptq_push_has[OF tl pl ptq_okD(1)[OF ok], where peer = peer and tk = ?tk and now = now]
    have keep: "ptq_has tops pops (en_peer_task_queue e) p d \<Longrightarrow> ptq_has tops pops ?q p d" for p d
      by (rule has) blast
    have new: "ptq_has tops pops ?q peer c" by (rule has) (simp only: tk simp_thms)
    have "notified tops pops e0 ?st"
      unfolding eq using st qok keep by (simp add: notified_def update_metrics_def)
    then show ?thesis using new keep by (simp add: eq update_metrics_def)
  qed
  then show "notified tops pops e0 ?st"
    and "c \<in> server_view e0 peer \<Longrightarrow> ptq_has tops pops (en_peer_task_queue (fst ?st)) peer c"
    and "ptq_has tops pops (en_peer_task_queue e) p d \<Longrightarrow> ptq_has tops pops (en_peer_task_queue (fst ?st)) p d"
    by blast+
qed

end
