(* ===== verification/EngineReach.thy ===== *)
theory EngineReach
  imports EngineInv
begin

text \<open>
  The reachable states of the decision engine and what holds in them: the index of peers by CID covers
  the ledgers, a new block gives a task to every peer that wants it, nothing that the request filter
  denies is ever put in an envelope, and an envelope answers exactly the tasks it was built from.
\<close>

section \<open>New blocks and wanting peers\<close>

abbreviation has_task :: "('q, 'cid, task_data, 'peer) tq_ops \<Rightarrow> ('pq, 'cid, task_data, 'peer, 'q) pq_ops \<Rightarrow>
    ('cid, 'peer, 'pq, 'f) engine \<times> 'm \<Rightarrow> 'peer \<Rightarrow> 'cid \<Rightarrow> bool" where
  "has_task tops pops st \<equiv> ptq_has tops pops (en_peer_task_queue (fst st))"

lemma notify_peers_ok:
  assumes tl: "kpq_laws QueueTask_cmp tops" and pl: "kpq_laws pcmp pops"
    and ok: "views_ok e0"
    and st: "notified tops pops e0 st"
  shows "notified tops pops e0 (fold (notify_peer tops pops bplen now sizes c) peers st) \<and>
    (\<forall>p d. has_task tops pops st p d \<or> (p \<in> set peers \<and> d = c \<and> c \<in> server_view e0 p) \<longrightarrow>
       has_task tops pops (fold (notify_peer tops pops bplen now sizes c) peers st) p d)"
  using st
proof (induction peers arbitrary: st)
  case (Cons p ps)
  obtain e missing work where eq: "st = (e, missing, work)" by (cases st rule: prod_cases3) (rule that)
  note one = notify_peer_ok[OF tl pl ok, of e missing work, folded eq, OF Cons.prems]
  let ?st = "notify_peer tops pops bplen now sizes c p st"
  have grows: "has_task tops pops st q d \<or> (q = p \<and> d = c \<and> c \<in> server_view e0 q) \<Longrightarrow> has_task tops pops ?st q d" for q d
    using one(2,3)[where peer = p and c = c and bplen = bplen and now = now and sizes = sizes] by (auto simp: eq)
  note IH = Cons.IH[OF one(1), of bplen now sizes c p]
  show ?case
  proof (intro conjI allI impI)
    show "notified tops pops e0 (fold (notify_peer tops pops bplen now sizes c) (p # ps) st)" using IH by simp
  next
    fix q d assume "has_task tops pops st q d \<or> (q \<in> set (p # ps) \<and> d = c \<and> c \<in> server_view e0 q)"
    then have "has_task tops pops ?st q d \<or> (q \<in> set ps \<and> d = c \<and> c \<in> server_view e0 q)" using grows by auto
    then show "has_task tops pops (fold (notify_peer tops pops bplen now sizes c) (p # ps) st) q d"
      using conjunct2[OF IH] by (simp only: fold.simps comp_apply)
  qed
qed simp

lemma notify_block_ok:
  assumes tl: "kpq_laws QueueTask_cmp tops" and pl: "kpq_laws pcmp pops"
    and ok: "views_ok e0"
    and st: "notified tops pops e0 st"
  shows "notified tops pops e0 (notify_block tops pops bplen now sizes b st) \<and>
    (\<forall>p d. has_task tops pops st p d \<or>
       (listed (en_peer_ledger e0) p d \<and> d = b_cid b \<and> d \<in> server_view e0 p) \<longrightarrow>
       has_task tops pops (notify_block tops pops bplen now sizes b st) p d)"
proof -
  obtain e missing work where eq: "st = (e, missing, work)" by (cases st rule: prod_cases3) (rule that)
  have pl_eq: "en_peer_ledger e = en_peer_ledger e0" using st by (simp add: notified_def eq)
  show ?thesis
  proof (cases "PeerLedger_peers (en_peer_ledger e0) (b_cid b)")
    case None
    then have "notify_block tops pops bplen now sizes b st = st" by (simp add: notify_block_def eq pl_eq)
    moreover have "\<not> listed (en_peer_ledger e0) p (b_cid b)" for p using None by (simp add: listed_def)
    ultimately show ?thesis using st by auto
  next
    case (Some peers)
    then have "notify_block tops pops bplen now sizes b st =
        fold (notify_peer tops pops bplen now sizes (b_cid b)) peers st" by (simp add: notify_block_def eq pl_eq)
    moreover have "listed (en_peer_ledger e0) p (b_cid b) \<longleftrightarrow> p \<in> set peers" for p using Some by (simp add: listed_def)
    ultimately show ?thesis
      using notify_peers_ok[OF tl pl ok st, of bplen now sizes "b_cid b" peers] by auto
  qed
qed

lemma notify_blocks_ok:
  assumes tl: "kpq_laws QueueTask_cmp tops" and pl: "kpq_laws pcmp pops"
    and ok: "views_ok e0"
    and st: "notified tops pops e0 st"
  shows "notified tops pops e0 (fold (notify_block tops pops bplen now sizes) bs st) \<and>
    (\<forall>p d. has_task tops pops st p d \<or>
       (listed (en_peer_ledger e0) p d \<and> d \<in> b_cid ` set bs \<and> d \<in> server_view e0 p) \<longrightarrow>
       has_task tops pops (fold (notify_block tops pops bplen now sizes) bs st) p d)"
  using st
proof (induction bs arbitrary: st)
  case (Cons b bs)
  let ?st = "notify_block tops pops bplen now sizes b st"
  note one = notify_block_ok[OF tl pl ok Cons.prems, of bplen now sizes b]
  note IH = Cons.IH[OF conjunct1[OF one]]
  show ?case
  proof (intro conjI allI impI)
    show "notified tops pops e0 (fold (notify_block tops pops bplen now sizes) (b # bs) st)" using IH by simp
  next
    fix p d assume "has_task tops pops st p d \<or>
      (listed (en_peer_ledger e0) p d \<and> d \<in> b_cid ` set (b # bs) \<and> d \<in> server_view e0 p)"
    then have "has_task tops pops ?st p d \<or>
      (listed (en_peer_ledger e0) p d \<and> d \<in> b_cid ` set bs \<and> d \<in> server_view e0 p)" using conjunct2[OF one] by auto
    then show "has_task tops pops (fold (notify_block tops pops bplen now sizes) (b # bs) st) p d"
      using conjunct2[OF IH] by (simp only: fold.simps comp_apply)
  qed
qed simp

text \<open>The wants that are forgotten at the end are in no ledger.\<close>

lemma forget_missing_keeps:
  assumes "\<And>l. map_of lm p = Some l \<Longrightarrow> c \<in> ledger_cids l" and "map_of lm p \<noteq> None" and "listed pl p c"
  shows "listed (fold (forget_missing lm) missing pl) p c"
  using assms(3)
proof (induction missing arbitrary: pl)
  case (Cons x missing)
  obtain q cs where x: "x = (q, cs)" by (cases x)
  have some: "listed (fold (\<lambda>c pl. if Ledger_wantlist_get l c \<noteq> None then pl else PeerLedger_cancel_want q c pl) cs pl) p c"
    if "map_of lm q = Some l" "listed pl p c" for l pl
    using that
  proof (induction cs arbitrary: pl)
    case (Cons d cs)
    have "\<not> (p = q \<and> c = d)" if "Ledger_wantlist_get l d = None"
      using assms(1) that Cons.prems(1) Ledger_get_cids[of l d] by auto
    then show ?case using Cons by (auto simp: listed_cancel)
  qed simp
  have none: "listed (fold (PeerLedger_cancel_want q) cs pl) p c" if "map_of lm q = None" "listed pl p c" for pl
    using that
  proof (induction cs arbitrary: pl)
    case (Cons d cs)
    have "p \<noteq> q" using Cons.prems(1) assms(2) by auto
    then show ?case using Cons by (simp add: listed_cancel)
  qed simp
  have "listed (forget_missing lm x pl) p c"
    using some[OF _ Cons.prems] none[OF _ Cons.prems] by (auto simp: forget_missing_def x split: option.split)
  then show ?case using Cons.IH by simp
qed simp

section \<open>The invariant\<close>

text \<open>An envelope carries blocks and HAVEs only for CIDs that its peer may ask for.\<close>

definition envelope_ok :: "('peer \<Rightarrow> 'cid \<Rightarrow> bool) \<Rightarrow> ('cid, 'peer) envelope \<Rightarrow> bool" where
  "envelope_ok A env \<longleftrightarrow>
     (\<forall>c. map_of (msg_blocks (ev_message env)) c \<noteq> None \<or> map_of (msg_block_presences (ev_message env)) c = Some Have
        \<longrightarrow> A (ev_peer env) c)"

definition engine_wf :: "('q, 'cid, task_data, 'peer) tq_ops \<Rightarrow> ('pq, 'cid, task_data, 'peer, 'q) pq_ops \<Rightarrow>
    ('peer \<Rightarrow> 'cid \<Rightarrow> bool) option \<Rightarrow> ('cid, 'peer, 'pq, 'f) engine \<Rightarrow> bool" where
  "engine_wf tops pops F e \<longleftrightarrow> en_peer_block_request_filter e = F \<and> hm_wf (en_ledger_map e) \<and> views_ok e \<and>
     (\<forall>p c. c \<in> server_view e p \<longrightarrow> listed (en_peer_ledger e) p c) \<and>
     ptq_ok tops pops (engine_allows e) (en_peer_task_queue e) \<and>
     (\<forall>env \<in> set (en_outbox e). envelope_ok (engine_allows e) env)"

lemma engine_wfD:
  assumes "engine_wf tops pops F e"
  shows "hm_wf (en_ledger_map e)" and "views_ok e"
    and "c \<in> server_view e p \<Longrightarrow> listed (en_peer_ledger e) p c"
    and "ptq_ok tops pops (engine_allows e) (en_peer_task_queue e)"
    and "env \<in> set (en_outbox e) \<Longrightarrow> envelope_ok (engine_allows e) env"
    and "en_peer_block_request_filter e = F"
  using assms by (auto simp: engine_wf_def)

text \<open>
  A step that changes the ledger of one peer: the new ledger has only listed and allowed wants, the index
  loses nothing that the other ledgers have.
\<close>

lemma engine_wf_step:
  assumes wf: "engine_wf tops pops F e"
    and map: "map_of (en_ledger_map e') = (map_of (en_ledger_map e))(peer := x)" "hm_wf (en_ledger_map e')"
    and filter: "en_peer_block_request_filter e' = en_peer_block_request_filter e"
    and new: "\<And>l. x = Some l \<Longrightarrow> wantlist_wf (ld_wantlist l)"
      "\<And>l c. x = Some l \<Longrightarrow> c \<in> ledger_cids l \<Longrightarrow> listed (en_peer_ledger e') peer c \<and> engine_allows e peer c"
    and index: "\<And>p c. p \<noteq> peer \<Longrightarrow> listed (en_peer_ledger e) p c \<Longrightarrow> listed (en_peer_ledger e') p c"
    and queue: "ptq_ok tops pops (engine_allows e) (en_peer_task_queue e')"
    and out: "\<And>env. env \<in> set (en_outbox e') \<Longrightarrow> envelope_ok (engine_allows e) env"
  shows "engine_wf tops pops F e'"
proof -
  have allows: "engine_allows e' = engine_allows e" by (intro ext) (simp add: engine_allows_def filter)
  have view: "server_view e' p =
      (if p = peer then (case x of None \<Rightarrow> {} | Some l \<Rightarrow> ledger_cids l) else server_view e p)" for p
    by (simp add: server_view_def map(1))
  note views = views_okD[OF engine_wfD(2)[OF wf]]
  have "views_ok e'"
    unfolding views_ok_def allows
  proof (intro conjI allI impI)
    fix p l assume "map_of (en_ledger_map e') p = Some l"
    then show "wantlist_wf (ld_wantlist l)"
      using new(1) views(1) by (cases "p = peer") (auto simp: map(1))
  next
    fix p c assume "c \<in> server_view e' p"
    then show "engine_allows e p c" using new(2) views(2) by (auto simp: view split: if_splits option.splits)
  qed
  moreover have "listed (en_peer_ledger e') p c" if "c \<in> server_view e' p" for p c
    using that new(2) index engine_wfD(3)[OF wf] by (auto simp: view split: if_splits option.splits)
  ultimately show ?thesis using map(2) queue out filter engine_wfD(6)[OF wf] by (simp add: engine_wf_def allows)
qed

text \<open>A step that leaves ledgers and filter alone.\<close>

lemma engine_wf_same:
  assumes wf: "engine_wf tops pops F e" and "en_ledger_map e' = en_ledger_map e"
    and "en_peer_block_request_filter e' = en_peer_block_request_filter e"
    and "\<And>p c. c \<in> server_view e p \<Longrightarrow> listed (en_peer_ledger e') p c"
    and "ptq_ok tops pops (engine_allows e) (en_peer_task_queue e')"
    and "\<And>env. env \<in> set (en_outbox e') \<Longrightarrow> envelope_ok (engine_allows e) env"
  shows "engine_wf tops pops F e'"
proof -
  have "engine_allows e' = engine_allows e" "server_view e' = server_view e"
    by (intro ext, simp add: engine_allows_def server_view_def assms(2,3))+
  then show ?thesis using engine_wfD(1,2,6)[OF wf] assms(2-6) by (simp add: engine_wf_def views_ok_def)
qed

lemma find_or_create_wf:
  assumes wf: "engine_wf tops pops F e" and foc: "find_or_create peer e = (e1, l)"
  shows "engine_wf tops pops F e1" and "ledger_cids l = server_view e peer" and "map_of (en_ledger_map e1) peer = Some l"
    and "wantlist_wf (ld_wantlist l)"
proof -
  note spec = find_or_create_spec[OF foc]
  show view: "ledger_cids l = server_view e peer" by (simp add: spec(2) server_view_def split: option.split)
  show lwf: "wantlist_wf (ld_wantlist l)"
    using spec(2) views_okD(1)[OF engine_wfD(2)[OF wf]] by (auto split: option.splits)
  have same: "en_peer_ledger e1 = en_peer_ledger e" "en_peer_block_request_filter e1 = en_peer_block_request_filter e"
      "en_peer_task_queue e1 = en_peer_task_queue e" "en_outbox e1 = en_outbox e"
    by (subst spec(4), simp)+
  show "engine_wf tops pops F e1"
    by (rule engine_wf_step[OF wf spec(1) spec(3)[OF engine_wfD(1)[OF wf]] same(2)])
      (use lwf view engine_wfD(3-5)[OF wf] views_okD(2)[OF engine_wfD(2)[OF wf]] in \<open>auto simp: same\<close>)
  show "map_of (en_ledger_map e1) peer = Some l" by (simp add: spec(1))
qed

section \<open>The operations keep the invariant\<close>

lemma Engine_new_wf:
  assumes "kpq_laws pcmp pops"
  shows "engine_wf tops pops (ec_peer_block_request_filter config) (Engine_new pops config)"
proof -
  have wf: "ptq_wf tops pops ServerTaskMerger (PeerTaskQueue_add_hook (PeerTaskQueue_new pops ServerTaskMerger c))" for c
    using ptq_wf_new_hooks[OF assms, of tops ServerTaskMerger 1 c] by simp
  have "kpq_get pops (tq_peer_queue (PeerTaskQueue_add_hook (PeerTaskQueue_new pops ServerTaskMerger c))) p = None" for c p
    using assms by (simp add: PeerTaskQueue_add_hook_def PeerTaskQueue_new_def kpq_get_new)
  then show ?thesis
    by (simp add: engine_wf_def Engine_new_def views_ok_def server_view_def ptq_ok_def wf)
qed

lemma cancel_entry_queue_ok:
  assumes tl: "kpq_laws QueueTask_cmp tops" and pl: "kpq_laws pcmp pops"
    and "fold (cancel_entry tops pops peer) ens (l, q) = (l', q')" and "ptq_ok tops pops A q"
  shows "ptq_ok tops pops A q'"
  using assms(3,4)
proof (induction ens arbitrary: l q)
  case (Cons en ens)
  obtain l1 q1 where one: "cancel_entry tops pops peer en (l, q) = (l1, q1)" by fastforce
  then have "q1 = q \<or> q1 = PeerTaskQueue_remove tops pops (me_cid en) peer q"
    by (auto simp: cancel_entry_def split: prod.splits if_splits option.splits)
  then have "ptq_ok tops pops A q1" using ptq_remove_ok[OF tl pl Cons.prems(2)] Cons.prems(2) by auto
  then show ?case using Cons.IH Cons.prems(1) one by simp
qed simp

lemma message_received_wf:
  assumes tl: "kpq_laws QueueTask_cmp tops" and pl: "kpq_laws pcmp pops"
    and wf: "engine_wf tops pops F e" and m: "message_wf m"
  shows "engine_wf tops pops F (message_received tops pops bplen sizes now peer m e)" (is "engine_wf _ _ _ ?e")
proof -
  note views = views_okD[OF engine_wfD(2)[OF wf]]
  obtain l q tks where p: "map_of (en_ledger_map ?e) = (map_of (en_ledger_map e))(peer \<mapsto> l)"
      "wantlist_wf (ld_wantlist l)"
      "ledger_cids l = ((if msg_full m then {} else server_view e peer) - msg_cancels m) \<union>
        {c \<in> msg_wants m. engine_allows e peer c}"
      "\<And>p c. listed (en_peer_ledger ?e) p c \<longleftrightarrow>
        (listed (en_peer_ledger e) p c \<or> (p = peer \<and> c \<in> msg_wants m \<and> engine_allows e peer c)) \<and>
        \<not> (p = peer \<and> c \<in> msg_cancels m)"
    and q: "\<exists>l0 l1. fold (cancel_entry tops pops peer) (filter (\<lambda>en. me_cancel en) (BitswapMessage_wantlist m))
        (l0, en_peer_task_queue e) = (l1, q)"
      "en_peer_task_queue ?e = (if tks = [] then q else PeerTaskQueue_push_tasks tops pops now peer tks q)"
      "\<And>tk. tk \<in> set tks \<Longrightarrow> td_have_block (tk_data tk) \<Longrightarrow> engine_allows e peer (tk_topic tk)"
    and r: "en_peer_block_request_filter ?e = en_peer_block_request_filter e" "en_outbox ?e = en_outbox e"
      "hm_wf (en_ledger_map e) \<Longrightarrow> hm_wf (en_ledger_map ?e)"
    by (rule message_received_parts[OF m views(1) refl]) (assumption, rule that)
  have disj: "msg_wants m \<inter> msg_cancels m = {}" by (auto simp: msg_wants_def msg_cancels_def)
  have qok: "ptq_ok tops pops (engine_allows e) q"
    using q(1) cancel_entry_queue_ok[OF tl pl _ engine_wfD(4)[OF wf]] by blast
  have "ptq_ok tops pops (engine_allows e) (PeerTaskQueue_push_tasks tops pops now peer tks q)"
    by (rule ptq_push_ok[OF tl pl qok]) (use q(3) in \<open>simp add: task_ok_def\<close>)
  then have queue: "ptq_ok tops pops (engine_allows e) (en_peer_task_queue ?e)" using qok q(2) by simp
  show ?thesis
  proof (rule engine_wf_step[OF wf p(1) r(3)[OF engine_wfD(1)[OF wf]] r(1)])
    fix l' c assume "Some l = Some l'" "c \<in> ledger_cids l'"
    then have c: "c \<in> (server_view e peer - msg_cancels m) \<union> {c \<in> msg_wants m. engine_allows e peer c}"
      using p(3) by (auto split: if_splits)
    then show "listed (en_peer_ledger ?e) peer c \<and> engine_allows e peer c"
      using disj engine_wfD(3)[OF wf, of c peer] views(2)[of c peer] by (auto simp: p(4))
  qed (use p(2,4) queue engine_wfD(5)[OF wf] in \<open>auto simp: r(2)\<close>)
qed

lemma remove_types_shrink:
  "wl_cids (fold (\<lambda>x w. if Q x then fst (Wantlist_remove_type (k x) t w) else w) xs w) \<subseteq> wl_cids w \<and>
   (wantlist_wf w \<longrightarrow> wantlist_wf (fold (\<lambda>x w. if Q x then fst (Wantlist_remove_type (k x) t w) else w) xs w))"
proof (induction xs arbitrary: w)
  case (Cons x xs)
  have "wl_cids (fst (Wantlist_remove_type (k x) t w)) \<subseteq> wl_cids w"
    by (simp only: subset_iff wl_cids_get Wantlist_get_remove_type) (auto split: if_splits option.splits)
  note order_trans[OF conjunct1[OF Cons[of "fst (Wantlist_remove_type (k x) t w)"]] this]
  then show ?case using conjunct2[OF Cons[of "fst (Wantlist_remove_type (k x) t w)"]] Cons[of w] by simp
qed simp

lemma shrink_ledger_wf:
  assumes wf: "engine_wf tops pops F e" and l: "map_of (en_ledger_map e) peer = Some l"
    and l': "ledger_cids l' \<subseteq> ledger_cids l" "wantlist_wf (ld_wantlist l')"
  shows "engine_wf tops pops F (e\<lparr>en_score_ledger := s, en_ledger_map := hm_insert peer l' (en_ledger_map e)\<rparr>)"
proof (rule engine_wf_step[OF wf, where peer = peer and x = "Some l'"])
  fix l'' c assume "Some l' = Some l''" "c \<in> ledger_cids l''"
  then have c: "c \<in> ledger_cids l'" by simp
  have "c \<in> server_view e peer" using subsetD[OF l'(1) c] l by (simp add: server_view_def)
  then show "listed (en_peer_ledger (e\<lparr>en_score_ledger := s, en_ledger_map := hm_insert peer l' (en_ledger_map e)\<rparr>)) peer c \<and>
      engine_allows e peer c"
    using engine_wfD(3)[OF wf] views_okD(2)[OF engine_wfD(2)[OF wf]] by simp
qed (use l'(2) engine_wfD[OF wf] in auto)

lemma message_sent_wf:
  assumes wf: "engine_wf tops pops F e"
  shows "engine_wf tops pops F (message_sent fl now peer m e)"
proof -
  obtain e1 l where foc: "find_or_create peer e = (e1, l)" by fastforce
  note f = find_or_create_wf[OF wf foc]
  define w1 where "w1 = fold (\<lambda>b w. fst (Wantlist_remove_type (b_cid b) WantBlock w)) (BitswapMessage_blocks m) (ld_wantlist l)"
  define w2 where "w2 = fold (\<lambda>bp w. if bp_typ bp = Have then fst (Wantlist_remove_type (bp_cid bp) WantHave w) else w)
    (BitswapMessage_block_presences m) w1"
  have 1: "wl_cids w1 \<subseteq> ledger_cids l" "wantlist_wf w1"
    using remove_types_shrink[of "\<lambda>_. True" b_cid WantBlock "BitswapMessage_blocks m" "ld_wantlist l"] f(4)
    by (simp_all add: w1_def)
  have 2: "wl_cids w2 \<subseteq> wl_cids w1" "wantlist_wf w2"
    using remove_types_shrink[of "\<lambda>bp. bp_typ bp = Have" bp_cid WantHave "BitswapMessage_block_presences m" w1] 1(2)
    by (simp_all add: w2_def)
  note w = order_trans[OF 2(1) 1(1)] 2(2)
  show ?thesis using shrink_ledger_wf[OF f(1,3), of "l\<lparr>ld_wantlist := w2\<rparr>"] w
    by (simp add: message_sent_def foc Let_def w1_def w2_def)
qed

lemma wantlist_for_peer_wf:
  assumes wf: "engine_wf tops pops F e"
  shows "engine_wf tops pops F (fst (wantlist_for_peer peer e))"
proof -
  obtain e1 l where foc: "find_or_create peer e = (e1, l)" by fastforce
  note f = find_or_create_wf[OF wf foc]
  let ?w = "fst (Wantlist_entries (ld_wantlist l))"
  have "e1\<lparr>en_ledger_map := m\<rparr> = e1\<lparr>en_score_ledger := en_score_ledger e1, en_ledger_map := m\<rparr>" for m by simp
  moreover have "wl_cids ?w \<subseteq> ledger_cids l" "wantlist_wf ?w" using Wantlist_entries_spec(4)[OF f(4)] by simp_all
  ultimately show ?thesis
    using shrink_ledger_wf[OF f(1,3), of "l\<lparr>ld_wantlist := ?w\<rparr>" "en_score_ledger e1"]
    by (simp add: wantlist_for_peer_def foc Ledger_entries_def case_prod_beta Let_def)
qed

lemma score_wf: "engine_wf tops pops F e \<Longrightarrow> engine_wf tops pops F (e\<lparr>en_score_ledger := s\<rparr>)"
  by (rule engine_wf_same) (auto simp: engine_wfD)

lemma received_blocks_wf: "engine_wf tops pops F e \<Longrightarrow> engine_wf tops pops F (received_blocks fl now sender blocks e)"
  using find_or_create_wf(1)[of tops pops F e sender] score_wf by (fastforce simp: received_blocks_def split: prod.split)

lemma engine_peer_connected_wf: "engine_wf tops pops F e \<Longrightarrow> engine_wf tops pops F (engine_peer_connected fl now peer e)"
  using find_or_create_wf(1)[of tops pops F e peer] score_wf by (fastforce simp: engine_peer_connected_def split: prod.split)

lemma engine_peer_disconnected_wf:
  assumes wf: "engine_wf tops pops F e"
  shows "engine_wf tops pops F (engine_peer_disconnected peer e)"
proof (cases "map_of (en_ledger_map e) peer")
  case None
  then show ?thesis using score_wf[OF wf] by (simp add: engine_peer_disconnected_def)
next
  case (Some l)
  let ?pl = "fold (\<lambda>want. PeerLedger_cancel_want peer (we_cid want)) (snd (Ledger_entries l)) (en_peer_ledger e)"
  have keep: "listed ?pl p c" if "p \<noteq> peer" "listed (en_peer_ledger e) p c" for p c
    using that listed_cancel_fold[of peer we_cid "snd (Ledger_entries l)" "en_peer_ledger e" p c] by simp
  have "engine_wf tops pops F (e\<lparr>en_ledger_map := hm_remove peer (en_ledger_map e), en_peer_ledger := ?pl\<rparr>)"
    by (rule engine_wf_step[OF wf, where peer = peer and x = None])
      (use keep engine_wfD[OF wf] in \<open>auto simp: map_of_hm_remove\<close>)
  from score_wf[OF this] show ?thesis using Some by (simp add: engine_peer_disconnected_def)
qed

lemma notify_new_blocks_wf:
  assumes tl: "kpq_laws QueueTask_cmp tops" and pl: "kpq_laws pcmp pops" and wf: "engine_wf tops pops F e"
  shows "engine_wf tops pops F (notify_new_blocks tops pops bplen now blocks e)" (is ?W)
    and "c \<in> b_cid ` set blocks \<Longrightarrow> c \<in> server_view e p \<Longrightarrow>
      ptq_has tops pops (en_peer_task_queue (notify_new_blocks tops pops bplen now blocks e)) p c" (is "_ \<Longrightarrow> _ \<Longrightarrow> ?H")
proof -
  define sizes where "sizes = fold (\<lambda>b. hm_insert (b_cid b) (length (b_data b))) blocks []"
  obtain e1 missing work where run: "fold (notify_block tops pops bplen now sizes) blocks (e, [], False) = (e1, missing, work)"
    by (cases "fold (notify_block tops pops bplen now sizes) blocks (e, [], False)" rule: prod_cases3) (rule that)
  define e2 where "e2 = e1\<lparr>en_peer_ledger := fold (forget_missing (en_ledger_map e1)) missing (en_peer_ledger e1)\<rparr>"
  have "notified tops pops e (e, [], False)" using engine_wfD(4)[OF wf] by (simp add: notified_def)
  note all = notify_blocks_ok[OF tl pl engine_wfD(2)[OF wf] this, of bplen now sizes blocks, unfolded run]
  have same: "en_ledger_map e1 = en_ledger_map e" "en_peer_ledger e1 = en_peer_ledger e"
      "en_peer_block_request_filter e1 = en_peer_block_request_filter e" "en_outbox e1 = en_outbox e"
      "ptq_ok tops pops (engine_allows e) (en_peer_task_queue e1)"
    using conjunct1[OF all] by (simp_all add: notified_def)
  have eq: "notify_new_blocks tops pops bplen now blocks e = (if work then signal_new_work e2 else e2)" if "blocks \<noteq> []"
    using that run by (simp add: notify_new_blocks_def sizes_def[symmetric] e2_def)
  have "listed (en_peer_ledger e2) q d" if "d \<in> server_view e q" for q d
    using forget_missing_keeps[of "en_ledger_map e" q d "en_peer_ledger e" missing] that engine_wfD(3)[OF wf that]
    by (simp add: e2_def same server_view_def split: option.splits)
  then have "engine_wf tops pops F e2" "engine_wf tops pops F (signal_new_work e2)"
    by (auto intro!: engine_wf_same[OF wf] simp: same e2_def signal_new_work_def engine_wfD[OF wf])
  then show ?W using eq wf by (cases "blocks = []") (simp_all add: notify_new_blocks_def)
  assume c: "c \<in> b_cid ` set blocks" "c \<in> server_view e p"
  then have "ptq_has tops pops (en_peer_task_queue e1) p c" using conjunct2[OF all] engine_wfD(3)[OF wf c(2)] by simp
  moreover have "blocks \<noteq> []" using c(1) by auto
  ultimately show ?H using eq by (simp add: e2_def signal_new_work_def)
qed

lemma hm_get_task:
  assumes "distinct (map tk_topic ts)" and "tk \<in> set ts"
  shows "map_of (task_map ts) (tk_topic tk) = Some tk"
  using assms by (auto intro!: map_of_is_SomeI simp: comp_def)

lemma build_message_ok:
  assumes "store_ok load" and "distinct (map tk_topic ts)" and "\<And>tk. tk \<in> set ts \<Longrightarrow> task_ok (A peer) tk"
  shows "envelope_ok A \<lparr>ev_peer = peer, ev_message = build_message load n ts, ev_sent_tasks = ts\<rparr>"
  unfolding envelope_ok_def
proof (intro allI impI)
  fix c
  let ?env = "\<lparr>ev_peer = peer, ev_message = build_message load n ts, ev_sent_tasks = ts\<rparr>"
  assume c: "map_of (msg_blocks (ev_message ?env)) c \<noteq> None \<or> map_of (msg_block_presences (ev_message ?env)) c = Some Have"
  then obtain tk where tk: "map_of (task_map ts) c = Some tk" "td_have_block (tk_data tk)"
    using build_message_spec[OF assms(1,2), of n c] by (auto simp: asks_block_def split: option.splits if_splits)
  then have "tk \<in> set ts" "tk_topic tk = c" by (auto dest!: map_of_SomeD)
  then show "A (ev_peer ?env) c" using assms(3)[of tk] tk(2) by (auto simp: task_ok_def)
qed

text \<open>A tick always returns; it keeps the outbox or adds one envelope with the tasks it popped.\<close>

lemma engine_tick_wf:
  assumes tl: "kpq_laws QueueTask_cmp tops" and pl: "kpq_laws pcmp pops" and wf: "engine_wf tops pops F e"
    and st: "store_ok load"
  obtains e' where "engine_tick tops pops load w e = Some e'" and "engine_wf tops pops F e'"
    and "en_outbox e' = en_outbox e \<or> (\<exists>peer n ts. distinct (map tk_topic ts) \<and> en_outbox e' =
      en_outbox e @ [\<lparr>ev_peer = peer, ev_message = build_message load n ts, ev_sent_tasks = ts\<rparr>])"
proof -
  obtain q res where pop: "PeerTaskQueue_pop_tasks tops pops w (en_peer_task_queue e) = Some (q, res)"
    and q: "ptq_ok tops pops (engine_allows e) q"
    and ok: "\<And>peer ts n tk. res = Some (peer, ts, n) \<Longrightarrow> tk \<in> set ts \<Longrightarrow> task_ok (engine_allows e peer) tk"
    and d: "\<And>peer ts n. res = Some (peer, ts, n) \<Longrightarrow> distinct (map tk_topic ts)"
    by (rule ptq_pop_ok[OF tl pl engine_wfD(4)[OF wf], of w]) (rule that)
  have queue: "engine_wf tops pops F (e\<lparr>en_peer_task_queue := q'\<rparr>)" if "ptq_ok tops pops (engine_allows e) q'" for q'
    by (rule engine_wf_same[OF wf]) (auto simp: that engine_wfD[OF wf])
  show thesis
  proof (cases "res = None \<or> (\<exists>peer n. res = Some (peer, [], n))")
    case True
    then show ?thesis using that[of "e\<lparr>en_peer_task_queue := q\<rparr>"] pop queue[OF q] by (auto simp: engine_tick_def)
  next
    case False
    then obtain peer ts n where res: "res = Some (peer, ts, n)" "ts \<noteq> []" by (cases res) auto
    define msg where "msg = build_message load n ts"
    have tick: "engine_tick tops pops load w e = (if BitswapMessage_is_empty msg
        then map_option (\<lambda>q'. e\<lparr>en_peer_task_queue := q'\<rparr>) (PeerTaskQueue_tasks_done pops peer ts q)
        else Some (e\<lparr>en_peer_task_queue := q, en_outbox := en_outbox e @
          [\<lparr>ev_peer = peer, ev_message = msg, ev_sent_tasks = ts\<rparr>]\<rparr>))"
      using pop res by (simp add: engine_tick_def msg_def Let_def)
    show ?thesis
    proof (cases "BitswapMessage_is_empty msg")
      case True
      obtain q' where "PeerTaskQueue_tasks_done pops peer ts q = Some q'" "ptq_ok tops pops (engine_allows e) q'"
        using ptq_done_ok[OF pl q, of peer ts] by blast
      then show ?thesis using that[of "e\<lparr>en_peer_task_queue := q'\<rparr>"] tick True queue by simp
    next
      case False
      let ?e = "e\<lparr>en_peer_task_queue := q, en_outbox := en_outbox e @
          [\<lparr>ev_peer = peer, ev_message = msg, ev_sent_tasks = ts\<rparr>]\<rparr>"
      have env: "envelope_ok (engine_allows e) \<lparr>ev_peer = peer, ev_message = msg, ev_sent_tasks = ts\<rparr>"
        unfolding msg_def using ok[OF res(1)] by (intro build_message_ok[OF st d[OF res(1)]])
      have "engine_wf tops pops F ?e" by (rule engine_wf_same[OF wf]) (auto simp: q env engine_wfD[OF wf])
      then show ?thesis using that[of ?e] tick False d[OF res(1)] by (auto simp: msg_def)
    qed
  qed
qed

lemma server_tick_wf:
  assumes pl: "kpq_laws pcmp pops" and wf: "engine_wf tops pops F e"
  obtains e' env where "server_tick pops fl now e = Some (e', env)" and "engine_wf tops pops F e'"
    and "\<And>x. env = Some x \<Longrightarrow> x \<in> set (en_outbox e)"
proof (cases "en_outbox e")
  case Nil
  then show ?thesis using that[of e None] wf by (simp add: server_tick_def)
next
  case (Cons x rest)
  let ?e0 = "e\<lparr>en_outbox := rest\<rparr>" let ?e1 = "message_sent fl now (ev_peer x) (ev_message x) ?e0"
  have "engine_wf tops pops F ?e0" by (rule engine_wf_same[OF wf]) (auto simp: engine_wfD[OF wf] Cons)
  note wf1 = message_sent_wf[OF this, of fl now "ev_peer x" "ev_message x"]
  obtain q where q: "PeerTaskQueue_tasks_done pops (ev_peer x) (ev_sent_tasks x) (en_peer_task_queue ?e1) = Some q"
    "ptq_ok tops pops (engine_allows ?e1) q" using ptq_done_ok[OF pl engine_wfD(4)[OF wf1]] by blast
  have "engine_wf tops pops F (?e1\<lparr>en_peer_task_queue := q, en_work_signal := True\<rparr>)"
    by (rule engine_wf_same[OF wf1]) (auto simp: q engine_wfD[OF wf1])
  then show ?thesis
    using that[of "?e1\<lparr>en_peer_task_queue := q, en_work_signal := True\<rparr>" "Some x"] q(1)
    by (simp add: server_tick_def Cons)
qed

section \<open>Reachable engines\<close>

inductive engine_reachable :: "('q, 'cid, task_data, 'peer) tq_ops \<Rightarrow> ('pq, 'cid, task_data, 'peer, 'q) pq_ops \<Rightarrow>
    'f score_ops \<Rightarrow> ('cid \<Rightarrow> nat) \<Rightarrow> ('cid, 'peer) engine_config \<Rightarrow> ('cid, 'peer, 'pq, 'f) engine \<Rightarrow> bool"
  for tops :: "('q, 'cid, task_data, 'peer) tq_ops" and pops :: "('pq, 'cid, task_data, 'peer, 'q) pq_ops"
    and fl :: "'f score_ops" and bplen :: "'cid \<Rightarrow> nat" and config :: "('cid, 'peer) engine_config" where
  er_new: "engine_reachable tops pops fl bplen config (Engine_new pops config)"
| er_received: "engine_reachable tops pops fl bplen config e \<Longrightarrow> message_wf m \<Longrightarrow>
    engine_reachable tops pops fl bplen config (message_received tops pops bplen sizes now peer m e)"
| er_sent: "engine_reachable tops pops fl bplen config e \<Longrightarrow>
    engine_reachable tops pops fl bplen config (message_sent fl now peer m e)"
| er_received_blocks: "engine_reachable tops pops fl bplen config e \<Longrightarrow>
    engine_reachable tops pops fl bplen config (received_blocks fl now peer blocks e)"
| er_notify: "engine_reachable tops pops fl bplen config e \<Longrightarrow>
    engine_reachable tops pops fl bplen config (notify_new_blocks tops pops bplen now blocks e)"
| er_connected: "engine_reachable tops pops fl bplen config e \<Longrightarrow>
    engine_reachable tops pops fl bplen config (engine_peer_connected fl now peer e)"
| er_disconnected: "engine_reachable tops pops fl bplen config e \<Longrightarrow>
    engine_reachable tops pops fl bplen config (engine_peer_disconnected peer e)"
| er_wantlist: "engine_reachable tops pops fl bplen config e \<Longrightarrow>
    engine_reachable tops pops fl bplen config (fst (wantlist_for_peer peer e))"
| er_score: "engine_reachable tops pops fl bplen config e \<Longrightarrow>
    engine_reachable tops pops fl bplen config
      (e\<lparr>en_score_ledger := fst (snd (score_tick fl now sw (en_score_ledger e)))\<rparr>)"
| er_tick: "engine_reachable tops pops fl bplen config e \<Longrightarrow> store_ok load \<Longrightarrow>
    engine_tick tops pops load w e = Some e' \<Longrightarrow> engine_reachable tops pops fl bplen config e'"
| er_server: "engine_reachable tops pops fl bplen config e \<Longrightarrow>
    server_tick pops fl now e = Some (e', env) \<Longrightarrow> engine_reachable tops pops fl bplen config e'"

lemma engine_reachable_wf:
  assumes tl: "kpq_laws QueueTask_cmp tops" and pl: "kpq_laws pcmp pops"
    and "engine_reachable tops pops fl bplen config e"
  shows "engine_wf tops pops (ec_peer_block_request_filter config) e"
  using assms(3)
proof induction
  case er_new
  show ?case by (rule Engine_new_wf[OF pl])
next
  case (er_tick e load w e')
  then show ?case using engine_tick_wf[OF tl pl er_tick.IH er_tick.hyps(2), of w] by (metis option.inject)
next
  case (er_server e now e' env)
  then show ?case using server_tick_wf[OF pl er_server.IH, of fl now] by (metis option.inject prod.inject)
qed (auto intro: message_received_wf[OF tl pl] message_sent_wf received_blocks_wf notify_new_blocks_wf(1)[OF tl pl]
    engine_peer_connected_wf engine_peer_disconnected_wf wantlist_for_peer_wf score_wf)

section \<open>Properties\<close>



text \<open>
  C9: The request filter is respected end to end. Whatever messages were received and whatever blocks
  arrived, an envelope that a server worker takes to the network carries a block or a HAVE only for a CID
  that the configured filter lets this peer ask for. A denied CID is answered with a DONT_HAVE at most.
\<close>

theorem Engine_filter_respected:
  assumes "kpq_laws QueueTask_cmp tops" and "kpq_laws pcmp pops"
    and "engine_reachable tops pops fl bplen config e"
    and "ec_peer_block_request_filter config = Some allows"
    and "server_tick pops fl now e = Some (e', Some env)"
    and "map_of (msg_blocks (ev_message env)) c \<noteq> None \<or> map_of (msg_block_presences (ev_message env)) c = Some Have"
  shows "allows (ev_peer env) c"
proof -
  note wf = engine_reachable_wf[OF assms(1-3)]
  have "env \<in> set (en_outbox e)"
    by (rule server_tick_wf[OF assms(2) wf, of fl now]) (use assms(5) in auto)
  then have "engine_allows e (ev_peer env) c" using engine_wfD(5)[OF wf] assms(6) by (auto simp: envelope_ok_def)
  then show ?thesis using engine_wfD(6)[OF wf] assms(4) by (simp add: engine_allows_def)
qed

text \<open>
  C10: An envelope answers exactly its tasks. When a tick of an engine worker adds an envelope, its tasks are
  for different CIDs, and the message has, for each of them: the block if the task asks for it and the
  store still has it (if it is gone, a DONT_HAVE when the peer asked for one, and nothing otherwise); a
  HAVE for a task that only tells that the block is here; a DONT_HAVE for a task without the block. It says
  nothing about any other CID.
\<close>

theorem Engine_envelope_exact:
  assumes "kpq_laws QueueTask_cmp tops" and "kpq_laws pcmp pops" and "store_ok load"
    and "engine_reachable tops pops fl bplen config e"
    and "engine_tick tops pops load w e = Some e'" and "en_outbox e' = en_outbox e @ [env]"
  shows "distinct (map tk_topic (ev_sent_tasks env)) \<and>
    (\<forall>tk \<in> set (ev_sent_tasks env).
       map_of (msg_blocks (ev_message env)) (tk_topic tk) = (if asks_block tk then load (tk_topic tk) else None) \<and>
       map_of (msg_block_presences (ev_message env)) (tk_topic tk) =
         (if asks_block tk
          then if load (tk_topic tk) = None \<and> td_send_dont_have (tk_data tk) then Some DontHave else None
          else Some (if td_have_block (tk_data tk) then Have else DontHave))) \<and>
    (\<forall>c. c \<notin> tk_topic ` set (ev_sent_tasks env) \<longrightarrow>
       map_of (msg_blocks (ev_message env)) c = None \<and> map_of (msg_block_presences (ev_message env)) c = None)"
proof -
  obtain peer n ts where d: "distinct (map tk_topic ts)"
    and env: "env = \<lparr>ev_peer = peer, ev_message = build_message load n ts, ev_sent_tasks = ts\<rparr>"
    by (rule engine_tick_wf[OF assms(1,2) engine_reachable_wf[OF assms(1,2,4)] assms(3), of w])
      (use assms(5,6) in auto)
  have "map_of (task_map ts) c = None" if "c \<notin> tk_topic ` set ts" for c
    using that by (auto simp: map_of_eq_None_iff)
  then show ?thesis
    using d by (simp add: env build_message_spec[OF assms(3) d] hm_get_task[OF d])
qed

subsection \<open>Witnesses\<close>

definition demo_score :: "nat score_ops" where
  "demo_score = \<lparr>sc_lit = (\<lambda>a b. a), sc_of_u64 = id, sc_add = (+), sc_sub = (-), sc_mul = (*), sc_div = (div), sc_to_usize = id\<rparr>"

definition demo_config :: "(nat, nat) engine_config" where
  "demo_config = \<lparr>ec_peer_block_request_filter = Some (\<lambda>p c. c \<noteq> 3), ec_send_dont_haves = True,
     ec_target_message_size = 16, ec_max_outstanding_bytes_per_peer = 32, ec_max_replace_size = 4\<rparr>"

definition demo_asks :: "nat bitswap_message" where
  "demo_asks = (BitswapMessage_new False)\<lparr>msg_wantlist := map (\<lambda>c. (c, \<lparr>me_cid = c, me_priority = 1,
     me_want_type = WantBlock, me_cancel = False, me_send_dont_have = True\<rparr>)) [9, 3]\<rparr>"

abbreviation demo_load :: "nat \<Rightarrow> nat block option" where
  "demo_load \<equiv> \<lambda>c. if c = 9 \<or> c = 3 then Some \<lparr>b_cid = c, b_data = [1, 2]\<rparr> else None"

definition demo_engine :: "(nat, nat, (nat, (nat, task_data, nat, (nat, (nat, task_data, nat) queue_task) hmap) peer_tracker) hmap, nat) engine" where
  "demo_engine = message_received demo_tops demo_pops (\<lambda>_. 4) (map_of [(9, 2), (3, 2)]) 5 7 demo_asks (Engine_new demo_pops demo_config)"

lemma demo_asks_wf: "message_wf demo_asks"
  by (auto simp: message_wf_def demo_asks_def BitswapMessage_new_def)

lemma demo_engine_reachable: "engine_reachable demo_tops demo_pops demo_score (\<lambda>_. 4) demo_config demo_engine"
  unfolding demo_engine_def by (intro er_received er_new demo_asks_wf)

lemma demo_store_ok: "store_ok demo_load"
  by (simp add: store_ok_def)

definition demo_ticked where
  "demo_ticked = the (engine_tick demo_tops demo_pops demo_load 16 demo_engine)"

lemma demo_ticked: "engine_tick demo_tops demo_pops demo_load 16 demo_engine = Some demo_ticked"
  by (rule engine_tick_wf[OF alist_kpq_laws alist_kpq_laws
        engine_reachable_wf[OF alist_kpq_laws alist_kpq_laws demo_engine_reachable] demo_store_ok, of 16])
    (simp add: demo_ticked_def)

lemma demo_ticked_reachable: "engine_reachable demo_tops demo_pops demo_score (\<lambda>_. 4) demo_config demo_ticked"
  by (rule er_tick[OF demo_engine_reachable demo_store_ok demo_ticked])



theorem Engine_filter_respected_witness:
  "\<exists>e' env. server_tick demo_pops demo_score 6 demo_ticked = Some (e', Some env) \<and>
     map_of (msg_blocks (ev_message env)) 9 \<noteq> None \<and> (\<lambda>p c. c \<noteq> (3 :: nat)) (ev_peer env) (9 :: nat)"
proof -
  have "(case server_tick demo_pops demo_score 6 demo_ticked of
      Some (e', Some env) \<Rightarrow> map_of (msg_blocks (ev_message env)) 9 \<noteq> None | _ \<Rightarrow> False)" by code_simp
  then obtain e' env where t: "server_tick demo_pops demo_score 6 demo_ticked = Some (e', Some env)"
    "map_of (msg_blocks (ev_message env)) 9 \<noteq> None" by (auto split: option.splits)
  have "ec_peer_block_request_filter demo_config = Some (\<lambda>p c. c \<noteq> 3)" by (simp add: demo_config_def)
  from Engine_filter_respected[OF alist_kpq_laws alist_kpq_laws demo_ticked_reachable this t(1)] t show ?thesis by blast
qed

theorem Engine_envelope_exact_witness:
  "\<exists>env. en_outbox demo_ticked = en_outbox demo_engine @ [env] \<and> distinct (map tk_topic (ev_sent_tasks env))"
proof -
  have 1: "length (en_outbox demo_ticked) = 1" by code_simp
  have 0: "length (en_outbox demo_engine) = 0" by code_simp
  from 1 0 obtain env where t: "en_outbox demo_ticked = en_outbox demo_engine @ [env]"
    by (cases "en_outbox demo_ticked") auto
  from Engine_envelope_exact[OF alist_kpq_laws alist_kpq_laws demo_store_ok demo_engine_reachable demo_ticked t] t
  show ?thesis by blast
qed

end
