(* ===== verification/Exchange.thy ===== *)
theory Exchange
  imports MessageQueueSync EngineReach
begin

text \<open>
  A client and a server together: every message that the client's queue for a peer puts on the network is
  received by the decision engine of that peer, in order, while the engine goes on working for everybody.
\<close>

section \<open>The messages of a queue\<close>

definition update_message :: "'cid bitswap_message \<Rightarrow> bool" where
  "update_message m \<longleftrightarrow> message_wf m \<and> \<not> msg_full m"

lemma update_message_simps [simp]:
  "update_message (BitswapMessage_new False)"
  "update_message m \<Longrightarrow> update_message (fst (add_full_entry ops elen c p cancel wt sdh m))"
  "update_message m \<Longrightarrow> update_message (BitswapMessage_remove c m)"
proof -
  show "update_message (BitswapMessage_new False)" by (simp add: update_message_def) (simp add: BitswapMessage_new_def)
  show "update_message m \<Longrightarrow> update_message (fst (add_full_entry ops elen c p cancel wt sdh m))"
    by (simp add: update_message_def) (simp add: add_full_entry_def Let_def split: option.split)
  show "update_message m \<Longrightarrow> update_message (BitswapMessage_remove c m)"
    by (simp add: update_message_def) (simp add: BitswapMessage_remove_def)
qed

lemma fold_update_message:
  "(\<And>x m. update_message m \<Longrightarrow> update_message (f x m)) \<Longrightarrow> update_message m \<Longrightarrow> update_message (fold f xs m)"
  by (induction xs arbitrary: m) auto

lemma add_until_full_update:
  assumes "add_until_full add limit xs msg sz n = (msg', r)"
    and "\<And>x m. update_message m \<Longrightarrow> update_message (fst (add x m))" and "update_message msg"
  shows "update_message msg'"
proof -
  obtain sz' n' full where "r = (sz', n', full)" by (cases r rule: prod_cases3) (rule that)
  then have "msg' = fold (\<lambda>x m. fst (add x m)) (take (n' - n) xs) msg"
    using add_until_full_spec(5) assms(1) by blast
  then show ?thesis using fold_update_message[of "\<lambda>x m. fst (add x m)"] assms(2,3) by simp
qed

lemma mark_sent_update:
  "fold mark_sent_step es (r, msg, kept) = (r', msg', kept') \<Longrightarrow> update_message msg \<Longrightarrow> update_message msg'"
proof (induction es arbitrary: r msg kept)
  case (Cons e es)
  obtain r1 msg1 kept1 where one: "mark_sent_step e (r, msg, kept) = (r1, msg1, kept1)"
    by (cases "mark_sent_step e (r, msg, kept)" rule: prod_cases3) (rule that)
  then have "update_message msg1"
    using Cons.prems(2) by (auto simp: mark_sent_step_def split: prod.splits if_splits)
  then show ?case using Cons.IH Cons.prems(1) one by simp
qed simp

lemma cancel_sent_update:
  "fold cancel_sent_step cs (cancels, msg) = (cancels', msg') \<Longrightarrow> update_message msg \<Longrightarrow> update_message msg'"
proof (induction cs arbitrary: cancels msg)
  case (Cons c cs)
  obtain cancels1 msg1 where one: "cancel_sent_step c (cancels, msg) = (cancels1, msg1)" by fastforce
  then have "update_message msg1" using Cons.prems(2) by (auto simp: cancel_sent_step_def split: if_splits)
  then show ?case using Cons.IH Cons.prems(1) one by simp
qed simp

lemma extract_wants_update:
  assumes "extract_wants ops elen limit h ws = (ws', msg, ps, bs)"
  shows "update_message msg"
proof -
  define pw where "pw = take_peer_entries h (ws_peer_wants ws)"
  define be where "be = Wantlist_entries (rw_pending (ws_bcst_wants ws))"
  define f1 where "f1 = add_until_full (BitswapMessage_cancel ops elen) limit (ws_cancels ws) (BitswapMessage_new False) 0 0"
  define f2 where "f2 = (if \<not> snd (snd (snd f1))
    then add_until_full (\<lambda>e. BitswapMessage_add_entry ops elen (we_cid e) (we_priority e) (we_want_type e) True)
      limit (snd pw) (fst f1) (fst (snd f1)) 0 else (fst f1, fst (snd f1), 0, snd (snd (snd f1))))"
  define f3 where "f3 = (if \<not> snd (snd (snd f2))
    then add_until_full (\<lambda>e. BitswapMessage_add_entry ops elen (we_cid e) (we_priority e) (if h then WantHave else WantBlock) False)
      limit (snd be) (fst f2) (fst (snd f2)) 0 else (fst f2, fst (snd f2), 0, snd (snd (snd f2))))"
  define g1 where "g1 = fold mark_sent_step (take (fst (snd (snd f2))) (snd pw)) (fst pw, fst f3, [])"
  define g2 where "g2 = fold mark_sent_step (take (fst (snd (snd f3))) (snd be))
    ((ws_bcst_wants ws)\<lparr>rw_pending := fst be\<rparr>, fst (snd g1), [])"
  define g3 where "g3 = fold cancel_sent_step (take (fst (snd (snd f1))) (ws_cancels ws)) (ws_cancels ws, fst (snd g2))"
  have "fst (snd (extract_wants ops elen limit h ws)) = snd g3"
    unfolding extract_wants_def Let_def case_prod_beta g3_def g2_def g1_def f3_def f2_def f1_def pw_def be_def
    by (simp only: fst_conv snd_conv)
  then have "msg = snd g3" using assms by simp
  have "update_message (fst f1)"
    using add_until_full_update[of "BitswapMessage_cancel ops elen" limit "ws_cancels ws" "BitswapMessage_new False" 0 0 "fst f1" "snd f1"]
    by (simp add: f1_def BitswapMessage_cancel_def)
  then have "update_message (fst f2)"
    by (auto simp: f2_def BitswapMessage_add_entry_def intro: add_until_full_update[OF prod.collapse[symmetric]])
  then have "update_message (fst f3)"
    by (auto simp: f3_def BitswapMessage_add_entry_def intro: add_until_full_update[OF prod.collapse[symmetric]])
  then have "update_message (fst (snd g1))"
    using mark_sent_update[of _ "fst pw" "fst f3" "[]" "fst g1" "fst (snd g1)" "snd (snd g1)"] by (simp add: g1_def)
  then have "update_message (fst (snd g2))"
    using mark_sent_update[of _ _ "fst (snd g1)" "[]" "fst g2" "fst (snd g2)" "snd (snd g2)"] by (simp add: g2_def)
  then have "update_message (snd g3)"
    using cancel_sent_update[of _ "ws_cancels ws" "fst (snd g2)" "fst g3" "snd g3"] by (simp add: g3_def)
  then show ?thesis using \<open>msg = snd g3\<close> by simp
qed

lemma send_message_update: "send_message ops elen env a = (a', Some m, False) \<Longrightarrow> update_message m"
  by (auto simp: send_message_def extract_outgoing_message_def Let_def
      split: option.splits prod.splits if_splits dest: extract_wants_update)

lemma run_event_update:
  assumes "run_event ops elen fl env ev st = (Running st', Some m)"
  shows "update_message m"
  using assms by (cases ev) (auto simp: after_send_Running rebroadcast_wantlist_def send_if_ready_def Let_def
      split: option.splits list.splits prod.splits if_splits dest: send_message_update)

section \<open>The ledger of the server follows the messages\<close>

lemma server_view_received:
  assumes "engine_wf tops pops F e" and "message_wf m"
  shows "server_view (message_received tops pops bplen sizes now peer m e) p =
    (if p = peer
     then ((if msg_full m then {} else server_view e peer) - msg_cancels m) \<union> {c \<in> msg_wants m. engine_allows e peer c}
     else server_view e p)"
proof (rule message_received_parts[OF assms(2) views_okD(1)[OF engine_wfD(2)[OF assms(1)]] refl,
      where peer = peer and tops = tops and pops = pops and bplen = bplen and sizes = sizes and now = now])
  fix l assume "map_of (en_ledger_map (message_received tops pops bplen sizes now peer m e)) =
      (map_of (en_ledger_map e))(peer \<mapsto> l)"
    and "ledger_cids l = ((if msg_full m then {} else server_view e peer) - msg_cancels m) \<union>
      {c \<in> msg_wants m. engine_allows e peer c}"
  then show ?thesis by (simp add: server_view_def)
qed

text \<open>Without a request filter, an update message does to the ledger what \<open>apply_message\<close> says.\<close>

lemma server_view_update:
  assumes "engine_wf tops pops None e" and "update_message m"
  shows "server_view (message_received tops pops bplen sizes now peer m e) peer = apply_message m (server_view e peer)"
  using assms engine_wfD(6)[OF assms(1)]
  by (simp add: server_view_received[OF assms(1)] update_message_def apply_message_sets engine_allows_def)

lemma server_view_tick:
  assumes "kpq_laws QueueTask_cmp tops" and "kpq_laws pcmp pops" and "engine_wf tops pops F e"
    and "engine_tick tops pops load w e = Some e'"
  shows "server_view e' = server_view e"
proof -
  have "en_ledger_map e' = en_ledger_map e"
    using assms(4) by (auto simp: engine_tick_def Let_def split: option.splits prod.splits if_splits)
  then show ?thesis by (intro ext) (simp add: server_view_def)
qed

lemma notify_ledgers:
  "en_ledger_map (fst (notify_peer tops pops bplen now sizes c p st)) = en_ledger_map (fst st)"
  "en_ledger_map (fst (notify_block tops pops bplen now sizes b st)) = en_ledger_map (fst st)"
  "en_ledger_map (fst (fold (notify_block tops pops bplen now sizes) bs st)) = en_ledger_map (fst st)"
proof -
  have one: "en_ledger_map (fst (notify_peer tops pops bplen now sizes c p st)) = en_ledger_map (fst st)" for c p st
    by (auto simp: notify_peer_def update_metrics_def Let_def split: prod.split option.split)
  have all: "en_ledger_map (fst (fold (notify_peer tops pops bplen now sizes c) ps st)) = en_ledger_map (fst st)" for c ps st
    by (induction ps arbitrary: st) (simp_all add: one)
  have block: "en_ledger_map (fst (notify_block tops pops bplen now sizes b st)) = en_ledger_map (fst st)" for b st
    by (cases st) (auto simp: notify_block_def all split: option.split)
  show "en_ledger_map (fst (notify_peer tops pops bplen now sizes c p st)) = en_ledger_map (fst st)" by (rule one)
  show "en_ledger_map (fst (notify_block tops pops bplen now sizes b st)) = en_ledger_map (fst st)" by (rule block)
  show "en_ledger_map (fst (fold (notify_block tops pops bplen now sizes) bs st)) = en_ledger_map (fst st)"
    by (induction bs arbitrary: st) (simp_all add: block)
qed

lemma server_view_notify: "server_view (notify_new_blocks tops pops bplen now blocks e) = server_view e"
proof -
  have "en_ledger_map (notify_new_blocks tops pops bplen now blocks e) = en_ledger_map e"
    using notify_ledgers(3)[of tops pops bplen now "fold (\<lambda>b. hm_insert (b_cid b) (length (b_data b))) blocks []" blocks "(e, [], False)"]
    by (auto simp: notify_new_blocks_def Let_def signal_new_work_def split: prod.splits)
  then show ?thesis by (intro ext) (simp add: server_view_def)
qed

section \<open>The exchange\<close>

text \<open>
  \<open>st\<close> is the event loop of the client's queue for this server, \<open>e\<close> the engine of the server, which knows
  the client as \<open>me\<close>. The network loses nothing that it reports as sent. The server meanwhile receives the
  messages of other peers, learns of new blocks, builds envelopes and connects or loses other peers; it has
  not yet answered the client.
\<close>

inductive exchange ::
    "('q, 'cid, task_data, 'peer) tq_ops \<Rightarrow> ('pq, 'cid, task_data, 'peer, 'q) pq_ops \<Rightarrow> 'f score_ops \<Rightarrow> ('cid \<Rightarrow> nat) \<Rightarrow>
      ('cid, 'peer) engine_config \<Rightarrow> ('cid, 'mh) cid_ops \<Rightarrow> (pb_entry \<Rightarrow> nat) \<Rightarrow> 'd dur_ops \<Rightarrow> bool \<Rightarrow> 'peer \<Rightarrow>
      ('cid, 'peer, 'd) mq_run \<Rightarrow> ('cid, 'peer, 'pq, 'f) engine \<Rightarrow> bool"
  for tops :: "('q, 'cid, task_data, 'peer) tq_ops" and pops :: "('pq, 'cid, task_data, 'peer, 'q) pq_ops"
    and sc :: "'f score_ops" and bplen :: "'cid \<Rightarrow> nat" and config :: "('cid, 'peer) engine_config"
    and ops :: "('cid, 'mh) cid_ops" and elen :: "pb_entry \<Rightarrow> nat" and fl :: "'d dur_ops" and strict :: bool and me :: 'peer where
  ex_start: "engine_reachable tops pops sc bplen config e \<Longrightarrow> server_view e me = {} \<Longrightarrow>
    exchange tops pops sc bplen config ops elen fl strict me (run_start (MessageQueueActor_new fl cfg peer)) e"
| ex_silent: "exchange tops pops sc bplen config ops elen fl strict me st e \<Longrightarrow>
    run_event ops elen fl env ev st = (Running st', None) \<Longrightarrow>
    (strict \<longrightarrow> event_wants ev \<inter> set (ws_cancels (mq_wants (mr_actor st))) = {}) \<Longrightarrow>
    exchange tops pops sc bplen config ops elen fl strict me st' e"
| ex_deliver: "exchange tops pops sc bplen config ops elen fl strict me st e \<Longrightarrow>
    run_event ops elen fl env ev st = (Running st', Some m) \<Longrightarrow>
    (strict \<longrightarrow> event_wants ev \<inter> set (ws_cancels (mq_wants (mr_actor st))) = {}) \<Longrightarrow>
    exchange tops pops sc bplen config ops elen fl strict me st' (message_received tops pops bplen sizes now me m e)"
| ex_other: "exchange tops pops sc bplen config ops elen fl strict me st e \<Longrightarrow> p \<noteq> me \<Longrightarrow> message_wf m \<Longrightarrow>
    exchange tops pops sc bplen config ops elen fl strict me st (message_received tops pops bplen sizes now p m e)"
| ex_blocks: "exchange tops pops sc bplen config ops elen fl strict me st e \<Longrightarrow>
    exchange tops pops sc bplen config ops elen fl strict me st (notify_new_blocks tops pops bplen now blocks e)"
| ex_tick: "exchange tops pops sc bplen config ops elen fl strict me st e \<Longrightarrow> store_ok load \<Longrightarrow>
    engine_tick tops pops load w e = Some e' \<Longrightarrow> exchange tops pops sc bplen config ops elen fl strict me st e'"
| ex_lost: "exchange tops pops sc bplen config ops elen fl strict me st e \<Longrightarrow> p \<noteq> me \<Longrightarrow>
    exchange tops pops sc bplen config ops elen fl strict me st (engine_peer_disconnected p e)"

lemma exchange_engine:
  "exchange tops pops sc bplen config ops elen fl strict me st e \<Longrightarrow> engine_reachable tops pops sc bplen config e"
proof (induction rule: exchange.induct)
  case (ex_deliver st e env ev st' m sizes now)
  then show ?case using run_event_update[OF ex_deliver.hyps(2)] by (auto simp: update_message_def intro: er_received)
qed (auto intro: er_received er_notify er_tick er_disconnected)

lemma exchange_simulates:
  assumes tl: "kpq_laws QueueTask_cmp tops" and pl: "kpq_laws pcmp pops" and filt: "ec_peer_block_request_filter config = None"
  shows "exchange tops pops sc bplen config ops elen fl strict me st e \<Longrightarrow> mq_reachable ops elen fl strict st (server_view e me)"
proof (induction rule: exchange.induct)
  case (ex_start e cfg peer)
  then show ?case by (simp add: mq_started)
next
  case (ex_silent st e env ev st')
  then show ?case using mq_event[of ops elen fl strict st _ env ev st' None] by (simp add: apply_sent_def)
next
  case (ex_deliver st e env ev st' m sizes now)
  note wf = engine_reachable_wf[OF tl pl exchange_engine[OF ex_deliver.hyps(1)], unfolded filt]
  from server_view_update[OF wf run_event_update[OF ex_deliver.hyps(2)], of bplen sizes now me]
    mq_event[OF ex_deliver.IH ex_deliver.hyps(2,3)]
  show ?case by (simp add: apply_sent_def)
next
  case (ex_other st e p m sizes now)
  then show ?case using server_view_received[OF engine_reachable_wf[OF tl pl exchange_engine[OF ex_other.hyps(1)]]] by simp
next
  case (ex_blocks st e now blocks)
  then show ?case by (simp add: server_view_notify)
next
  case (ex_tick st e load w e')
  then show ?case using server_view_tick[OF tl pl engine_reachable_wf[OF tl pl exchange_engine[OF ex_tick.hyps(1)]]] by metis
next
  case (ex_lost st e p)
  then have "server_view (engine_peer_disconnected p e) me = server_view e me"
    by (simp add: server_view_def engine_peer_disconnected_def map_of_hm_remove split: option.split)
  then show ?case using ex_lost by simp
qed

end
