(* ===== verification/Chunker.thy ===== *)
theory Chunker
  imports Prelude
begin

text \<open>
  Chunkers of \<open>iroh-unixfs\<close>: their configuration (\<open>chunker.rs\<close>) and the chunker with a fixed chunk size
  (\<open>chunker/fixed.rs\<close>). A source is the list of results of its reads; when the list is exhausted, the
  source is at its end and every read returns no bytes. An item of the stream of chunks is a chunk or an
  error of the source.
\<close>

section \<open>Configuration\<close>

definition DEFAULT_CHUNK_SIZE_LIMIT :: nat where
  "DEFAULT_CHUNK_SIZE_LIMIT = 1024 * 1024"

definition DEFAULT_CHUNKS_SIZE :: nat where
  "DEFAULT_CHUNKS_SIZE = 1024 * 256"

datatype chunker_config = Fixed nat | Rabin

datatype parse_error = InvalidChunkSize | ChunkSizeTooLarge | UnknownChunker

fun show_digits :: "nat \<Rightarrow> string" where
  "show_digits n = (if n < 10 then [char_of (48 + n)] else show_digits (n div 10) @ [char_of (48 + n mod 10)])"

declare show_digits.simps [simp del]

definition ChunkerConfig_fmt :: "chunker_config \<Rightarrow> string" where
  "ChunkerConfig_fmt c = (case c of Fixed n \<Rightarrow> ''fixed-'' @ show_digits n | Rabin \<Rightarrow> ''rabin'')"

text \<open>
  \<open>usize::from_str\<close>: an optional plus sign and at least one decimal digit, and no overflow of the 64 bits.
\<close>

definition digit_value :: "char \<Rightarrow> nat option" where
  "digit_value c = (let n = of_char c in if 48 \<le> n \<and> n \<le> 57 then Some (n - 48) else None)"

fun parse_digits :: "nat \<Rightarrow> string \<Rightarrow> nat option" where
  "parse_digits acc [] = Some acc"
| "parse_digits acc (c # cs) =
     (case digit_value c of
        None \<Rightarrow> None
      | Some d \<Rightarrow> if acc * 10 + d < 2 ^ 64 then parse_digits (acc * 10 + d) cs else None)"

definition parse_usize :: "string \<Rightarrow> nat option" where
  "parse_usize s =
     (let digits = (case s of c # cs \<Rightarrow> if c = CHR ''+'' then cs else s | [] \<Rightarrow> [])
      in if digits = [] then None else parse_digits 0 digits)"

fun strip_prefix :: "string \<Rightarrow> string \<Rightarrow> string option" where
  "strip_prefix [] s = Some s"
| "strip_prefix (p # ps) [] = None"
| "strip_prefix (p # ps) (c # cs) = (if p = c then strip_prefix ps cs else None)"

definition ChunkerConfig_from_str :: "string \<Rightarrow> parse_error + chunker_config" where
  "ChunkerConfig_from_str s =
     (if s = ''rabin'' then Inr Rabin
      else case strip_prefix ''fixed'' s of
             None \<Rightarrow> Inl UnknownChunker
           | Some rest \<Rightarrow>
               if rest = [] then Inr (Fixed DEFAULT_CHUNKS_SIZE)
               else case strip_prefix ''-'' rest of
                      None \<Rightarrow> Inl UnknownChunker
                    | Some rest \<Rightarrow>
                        (case parse_usize rest of
                           None \<Rightarrow> Inl InvalidChunkSize
                         | Some n \<Rightarrow> if n > DEFAULT_CHUNK_SIZE_LIMIT then Inl ChunkSizeTooLarge else Inr (Fixed n)))"

section \<open>Fixed size chunks\<close>

datatype 'e read_result = Data bytes | Fail 'e

text \<open>\<open>Fixed::new\<close> panics on the chunk size 0.\<close>

definition Fixed_new :: "nat \<Rightarrow> nat option" where
  "Fixed_new chunk_size = (if chunk_size > 0 then Some chunk_size else None)"

text \<open>
  The loop of \<open>Fixed::chunks\<close>. \<open>buffer\<close> has the \<open>current_len\<close> bytes that are not yet emitted. The
  equations for the exhausted source are those for a read of no bytes.
\<close>

function fixed_loop :: "nat \<Rightarrow> bytes \<Rightarrow> 'e read_result list \<Rightarrow> ('e + bytes) list" where
  "fixed_loop chunk_size buffer [] =
     (if length buffer = chunk_size then (if buffer = [] then [] else [Inr buffer])
      else if length buffer > chunk_size \<and> chunk_size > 0
           then Inr (take chunk_size buffer) # fixed_loop chunk_size (drop chunk_size buffer) []
           else if length buffer > 0 then [Inr buffer] else [])"
| "fixed_loop chunk_size buffer (Fail err # reads) = Inl err # fixed_loop chunk_size buffer reads"
| "fixed_loop chunk_size buffer (Data d # reads) =
     (let buffer = buffer @ d; current_len = length buffer
      in if current_len = chunk_size then Inr buffer # fixed_loop chunk_size [] reads
         else if current_len < chunk_size \<and> length d > 0 then fixed_loop chunk_size buffer reads
         else if current_len > chunk_size
              then Inr (take chunk_size buffer) # fixed_loop chunk_size (drop chunk_size buffer) reads
         else if current_len > 0 then [Inr buffer] else [])"
  by pat_completeness auto

termination
  by (relation "measures [\<lambda>(n, buffer, reads). length reads, \<lambda>(n, buffer, reads). length buffer]") auto

definition Fixed_chunks :: "nat \<Rightarrow> 'e read_result list \<Rightarrow> ('e + bytes) list" where
  "Fixed_chunks chunk_size reads = fixed_loop chunk_size [] reads"

section \<open>Parsing and printing of the configuration\<close>

lemma digit_value_char: "d < 10 \<Longrightarrow> digit_value (char_of (48 + d :: nat)) = Some d"
  by (simp add: digit_value_def Let_def)

lemma show_digits_ne: "show_digits n \<noteq> []"
  by (subst show_digits.simps) simp

lemma char_of_not_plus: "d < 10 \<Longrightarrow> char_of (48 + d :: nat) \<noteq> CHR ''+''"
proof
  assume "d < 10" and "char_of (48 + d :: nat) = CHR ''+''"
  then have "(of_char (char_of (48 + d :: nat)) :: nat) = of_char CHR ''+''" by simp
  then show False using \<open>d < 10\<close> by simp
qed

lemma show_digits_hd: "hd (show_digits n) \<noteq> CHR ''+''"
proof (induction n rule: show_digits.induct)
  case (1 n)
  then show ?case
    by (subst show_digits.simps) (auto simp: hd_append show_digits_ne char_of_not_plus)
qed

lemma parse_digits_append:
  "parse_digits acc (xs @ ys) = (case parse_digits acc xs of None \<Rightarrow> None | Some acc' \<Rightarrow> parse_digits acc' ys)"
  by (induction xs arbitrary: acc) (auto split: option.splits)

lemma parse_show_digits: "n < 2 ^ 64 \<Longrightarrow> parse_digits 0 (show_digits n) = Some n"
proof (induction n rule: show_digits.induct)
  case (1 n)
  show ?case
  proof (cases "n < 10")
    case True
    then show ?thesis using 1(2) by (subst show_digits.simps) (simp add: digit_value_char)
  next
    case False
    then have "parse_digits 0 (show_digits (n div 10)) = Some (n div 10)"
      using 1 by (intro 1(1)) auto
    moreover have "digit_value (char_of (48 + n mod 10)) = Some (n mod 10)" by (rule digit_value_char) simp
    ultimately show ?thesis using False 1(2)
      by (subst show_digits.simps) (simp add: parse_digits_append)
  qed
qed

lemma parse_usize_show: "n < 2 ^ 64 \<Longrightarrow> parse_usize (show_digits n) = Some n"
  using parse_show_digits[of n] show_digits_ne[of n] show_digits_hd[of n]
  by (cases "show_digits n") (auto simp: parse_usize_def Let_def)

lemma strip_prefix_append: "strip_prefix p (p @ s) = Some s"
  by (induction p) auto

section \<open>Cutting a byte string\<close>

text \<open>The reference: cut after every \<open>n\<close> bytes.\<close>

fun chunk_list :: "nat \<Rightarrow> 'a list \<Rightarrow> 'a list list" where
  "chunk_list n xs = (if xs = [] \<or> n = 0 then [] else take n xs # chunk_list n (drop n xs))"

declare chunk_list.simps [simp del]

lemma chunk_list_concat: "n > 0 \<Longrightarrow> concat (chunk_list n xs) = xs"
  by (induction n xs rule: chunk_list.induct) (subst chunk_list.simps, auto)

lemma chunk_list_short: "xs \<noteq> [] \<Longrightarrow> 0 < n \<Longrightarrow> length xs \<le> n \<Longrightarrow> chunk_list n xs = [xs]"
  by (subst chunk_list.simps) (simp add: chunk_list.simps[of n "[]"])

lemma chunk_list_cut: "0 < n \<Longrightarrow> n \<le> length xs \<Longrightarrow> chunk_list n (xs @ ys) = take n xs # chunk_list n (drop n xs @ ys)"
  by (subst chunk_list.simps) auto

definition data_of :: "'e read_result list \<Rightarrow> bytes" where
  "data_of reads = concat (map (\<lambda>r. case r of Data d \<Rightarrow> d | Fail _ \<Rightarrow> []) reads)"

definition errors_of :: "'e read_result list \<Rightarrow> 'e list" where
  "errors_of reads = concat (map (\<lambda>r. case r of Data d \<Rightarrow> [] | Fail e \<Rightarrow> [e]) reads)"

definition chunks_out :: "('e + bytes) list \<Rightarrow> bytes list" where
  "chunks_out out = concat (map (\<lambda>x. case x of Inr b \<Rightarrow> [b] | Inl _ \<Rightarrow> []) out)"

definition errors_out :: "('e + bytes) list \<Rightarrow> 'e list" where
  "errors_out out = concat (map (\<lambda>x. case x of Inr b \<Rightarrow> [] | Inl e \<Rightarrow> [e]) out)"

lemmas stream_simps [simp] = data_of_def errors_of_def chunks_out_def errors_out_def

lemma fixed_loop_end: "0 < n \<Longrightarrow> fixed_loop n buffer [] = map Inr (chunk_list n buffer)"
proof (induction "length buffer" arbitrary: buffer rule: less_induct)
  case less
  show ?case
  proof (cases "n < length buffer")
    case True
    then show ?thesis using less(1)[of "drop n buffer"] less(2) chunk_list_cut[of n buffer "[]"] by simp
  next
    case False
    then show ?thesis using less(2) chunk_list_short[of buffer n] by (auto simp: chunk_list.simps[of n "[]"])
  qed
qed

lemma fixed_loop_spec:
  assumes "0 < n" and "Data [] \<notin> set reads"
  shows "chunks_out (fixed_loop n buffer reads) = chunk_list n (buffer @ data_of reads) \<and>
    errors_out (fixed_loop n buffer reads) = errors_of reads"
  using assms(2)
proof (induction reads arbitrary: buffer)
  case Nil
  show ?case using assms(1) by (simp add: fixed_loop_end comp_def del: fixed_loop.simps)
next
  case (Cons r reads)
  show ?case
  proof (cases r)
    case (Data d)
    then have d: "length d > 0" using Cons.prems by auto
    consider "length (buffer @ d) < n" | "n \<le> length (buffer @ d)" by linarith
    then show ?thesis
    proof cases
      case 1
      then show ?thesis using Cons.IH[of "buffer @ d"] Cons.prems d Data by (simp add: Let_def)
    next
      case 2
      then have "fixed_loop n buffer (r # reads) = Inr (take n (buffer @ d)) # fixed_loop n (drop n (buffer @ d)) reads"
        using assms(1) Data by (auto simp: Let_def)
      moreover have "chunk_list n ((buffer @ d) @ data_of reads) =
          take n (buffer @ d) # chunk_list n (drop n (buffer @ d) @ data_of reads)"
        by (rule chunk_list_cut[OF assms(1) 2])
      ultimately show ?thesis using Cons.IH[of "drop n (buffer @ d)"] Cons.prems Data by (simp del: fixed_loop.simps)
    qed
  next
    case (Fail e)
    then show ?thesis using Cons by simp
  qed
qed

lemma ChunkerConfig_roundtrip:
  assumes "case c of Fixed n \<Rightarrow> n \<le> DEFAULT_CHUNK_SIZE_LIMIT | Rabin \<Rightarrow> True"
  shows "ChunkerConfig_from_str (ChunkerConfig_fmt c) = Inr c"
proof (cases c)
  case (Fixed n)
  then have "n \<le> DEFAULT_CHUNK_SIZE_LIMIT" "n < 2 ^ 64" using assms by (simp_all add: DEFAULT_CHUNK_SIZE_LIMIT_def)
  then show ?thesis using Fixed by (simp add: ChunkerConfig_fmt_def ChunkerConfig_from_str_def parse_usize_show)
qed (simp add: ChunkerConfig_fmt_def ChunkerConfig_from_str_def)

text \<open>
  The parser accepts the chunk size 0, for which no chunker can be made: creating the chunker of that
  configuration fails its assertion.
\<close>

lemma ChunkerConfig_zero_panics:
  "ChunkerConfig_from_str ''fixed-0'' = Inr (Fixed 0) \<and> Fixed_new 0 = None"
  by (simp add: ChunkerConfig_from_str_def parse_usize_def digit_value_def Fixed_new_def DEFAULT_CHUNK_SIZE_LIMIT_def)

section \<open>Properties\<close>

text \<open>
  C30: The chunker with a fixed size is equivalent to cutting the whole content after every \<open>n\<close> bytes, however
  the source fragments it: the chunks depend only on the bytes read, no byte is lost at an error of the
  source, and every error is passed on, in order.
\<close>

theorem Fixed_chunks_equivalent:
  assumes "Fixed_new k = Some n" and "Data [] \<notin> set reads"
  shows "chunks_out (Fixed_chunks n reads) = chunk_list n (data_of reads) \<and>
    errors_out (Fixed_chunks n reads) = errors_of reads"
  using fixed_loop_spec[OF _ assms(2), of n "[]"] assms(1)
  by (simp add: Fixed_chunks_def Fixed_new_def split: if_splits)

theorem Fixed_chunks_equivalent_witness:
  "chunks_out (Fixed_chunks 2 [Data [1], Data [2, 3], Fail (), Data [4, 5]]) = [[1, 2], [3, 4], [5]]"
  using Fixed_chunks_equivalent[of 2 2 "[Data [1], Data [2, 3], Fail (), Data [4, 5]]"]
  by (simp add: Fixed_new_def chunk_list.simps)

end
