(* ===== verification/Bitfield.thy ===== *)
theory Bitfield
  imports Prelude
begin

text \<open>
  The bit field of a HAMT shard (\<open>iroh-unixfs/src/hamt/bitfield.rs\<close>): 256 bits in four 64-bit words, the
  lowest bits first, and its big-endian byte form. \<open>None\<close> is a panic by an index out of bounds.
\<close>

unbundle bit_operations_syntax

section \<open>Bytes of a word\<close>

text \<open>\<open>u64::to_be_bytes\<close>, \<open>u64::from_be_bytes\<close> and \<open>u64::count_ones\<close>.\<close>

definition to_be_bytes :: "64 word \<Rightarrow> bytes" where
  "to_be_bytes w = map (\<lambda>i. ucast (drop_bit (8 * (7 - i)) w)) [0..<8]"

definition from_be_bytes :: "bytes \<Rightarrow> 64 word" where
  "from_be_bytes bs = fold (\<lambda>b acc. push_bit 8 acc OR ucast b) bs 0"

definition word_count_ones :: "64 word \<Rightarrow> nat" where
  "word_count_ones w = length (filter (bit w) [0..<64])"

section \<open>The bit field\<close>

type_synonym bitfield = "64 word list"

definition Bitfield_zero :: bitfield where
  "Bitfield_zero = [0, 0, 0, 0]"

definition as_bytes :: "bitfield \<Rightarrow> bytes" where
  "as_bytes b = to_be_bytes (b ! 3) @ to_be_bytes (b ! 2) @ to_be_bytes (b ! 1) @ to_be_bytes (b ! 0)"

definition from_bytes :: "bytes \<Rightarrow> bitfield" where
  "from_bytes arr = [from_be_bytes (drop 24 arr), from_be_bytes (take 8 (drop 16 arr)),
     from_be_bytes (take 8 (drop 8 arr)), from_be_bytes (take 8 arr)]"

text \<open>\<open>None\<close> here is the error \<open>bitfield too large\<close>.\<close>

definition from_slice :: "bytes \<Rightarrow> bitfield option" where
  "from_slice bs = (if length bs \<le> 32 then Some (from_bytes (replicate (32 - length bs) 0 @ bs)) else None)"

definition clear_bit :: "nat \<Rightarrow> bitfield \<Rightarrow> bitfield option" where
  "clear_bit idx b =
     (let ai = idx div 64; bi = idx mod 64
      in map_option (\<lambda>w. b[ai := w AND (- 1 - push_bit bi 1)]) (arr_at b ai))"

definition test_bit :: "bitfield \<Rightarrow> nat \<Rightarrow> bool option" where
  "test_bit b idx =
     (let ai = idx div 64; bi = idx mod 64
      in map_option (\<lambda>w. w AND push_bit bi 1 \<noteq> 0) (arr_at b ai))"

definition set_bit :: "nat \<Rightarrow> bitfield \<Rightarrow> bitfield option" where
  "set_bit idx b =
     (let ai = idx div 64; bi = idx mod 64
      in map_option (\<lambda>w. b[ai := w OR push_bit bi 1]) (arr_at b ai))"

definition count_ones :: "bitfield \<Rightarrow> nat" where
  "count_ones b = sum_list (map word_count_ones b)"

definition Bitfield_and :: "bitfield \<Rightarrow> bitfield \<Rightarrow> bitfield" where
  "Bitfield_and b c = [b ! 0 AND c ! 0, b ! 1 AND c ! 1, b ! 2 AND c ! 2, b ! 3 AND c ! 3]"

text \<open>The function \<open>set_bits_leq\<close> on a word goes through 128 bits, so that bit 63 does not overflow.\<close>

definition word_set_bits_leq :: "64 word \<Rightarrow> nat \<Rightarrow> 64 word" where
  "word_set_bits_leq v n = ucast ((ucast v :: 128 word) OR (push_bit (1 + n) 1 - 1))"

definition set_bits_leq :: "nat \<Rightarrow> bitfield \<Rightarrow> bitfield" where
  "set_bits_leq n b =
     (if n < 64 then b[0 := word_set_bits_leq (b ! 0) n]
      else if n < 128 then b[0 := - 1, 1 := word_set_bits_leq (b ! 1) (n - 64)]
      else if n < 192 then b[0 := - 1, 1 := - 1, 2 := word_set_bits_leq (b ! 2) (n - 128)]
      else b[0 := - 1, 1 := - 1, 2 := - 1, 3 := word_set_bits_leq (b ! 3) (n - 192)])"

definition set_bits_le :: "nat \<Rightarrow> bitfield \<Rightarrow> bitfield" where
  "set_bits_le n b = (if n = 0 then b else set_bits_leq (n - 1) b)"

section \<open>The set of bits\<close>

definition bits_of :: "bitfield \<Rightarrow> nat set" where
  "bits_of b = {i. i < 256 \<and> bit (b ! (i div 64)) (i mod 64)}"

lemma bits_of_zero [simp]: "bits_of Bitfield_zero = {}"
proof -
  have "Bitfield_zero ! k = 0" if "k < 4" for k
    using that by (auto simp: Bitfield_zero_def less_Suc_eq numeral_nat)
  then show ?thesis by (auto simp: bits_of_def)
qed

lemma length_zero [simp]: "length Bitfield_zero = 4"
  by (simp add: Bitfield_zero_def)

lemma test_bit_iff: "length b = 4 \<Longrightarrow> i < 256 \<Longrightarrow> test_bit b i = Some (i \<in> bits_of b)"
  using and_exp_eq_0_iff_not_bit[of "b ! (i div 64)" "i mod 64"]
  by (auto simp: test_bit_def arr_at_def bits_of_def Let_def push_bit_of_1)

lemma set_bit_bits:
  assumes "length b = 4" and "i < 256"
  shows "\<exists>b'. set_bit i b = Some b' \<and> length b' = 4 \<and> bits_of b' = insert i (bits_of b)"
proof -
  let ?b = "b[i div 64 := b ! (i div 64) OR push_bit (i mod 64) 1]"
  have "bits_of ?b = insert i (bits_of b)"
  proof (rule set_eqI)
    fix j
    show "j \<in> bits_of ?b \<longleftrightarrow> j \<in> insert i (bits_of b)"
    proof (cases "j < 256 \<and> j div 64 = i div 64")
      case True
      then have "j \<in> bits_of ?b \<longleftrightarrow> bit (b ! (j div 64)) (j mod 64) \<or> j mod 64 = i mod 64"
        using assms by (auto simp: bits_of_def bit_or_iff bit_exp_iff)
      moreover have "j mod 64 = i mod 64 \<longleftrightarrow> j = i" using True by (metis div_mult_mod_eq)
      ultimately show ?thesis using True assms by (auto simp: bits_of_def)
    next
      case False
      then show ?thesis using assms by (auto simp: bits_of_def)
    qed
  qed
  then show ?thesis using assms by (auto simp: set_bit_def arr_at_def Let_def)
qed

lemma less_4_cases: "(k :: nat) < 4 \<Longrightarrow> P 0 \<Longrightarrow> P 1 \<Longrightarrow> P 2 \<Longrightarrow> P 3 \<Longrightarrow> P k"
  by (auto simp: less_Suc_eq numeral_nat)

lemma bits_of_and:
  "bits_of (Bitfield_and b c) = bits_of b \<inter> bits_of c" and length_and [simp]: "length (Bitfield_and b c) = 4"
proof -
  have "Bitfield_and b c ! k = b ! k AND c ! k" if "k < 4" for k
    using that by (rule less_4_cases) (simp_all add: Bitfield_and_def numeral_nat)
  then show "bits_of (Bitfield_and b c) = bits_of b \<inter> bits_of c"
    by (auto simp: bits_of_def bit_and_iff)
qed (simp add: Bitfield_and_def)

lemma bit_word_set_bits_leq: "n < 64 \<Longrightarrow> bit (word_set_bits_leq v n) i \<longleftrightarrow> i < 64 \<and> (bit v i \<or> i \<le> n)"
proof -
  have "(push_bit (1 + n) 1 - 1 :: 128 word) = mask (1 + n)" by (simp only: mask_eq_exp_minus_1 push_bit_of_1)
  then show ?thesis
    by (auto simp: word_set_bits_leq_def bit_ucast_iff bit_or_iff bit_mask_iff dest: bit_imp_le_length)
qed

lemma bits_of_set_bits_leq:
  assumes "n < 256"
  shows "bits_of (set_bits_leq n Bitfield_zero) = {..n}"
proof -
  have nth: "bit (set_bits_leq n Bitfield_zero ! k) m \<longleftrightarrow> 64 * k + m \<le> n" if "k < 4" "m < 64" for k m
    using that(1) by (rule less_4_cases)
      (use assms that(2) in \<open>auto simp: set_bits_leq_def Bitfield_zero_def bit_word_set_bits_leq numeral_nat\<close>)
  show ?thesis
  proof (rule set_eqI)
    fix i
    show "i \<in> bits_of (set_bits_leq n Bitfield_zero) \<longleftrightarrow> i \<in> {..n}"
      using nth[of "i div 64" "i mod 64"] assms by (auto simp: bits_of_def)
  qed
qed

lemma bits_of_set_bits_le: "n \<le> 256 \<Longrightarrow> bits_of (set_bits_le n Bitfield_zero) = {..<n}"
  by (cases n) (auto simp: set_bits_le_def bits_of_set_bits_leq)

lemma length_set_bits_le [simp]: "length (set_bits_le n b) = length b"
  by (simp add: set_bits_le_def set_bits_leq_def)

lemma word_count_ones_card: "word_count_ones w = card {n. n < 64 \<and> bit w n}"
proof -
  have "{n. n < 64 \<and> bit w n} = set (filter (bit w) [0..<64])" by auto
  then show ?thesis unfolding word_count_ones_def by (simp only: distinct_card distinct_filter distinct_upt)
qed

lemma count_ones_card:
  assumes "length b = 4"
  shows "count_ones b = card (bits_of b)"
proof -
  let ?B = "\<lambda>k. (\<lambda>n. 64 * k + n) ` {n. n < 64 \<and> bit (b ! k) n}"
  have "bits_of b = (\<Union>k \<in> {..<4}. ?B k)"
  proof (rule set_eqI)
    fix i
    show "i \<in> bits_of b \<longleftrightarrow> i \<in> (\<Union>k \<in> {..<4}. ?B k)"
    proof
      assume "i \<in> bits_of b"
      then have "i div 64 < 4" "i \<in> ?B (i div 64)" by (auto simp: bits_of_def intro!: image_eqI[of _ _ "i mod 64"])
      then show "i \<in> (\<Union>k \<in> {..<4}. ?B k)" by blast
    qed (auto simp: bits_of_def)
  qed
  also have "card \<dots> = (\<Sum>k < 4. card (?B k))"
    by (intro card_UN_disjoint) auto
  also have "\<dots> = (\<Sum>k < 4. word_count_ones (b ! k))"
    by (simp add: card_image inj_on_def word_count_ones_card)
  also have "\<dots> = count_ones b"
    by (simp add: count_ones_def assms sum_list_sum_nth atLeast0LessThan)
  finally show ?thesis by simp
qed

section \<open>The byte form\<close>

lemma bit_push_byte:
  "bit (push_bit 8 acc OR ucast (b :: 8 word) :: 64 word) n \<longleftrightarrow> (if n < 8 then bit b n else n < 64 \<and> bit acc (n - 8))"
  by (auto simp: bit_or_iff bit_push_bit_iff bit_ucast_iff dest: bit_imp_le_length)

lemma bit_byte: "m < 8 \<Longrightarrow> bit (ucast (drop_bit k w) :: 8 word) m = bit w (k + m)" for w :: "64 word"
  by (simp add: bit_ucast_iff bit_drop_bit_eq)

lemma less_8_cases: "(k :: nat) < 8 \<Longrightarrow> P 0 \<Longrightarrow> P 1 \<Longrightarrow> P 2 \<Longrightarrow> P 3 \<Longrightarrow> P 4 \<Longrightarrow> P 5 \<Longrightarrow> P 6 \<Longrightarrow> P 7 \<Longrightarrow> P k"
  by (auto simp: less_Suc_eq numeral_nat)

lemma from_to_be_bytes: "from_be_bytes (to_be_bytes w) = w"
proof (rule bit_eqI)
  fix n assume "possible_bit TYPE(64 word) n"
  then have "n div 8 < 8" by (simp add: div_less_iff_less_mult)
  have "to_be_bytes w = [ucast (drop_bit 56 w), ucast (drop_bit 48 w), ucast (drop_bit 40 w), ucast (drop_bit 32 w),
      ucast (drop_bit 24 w), ucast (drop_bit 16 w), ucast (drop_bit 8 w), ucast (drop_bit 0 w)]"
    by (simp add: to_be_bytes_def upt_rec)
  then have "bit (from_be_bytes (to_be_bytes w)) (8 * k + m) = bit w (8 * k + m)" if "k < 8" "m < 8" for k m
    using that(1) by (elim less_8_cases)
      (use that(2) in \<open>simp_all only: from_be_bytes_def fold.simps comp_apply id_apply bit_push_byte, simp_all add: bit_ucast_iff bit_drop_bit_eq\<close>)
  from this[OF \<open>n div 8 < 8\<close>, of "n mod 8"] show "bit (from_be_bytes (to_be_bytes w)) n = bit w n" by simp
qed

lemma length_to_be_bytes [simp]: "length (to_be_bytes w) = 8"
  by (simp add: to_be_bytes_def)

lemma from_bytes_as_bytes: "length b = 4 \<Longrightarrow> from_bytes (as_bytes b) = b"
proof -
  assume "length b = 4"
  then obtain u v x y where "b = [u, v, x, y]" by (auto simp: length_Suc_conv numeral_nat)
  moreover have "from_bytes (as_bytes b) = [b ! 0, b ! 1, b ! 2, b ! 3]"
    by (simp add: from_bytes_def as_bytes_def from_to_be_bytes)
  ultimately show ?thesis by simp
qed

lemma from_slice_as_bytes: "length b = 4 \<Longrightarrow> from_slice (as_bytes b) = Some b"
  using from_bytes_as_bytes[of b] by (simp add: from_slice_def) (simp add: as_bytes_def)

end
