(* ===== verification/HashBits.thy ===== *)
theory HashBits
  imports Prelude
begin

text \<open>
  Reading a hash bit by bit (\<open>iroh-unixfs/src/hamt/hash_bits.rs\<close>): the next \<open>i\<close> bits of a byte string, most
  significant bits first, at a position counted in bits.
\<close>

unbundle bit_operations_syntax

section \<open>Definitions\<close>

record hash_bits =
  hb_b :: bytes
  hb_consumed :: nat

definition mkmask :: "nat \<Rightarrow> 32 word" where
  "mkmask n = ucast (push_bit n 1 - 1 :: 64 word)"

definition new_at_index :: "bytes \<Rightarrow> nat \<Rightarrow> hash_bits" where
  "new_at_index hash_buffer consumed = \<lparr>hb_b = hash_buffer, hb_consumed = consumed\<rparr>"

definition HashBits_new :: "bytes \<Rightarrow> hash_bits" where
  "HashBits_new hash_buffer = new_at_index hash_buffer 0"

text \<open>\<open>None\<close> is a panic: the byte at the position does not exist.\<close>

function next_bits :: "nat \<Rightarrow> hash_bits \<Rightarrow> (hash_bits \<times> 32 word) option" where
  "next_bits i h =
     (let curbi = hb_consumed h div 8; leftb = 8 - hb_consumed h mod 8
      in case arr_at (hb_b h) curbi of
           None \<Rightarrow> None
         | Some byte \<Rightarrow>
             let curb = ucast byte :: 32 word
             in if i = leftb then Some (h\<lparr>hb_consumed := hb_consumed h + i\<rparr>, mkmask i AND curb)
                else if i < leftb
                then let a = curb AND mkmask leftb;
                         b = a AND NOT (mkmask (leftb - i));
                         c = drop_bit (leftb - i) b
                     in Some (h\<lparr>hb_consumed := hb_consumed h + i\<rparr>, c)
                else let out = push_bit (i - leftb) (ucast (mkmask leftb AND curb) :: 64 word)
                     in map_option (\<lambda>(h', rest). (h', ucast (out + ucast rest)))
                          (next_bits (i - leftb) (h\<lparr>hb_consumed := hb_consumed h + leftb\<rparr>)))"
  by pat_completeness auto

termination
  by (relation "measure fst") auto

declare next_bits.simps [simp del]

datatype hash_bits_error = InvalidBitLength | MaximumDepth | IndexPanic

definition HashBits_next :: "nat \<Rightarrow> hash_bits \<Rightarrow> hash_bits_error + hash_bits \<times> 32 word" where
  "HashBits_next i h =
     (if \<not> i \<le> 8 then Inl InvalidBitLength
      else if hb_consumed h + i > length (hb_b h) * 8 then Inl MaximumDepth
      else ok_or IndexPanic (next_bits i h))"

section \<open>The hash as a number\<close>

text \<open>The bytes as a big-endian number, and its bits from a position on.\<close>

fun be_value :: "bytes \<Rightarrow> nat" where
  "be_value [] = 0"
| "be_value (b # bs) = unat b * 256 ^ length bs + be_value bs"

definition bits_at :: "bytes \<Rightarrow> nat \<Rightarrow> nat \<Rightarrow> nat" where
  "bits_at bs pos n = be_value bs div 2 ^ (8 * length bs - pos - n) mod 2 ^ n"

lemma unat_byte: "unat (b :: 8 word) < 256"
  using unsigned_less[of b] by simp

lemma be_value_less: "be_value bs < 256 ^ length bs"
proof (induction bs)
  case (Cons b bs)
  have "unat b * 256 ^ length bs + be_value bs < (unat b + 1) * 256 ^ length bs" using Cons by simp
  also have "\<dots> \<le> 256 * 256 ^ length bs" using unat_byte[of b] by (intro mult_right_mono) auto
  finally show ?case by simp
qed simp

lemma be_value_append: "be_value (xs @ ys) = be_value xs * 256 ^ length ys + be_value ys"
  by (induction xs) (simp_all add: power_add algebra_simps)

lemma be_value_prefix: "be_value (xs @ ys) div 256 ^ length ys = be_value xs"
  using be_value_less[of ys] by (simp add: be_value_append)

lemma pow256: "256 ^ n = (2 :: nat) ^ (8 * n)"
  by (simp add: power_mult)

text \<open>The bits that start in byte \<open>c\<close> and stay in it.\<close>

lemma bits_at_byte:
  assumes "c < length bs" and "p + n \<le> 8"
  shows "bits_at bs (8 * c + p) n = unat (bs ! c) div 2 ^ (8 - p - n) mod 2 ^ n"
proof -
  let ?ys = "drop (Suc c) bs" and ?x = "be_value (take c bs)"
  have bs: "bs = (take c bs @ [bs ! c]) @ ?ys" using assms(1) by (simp add: id_take_nth_drop[symmetric])
  have pre: "be_value bs div 256 ^ length ?ys = ?x * 256 + unat (bs ! c)"
    by (subst bs, subst be_value_prefix) (simp add: be_value_append)
  have e: "8 * length bs - (8 * c + p) - n = 8 * length ?ys + (8 - p - n)" using assms by simp
  have "bits_at bs (8 * c + p) n = be_value bs div 256 ^ length ?ys div 2 ^ (8 - p - n) mod 2 ^ n"
    unfolding bits_at_def e power_add pow256 by (simp add: div_mult2_eq)
  also have "\<dots> = (?x * 256 + unat (bs ! c)) div 2 ^ (8 - p - n) mod 2 ^ n" by (simp only: pre)
  also have "?x * 256 = ?x * 2 ^ (p + n) * 2 ^ (8 - p - n)"
    using assms(2) by (simp add: mult.assoc flip: power_add)
  also have "(?x * 2 ^ (p + n) * 2 ^ (8 - p - n) + unat (bs ! c)) div 2 ^ (8 - p - n) =
      ?x * 2 ^ p * 2 ^ n + unat (bs ! c) div 2 ^ (8 - p - n)"
    by (subst add.commute, subst div_mult_self1) (simp_all add: power_add)
  finally show ?thesis by simp
qed

lemma bits_at_split:
  assumes "pos + m + n \<le> 8 * length bs"
  shows "bits_at bs pos (m + n) = bits_at bs pos m * 2 ^ n + bits_at bs (pos + m) n"
proof -
  let ?v = "be_value bs" and ?k = "8 * length bs - (pos + m) - n"
  have 1: "8 * length bs - pos - (m + n) = ?k" "8 * length bs - pos - m = ?k + n" using assms by simp_all
  have "?v div 2 ^ ?k mod (2 ^ m * 2 ^ n) = (?v div 2 ^ ?k div 2 ^ n mod 2 ^ m) * 2 ^ n + ?v div 2 ^ ?k mod 2 ^ n"
    by (subst mult.commute, subst mod_mult2_eq) simp
  then show ?thesis unfolding bits_at_def 1 power_add div_mult2_eq by simp
qed

lemma bits_at_less: "bits_at bs pos n < 2 ^ n"
  by (simp add: bits_at_def)

lemma bits_at_bound: "n \<le> 8 \<Longrightarrow> bits_at bs pos n < 256"
  using bits_at_less[of bs pos n] power_increasing[of n 8 "2 :: nat"] by simp

section \<open>Reading bits\<close>

lemma mkmask_mask: "n \<le> 32 \<Longrightarrow> mkmask n = mask n"
proof -
  assume "n \<le> 32"
  have "(push_bit n 1 - 1 :: 64 word) = mask n" by (simp only: mask_eq_exp_minus_1 push_bit_of_1)
  then show ?thesis using \<open>n \<le> 32\<close>
    by (intro bit_eqI) (auto simp: mkmask_def bit_ucast_iff bit_mask_iff)
qed

lemma unat_masked:
  assumes "n \<le> 8"
  shows "unat (mkmask n AND ucast (b :: 8 word)) = unat b mod 2 ^ n"
proof -
  have "mkmask n AND ucast b = take_bit n (ucast b)"
    using assms by (simp add: mkmask_mask take_bit_eq_mask and.commute)
  moreover have "unat (ucast b :: 32 word) = unat b"
    using unat_byte[of b] by (simp add: unsigned_ucast_eq take_bit_eq_mod)
  ultimately have "unat (mkmask n AND ucast b) = take_bit n (unat b)"
    by (simp only: unsigned_take_bit_eq)
  then show ?thesis by (simp add: take_bit_eq_mod)
qed

lemma unat_middle:
  assumes "k \<le> l" and "l \<le> 8"
  shows "unat (drop_bit k ((ucast (b :: 8 word) AND mkmask l) AND NOT (mkmask k))) = unat b mod 2 ^ l div 2 ^ k"
proof -
  have "drop_bit k ((ucast b AND mkmask l) AND NOT (mkmask k)) = drop_bit k (mkmask l AND ucast b)"
    using assms by (intro bit_eqI) (auto simp: mkmask_mask bit_drop_bit_eq bit_and_iff bit_not_iff bit_mask_iff)
  then have "unat (drop_bit k ((ucast b AND mkmask l) AND NOT (mkmask k))) = drop_bit k (unat (mkmask l AND ucast b))"
    by (simp only: unat_drop_bit_eq)
  then show ?thesis by (simp only: unat_masked[OF assms(2)]) (simp add: drop_bit_eq_div)
qed

lemma word_of_unat: "unat w = n \<Longrightarrow> w = of_nat n"
  by auto

text \<open>Within a byte; the position is \<open>c\<close> bytes and \<open>p\<close> bits.\<close>

lemma next_bits_within:
  assumes "hb_consumed h = 8 * c + p" and "p < 8" and "i \<le> 8 - p" and "c < length (hb_b h)"
  shows "next_bits i h = Some (h\<lparr>hb_consumed := hb_consumed h + i\<rparr>, of_nat (bits_at (hb_b h) (hb_consumed h) i))"
proof -
  let ?b = "hb_b h ! c"
  have pos: "hb_consumed h div 8 = c" "hb_consumed h mod 8 = p" using assms(1,2) by auto
  have bits: "bits_at (hb_b h) (hb_consumed h) i = unat ?b div 2 ^ (8 - p - i) mod 2 ^ i"
    unfolding assms(1) by (rule bits_at_byte) (use assms in auto)
  have eq: "unat (mkmask i AND ucast ?b) = bits_at (hb_b h) (hb_consumed h) i" if "i = 8 - p"
    unfolding bits using that by (simp add: unat_masked)
  have less: "unat (drop_bit (8 - p - i) ((ucast ?b AND mkmask (8 - p)) AND NOT (mkmask (8 - p - i)))) =
      bits_at (hb_b h) (hb_consumed h) i" if "i < 8 - p"
  proof -
    have "2 ^ (8 - p) = (2 :: nat) ^ (8 - p - i) * 2 ^ i" using that by (simp flip: power_add)
    then have "unat ?b mod 2 ^ (8 - p) div 2 ^ (8 - p - i) = unat ?b div 2 ^ (8 - p - i) mod 2 ^ i"
      by (simp add: mod_mult2_eq)
    then show ?thesis unfolding bits by (subst unat_middle) simp_all
  qed
  show ?thesis
    unfolding next_bits.simps[of i h]
    using assms(3,4) word_of_unat[OF eq] word_of_unat[OF less]
    by (cases "i = 8 - p") (simp_all add: pos Let_def arr_at_def)
qed

lemma next_bits_correct:
  assumes "i \<le> 8" and "hb_consumed h + i \<le> 8 * length (hb_b h)" and "hb_consumed h < 8 * length (hb_b h)"
  shows "next_bits i h = Some (h\<lparr>hb_consumed := hb_consumed h + i\<rparr>, of_nat (bits_at (hb_b h) (hb_consumed h) i))"
proof -
  define c p where "c = hb_consumed h div 8" and "p = hb_consumed h mod 8"
  have cp: "hb_consumed h = 8 * c + p" "p < 8" "c < length (hb_b h)" using assms(3) by (auto simp: c_def p_def)
  show ?thesis
  proof (cases "i \<le> 8 - p")
    case True then show ?thesis using next_bits_within cp by blast
  next
    case False
    let ?h = "h\<lparr>hb_consumed := hb_consumed h + (8 - p)\<rparr>" and ?j = "i - (8 - p)" and ?bs = "hb_b h"
    let ?x = "bits_at ?bs (hb_consumed h) (8 - p)" and ?y = "bits_at ?bs (hb_consumed h + (8 - p)) ?j"
    have pos: "hb_consumed h div 8 = c" "hb_consumed h mod 8 = p" by (simp_all add: c_def p_def)
    have c': "Suc c < length ?bs" using False assms(2) cp by linarith
    have rest: "next_bits ?j ?h = Some (h\<lparr>hb_consumed := hb_consumed h + i\<rparr>, of_nat ?y)"
      using next_bits_within[of ?h "Suc c" 0 ?j] False assms(1) cp c' by simp
    have first: "mkmask (8 - p) AND ucast (?bs ! c) = (of_nat ?x :: 32 word)"
      using bits_at_byte[OF cp(3), of p "8 - p"] cp(1,2) unat_masked[of "8 - p" "?bs ! c"]
      by (intro word_of_unat) simp
    have bound: "?x < 256" "?y < 256"
      using bits_at_bound[of "8 - p" ?bs] bits_at_bound[of ?j ?bs] assms(1) by (auto simp: le_diff_conv)
    have up: "(ucast (of_nat n :: 32 word) :: 64 word) = of_nat n" if "n < 256" for n
      using that by (simp add: unsigned_of_nat take_bit_eq_mod)
    have down: "(ucast (of_nat n :: 64 word) :: 32 word) = of_nat n" if "n < 256" for n
      using that by (simp add: unsigned_of_nat take_bit_eq_mod)
    have parts: "bits_at ?bs (hb_consumed h) i = ?x * 2 ^ ?j + ?y"
      using bits_at_split[of "hb_consumed h" "8 - p" ?j ?bs] False assms(2) by simp
    have sum: "push_bit ?j (of_nat ?x :: 64 word) + of_nat ?y = of_nat (?x * 2 ^ ?j + ?y)"
      by (simp add: push_bit_eq_mult)
    moreover have "?x * 2 ^ ?j + ?y < 256" using bits_at_bound[OF assms(1)] parts by metis
    ultimately show ?thesis
      using False cp(3) rest first bound
      by (simp add: next_bits.simps[of i h] pos Let_def arr_at_def up sum down parts del: of_nat_add of_nat_mult)
  qed
qed


end
