(* ===== verification/Unixfs.thy ===== *)
theory Unixfs
  imports Message Chunker Bitfield HashBits
begin

text \<open>
  The nodes of UnixFS (\<open>iroh-unixfs/src/unixfs.rs\<close>, \<open>types.rs\<close>) and the shard of a sharded directory as
  it is read from such a node (\<open>hamt.rs\<close>). The protobuf codecs are generated by the build and content ids
  are those of a library: both are in the record \<open>ufs_ops\<close>, with \<open>ufs_laws\<close> as what the round trips
  need of them. A Rust string is the list of its UTF-8 bytes. A panic is the error \<open>Panicked\<close>.
\<close>

section \<open>UTF-8\<close>

text \<open>\<open>std::str::from_utf8\<close>.\<close>

definition utf8_cont :: "byte \<Rightarrow> bool" where
  "utf8_cont b \<longleftrightarrow> 0x80 \<le> b \<and> b \<le> 0xBF"

fun utf8_valid :: "bytes \<Rightarrow> bool" where
  "utf8_valid [] = True"
| "utf8_valid (b # bs) =
     (if b < 0x80 then utf8_valid bs
      else if 0xC2 \<le> b \<and> b \<le> 0xDF
      then (case bs of b1 # rest \<Rightarrow> utf8_cont b1 \<and> utf8_valid rest | _ \<Rightarrow> False)
      else if 0xE0 \<le> b \<and> b \<le> 0xEF
      then (case bs of
              b1 # b2 # rest \<Rightarrow>
                utf8_cont b1 \<and> (b = 0xE0 \<longrightarrow> 0xA0 \<le> b1) \<and> (b = 0xED \<longrightarrow> b1 \<le> 0x9F) \<and> utf8_cont b2 \<and>
                utf8_valid rest
            | _ \<Rightarrow> False)
      else if 0xF0 \<le> b \<and> b \<le> 0xF4
      then (case bs of
              b1 # b2 # b3 # rest \<Rightarrow>
                utf8_cont b1 \<and> (b = 0xF0 \<longrightarrow> 0x90 \<le> b1) \<and> (b = 0xF4 \<longrightarrow> b1 \<le> 0x8F) \<and> utf8_cont b2 \<and>
                utf8_cont b3 \<and> utf8_valid rest
            | _ \<Rightarrow> False)
      else False)"

section \<open>Protobuf structures\<close>

record unixfs_data =
  d_type :: "32 word"
  d_data :: "bytes option"
  d_filesize :: "u64 option"
  d_blocksizes :: "u64 list"
  d_hash_type :: "u64 option"
  d_fanout :: "u64 option"

record pb_link =
  pl_hash :: "bytes option"
  pl_name :: "bytes option"
  pl_tsize :: "u64 option"

record pb_node =
  pn_links :: "pb_link list"
  pn_data :: "bytes option"

text \<open>\<open>Default::default()\<close> of the data.\<close>

definition unixfs_data_default :: unixfs_data where
  "unixfs_data_default = \<lparr>d_type = 0, d_data = None, d_filesize = None, d_blocksizes = [],
     d_hash_type = None, d_fanout = None\<rparr>"

text \<open>
  Libraries: the codec of a content id, \<open>Cid::new_v1\<close> on the SHA2-256 digest of some bytes, the binary
  form of a content id and \<open>Cid::read_bytes\<close>, and the protobuf codecs.
\<close>

record 'cid ufs_ops =
  uc_codec :: "'cid \<Rightarrow> u64"
  uc_new :: "u64 \<Rightarrow> bytes \<Rightarrow> 'cid"
  uc_to_bytes :: "'cid \<Rightarrow> bytes"
  uc_read :: "bytes \<Rightarrow> 'cid option"
  enc_data :: "unixfs_data \<Rightarrow> bytes"
  dec_data :: "bytes \<Rightarrow> unixfs_data option"
  enc_node :: "pb_node \<Rightarrow> bytes"
  dec_node :: "bytes \<Rightarrow> pb_node option"

definition names_valid :: "pb_node \<Rightarrow> bool" where
  "names_valid n \<longleftrightarrow> list_all (\<lambda>l. case pl_name l of None \<Rightarrow> True | Some s \<Rightarrow> utf8_valid s) (pn_links n)"

definition ufs_laws :: "'cid ufs_ops \<Rightarrow> bool" where
  "ufs_laws ops \<longleftrightarrow>
     (\<forall>c d. uc_codec ops (uc_new ops c d) = c) \<and>
     (\<forall>c. uc_read ops (uc_to_bytes ops c) = Some c) \<and>
     (\<forall>d. dec_data ops (enc_data ops d) = Some d) \<and>
     (\<forall>n. names_valid n \<longrightarrow> dec_node ops (enc_node ops n) = Some n)"

section \<open>Types\<close>

datatype ufs_error =
    MissingData | BadProto | BadType | MetadataUnsupported | MissingLink | BadCid | BadUtf8 | TooLarge
  | OnlyMurmur3 | ZeroFanout | BitfieldTooLarge | MaxDepth | BadBitLength | LoadFailed | IoError
  | InvalidNested | UnsupportedType | SeekUnknownLength | Panicked

datatype data_type = TRaw | TDirectory | TFile | TMetadata | TSymlink | THamtShard

definition DataType_try_from :: "32 word \<Rightarrow> data_type option" where
  "DataType_try_from t =
     (if t = 0 then Some TRaw else if t = 1 then Some TDirectory else if t = 2 then Some TFile
      else if t = 3 then Some TMetadata else if t = 4 then Some TSymlink else if t = 5 then Some THamtShard
      else None)"

fun DataType_into :: "data_type \<Rightarrow> 32 word" where
  "DataType_into TRaw = 0"
| "DataType_into TDirectory = 1"
| "DataType_into TFile = 2"
| "DataType_into TMetadata = 3"
| "DataType_into TSymlink = 4"
| "DataType_into THamtShard = 5"

datatype hamt_hash_function = Murmur3

definition HamtHashFunction_into :: "hamt_hash_function \<Rightarrow> u64" where
  "HamtHashFunction_into f = 0x22"

definition HamtHashFunction_try_from :: "u64 \<Rightarrow> hamt_hash_function option" where
  "HamtHashFunction_try_from t = (if t = 0x22 then Some Murmur3 else None)"

definition Codec_Raw :: u64 where
  "Codec_Raw = 0x55"

definition Codec_DagPb :: u64 where
  "Codec_DagPb = 0x70"

record 'cid ufs_block =
  ub_cid :: 'cid
  ub_data :: bytes
  ub_links :: "'cid list"

record 'cid link =
  l_cid :: 'cid
  l_name :: "bytes option"
  l_tsize :: "u64 option"

record node =
  n_outer :: pb_node
  n_inner :: unixfs_data

text \<open>
  The node of a shard. The cells that cache a loaded child are left out: a cached child is what loading
  it gives.
\<close>

record 'cid hamt_node =
  hn_bitfield :: bitfield
  hn_bit_width :: nat
  hn_padding_len :: nat
  hn_pointers :: "'cid link list"

datatype 'cid unixfs_node =
    Raw bytes
  | RawNode node
  | Directory node
  | File node
  | Symlink node
  | HamtShard node "'cid hamt_node"

section \<open>Links\<close>

text \<open>An iterator over links is the list of its items; \<open>collect\<close> stops at the first error.\<close>

definition collect :: "('e + 'a) list \<Rightarrow> 'e + 'a list" where
  "collect rs = fold_result (\<lambda>r acc. result_bind r (\<lambda>a. Inr (acc @ [a]))) rs []"

definition PbLinks_item :: "'cid ufs_ops \<Rightarrow> pb_link \<Rightarrow> ufs_error + 'cid link" where
  "PbLinks_item ops l =
     result_bind (ok_or MissingLink (pl_hash l)) (\<lambda>c.
     result_bind (ok_or BadCid (uc_read ops c)) (\<lambda>cid.
     Inr \<lparr>l_cid = cid, l_name = pl_name l, l_tsize = pl_tsize l\<rparr>))"

definition PbLinks :: "'cid ufs_ops \<Rightarrow> pb_node \<Rightarrow> (ufs_error + 'cid link) list" where
  "PbLinks ops n = map (PbLinks_item ops) (pn_links n)"

section \<open>Nodes\<close>

definition Node_encode :: "'cid ufs_ops \<Rightarrow> node \<Rightarrow> bytes" where
  "Node_encode ops n = enc_node ops (n_outer n)"

definition Node_typ :: "node \<Rightarrow> ufs_error + data_type" where
  "Node_typ n = ok_or Panicked (DataType_try_from (d_type (n_inner n)))"

definition Node_size :: "node \<Rightarrow> nat option" where
  "Node_size n =
     (if pn_links (n_outer n) = [] then Some (case d_data (n_inner n) of None \<Rightarrow> 0 | Some d \<Rightarrow> length d) else None)"

definition Node_links :: "'cid ufs_ops \<Rightarrow> node \<Rightarrow> ufs_error + (ufs_error + 'cid link) list" where
  "Node_links ops n =
     result_bind (Node_typ n) (\<lambda>t. if t = TMetadata then Inl Panicked else Inr (PbLinks ops (n_outer n)))"

definition Node_hash_type :: "node \<Rightarrow> hamt_hash_function option" where
  "Node_hash_type n = Option.bind (d_hash_type (n_inner n)) HamtHashFunction_try_from"

definition Node_fanout :: "node \<Rightarrow> nat option" where
  "Node_fanout n = Option.bind (d_fanout (n_inner n)) (\<lambda>f. if unat f < 2 ^ 32 then Some (unat f) else None)"

subsection \<open>The shard of a node\<close>

definition DEFAULT_FANOUT :: nat where
  "DEFAULT_FANOUT = 256"

text \<open>\<open>format!("{:X}", n)\<close>.\<close>

definition hex_digit :: "nat \<Rightarrow> byte" where
  "hex_digit d = of_nat (if d < 10 then 48 + d else 55 + d)"

fun hex_upper :: "nat \<Rightarrow> bytes" where
  "hex_upper n = (if n < 16 then [hex_digit n] else hex_upper (n div 16) @ [hex_digit (n mod 16)])"

declare hex_upper.simps [simp del]

text \<open>\<open>u32::BITS - x.leading_zeros() - 1\<close>.\<close>

definition leading_zeros :: "32 word \<Rightarrow> nat" where
  "leading_zeros x = length (takeWhile (\<lambda>i. \<not> bit x i) (rev [0..<32]))"

definition log2 :: "nat \<Rightarrow> nat" where
  "log2 x = 32 - leading_zeros (of_nat x) - 1"

definition HamtNode_from_node :: "'cid ufs_ops \<Rightarrow> node \<Rightarrow> ufs_error + 'cid hamt_node" where
  "HamtNode_from_node ops n =
     (if Node_hash_type n \<noteq> Some Murmur3 then Inl OnlyMurmur3
      else let fanout = (case Node_fanout n of None \<Rightarrow> DEFAULT_FANOUT | Some f \<Rightarrow> f)
           in if \<not> fanout > 0 then Inl ZeroFanout
              else result_bind (ok_or Panicked (d_data (n_inner n))) (\<lambda>data.
                   result_bind (ok_or BitfieldTooLarge (from_slice data)) (\<lambda>bitfield.
                   result_bind (collect (PbLinks ops (n_outer n))) (\<lambda>pointers.
                   Inr \<lparr>hn_bitfield = bitfield, hn_bit_width = log2 fanout,
                        hn_padding_len = length (hex_upper (fanout - 1)), hn_pointers = pointers\<rparr>))))"

subsection \<open>Nodes of any type\<close>

definition UnixfsNode_decode :: "'cid ufs_ops \<Rightarrow> 'cid \<Rightarrow> bytes \<Rightarrow> ufs_error + 'cid unixfs_node" where
  "UnixfsNode_decode ops cid buf =
     (if uc_codec ops cid = Codec_Raw then Inr (Raw buf)
      else result_bind (ok_or BadProto (dec_node ops buf)) (\<lambda>outer.
           result_bind (ok_or MissingData (pn_data outer)) (\<lambda>inner_data.
           result_bind (ok_or BadProto (dec_data ops inner_data)) (\<lambda>inner.
           result_bind (ok_or BadType (DataType_try_from (d_type inner))) (\<lambda>typ.
           let n = \<lparr>n_outer = outer, n_inner = inner\<rparr>
           in case typ of
                TRaw \<Rightarrow> Inl Panicked
              | TDirectory \<Rightarrow> Inr (Directory n)
              | TFile \<Rightarrow> Inr (File n)
              | TSymlink \<Rightarrow> Inr (Symlink n)
              | THamtShard \<Rightarrow> result_bind (HamtNode_from_node ops n) (\<lambda>hamt. Inr (HamtShard n hamt))
              | TMetadata \<Rightarrow> Inl MetadataUnsupported)))))"

fun node_of :: "'cid unixfs_node \<Rightarrow> node option" where
  "node_of (Raw d) = None"
| "node_of (RawNode n) = Some n"
| "node_of (Directory n) = Some n"
| "node_of (File n) = Some n"
| "node_of (Symlink n) = Some n"
| "node_of (HamtShard n _) = Some n"

definition UnixfsNode_encode :: "'cid ufs_ops \<Rightarrow> 'cid unixfs_node \<Rightarrow> ufs_error + 'cid ufs_block" where
  "UnixfsNode_encode ops u =
     result_bind
       (case u of
          Raw data \<Rightarrow> Inr \<lparr>ub_cid = uc_new ops Codec_Raw data, ub_data = data, ub_links = []\<rparr>
        | _ \<Rightarrow> let n = the (node_of u); out = Node_encode ops n
               in result_bind (Node_links ops n) (\<lambda>items.
                  result_bind (collect items) (\<lambda>links.
                  Inr \<lparr>ub_cid = uc_new ops Codec_DagPb out, ub_data = out, ub_links = map l_cid links\<rparr>)))
       (\<lambda>res. if length (ub_data res) \<le> DEFAULT_CHUNK_SIZE_LIMIT then Inr res else Inl TooLarge)"

fun UnixfsNode_typ :: "'cid unixfs_node \<Rightarrow> data_type option" where
  "UnixfsNode_typ (Raw _) = None"
| "UnixfsNode_typ (RawNode _) = Some TRaw"
| "UnixfsNode_typ (Directory _) = Some TDirectory"
| "UnixfsNode_typ (File _) = Some TFile"
| "UnixfsNode_typ (Symlink _) = Some TSymlink"
| "UnixfsNode_typ (HamtShard _ _) = Some THamtShard"

definition UnixfsNode_size :: "'cid unixfs_node \<Rightarrow> nat option" where
  "UnixfsNode_size u = (case u of Raw data \<Rightarrow> Some (length data) | _ \<Rightarrow> Node_size (the (node_of u)))"

definition UnixfsNode_filesize :: "'cid unixfs_node \<Rightarrow> u64 option" where
  "UnixfsNode_filesize u =
     (case u of Raw data \<Rightarrow> Some (of_nat (length data)) | _ \<Rightarrow> d_filesize (n_inner (the (node_of u))))"

definition UnixfsNode_blocksizes :: "'cid unixfs_node \<Rightarrow> u64 list" where
  "UnixfsNode_blocksizes u = (case node_of u of None \<Rightarrow> [] | Some n \<Rightarrow> d_blocksizes (n_inner n))"

definition UnixfsNode_links :: "'cid ufs_ops \<Rightarrow> 'cid unixfs_node \<Rightarrow> (ufs_error + 'cid link) list" where
  "UnixfsNode_links ops u = (case node_of u of None \<Rightarrow> [] | Some n \<Rightarrow> PbLinks ops (n_outer n))"

definition links_owned :: "'cid ufs_ops \<Rightarrow> 'cid unixfs_node \<Rightarrow> ufs_error + 'cid link list" where
  "links_owned ops u = collect (UnixfsNode_links ops u)"

fun is_dir :: "'cid unixfs_node \<Rightarrow> bool" where
  "is_dir (Directory _) = True"
| "is_dir (HamtShard _ _) = True"
| "is_dir _ = False"

definition get_link_by_name :: "'cid ufs_ops \<Rightarrow> 'cid unixfs_node \<Rightarrow> bytes \<Rightarrow> ufs_error + 'cid link option" where
  "get_link_by_name ops u link_name =
     (case find (\<lambda>r. case r of Inr l \<Rightarrow> l_name l = Some link_name | Inl _ \<Rightarrow> False) (UnixfsNode_links ops u) of
        None \<Rightarrow> Inr None
      | Some r \<Rightarrow> result_bind r (\<lambda>l. Inr (Some l)))"

definition UnixfsNode_symlink :: "'cid unixfs_node \<Rightarrow> ufs_error + bytes option" where
  "UnixfsNode_symlink u =
     (case u of
        Symlink n \<Rightarrow>
          (let d = (case d_data (n_inner n) of None \<Rightarrow> [] | Some d \<Rightarrow> d)
           in if utf8_valid d then Inr (Some d) else Inl BadUtf8)
      | _ \<Rightarrow> Inr None)"

text \<open>\<open>builder.rs\<close>: the outer node of some data.\<close>

definition encode_unixfs_pb :: "'cid ufs_ops \<Rightarrow> unixfs_data \<Rightarrow> pb_link list \<Rightarrow> ufs_error + pb_node" where
  "encode_unixfs_pb ops inner links =
     (let data = enc_data ops inner
      in if length data \<le> DEFAULT_CHUNK_SIZE_LIMIT then Inr \<lparr>pn_links = links, pn_data = Some data\<rparr>
         else Inl TooLarge)"

section \<open>Collecting links\<close>

lemma collect_acc:
  "fold_result (\<lambda>r acc. result_bind r (\<lambda>a. Inr (acc @ [a]))) rs acc = Inr xs \<longleftrightarrow>
     (\<exists>ys. rs = map Inr ys \<and> xs = acc @ ys)"
proof (induction rs arbitrary: acc)
  case (Cons r rs)
  then show ?case by (cases r) (auto simp: map_eq_Cons_conv Cons_eq_map_conv)
qed auto

lemma collect_Inr_iff: "collect rs = Inr xs \<longleftrightarrow> rs = map Inr xs"
  unfolding collect_def by (subst collect_acc) simp

lemma collect_map_Inr [simp]: "collect (map Inr xs) = Inr xs"
  by (simp add: collect_Inr_iff)

lemma map_Inr_iff: "map f xs = map Inr ys \<longleftrightarrow> list_all2 (\<lambda>x y. f x = Inr y) xs ys"
  by (auto simp: list_all2_conv_all_nth list_eq_iff_nth_eq)

lemma PbLinks_collect: "collect (PbLinks ops n) = Inr ls \<longleftrightarrow> list_all2 (\<lambda>p l. PbLinks_item ops p = Inr l) (pn_links n) ls"
  by (simp add: collect_Inr_iff PbLinks_def map_Inr_iff)

text \<open>The link that is written for a content id.\<close>

lemma PbLinks_item_written:
  "ufs_laws ops \<Longrightarrow> PbLinks_item ops \<lparr>pl_hash = Some (uc_to_bytes ops c), pl_name = nm, pl_tsize = ts\<rparr> =
     Inr \<lparr>l_cid = c, l_name = nm, l_tsize = ts\<rparr>"
  by (simp add: PbLinks_item_def ufs_laws_def)

section \<open>Encoding and decoding\<close>

text \<open>
  The outer node carries the encoded inner data, as \<open>encode_unixfs_pb\<close> makes it, and the names of its links
  are strings.
\<close>

definition node_coherent :: "'cid ufs_ops \<Rightarrow> node \<Rightarrow> bool" where
  "node_coherent ops n \<longleftrightarrow> pn_data (n_outer n) = Some (enc_data ops (n_inner n)) \<and> names_valid (n_outer n)"

lemma encode_unixfs_pb_coherent:
  assumes "encode_unixfs_pb ops inn links = Inr out"
    and "\<And>l s. l \<in> set links \<Longrightarrow> pl_name l = Some s \<Longrightarrow> utf8_valid s"
  shows "pn_links out = links" and "node_coherent ops \<lparr>n_outer = out, n_inner = inn\<rparr>"
  using assms
  by (auto simp: encode_unixfs_pb_def node_coherent_def names_valid_def list_all_iff Let_def split: if_splits option.splits)

lemma decode_outer:
  assumes "ufs_laws ops" and "node_coherent ops n"
  shows "UnixfsNode_decode ops (uc_new ops Codec_DagPb (Node_encode ops n)) (Node_encode ops n) =
    (case DataType_try_from (d_type (n_inner n)) of
       None \<Rightarrow> Inl BadType
     | Some TRaw \<Rightarrow> Inl Panicked
     | Some TDirectory \<Rightarrow> Inr (Directory n)
     | Some TFile \<Rightarrow> Inr (File n)
     | Some TSymlink \<Rightarrow> Inr (Symlink n)
     | Some THamtShard \<Rightarrow> result_bind (HamtNode_from_node ops n) (\<lambda>hamt. Inr (HamtShard n hamt))
     | Some TMetadata \<Rightarrow> Inl MetadataUnsupported)"
  using assms
  by (cases n) (simp add: UnixfsNode_decode_def ufs_laws_def node_coherent_def Node_encode_def Codec_DagPb_def
      Codec_Raw_def Let_def split: option.splits data_type.splits)

lemma encode_outer:
  assumes "UnixfsNode_encode ops u = Inr b" and "node_of u = Some n"
  shows "ub_cid b = uc_new ops Codec_DagPb (Node_encode ops n)" and "ub_data b = Node_encode ops n"
    and "\<exists>ls. collect (PbLinks ops (n_outer n)) = Inr ls \<and> ub_links b = map l_cid ls"
    and "length (ub_data b) \<le> DEFAULT_CHUNK_SIZE_LIMIT"
proof -
  have "UnixfsNode_encode ops u = result_bind
     (result_bind (Node_links ops n) (\<lambda>items. result_bind (collect items) (\<lambda>links.
        Inr \<lparr>ub_cid = uc_new ops Codec_DagPb (Node_encode ops n), ub_data = Node_encode ops n,
             ub_links = map l_cid links\<rparr>)))
     (\<lambda>res. if length (ub_data res) \<le> DEFAULT_CHUNK_SIZE_LIMIT then Inr res else Inl TooLarge)"
    using assms(2) by (cases u) (simp_all add: UnixfsNode_encode_def Let_def)
  then have "ub_cid b = uc_new ops Codec_DagPb (Node_encode ops n) \<and> ub_data b = Node_encode ops n \<and>
    (\<exists>ls. collect (PbLinks ops (n_outer n)) = Inr ls \<and> ub_links b = map l_cid ls) \<and>
    length (ub_data b) \<le> DEFAULT_CHUNK_SIZE_LIMIT"
    using assms(1)
    by (auto simp: Node_links_def Node_typ_def result_bind_def ok_or_def split: sum.splits option.splits if_splits)
  then show "ub_cid b = uc_new ops Codec_DagPb (Node_encode ops n)" "ub_data b = Node_encode ops n"
    "\<exists>ls. collect (PbLinks ops (n_outer n)) = Inr ls \<and> ub_links b = map l_cid ls"
    "length (ub_data b) \<le> DEFAULT_CHUNK_SIZE_LIMIT"
    by blast+
qed

lemma encode_Raw:
  "UnixfsNode_encode ops (Raw d) = Inr b \<longleftrightarrow>
     length d \<le> DEFAULT_CHUNK_SIZE_LIMIT \<and> b = \<lparr>ub_cid = uc_new ops Codec_Raw d, ub_data = d, ub_links = []\<rparr>"
  by (auto simp: UnixfsNode_encode_def)

lemma decode_Raw: "ufs_laws ops \<Longrightarrow> UnixfsNode_decode ops (uc_new ops Codec_Raw d) d = Inr (Raw d)"
  by (simp add: UnixfsNode_decode_def ufs_laws_def)

text \<open>A node as the builders make it: raw bytes, or a coherent node whose type field is that of its variant.\<close>

definition built_node :: "'cid ufs_ops \<Rightarrow> 'cid unixfs_node \<Rightarrow> bool" where
  "built_node ops u \<longleftrightarrow>
     (case node_of u of
        None \<Rightarrow> True
      | Some n \<Rightarrow> node_coherent ops n \<and> UnixfsNode_typ u = DataType_try_from (d_type (n_inner n)) \<and>
          UnixfsNode_typ u \<noteq> Some TRaw \<and> (\<forall>h. u = HamtShard n h \<longrightarrow> HamtNode_from_node ops n = Inr h))"


section \<open>A codec\<close>

text \<open>
  A codec that has the laws: counts in unary, words in eight bytes, and the content itself as the digest of
  a content id.
\<close>

definition put_bytes :: "bytes \<Rightarrow> bytes" where
  "put_bytes bs = replicate (length bs) 1 @ 0 # bs"

definition get_count :: "bytes \<Rightarrow> nat \<times> bytes" where
  "get_count bs = (length (takeWhile (\<lambda>b. b = 1) bs), drop 1 (dropWhile (\<lambda>b. b = 1) bs))"

definition get_bytes :: "bytes \<Rightarrow> bytes \<times> bytes" where
  "get_bytes bs = (let (n, rest) = get_count bs in (take n rest, drop n rest))"

definition put_option :: "('a \<Rightarrow> bytes) \<Rightarrow> 'a option \<Rightarrow> bytes" where
  "put_option f x = (case x of None \<Rightarrow> [0] | Some a \<Rightarrow> 1 # f a)"

definition get_option :: "(bytes \<Rightarrow> 'a \<times> bytes) \<Rightarrow> bytes \<Rightarrow> 'a option \<times> bytes" where
  "get_option g bs = (if hd bs = 0 then (None, tl bs) else let (a, rest) = g (tl bs) in (Some a, rest))"

definition put_list :: "('a \<Rightarrow> bytes) \<Rightarrow> 'a list \<Rightarrow> bytes" where
  "put_list f xs = concat (map (\<lambda>x. 1 # f x) xs) @ [0]"

fun get_n :: "(bytes \<Rightarrow> 'a \<times> bytes) \<Rightarrow> nat \<Rightarrow> bytes \<Rightarrow> 'a list \<times> bytes" where
  "get_n g 0 bs = ([], bs)"
| "get_n g (Suc n) bs =
     (if hd bs = 0 then ([], tl bs) else let (x, rest) = g (tl bs); (xs, rest') = get_n g n rest in (x # xs, rest'))"

definition get_list :: "(bytes \<Rightarrow> 'a \<times> bytes) \<Rightarrow> bytes \<Rightarrow> 'a list \<times> bytes" where
  "get_list g bs = get_n g (length bs) bs"

definition get_u64 :: "bytes \<Rightarrow> u64 \<times> bytes" where
  "get_u64 bs = (from_be_bytes (take 8 bs), drop 8 bs)"

definition reads_back :: "('a \<Rightarrow> bytes) \<Rightarrow> (bytes \<Rightarrow> 'a \<times> bytes) \<Rightarrow> bool" where
  "reads_back f g \<longleftrightarrow> (\<forall>a rest. g (f a @ rest) = (a, rest))"

named_theorems reads_back

lemma takeWhile_ones: "takeWhile (\<lambda>b. b = 1) (replicate n (1 :: byte) @ 0 # xs) = replicate n 1"
  "dropWhile (\<lambda>b. b = 1) (replicate n (1 :: byte) @ 0 # xs) = 0 # xs"
  by (induction n) auto

lemma reads_back_bytes [reads_back]: "reads_back put_bytes get_bytes"
  by (simp add: reads_back_def put_bytes_def get_bytes_def get_count_def takeWhile_ones)

lemma reads_back_u64 [reads_back]: "reads_back to_be_bytes get_u64"
  by (simp add: reads_back_def get_u64_def from_to_be_bytes)

lemma reads_back_option [reads_back]: "reads_back f g \<Longrightarrow> reads_back (put_option f) (get_option g)"
  by (simp add: reads_back_def put_option_def get_option_def split: option.splits)

lemma get_n_put: "reads_back f g \<Longrightarrow> length xs < n \<Longrightarrow> get_n g n (put_list f xs @ rest) = (xs, rest)"
proof (induction xs arbitrary: n)
  case Nil
  then show ?case by (cases n) (simp_all add: put_list_def)
next
  case (Cons x xs)
  then show ?case by (cases n) (simp_all add: put_list_def reads_back_def)
qed

lemma reads_back_list [reads_back]: "reads_back f g \<Longrightarrow> reads_back (put_list f) (get_list g)"
proof -
  have "length xs < length (put_list f xs @ rest)" for xs rest
    by (induction xs) (simp_all add: put_list_def)
  then show "reads_back f g \<Longrightarrow> ?thesis" by (simp add: reads_back_def get_list_def get_n_put[unfolded reads_back_def])
qed

definition demo_enc_data :: "unixfs_data \<Rightarrow> bytes" where
  "demo_enc_data d = to_be_bytes (ucast (d_type d)) @ put_option put_bytes (d_data d) @
     put_option to_be_bytes (d_filesize d) @ put_list to_be_bytes (d_blocksizes d) @
     put_option to_be_bytes (d_hash_type d) @ put_option to_be_bytes (d_fanout d)"

definition demo_dec_data :: "bytes \<Rightarrow> unixfs_data option" where
  "demo_dec_data bs =
     (let (t, bs) = get_u64 bs; (d, bs) = get_option get_bytes bs; (f, bs) = get_option get_u64 bs;
          (b, bs) = get_list get_u64 bs; (h, bs) = get_option get_u64 bs; (fo, bs) = get_option get_u64 bs
      in Some \<lparr>d_type = ucast t, d_data = d, d_filesize = f, d_blocksizes = b, d_hash_type = h, d_fanout = fo\<rparr>)"

definition demo_put_link :: "pb_link \<Rightarrow> bytes" where
  "demo_put_link l = put_option put_bytes (pl_hash l) @ put_option put_bytes (pl_name l) @ put_option to_be_bytes (pl_tsize l)"

definition demo_get_link :: "bytes \<Rightarrow> pb_link \<times> bytes" where
  "demo_get_link bs =
     (let (h, bs) = get_option get_bytes bs; (n, bs) = get_option get_bytes bs; (t, bs) = get_option get_u64 bs
      in (\<lparr>pl_hash = h, pl_name = n, pl_tsize = t\<rparr>, bs))"

definition demo_enc_node :: "pb_node \<Rightarrow> bytes" where
  "demo_enc_node n = put_list demo_put_link (pn_links n) @ put_option put_bytes (pn_data n)"

definition demo_dec_node :: "bytes \<Rightarrow> pb_node option" where
  "demo_dec_node bs =
     (let (ls, bs) = get_list demo_get_link bs; (d, bs) = get_option get_bytes bs
      in Some \<lparr>pn_links = ls, pn_data = d\<rparr>)"

definition demo_ufs :: "(u64 \<times> bytes) ufs_ops" where
  "demo_ufs = \<lparr>uc_codec = fst, uc_new = Pair, uc_to_bytes = (\<lambda>(c, d). to_be_bytes c @ d),
     uc_read = (\<lambda>bs. Some (get_u64 bs)), enc_data = demo_enc_data, dec_data = demo_dec_data,
     enc_node = demo_enc_node, dec_node = demo_dec_node\<rparr>"

lemma reads_backD: "reads_back f g \<Longrightarrow> g (f a @ rest) = (a, rest)" "reads_back f g \<Longrightarrow> g (f a) = (a, [])"
  by (simp_all add: reads_back_def) (metis append_Nil2)

lemma demo_data_back: "demo_dec_data (demo_enc_data d) = Some d"
proof -
  have "(ucast (ucast (d_type d) :: u64) :: 32 word) = d_type d"
    by (intro bit_word_eqI) (auto simp: bit_ucast_iff dest: bit_imp_le_length)
  then show ?thesis
    by (cases d) (simp add: demo_enc_data_def demo_dec_data_def reads_backD reads_back)
qed

lemma reads_back_link [reads_back]: "reads_back demo_put_link demo_get_link"
  unfolding reads_back_def
  by (intro allI) (simp add: demo_put_link_def demo_get_link_def reads_backD reads_back)

lemma demo_node_back: "demo_dec_node (demo_enc_node n) = Some n"
  by (cases n) (simp add: demo_enc_node_def demo_dec_node_def reads_backD reads_back)

lemma demo_ufs_laws: "ufs_laws demo_ufs"
  by (auto simp: ufs_laws_def demo_ufs_def demo_data_back demo_node_back reads_backD(1)[OF reads_back_u64])

definition demo_symlink :: node where
  "demo_symlink =
     (let inn = unixfs_data_default\<lparr>d_type := 4, d_data := Some [97]\<rparr>
      in \<lparr>n_outer = \<lparr>pn_links = [], pn_data = Some (demo_enc_data inn)\<rparr>, n_inner = inn\<rparr>)"

lemma demo_symlink_built: "built_node demo_ufs (Symlink demo_symlink)"
  by (simp add: built_node_def node_coherent_def names_valid_def demo_symlink_def demo_ufs_def Let_def
      DataType_try_from_def)

lemma demo_symlink_encodes: "\<exists>b. UnixfsNode_encode demo_ufs (Symlink demo_symlink) = Inr b"
proof -
  have "length (Node_encode demo_ufs demo_symlink) \<le> 100"
    by (simp add: demo_symlink_def Node_encode_def demo_ufs_def Let_def demo_enc_node_def demo_enc_data_def
        put_list_def put_option_def put_bytes_def unixfs_data_default_def)
  moreover have "Node_links demo_ufs demo_symlink = Inr []"
    by (simp add: Node_links_def Node_typ_def DataType_try_from_def demo_symlink_def PbLinks_def Let_def)
  ultimately show ?thesis
    by (simp add: UnixfsNode_encode_def Let_def collect_def DEFAULT_CHUNK_SIZE_LIMIT_def)
qed


text \<open>C34: a node that was decoded is of the variant its protobuf type names, so the accessors that convert the type field never
  panic on it, and the variant for raw nodes is never decoded.\<close>

theorem UnixfsNode_decode_typ:
  assumes "UnixfsNode_decode ops cid buf = Inr u"
  shows "case node_of u of
      None \<Rightarrow> u = Raw buf \<and> uc_codec ops cid = Codec_Raw
    | Some n \<Rightarrow> uc_codec ops cid \<noteq> Codec_Raw \<and> Node_typ n = Inr (the (UnixfsNode_typ u)) \<and>
        Node_links ops n = Inr (UnixfsNode_links ops u) \<and> UnixfsNode_typ u \<notin> {None, Some TRaw, Some TMetadata}"
  using assms
  by (auto simp: UnixfsNode_decode_def Let_def result_bind_def ok_or_def Node_typ_def Node_links_def
      UnixfsNode_links_def split: if_splits option.splits sum.splits data_type.splits)

theorem UnixfsNode_decode_typ_witness:
  "\<exists>b u. UnixfsNode_encode demo_ufs (Symlink demo_symlink) = Inr b \<and>
     UnixfsNode_decode demo_ufs (ub_cid b) (ub_data b) = Inr u \<and> Node_typ demo_symlink = Inr TSymlink"
proof -
  obtain b where b: "UnixfsNode_encode demo_ufs (Symlink demo_symlink) = Inr b"
    using demo_symlink_encodes by blast
  then have u: "UnixfsNode_decode demo_ufs (ub_cid b) (ub_data b) = Inr (Symlink demo_symlink)"
    unfolding encode_outer(1,2)[OF b, of demo_symlink, simplified]
    by (subst decode_outer[OF demo_ufs_laws])
      (use demo_symlink_built in \<open>auto simp: built_node_def demo_symlink_def Let_def DataType_try_from_def\<close>)
  from UnixfsNode_decode_typ[OF u] b u show ?thesis by auto
qed

end
