(* ===== verification/ContentReader.thy ===== *)
theory ContentReader
  imports Unixfs
begin

text \<open>
  Reading the content of a UnixFS file (\<open>iroh-unixfs/src/unixfs.rs\<close>: the reader, its seek and its poll). The
  content loader is a parameter \<open>load\<close>, and \<open>ready\<close> says which loads are finished at a poll. The pending
  load of a node is the content id that is loaded, or \<open>None\<close> once it was polled to its end. The stack of links has its top first.
\<close>

section \<open>Machine integers\<close>

definition u64_add :: "bool \<Rightarrow> u64 \<Rightarrow> u64 \<Rightarrow> u64 option" where
  "u64_add oc a b = (if unat a + unat b < 2 ^ 64 \<or> \<not> oc then Some (a + b) else None)"

definition i64_add :: "bool \<Rightarrow> int \<Rightarrow> int \<Rightarrow> int option" where
  "i64_add oc a b =
     (if - (2 ^ 63) \<le> a + b \<and> a + b < 2 ^ 63 then Some (a + b)
      else if oc then None else Some (sint (word_of_int (a + b) :: u64)))"

text \<open>\<open>n as i64\<close> and \<open>i as usize\<close>.\<close>

definition as_i64 :: "nat \<Rightarrow> int" where
  "as_i64 n = sint (of_nat n :: u64)"

definition as_usize :: "int \<Rightarrow> nat" where
  "as_usize i = unat (word_of_int i :: u64)"

section \<open>Finding the block of a position\<close>

text \<open>\<open>slice::binary_search\<close>: \<open>Inr\<close> is the index of a match, \<open>Inl\<close> the index to insert at.\<close>

function bsearch_loop :: "u64 list \<Rightarrow> u64 \<Rightarrow> nat \<Rightarrow> nat \<Rightarrow> nat + nat" where
  "bsearch_loop xs x left right =
     (if left < right
      then let mid = left + (right - left) div 2
           in if xs ! mid < x then bsearch_loop xs x (mid + 1) right
              else if x < xs ! mid then bsearch_loop xs x left mid
              else Inr mid
      else Inl left)"
  by pat_completeness auto

termination
  by (relation "measure (\<lambda>(xs, x, left, right). right - left)") auto

declare bsearch_loop.simps [simp del]

definition binary_search :: "u64 list \<Rightarrow> u64 \<Rightarrow> nat + nat" where
  "binary_search xs x = bsearch_loop xs x 0 (length xs)"

fun pivots :: "bool \<Rightarrow> u64 \<Rightarrow> u64 list \<Rightarrow> u64 list option" where
  "pivots oc state [] = Some []"
| "pivots oc state (x # xs) =
     Option.bind (u64_add oc state x) (\<lambda>state. map_option ((#) state) (pivots oc state xs))"

text \<open>\<open>None\<close> is a panic.\<close>

definition find_block :: "bool \<Rightarrow> 'cid unixfs_node \<Rightarrow> u64 \<Rightarrow> u64 \<Rightarrow> (u64 \<times> nat option) option" where
  "find_block oc u pos node_offset =
     Option.bind (pivots oc node_offset (UnixfsNode_blocksizes u)) (\<lambda>ps.
       let block_index = (case binary_search ps pos of Inr b \<Rightarrow> b + 1 | Inl b \<Rightarrow> b)
       in if block_index < length ps
          then Some (if block_index > 0 then ps ! (block_index - 1) else node_offset, Some block_index)
          else map_option (\<lambda>p. (p, None)) (arr_at ps (length ps - 1)))"

section \<open>The reader\<close>

datatype 'cid current_node =
    Outer
  | NextNodeRequested nat
  | Loaded nat nat "'cid unixfs_node"
  | Loading nat "'cid option"

record 'cid file_state =
  fs_pos :: nat
  fs_node :: "'cid current_node"
  fs_links :: "'cid link list list"

record 'cid content_reader =
  rd_root :: "'cid unixfs_node"
  rd_pos_max :: "nat option"
  rd_state :: "'cid file_state"

datatype poll = Pending | Ready "ufs_error + unit"

definition into_content_reader ::
  "'cid ufs_ops \<Rightarrow> nat option \<Rightarrow> 'cid unixfs_node \<Rightarrow> ufs_error + 'cid content_reader option" where
  "into_content_reader ops pos_max u =
     (if is_dir u then Inr None
      else result_bind (links_owned ops u) (\<lambda>ls.
           Inr (Some \<lparr>rd_root = u, rd_pos_max = pos_max, rd_state = \<lparr>fs_pos = 0, fs_node = Outer, fs_links = [ls]\<rparr>\<rparr>)))"

definition reader_size :: "'cid content_reader \<Rightarrow> u64 option" where
  "reader_size r = UnixfsNode_filesize (rd_root r)"

text \<open>The bytes that are put into a buffer with room for \<open>remaining\<close> bytes. The position advances by their number.\<close>

definition read_data_to_buf :: "bool \<Rightarrow> nat \<Rightarrow> nat option \<Rightarrow> bytes \<Rightarrow> nat \<Rightarrow> bytes option" where
  "read_data_to_buf oc pos pos_max data remaining =
     map_option (\<lambda>data_to_read. take (min (min data_to_read remaining) (length data)) data)
       (case pos_max of None \<Rightarrow> Some (length data) | Some m \<Rightarrow> usize_sub oc m pos)"

text \<open>\<open>&data[start..]\<close>.\<close>

definition slice_from :: "bytes \<Rightarrow> nat \<Rightarrow> bytes option" where
  "slice_from data start = (if start \<le> length data then Some (drop start data) else None)"

datatype 'cid read_step = Continue "'cid file_state" | Return poll bytes "'cid file_state"

definition read_slice ::
  "bool \<Rightarrow> nat option \<Rightarrow> nat \<Rightarrow> 'cid file_state \<Rightarrow> bytes \<Rightarrow> nat \<Rightarrow> (nat \<Rightarrow> 'cid current_node) \<Rightarrow> 'cid read_step" where
  "read_slice oc pos_max remaining st data start node' =
     (case Option.bind (slice_from data start) (\<lambda>d. read_data_to_buf oc (fs_pos st) pos_max d remaining) of
        None \<Rightarrow> Return (Ready (Inl Panicked)) [] st
      | Some bs \<Rightarrow>
          Return (Ready (Inr ())) bs (st\<lparr>fs_pos := fs_pos st + length bs, fs_node := node' (length bs)\<rparr>))"

text \<open>\<open>load_next_node\<close> drops the empty lists of links; \<open>None\<close> when no link is left.\<close>

fun load_next_node :: "'cid link list list \<Rightarrow> ('cid \<times> 'cid link list list) option" where
  "load_next_node [] = None"
| "load_next_node ([] # stack) = load_next_node stack"
| "load_next_node ((l # ls) # stack) = Some (l_cid l, ls # stack)"

definition load_node :: "'cid ufs_ops \<Rightarrow> ('cid \<Rightarrow> ufs_error + bytes) \<Rightarrow> 'cid \<Rightarrow> ufs_error + 'cid unixfs_node" where
  "load_node ops load cid = result_bind (load cid) (UnixfsNode_decode ops cid)"

text \<open>A node that was loaded for the position \<open>node_offset\<close>.\<close>

definition node_loaded ::
  "'cid ufs_ops \<Rightarrow> bool \<Rightarrow> nat \<Rightarrow> 'cid unixfs_node \<Rightarrow> 'cid file_state \<Rightarrow> 'cid read_step" where
  "node_loaded ops oc node_offset u st =
     (case links_owned ops u of
        Inl e \<Rightarrow> Return (Ready (Inl e)) [] (st\<lparr>fs_node := Loading node_offset None\<rparr>)
      | Inr links \<Rightarrow>
          if links \<noteq> []
          then (case find_block oc u (of_nat (fs_pos st)) (of_nat node_offset) of
                  None \<Rightarrow> Return (Ready (Inl Panicked)) [] st
                | Some (next_node_offset, block_index) \<Rightarrow>
                    Continue (st\<lparr>fs_node := NextNodeRequested (unat next_node_offset),
                      fs_links := (case block_index of
                                     None \<Rightarrow> fs_links st
                                   | Some i \<Rightarrow> drop i links # fs_links st)\<rparr>))
          else (case usize_sub oc (fs_pos st) node_offset of
                  None \<Rightarrow> Return (Ready (Inl Panicked)) [] st
                | Some node_pos \<Rightarrow> Continue (st\<lparr>fs_node := Loaded node_offset node_pos u\<rparr>)))"

text \<open>The data of a node inside the file that has no links.\<close>

definition read_loaded ::
  "bool \<Rightarrow> nat option \<Rightarrow> nat \<Rightarrow> nat \<Rightarrow> nat \<Rightarrow> 'cid unixfs_node \<Rightarrow> bytes \<Rightarrow> 'cid file_state \<Rightarrow> 'cid read_step" where
  "read_loaded oc pos_max remaining node_offset node_pos u data st =
     (if node_offset + length data \<le> fs_pos st
      then Continue (st\<lparr>fs_node := NextNodeRequested (node_offset + length data)\<rparr>)
      else read_slice oc pos_max remaining st data node_pos (\<lambda>n. Loaded node_offset (node_pos + n) u))"

definition file_step ::
  "'cid ufs_ops \<Rightarrow> bool \<Rightarrow> ('cid \<Rightarrow> ufs_error + bytes) \<Rightarrow> ('cid \<Rightarrow> bool) \<Rightarrow> node \<Rightarrow> nat option \<Rightarrow> nat \<Rightarrow>
   'cid file_state \<Rightarrow> 'cid read_step" where
  "file_step ops oc load ready root_node pos_max remaining st =
     (if (case pos_max of None \<Rightarrow> False | Some m \<Rightarrow> m \<le> fs_pos st) then Return (Ready (Inr ())) [] st
      else case fs_node st of
        Outer \<Rightarrow>
          (let data = (case d_data (n_inner root_node) of None \<Rightarrow> [] | Some d \<Rightarrow> d)
           in if pn_links (n_outer root_node) = []
              then read_slice oc pos_max remaining st data (fs_pos st) (\<lambda>_. Outer)
              else if fs_pos st < length data
              then read_slice oc pos_max remaining st data (fs_pos st) (\<lambda>_. Outer)
              else Continue (st\<lparr>fs_node := NextNodeRequested 0\<rparr>))
      | NextNodeRequested next_node_offset \<Rightarrow>
          (case load_next_node (fs_links st) of
             None \<Rightarrow> Return (Ready (Inr ())) [] (st\<lparr>fs_links := []\<rparr>)
           | Some (cid, stack) \<Rightarrow> Continue (st\<lparr>fs_node := Loading next_node_offset (Some cid), fs_links := stack\<rparr>))
      | Loading node_offset None \<Rightarrow> Return (Ready (Inl Panicked)) [] st
      | Loading node_offset (Some cid) \<Rightarrow>
          (if \<not> ready cid then Return Pending [] st
           else case load_node ops load cid of
                  Inl e \<Rightarrow> Return (Ready (Inl e)) [] (st\<lparr>fs_node := NextNodeRequested node_offset\<rparr>)
                | Inr u \<Rightarrow> node_loaded ops oc node_offset u st)
      | Loaded node_offset node_pos u \<Rightarrow>
          (case u of
             Raw data \<Rightarrow> read_loaded oc pos_max remaining node_offset node_pos u data st
           | File n \<Rightarrow>
               (case d_data (n_inner n) of
                  Some data \<Rightarrow> read_loaded oc pos_max remaining node_offset node_pos u data st
                | None \<Rightarrow> Continue (st\<lparr>fs_node := NextNodeRequested node_offset\<rparr>))
           | RawNode n \<Rightarrow>
               (case d_data (n_inner n) of
                  Some data \<Rightarrow> read_loaded oc pos_max remaining node_offset node_pos u data st
                | None \<Rightarrow> Continue (st\<lparr>fs_node := NextNodeRequested node_offset\<rparr>))
           | _ \<Rightarrow> Return (Ready (Inl InvalidNested)) [] st))"

text \<open>The loop; it is not known to end for an arbitrary loader.\<close>

partial_function (option) poll_read_file_at ::
  "'cid ufs_ops \<Rightarrow> bool \<Rightarrow> ('cid \<Rightarrow> ufs_error + bytes) \<Rightarrow> ('cid \<Rightarrow> bool) \<Rightarrow> node \<Rightarrow> nat option \<Rightarrow> nat \<Rightarrow>
   'cid file_state \<Rightarrow> (poll \<times> bytes \<times> 'cid file_state) option" where
  "poll_read_file_at ops oc load ready root_node pos_max remaining st =
     (case file_step ops oc load ready root_node pos_max remaining st of
        Return p bs st' \<Rightarrow> Some (p, bs, st')
      | Continue st' \<Rightarrow> poll_read_file_at ops oc load ready root_node pos_max remaining st')"

declare poll_read_file_at.simps [code]

fun step_result :: "'cid read_step \<Rightarrow> (poll \<times> bytes \<times> 'cid file_state) option" where
  "step_result (Return p bs st) = Some (p, bs, st)"
| "step_result (Continue st) = None"

definition poll_read ::
  "'cid ufs_ops \<Rightarrow> bool \<Rightarrow> ('cid \<Rightarrow> ufs_error + bytes) \<Rightarrow> ('cid \<Rightarrow> bool) \<Rightarrow> nat \<Rightarrow> 'cid content_reader \<Rightarrow>
   (poll \<times> bytes \<times> 'cid content_reader) option" where
  "poll_read ops oc load ready remaining r =
     (let st = rd_state r; keep = (\<lambda>_. fs_node st)
      in map_option (\<lambda>(p, bs, st'). (p, bs, r\<lparr>rd_state := st'\<rparr>))
           (case rd_root r of
              Raw data \<Rightarrow> step_result (read_slice oc (rd_pos_max r) remaining st data (fs_pos st) keep)
            | File n \<Rightarrow> poll_read_file_at ops oc load ready n (rd_pos_max r) remaining st
            | Symlink n \<Rightarrow>
                step_result (read_slice oc (rd_pos_max r) remaining st
                  (case d_data (n_inner n) of None \<Rightarrow> [] | Some d \<Rightarrow> d) (fs_pos st) keep)
            | _ \<Rightarrow> Some (Ready (Inl UnsupportedType), [], st)))"

section \<open>Seeking\<close>

datatype seek_from = SeekStart u64 | SeekEnd int | SeekCurrent int

definition seek_pos :: "bool \<Rightarrow> nat option \<Rightarrow> nat \<Rightarrow> seek_from \<Rightarrow> ufs_error + nat" where
  "seek_pos oc len_opt pos position =
     (case position of
        SeekStart offset \<Rightarrow>
          Inr (case len_opt of
                 None \<Rightarrow> unat offset
               | Some data_len \<Rightarrow> if data_len = 0 then 0 else min (unat offset) (data_len - 1))
      | SeekEnd offset \<Rightarrow>
          (case len_opt of
             None \<Rightarrow> Inl SeekUnknownLength
           | Some data_len \<Rightarrow>
               if data_len = 0 then Inr 0
               else result_bind (ok_or Panicked (i64_add oc (as_i64 data_len) offset)) (\<lambda>s.
                    let i = s smod as_i64 data_len
                    in Inr (as_usize (if i < 0 then i + as_i64 data_len else i))))
      | SeekCurrent offset \<Rightarrow>
          result_bind (ok_or Panicked (i64_add oc (as_i64 pos) offset)) (\<lambda>s.
            let i = max 0 s
            in case len_opt of
                 None \<Rightarrow> Inr (as_usize i)
               | Some data_len \<Rightarrow>
                   if data_len = 0 then Inr 0 else Inr (as_usize (min i (as_i64 data_len - 1)))))"

text \<open>The error of \<open>start_seek\<close>, and the reader after it.\<close>

definition start_seek ::
  "'cid ufs_ops \<Rightarrow> bool \<Rightarrow> seek_from \<Rightarrow> 'cid content_reader \<Rightarrow> (ufs_error + unit) \<times> 'cid content_reader" where
  "start_seek ops oc position r =
     (case links_owned ops (rd_root r) of
        Inl _ \<Rightarrow> (Inl Panicked, r)
      | Inr ls \<Rightarrow>
          let st = rd_state r\<lparr>fs_node := Outer, fs_links := [ls]\<rparr>
          in case seek_pos oc (UnixfsNode_size (rd_root r)) (fs_pos st) position of
               Inl e \<Rightarrow> (Inl e, r\<lparr>rd_state := st\<rparr>)
             | Inr p \<Rightarrow> (Inr (), r\<lparr>rd_state := st\<lparr>fs_pos := p\<rparr>\<rparr>))"

definition poll_complete :: "'cid content_reader \<Rightarrow> nat" where
  "poll_complete r = fs_pos (rd_state r)"

section \<open>The block of a position\<close>

lemma bsearch_loop_spec:
  assumes "sorted xs" and "left \<le> right" and "right \<le> length xs"
    and "\<And>i. i < left \<Longrightarrow> xs ! i < x" and "\<And>i. right \<le> i \<Longrightarrow> i < length xs \<Longrightarrow> x < xs ! i"
  shows "case bsearch_loop xs x left right of
      Inr b \<Rightarrow> b < length xs \<and> xs ! b = x
    | Inl b \<Rightarrow> b \<le> length xs \<and> (\<forall>i<b. xs ! i < x)"
  using assms
proof (induction xs x left right rule: bsearch_loop.induct)
  case (1 xs x left right)
  let ?mid = "left + (right - left) div 2"
  consider "\<not> left < right" | "left < right" "xs ! ?mid < x" | "left < right" "x < xs ! ?mid" | "left < right" "x = xs ! ?mid"
    by (metis linorder_neqE)
  then show ?case
  proof cases
    case 1
    with "1.prems" show ?thesis by (subst bsearch_loop.simps) simp
  next
    case 2
    have mid: "?mid < length xs" using 2(1) "1.prems"(3) by linarith
    have "xs ! i < x" if "i < ?mid + 1" for i
      using sorted_nth_mono[OF "1.prems"(1), of i ?mid] mid that 2(2) by (simp add: le_less_trans)
    with "1.IH"(1)[OF 2(1) refl 2(2)] "1.prems" 2 show ?thesis by (subst bsearch_loop.simps) (simp add: Let_def)
  next
    case 3
    have "x < xs ! i" if "?mid \<le> i" and "i < length xs" for i
      using sorted_nth_mono[OF "1.prems"(1) that] 3(2) by (simp add: less_le_trans)
    moreover have "\<not> xs ! ?mid < x" and "?mid \<le> length xs" using 3 "1.prems"(3) by auto
    ultimately show ?thesis using "1.IH"(2)[OF 3(1) refl _ 3(2)] "1.prems" 3
      by (subst bsearch_loop.simps) (simp add: Let_def)
  next
    case 4
    with "1.prems"(3) show ?thesis by (subst bsearch_loop.simps) (simp add: Let_def)
  qed
qed

lemma binary_search_spec:
  "sorted xs \<Longrightarrow> case binary_search xs x of
      Inr b \<Rightarrow> b < length xs \<and> xs ! b = x
    | Inl b \<Rightarrow> b \<le> length xs \<and> (\<forall>i<b. xs ! i < x)"
  unfolding binary_search_def by (rule bsearch_loop_spec) auto

lemma unat_u64: "n < 2 ^ 64 \<Longrightarrow> unat (of_nat n :: u64) = n"
  by (simp add: unsigned_of_nat take_bit_nat_eq_self)

text \<open>The end of the first \<open>i\<close> blocks.\<close>

definition block_end :: "u64 list \<Rightarrow> nat \<Rightarrow> nat" where
  "block_end bs i = sum_list (map unat (take i bs))"

lemma pivots_spec:
  assumes "unat st + block_end bs (length bs) < 2 ^ 64"
  shows "\<exists>ps. pivots oc st bs = Some ps \<and> length ps = length bs \<and>
    (\<forall>i < length bs. unat (ps ! i) = unat st + block_end bs (Suc i))"
  using assms
proof (induction bs arbitrary: st)
  case (Cons b bs)
  have le: "unat st + unat b + block_end bs (length bs) < 2 ^ 64" using Cons.prems by (simp add: block_end_def)
  then have sum: "unat (st + b) = unat st + unat b" by (intro unat_add_lem[THEN iffD1]) simp
  obtain ps where ps: "pivots oc (st + b) bs = Some ps" "length ps = length bs"
    "\<forall>i < length bs. unat (ps ! i) = unat (st + b) + block_end bs (Suc i)"
    using Cons.IH[of "st + b"] le sum by auto
  have "unat (((st + b) # ps) ! i) = unat st + block_end (b # bs) (Suc i)" if "i < length (b # bs)" for i
    using that ps(3) sum by (cases i) (simp_all add: block_end_def)
  moreover have "u64_add oc st b = Some (st + b)" using le by (simp add: u64_add_def)
  ultimately have "pivots oc st (b # bs) = Some ((st + b) # ps) \<and> length ((st + b) # ps) = length (b # bs) \<and>
      (\<forall>i < length (b # bs). unat (((st + b) # ps) ! i) = unat st + block_end (b # bs) (Suc i))"
    using ps(1,2) by (simp only: pivots.simps bind.bind_lunit option.map length_Cons) simp
  then show ?case by (rule exI)
qed simp

lemma block_end_mono: "i \<le> j \<Longrightarrow> block_end bs i \<le> block_end bs j"
proof -
  assume "i \<le> j"
  then have "take j bs = take i bs @ take (j - i) (drop i bs)" by (metis le_add_diff_inverse take_add)
  then show ?thesis by (simp add: block_end_def)
qed

text \<open>The blocks that end at or before the position are skipped.\<close>

lemma find_block_spec:
  fixes u :: "'cid unixfs_node"
  defines "bs \<equiv> UnixfsNode_blocksizes u"
  assumes "bs \<noteq> []" and "off + block_end bs (length bs) < 2 ^ 64" and "off \<le> pos" and "pos < 2 ^ 64"
  shows "\<exists>i \<le> length bs. off + block_end bs i \<le> pos \<and>
    find_block oc u (of_nat pos) (of_nat off) =
      Some (of_nat (off + block_end bs i), if i < length bs then Some i else None)"
proof -
  let ?pos = "of_nat pos :: u64" and ?off = "of_nat off :: u64"
  have u: "unat ?pos = pos" "unat ?off = off"
    using assms(3,4,5) by (simp_all add: unat_u64)
  obtain ps where ps: "pivots oc ?off bs = Some ps" "length ps = length bs"
    "\<And>i. i < length bs \<Longrightarrow> unat (ps ! i) = off + block_end bs (Suc i)"
    using pivots_spec[of ?off bs oc] assms(3) u by auto
  have sorted: "sorted ps"
    unfolding sorted_iff_nth_mono by (auto simp: word_le_nat_alt ps block_end_mono)
  define i where "i = (case binary_search ps ?pos of Inr b \<Rightarrow> b + 1 | Inl b \<Rightarrow> b)"
  have i: "i \<le> length bs" and le: "i > 0 \<Longrightarrow> ps ! (i - 1) \<le> ?pos"
    using binary_search_spec[OF sorted, of ?pos] by (auto simp: i_def ps(2) less_imp_le split: sum.splits)
  have piv: "ps ! (i - 1) = of_nat (off + block_end bs i)" if "i > 0"
    using word_of_unat[OF ps(3)[of "i - 1"]] that i by simp
  have pos: "off + block_end bs i \<le> pos"
  proof (cases "i > 0")
    case True
    have "off + block_end bs i = unat (ps ! (i - 1))" using ps(3)[of "i - 1"] True i by simp
    also have "\<dots> \<le> pos" using le[OF True] u by (simp add: word_le_nat_alt)
    finally show ?thesis .
  qed (use assms(4) in \<open>simp add: block_end_def\<close>)
  have fb: "find_block oc u ?pos ?off =
      (if i < length ps then Some (if i > 0 then ps ! (i - 1) else ?off, Some i)
       else map_option (\<lambda>p. (p, None)) (arr_at ps (length ps - 1)))"
    unfolding find_block_def bs_def[symmetric] ps(1) bind.bind_lunit Let_def i_def[symmetric] by (rule refl)
  have "find_block oc u ?pos ?off = Some (of_nat (off + block_end bs i), if i < length bs then Some i else None)"
  proof (cases "i = 0")
    case True
    then show ?thesis using fb ps(2) \<open>bs \<noteq> []\<close> by (simp add: block_end_def)
  next
    case False
    then have "ps ! (i - 1) = of_nat (off + block_end bs i)" using piv by simp
    moreover have "i = length bs" if "\<not> i < length bs" using that i by simp
    ultimately show ?thesis using fb ps(2) False \<open>bs \<noteq> []\<close>
      by (auto simp: arr_at_def)
  qed
  then show ?thesis using i pos by (intro exI[of _ i] conjI)
qed

section \<open>Files in a block store\<close>

text \<open>
  \<open>file_at cid c k\<close>: the node at \<open>cid\<close> is the root of a file with content \<open>c\<close> and \<open>k\<close> nodes; the block sizes of
  an inner node are the lengths of its parts. \<open>links_at\<close> is the same for a list of links.
\<close>

definition data_or_empty :: "node \<Rightarrow> bytes" where
  "data_or_empty n = (case d_data (n_inner n) of None \<Rightarrow> [] | Some d \<Rightarrow> d)"

inductive file_at :: "'cid ufs_ops \<Rightarrow> ('cid \<Rightarrow> ufs_error + bytes) \<Rightarrow> 'cid \<Rightarrow> bytes \<Rightarrow> nat \<Rightarrow> bool"
  and links_at :: "'cid ufs_ops \<Rightarrow> ('cid \<Rightarrow> ufs_error + bytes) \<Rightarrow> 'cid link list \<Rightarrow> bytes list \<Rightarrow> nat \<Rightarrow> bool"
  for ops load where
  raw_at: "load_node ops load cid = Inr (Raw d) \<Longrightarrow> file_at ops load cid d 1"
| leaf_at: "load_node ops load cid = Inr (File n) \<Longrightarrow> pn_links (n_outer n) = [] \<Longrightarrow>
    file_at ops load cid (data_or_empty n) 1"
| stem_at: "load_node ops load cid = Inr (File n) \<Longrightarrow> links_owned ops (File n) = Inr ls \<Longrightarrow> ls \<noteq> [] \<Longrightarrow>
    links_at ops load ls cs k \<Longrightarrow> d_blocksizes (n_inner n) = map (\<lambda>c. of_nat (length c)) cs \<Longrightarrow>
    file_at ops load cid (concat cs) (Suc k)"
| links_Nil: "links_at ops load [] [] 0"
| links_Cons: "file_at ops load (l_cid l) c k \<Longrightarrow> links_at ops load ls cs m \<Longrightarrow>
    links_at ops load (l # ls) (c # cs) (k + m)"

inductive_cases links_NilE: "links_at ops load [] cs k"
inductive_cases links_ConsE: "links_at ops load (l # ls) cs k"
inductive_cases file_atE: "file_at ops load cid c k"

lemma links_at_length: "links_at ops load ls cs k \<Longrightarrow> length cs = length ls"
  by (induction ls arbitrary: cs k) (auto elim: links_NilE links_ConsE)

lemma links_at_append:
  "links_at ops load as cs k \<Longrightarrow> links_at ops load bs ds m \<Longrightarrow> links_at ops load (as @ bs) (cs @ ds) (k + m)"
proof (induction as arbitrary: cs k)
  case Nil
  then show ?case by (auto elim: links_NilE)
next
  case (Cons l as)
  from Cons.prems(1) show ?case
    by (rule links_ConsE) (use Cons.IH Cons.prems(2) in \<open>auto simp: add.assoc intro: links_Cons\<close>)
qed

lemma links_at_drop: "links_at ops load ls cs k \<Longrightarrow> \<exists>m \<le> k. links_at ops load (drop i ls) (drop i cs) m"
proof (induction i arbitrary: ls cs k)
  case (Suc i)
  show ?case
  proof (cases ls)
    case Nil
    then show ?thesis using Suc.prems links_at_length[OF Suc.prems] by auto
  next
    case (Cons l ls')
    from Suc.prems[unfolded Cons] show ?thesis
      by (rule links_ConsE) (use Suc.IH Cons in \<open>auto, metis trans_le_add2\<close>)
  qed
qed auto

lemma load_next_node_None: "load_next_node stack = None \<Longrightarrow> concat stack = []"
  by (induction stack rule: load_next_node.induct) auto

lemma load_next_node_Some: "load_next_node stack = Some (cid, stack') \<Longrightarrow> \<exists>l. concat stack = l # concat stack' \<and> cid = l_cid l"
  by (induction stack rule: load_next_node.induct) auto

section \<open>The state of a reader\<close>

text \<open>
  The invariant of a reader at some node of the file: what follows the offset of the node is the rest of the
  content, and the position is not before it. The last argument bounds the steps of the loop.
\<close>

definition leaf_data :: "'cid unixfs_node \<Rightarrow> bytes option" where
  "leaf_data u =
     (case u of Raw d \<Rightarrow> Some d | File n \<Rightarrow> if pn_links (n_outer n) = [] then Some (data_or_empty n) else None | _ \<Rightarrow> None)"

fun node_inv ::
  "'cid ufs_ops \<Rightarrow> ('cid \<Rightarrow> ufs_error + bytes) \<Rightarrow> bytes \<Rightarrow> nat \<Rightarrow> 'cid link list \<Rightarrow> 'cid current_node \<Rightarrow> nat \<Rightarrow> bool" where
  "node_inv ops load content pos ls Outer m \<longleftrightarrow> False"
| "node_inv ops load content pos ls (NextNodeRequested off) m \<longleftrightarrow>
     (\<exists>cs k. links_at ops load ls cs k \<and> m = 3 * k + 1 \<and> drop off content = concat cs \<and> off \<le> pos \<and> off \<le> length content)"
| "node_inv ops load content pos ls (Loading off cid) m \<longleftrightarrow>
     (\<exists>cid' c i cs k. cid = Some cid' \<and> file_at ops load cid' c i \<and> links_at ops load ls cs k \<and> m = 3 * (i + k) \<and>
        drop off content = c @ concat cs \<and> off \<le> pos \<and> off \<le> length content)"
| "node_inv ops load content pos ls (Loaded off np u) m \<longleftrightarrow>
     (\<exists>d cs k. leaf_data u = Some d \<and> links_at ops load ls cs k \<and> m = 3 * k + 2 \<and>
        drop off content = d @ concat cs \<and> off \<le> pos \<and> off \<le> length content \<and> np = pos - off)"

definition file_inv ::
  "'cid ufs_ops \<Rightarrow> ('cid \<Rightarrow> ufs_error + bytes) \<Rightarrow> node \<Rightarrow> bytes \<Rightarrow> 'cid file_state \<Rightarrow> nat \<Rightarrow> bool" where
  "file_inv ops load n content st m \<longleftrightarrow>
     fs_pos st < 2 ^ 64 \<and> length content < 2 ^ 64 \<and>
     (if fs_node st = Outer
      then if pn_links (n_outer n) = [] then content = data_or_empty n \<and> fs_pos st \<le> length content
           else data_or_empty n = [] \<and>
             (\<exists>cs k. links_at ops load (concat (fs_links st)) cs k \<and> content = concat cs \<and> m = 3 * k + 2)
      else node_inv ops load content (fs_pos st) (concat (fs_links st)) (fs_node st) m)"

text \<open>
  What a poll promises: bytes of the content from the position on, at most as many as fit, and none only if
  nothing fits, at the end of the content or of the clip, or while a load is pending.
\<close>

definition read_ok :: "bytes \<Rightarrow> nat option \<Rightarrow> nat \<Rightarrow> ('cid \<Rightarrow> bool) \<Rightarrow> nat \<Rightarrow> poll \<Rightarrow> bytes \<Rightarrow> bool" where
  "read_ok content pos_max remaining ready pos p bs \<longleftrightarrow>
     length bs \<le> remaining \<and> bs = take (length bs) (drop pos content) \<and>
     (case pos_max of None \<Rightarrow> True | Some m \<Rightarrow> length bs \<le> m - pos) \<and>
     (p = Pending \<and> bs = [] \<and> (\<exists>c. \<not> ready c) \<or>
      p = Ready (Inr ()) \<and>
        (bs = [] \<longrightarrow> remaining = 0 \<or> length content \<le> pos \<or> (\<exists>m. pos_max = Some m \<and> m \<le> pos)))"

lemma read_okD:
  assumes "read_ok content pos_max remaining ready pos p bs"
  shows "bs \<noteq> [] \<Longrightarrow> pos + length bs \<le> length content"
proof -
  have "length bs = length (take (length bs) (drop pos content))" using assms unfolding read_ok_def by metis
  then have "length bs \<le> length content - pos" by simp
  then show "bs \<noteq> [] \<Longrightarrow> pos + length bs \<le> length content" by (cases bs) auto
qed

lemma read_slice_ok:
  assumes "start \<le> length data" and "drop (fs_pos st) content = drop start data @ rest"
    and "\<And>m. pos_max = Some m \<Longrightarrow> fs_pos st \<le> m"
    and "drop start data = [] \<Longrightarrow> length content \<le> fs_pos st"
  shows "\<exists>bs. read_slice oc pos_max remaining st data start node' =
      Return (Ready (Inr ())) bs (st\<lparr>fs_pos := fs_pos st + length bs, fs_node := node' (length bs)\<rparr>) \<and>
    read_ok content pos_max remaining ready (fs_pos st) (Ready (Inr ())) bs"
proof -
  let ?d = "drop start data"
  define lim where "lim = (case pos_max of None \<Rightarrow> length ?d | Some m \<Rightarrow> m - fs_pos st)"
  let ?bs = "take (min (min lim remaining) (length ?d)) ?d"
  have "read_data_to_buf oc (fs_pos st) pos_max ?d remaining = Some ?bs"
    using assms(3) by (auto simp: read_data_to_buf_def lim_def split: option.splits)
  then have "read_slice oc pos_max remaining st data start node' =
      Return (Ready (Inr ())) ?bs (st\<lparr>fs_pos := fs_pos st + length ?bs, fs_node := node' (length ?bs)\<rparr>)"
    using assms(1) by (simp add: read_slice_def slice_from_def)
  moreover have "read_ok content pos_max remaining ready (fs_pos st) (Ready (Inr ())) ?bs"
    unfolding read_ok_def assms(2) using assms(4) by (auto simp: lim_def min_def split: option.splits if_splits)
  ultimately show ?thesis by blast
qed

text \<open>One step of the loop keeps the invariant and comes closer to its end.\<close>

definition step_ok ::
  "'cid ufs_ops \<Rightarrow> ('cid \<Rightarrow> ufs_error + bytes) \<Rightarrow> ('cid \<Rightarrow> bool) \<Rightarrow> node \<Rightarrow> bytes \<Rightarrow> nat option \<Rightarrow> nat \<Rightarrow>
   'cid file_state \<Rightarrow> nat \<Rightarrow> 'cid read_step \<Rightarrow> bool" where
  "step_ok ops load ready n content pos_max remaining st m r \<longleftrightarrow>
     (case r of
        Continue st' \<Rightarrow> fs_pos st' = fs_pos st \<and> (\<exists>m' < m. file_inv ops load n content st' m')
      | Return p bs st' \<Rightarrow>
          fs_pos st' = fs_pos st + length bs \<and> read_ok content pos_max remaining ready (fs_pos st) p bs \<and>
          (\<exists>m'. file_inv ops load n content st' m'))"

lemma file_step_Outer:
  assumes "file_inv ops load n content st m" and "fs_node st = Outer"
    and "\<And>m. pos_max = Some m \<Longrightarrow> fs_pos st < m"
  shows "step_ok ops load ready n content pos_max remaining st m (file_step ops oc load ready n pos_max remaining st)"
proof -
  have nm: "\<not> (case pos_max of None \<Rightarrow> False | Some m \<Rightarrow> m \<le> fs_pos st)"
    using assms(3) by (auto split: option.splits)
  show ?thesis
  proof (cases "pn_links (n_outer n) = []")
    case True
    then have c: "content = data_or_empty n" "fs_pos st \<le> length content" "length content < 2 ^ 64"
      using assms(1,2) by (auto simp: file_inv_def)
    obtain bs where bs: "read_slice oc pos_max remaining st (data_or_empty n) (fs_pos st) (\<lambda>_. Outer) =
        Return (Ready (Inr ())) bs (st\<lparr>fs_pos := fs_pos st + length bs, fs_node := Outer\<rparr>)"
      and ok: "read_ok content pos_max remaining ready (fs_pos st) (Ready (Inr ())) bs"
      using read_slice_ok[of "fs_pos st" "data_or_empty n" st content "[]" pos_max oc remaining "\<lambda>_. Outer" ready] c assms(3)
      by (auto simp: less_imp_le)
    have "fs_pos st + length bs \<le> length content" using read_okD[OF ok] c(2) by (cases bs) auto
    moreover have "file_step ops oc load ready n pos_max remaining st =
        Return (Ready (Inr ())) bs (st\<lparr>fs_pos := fs_pos st + length bs, fs_node := Outer\<rparr>)"
      using bs True nm assms(2) unfolding file_step_def data_or_empty_def by (simp add: Let_def)
    ultimately show ?thesis using ok c True by (auto simp: step_ok_def file_inv_def)
  next
    case False
    then have inv: "data_or_empty n = []" "\<exists>cs k. links_at ops load (concat (fs_links st)) cs k \<and> content = concat cs \<and> m = 3 * k + 2"
      "fs_pos st < 2 ^ 64" "length content < 2 ^ 64"
      using assms(1,2) by (auto simp: file_inv_def)
    then have "file_step ops oc load ready n pos_max remaining st = Continue (st\<lparr>fs_node := NextNodeRequested 0\<rparr>)"
      using False nm assms(2) unfolding file_step_def data_or_empty_def by (simp add: Let_def)
    then show ?thesis using inv by (auto simp: step_ok_def file_inv_def)
  qed
qed

lemma file_step_Next:
  assumes "file_inv ops load n content st m" and "fs_node st = NextNodeRequested off"
    and "\<And>m. pos_max = Some m \<Longrightarrow> fs_pos st < m"
  shows "step_ok ops load ready n content pos_max remaining st m (file_step ops oc load ready n pos_max remaining st)"
proof -
  have nm: "\<not> (case pos_max of None \<Rightarrow> False | Some m \<Rightarrow> m \<le> fs_pos st)"
    using assms(3) by (auto split: option.splits)
  from assms(1,2) obtain cs k where inv: "links_at ops load (concat (fs_links st)) cs k" "m = 3 * k + 1"
    "drop off content = concat cs" "off \<le> fs_pos st" "off \<le> length content" "fs_pos st < 2 ^ 64" "length content < 2 ^ 64"
    by (auto simp: file_inv_def)
  show ?thesis
  proof (cases "load_next_node (fs_links st)")
    case None
    then have "cs = []" using inv(1) load_next_node_None[OF None] by (auto elim: links_NilE)
    then have "length content = off" using inv(3,5) by simp
    moreover have "file_step ops oc load ready n pos_max remaining st = Return (Ready (Inr ())) [] (st\<lparr>fs_links := []\<rparr>)"
      using None nm assms(2) by (simp add: file_step_def)
    moreover have "file_inv ops load n content (st\<lparr>fs_links := []\<rparr>) 1"
      using inv assms(2) \<open>length content = off\<close> links_Nil[of ops load] by (auto simp: file_inv_def)
    ultimately show ?thesis using inv assms(2)
      by (auto simp: step_ok_def read_ok_def split: option.splits)
  next
    case (Some r)
    obtain cid stack where r: "r = (cid, stack)" by (cases r)
    obtain l where l: "concat (fs_links st) = l # concat stack" "cid = l_cid l"
      using load_next_node_Some[OF Some[unfolded r]] by blast
    from inv(1)[unfolded l(1)] obtain c i cs' k' where c: "cs = c # cs'" "k = i + k'" "file_at ops load cid c i"
      "links_at ops load (concat stack) cs' k'"
      by (rule links_ConsE) (use l(2) in blast)
    have "file_step ops oc load ready n pos_max remaining st =
        Continue (st\<lparr>fs_node := Loading off (Some cid), fs_links := stack\<rparr>)"
      using Some nm assms(2) by (simp add: file_step_def r)
    moreover have "file_inv ops load n content (st\<lparr>fs_node := Loading off (Some cid), fs_links := stack\<rparr>) (3 * (i + k'))"
      using inv c by (simp add: file_inv_def) blast
    ultimately show ?thesis using inv(2) c(2) by (auto simp: step_ok_def intro!: exI[of _ "3 * (i + k')"])
  qed
qed

lemma links_owned_empty: "links_owned ops (File n) = Inr ls \<Longrightarrow> ls = [] \<longleftrightarrow> pn_links (n_outer n) = []"
  by (auto simp: links_owned_def UnixfsNode_links_def PbLinks_def collect_Inr_iff)

lemma block_end_contents:
  "length (concat cs) < 2 ^ 64 \<Longrightarrow> block_end (map (\<lambda>c. of_nat (length c)) cs) i = length (concat (take i cs))"
proof (induction cs arbitrary: i)
  case (Cons c cs)
  then show ?case by (cases i) (simp_all add: block_end_def unat_u64)
qed (simp add: block_end_def)

lemma node_loaded_leaf:
  assumes "leaf_data u = Some d"
  shows "links_owned ops u = Inr []"
  using assms
  by (cases u) (auto simp: leaf_data_def links_owned_def UnixfsNode_links_def PbLinks_def collect_def split: if_splits)

text \<open>A node inside the file was loaded: the blocks before the position are skipped.\<close>

lemma node_loaded_stem:
  assumes "links_owned ops (File n') = Inr ls" and "ls \<noteq> []" and "links_at ops load ls cs k"
    and "d_blocksizes (n_inner n') = map (\<lambda>c. of_nat (length c)) cs"
    and "drop off content = concat cs @ rest" and "off \<le> fs_pos st" and "off \<le> length content"
    and "fs_pos st < 2 ^ 64" and "length content < 2 ^ 64"
  shows "\<exists>i off' stack. off' = off + length (concat (take i cs)) \<and> off' \<le> fs_pos st \<and>
    concat stack = drop i ls @ concat (fs_links st) \<and>
    node_loaded ops oc off (File n' :: 'cid unixfs_node) st =
      Continue (st\<lparr>fs_node := NextNodeRequested off', fs_links := stack\<rparr>)"
proof -
  let ?bs = "UnixfsNode_blocksizes (File n' :: 'cid unixfs_node)"
  have bs: "?bs = map (\<lambda>c. of_nat (length c)) cs" using assms(4) by (simp add: UnixfsNode_blocksizes_def)
  have len: "length ls = length cs" using links_at_length[OF assms(3)] by simp
  have "length content = off + length (concat cs) + length rest"
    using arg_cong[OF assms(5), of length] assms(7) by simp
  then have small: "off + length (concat cs) < 2 ^ 64" using assms(9) by linarith
  then have be: "block_end ?bs i = length (concat (take i cs))" for i
    unfolding bs using block_end_contents[of cs] by simp
  have "?bs \<noteq> []" "off + block_end ?bs (length ?bs) < 2 ^ 64"
    unfolding be using assms(2) len small by (auto simp: bs)
  from find_block_spec[OF this assms(6,8), of oc, unfolded be] obtain i where i: "i \<le> length ?bs"
    "off + length (concat (take i cs)) \<le> fs_pos st"
    "find_block oc (File n' :: 'cid unixfs_node) (of_nat (fs_pos st)) (of_nat off) =
      Some (of_nat (off + length (concat (take i cs))), if i < length ?bs then Some i else None)"
    by blast
  have "off + length (concat (take i cs)) < 2 ^ 64" using i(2) assms(8) by linarith
  then show ?thesis using i assms(1,2) len
    by (intro exI[of _ i] exI[of _ "off + length (concat (take i cs))"]
        exI[of _ "if i < length ls then drop i ls # fs_links st else fs_links st"])
      (simp add: node_loaded_def bs unat_u64 del: of_nat_add)
qed

lemma file_step_Loading:
  assumes "file_inv ops load n content st m" and "fs_node st = Loading off r"
    and "\<And>m. pos_max = Some m \<Longrightarrow> fs_pos st < m"
  shows "step_ok ops load ready n content pos_max remaining st m (file_step ops oc load ready n pos_max remaining st)"
proof -
  have nm: "\<not> (case pos_max of None \<Rightarrow> False | Some m \<Rightarrow> m \<le> fs_pos st)"
    using assms(3) by (auto split: option.splits)
  from assms(1,2) obtain cid c i cs k where r: "r = Some cid" and at: "file_at ops load cid c i"
    and inv: "links_at ops load (concat (fs_links st)) cs k" "m = 3 * (i + k)"
      "drop off content = c @ concat cs" "off \<le> fs_pos st" "off \<le> length content"
    and small: "fs_pos st < 2 ^ 64" "length content < 2 ^ 64"
    by (auto simp: file_inv_def)
  note st = assms(2)[unfolded r]
  show ?thesis
  proof (cases "ready cid")
    case False
    then have "file_step ops oc load ready n pos_max remaining st = Return Pending [] st"
      using nm st by (simp add: file_step_def)
    then show ?thesis using False assms(1) by (auto simp: step_ok_def read_ok_def split: option.splits)
  next
    case True
    have step: "file_step ops oc load ready n pos_max remaining st = node_loaded ops oc off u st"
      if "load_node ops load cid = Inr u" for u
      using nm st True that by (simp add: file_step_def)
    have leaf: ?thesis if u: "load_node ops load cid = Inr u" "leaf_data u = Some c" "i = Suc 0" for u
    proof -
      have "node_loaded ops oc off u st = Continue (st\<lparr>fs_node := Loaded off (fs_pos st - off) u\<rparr>)"
        using inv(4) node_loaded_leaf[OF u(2)] by (simp add: node_loaded_def)
      then show ?thesis unfolding step[OF u(1)] using inv small u(2,3)
        by (auto simp: step_ok_def file_inv_def intro!: exI[of _ "3 * k + 2"])
    qed
    from at show ?thesis
    proof (rule file_atE)
      assume "i = Suc 0" "load_node ops load cid = Inr (Raw c)"
      then show ?thesis by (intro leaf[of "Raw c"]) (auto simp: leaf_data_def)
    next
      fix n' assume "c = data_or_empty n'" "i = Suc 0" "load_node ops load cid = Inr (File n')" "pn_links (n_outer n') = []"
      then show ?thesis by (intro leaf[of "File n'"]) (auto simp: leaf_data_def)
    next
      fix n' ls ds k' assume stem: "c = concat ds" "i = Suc k'" "load_node ops load cid = Inr (File n')"
        "links_owned ops (File n') = Inr ls" "ls \<noteq> []" "links_at ops load ls ds k'"
        "d_blocksizes (n_inner n') = map (\<lambda>c. of_nat (length c)) ds"
      obtain j off' stack where j: "off' = off + length (concat (take j ds))" "off' \<le> fs_pos st"
        "concat stack = drop j ls @ concat (fs_links st)"
        "node_loaded ops oc off (File n') st = Continue (st\<lparr>fs_node := NextNodeRequested off', fs_links := stack\<rparr>)"
        using node_loaded_stem[OF stem(4-7) inv(3)[unfolded stem(1)] inv(4,5) small] by blast
      obtain q where q: "q \<le> k'" "links_at ops load (drop j ls) (drop j ds) q" using links_at_drop[OF stem(6)] by blast
      have split: "concat ds = concat (take j ds) @ concat (drop j ds)" by (metis append_take_drop_id concat_append)
      have "drop off' content = concat (drop j ds) @ concat cs"
        using inv(3) unfolding stem(1) j(1) add.commute[of off] drop_drop[symmetric] split by simp
      moreover have "length content = off + length c + length (concat cs)"
        using arg_cong[OF inv(3), of length] inv(5) by simp
      then have "off' \<le> length content" unfolding j(1) stem(1) split by simp
      moreover have "links_at ops load (concat stack) (drop j ds @ cs) (q + k)"
        unfolding j(3) by (rule links_at_append[OF q(2) inv(1)])
      moreover have "concat (drop j ds @ cs) = concat (drop j ds) @ concat cs" by simp
      ultimately have "node_inv ops load content (fs_pos st) (concat stack) (NextNodeRequested off') (3 * (q + k) + 1)"
        using j(2) unfolding node_inv.simps by metis
      then have "file_inv ops load n content (st\<lparr>fs_node := NextNodeRequested off', fs_links := stack\<rparr>) (3 * (q + k) + 1)"
        using small by (simp add: file_inv_def)
      moreover have "3 * (q + k) + 1 < m" using q(1) inv(2) stem(2) by simp
      ultimately show ?thesis unfolding step[OF stem(3)] j(4) by (auto simp: step_ok_def)
    qed
  qed
qed

lemma file_step_Loaded:
  assumes "file_inv ops load n content st m" and "fs_node st = Loaded off np u"
    and "\<And>m. pos_max = Some m \<Longrightarrow> fs_pos st < m"
  shows "step_ok ops load ready n content pos_max remaining st m (file_step ops oc load ready n pos_max remaining st)"
proof -
  have nm: "\<not> (case pos_max of None \<Rightarrow> False | Some m \<Rightarrow> m \<le> fs_pos st)"
    using assms(3) by (auto split: option.splits)
  from assms(1,2) obtain d cs k where leaf: "leaf_data u = Some d"
    and inv: "links_at ops load (concat (fs_links st)) cs k" "m = 3 * k + 2"
      "drop off content = d @ concat cs" "off \<le> fs_pos st" "off \<le> length content" "np = fs_pos st - off"
    and small: "fs_pos st < 2 ^ 64" "length content < 2 ^ 64"
    by (auto simp: file_inv_def)
  have len: "length content = off + length d + length (concat cs)"
    using arg_cong[OF inv(3), of length] inv(5) by simp
  have go: "step_ok ops load ready n content pos_max remaining st m (Continue (st\<lparr>fs_node := NextNodeRequested (off + length d)\<rparr>))"
    if "off + length d \<le> fs_pos st"
  proof -
    have "drop (off + length d) content = concat cs"
      unfolding add.commute[of off] drop_drop[symmetric] inv(3) by simp
    then show ?thesis using that inv small len by (auto simp: step_ok_def file_inv_def intro!: exI[of _ "3 * k + 1"])
  qed
  have rd: "step_ok ops load ready n content pos_max remaining st m (read_loaded oc pos_max remaining off np u d st)"
  proof (cases "off + length d \<le> fs_pos st")
    case True
    then show ?thesis using go by (simp add: read_loaded_def)
  next
    case False
    have "drop (fs_pos st) content = drop np d @ concat cs"
      using inv(3,4,6) False drop_drop[of np off content] by (simp add: drop_append)
    from read_slice_ok[OF _ this, of pos_max oc remaining "\<lambda>b. Loaded off (np + b) u" ready] obtain bs where
      bs: "read_slice oc pos_max remaining st d np (\<lambda>b. Loaded off (np + b) u) =
        Return (Ready (Inr ())) bs (st\<lparr>fs_pos := fs_pos st + length bs, fs_node := Loaded off (np + length bs) u\<rparr>)"
      and ok: "read_ok content pos_max remaining ready (fs_pos st) (Ready (Inr ())) bs"
      using False inv(4,6) assms(3) by (auto simp: less_imp_le)
    have "fs_pos st + length bs < 2 ^ 64" using read_okD[OF ok] small by (cases bs) auto
    then show ?thesis using bs ok inv small leaf False
      by (auto simp: step_ok_def file_inv_def read_loaded_def intro!: exI[of _ m])
  qed
  from leaf consider "u = Raw d" | n' where "u = File n'" "d = data_or_empty n'"
    by (cases u) (auto simp: leaf_data_def split: if_splits)
  then show ?thesis
  proof cases
    case 1
    then have "file_step ops oc load ready n pos_max remaining st = read_loaded oc pos_max remaining off np u d st"
      using nm assms(2) by (simp add: file_step_def)
    then show ?thesis using rd by simp
  next
    case (2 n')
    show ?thesis
    proof (cases "d_data (n_inner n')")
      case None
      then have "d = []" using 2 by (simp add: data_or_empty_def)
      moreover have "file_step ops oc load ready n pos_max remaining st = Continue (st\<lparr>fs_node := NextNodeRequested off\<rparr>)"
        using nm assms(2) 2 None by (simp add: file_step_def)
      ultimately show ?thesis using go inv(4) by simp
    next
      case (Some d')
      then have "file_step ops oc load ready n pos_max remaining st = read_loaded oc pos_max remaining off np u d st"
        using nm assms(2) 2 by (simp add: file_step_def data_or_empty_def)
      then show ?thesis using rd by simp
    qed
  qed
qed

section \<open>Polling\<close>

lemma file_step_ok:
  assumes "file_inv ops load n content st m"
  shows "step_ok ops load ready n content pos_max remaining st m (file_step ops oc load ready n pos_max remaining st)"
proof (cases "\<exists>k. pos_max = Some k \<and> k \<le> fs_pos st")
  case True
  then show ?thesis using assms by (auto simp: file_step_def step_ok_def read_ok_def)
next
  case False
  then have max: "\<And>k. pos_max = Some k \<Longrightarrow> fs_pos st < k" by auto
  show ?thesis
  proof (cases "fs_node st")
    case Outer
    from file_step_Outer[OF assms this max] show ?thesis .
  next
    case (NextNodeRequested off)
    from file_step_Next[OF assms this max] show ?thesis .
  next
    case (Loaded off np u)
    from file_step_Loaded[OF assms this max] show ?thesis .
  next
    case (Loading off cid)
    from file_step_Loading[OF assms this max] show ?thesis .
  qed
qed

lemma poll_read_file_at_ok:
  assumes "file_inv ops load n content st m"
  shows "\<exists>p bs st' m'. poll_read_file_at ops oc load ready n pos_max remaining st = Some (p, bs, st') \<and>
    read_ok content pos_max remaining ready (fs_pos st) p bs \<and> fs_pos st' = fs_pos st + length bs \<and>
    file_inv ops load n content st' m'"
  using assms
proof (induction m arbitrary: st rule: less_induct)
  case (less m)
  note ok = file_step_ok[OF less.prems, of ready pos_max remaining oc]
  show ?case
  proof (cases "file_step ops oc load ready n pos_max remaining st")
    case (Continue st')
    then obtain m' where "m' < m" "file_inv ops load n content st' m'" and pos: "fs_pos st' = fs_pos st"
      using ok by (auto simp: step_ok_def)
    from less.IH[OF this(1,2)] show ?thesis
      by (subst poll_read_file_at.simps) (simp add: Continue pos)
  next
    case (Return p bs st')
    then show ?thesis using ok by (subst poll_read_file_at.simps) (auto simp: step_ok_def)
  qed
qed

text \<open>
  The content of the file at a root node, and the invariant of a reader. The root may have data of its own
  only if it has no links.
\<close>

definition root_content :: "'cid ufs_ops \<Rightarrow> ('cid \<Rightarrow> ufs_error + bytes) \<Rightarrow> 'cid unixfs_node \<Rightarrow> bytes \<Rightarrow> bool" where
  "root_content ops load u content \<longleftrightarrow>
     length content < 2 ^ 64 \<and>
     (case u of
        Raw d \<Rightarrow> content = d
      | Symlink n \<Rightarrow> content = data_or_empty n
      | File n \<Rightarrow>
          if pn_links (n_outer n) = [] then content = data_or_empty n
          else data_or_empty n = [] \<and>
            (\<exists>ls cs k. links_owned ops u = Inr ls \<and> links_at ops load ls cs k \<and> content = concat cs)
      | _ \<Rightarrow> False)"

definition reader_inv :: "'cid ufs_ops \<Rightarrow> ('cid \<Rightarrow> ufs_error + bytes) \<Rightarrow> bytes \<Rightarrow> 'cid content_reader \<Rightarrow> bool" where
  "reader_inv ops load content r \<longleftrightarrow>
     root_content ops load (rd_root r) content \<and>
     (case rd_root r of
        File n \<Rightarrow> \<exists>m. file_inv ops load n content (rd_state r) m
      | _ \<Rightarrow> fs_pos (rd_state r) \<le> length content \<and> (\<forall>m. rd_pos_max r = Some m \<longrightarrow> fs_pos (rd_state r) \<le> m))"

lemma root_contentE:
  assumes "root_content ops load u content"
  obtains "u = Raw content" | n where "u = Symlink n" "content = data_or_empty n" | n where "u = File n"
  using assms by (cases u) (simp_all add: root_content_def)

lemma read_whole:
  assumes "fs_pos st \<le> length content" and "\<And>m. pos_max = Some m \<Longrightarrow> fs_pos st \<le> m"
  shows "\<exists>bs. step_result (read_slice oc pos_max remaining st content (fs_pos st) (\<lambda>_. fs_node st)) =
      Some (Ready (Inr ()), bs, st\<lparr>fs_pos := fs_pos st + length bs\<rparr>) \<and>
    read_ok content pos_max remaining ready (fs_pos st) (Ready (Inr ())) bs"
proof -
  have same: "st\<lparr>fs_pos := p, fs_node := fs_node st\<rparr> = st\<lparr>fs_pos := p\<rparr>" for p by (cases st) simp
  have "\<exists>bs. read_slice oc pos_max remaining st content (fs_pos st) (\<lambda>_. fs_node st) =
      Return (Ready (Inr ())) bs (st\<lparr>fs_pos := fs_pos st + length bs, fs_node := fs_node st\<rparr>) \<and>
    read_ok content pos_max remaining ready (fs_pos st) (Ready (Inr ())) bs"
    by (rule read_slice_ok[where rest = "[]"]) (use assms in \<open>simp_all\<close>)
  then show ?thesis unfolding same by (elim exE conjE) (simp only: step_result.simps, blast)
qed

lemma poll_read_ok:
  assumes "reader_inv ops load content r"
  shows "\<exists>p bs r'. poll_read ops oc load ready remaining r = Some (p, bs, r') \<and>
    read_ok content (rd_pos_max r) remaining ready (poll_complete r) p bs \<and>
    poll_complete r' = poll_complete r + length bs \<and> rd_pos_max r' = rd_pos_max r \<and> reader_inv ops load content r'"
proof -
  have root: "root_content ops load (rd_root r) content" using assms by (simp add: reader_inv_def)
  have whole: ?thesis
    if u: "\<And>n. rd_root r \<noteq> File n"
      and poll: "poll_read ops oc load ready remaining r = map_option (\<lambda>(p, bs, st'). (p, bs, r\<lparr>rd_state := st'\<rparr>))
        (step_result (read_slice oc (rd_pos_max r) remaining (rd_state r) content (fs_pos (rd_state r))
          (\<lambda>_. fs_node (rd_state r))))"
  proof -
    have le: "fs_pos (rd_state r) \<le> length content" "\<And>m. rd_pos_max r = Some m \<Longrightarrow> fs_pos (rd_state r) \<le> m"
      using assms u by (auto simp: reader_inv_def split: unixfs_node.splits)
    obtain bs where bs: "step_result (read_slice oc (rd_pos_max r) remaining (rd_state r) content (fs_pos (rd_state r))
        (\<lambda>_. fs_node (rd_state r))) = Some (Ready (Inr ()), bs, (rd_state r)\<lparr>fs_pos := fs_pos (rd_state r) + length bs\<rparr>)"
      and ok: "read_ok content (rd_pos_max r) remaining ready (fs_pos (rd_state r)) (Ready (Inr ())) bs"
      using read_whole[OF le] by blast
    have "fs_pos (rd_state r) + length bs \<le> length content" using read_okD[OF ok] le(1) by (cases bs) auto
    moreover have "\<forall>m. rd_pos_max r = Some m \<longrightarrow> fs_pos (rd_state r) + length bs \<le> m"
      using ok le(2) by (fastforce simp: read_ok_def)
    ultimately show ?thesis using poll bs ok root u
      by (auto simp: poll_complete_def reader_inv_def split: unixfs_node.splits)
  qed
  from root show ?thesis
  proof (cases rule: root_contentE)
    case 1
    then show ?thesis by (intro whole) (simp_all add: poll_read_def Let_def)
  next
    case (2 n)
    then show ?thesis by (intro whole) (simp_all add: poll_read_def Let_def data_or_empty_def)
  next
    case (3 n)
    then obtain m where "file_inv ops load n content (rd_state r) m" using assms by (auto simp: reader_inv_def)
    from poll_read_file_at_ok[OF this, of oc ready "rd_pos_max r" remaining] obtain p bs st' m' where
      "poll_read_file_at ops oc load ready n (rd_pos_max r) remaining (rd_state r) = Some (p, bs, st')"
      "read_ok content (rd_pos_max r) remaining ready (fs_pos (rd_state r)) p bs"
      "fs_pos st' = fs_pos (rd_state r) + length bs" "file_inv ops load n content st' m'"
      by blast
    then show ?thesis using 3 root by (auto simp: poll_read_def poll_complete_def reader_inv_def Let_def)
  qed
qed

text \<open>C12: a poll of a reader always returns. It delivers bytes of the content of the file from the current position on, advances
  the position by their number, never beyond the clip, and delivers none only at the end, into a full buffer, or while a
  load is pending. Afterwards the reader is again in a good state.\<close>

theorem poll_read_correct:
  assumes "reader_inv ops load content r"
  shows "\<exists>p bs r'. poll_read ops oc load ready remaining r = Some (p, bs, r') \<and>
    read_ok content (rd_pos_max r) remaining ready (poll_complete r) p bs \<and>
    poll_complete r' = poll_complete r + length bs \<and> rd_pos_max r' = rd_pos_max r \<and> reader_inv ops load content r'"
  using assms by (rule poll_read_ok)

lemma file_inv_start:
  assumes "root_content ops load (File n) content" and "links_owned ops (File n) = Inr ls" and "p < 2 ^ 64"
    and "pn_links (n_outer n) = [] \<Longrightarrow> p \<le> length content"
  shows "\<exists>m. file_inv ops load n content \<lparr>fs_pos = p, fs_node = Outer, fs_links = [ls]\<rparr> m"
proof (cases "pn_links (n_outer n) = []")
  case True
  then show ?thesis using assms by (auto simp: file_inv_def root_content_def)
next
  case False
  then obtain cs k where "links_at ops load ls cs k" "content = concat cs" "data_or_empty n = []" "length content < 2 ^ 64"
    using assms(1,2) by (auto simp: root_content_def)
  then have "file_inv ops load n content \<lparr>fs_pos = p, fs_node = Outer, fs_links = [ls]\<rparr> (3 * k + 2)"
    using False assms(3) by (auto simp: file_inv_def)
  then show ?thesis by blast
qed

lemma into_content_reader_inv:
  assumes "into_content_reader ops pos_max u = Inr (Some r)" and "root_content ops load u content"
  shows "reader_inv ops load content r \<and> poll_complete r = 0 \<and> rd_pos_max r = pos_max"
proof -
  obtain ls where ls: "links_owned ops u = Inr ls" and r: "r = \<lparr>rd_root = u, rd_pos_max = pos_max,
      rd_state = \<lparr>fs_pos = 0, fs_node = Outer, fs_links = [ls]\<rparr>\<rparr>"
    using assms(1) by (auto simp: into_content_reader_def result_bind_def split: if_splits sum.splits)
  have "length content < 2 ^ 64" using assms(2) by (simp add: root_content_def)
  from assms(2) have "reader_inv ops load content r"
  proof (cases rule: root_contentE)
    case (3 n)
    then show ?thesis using assms(2) ls r file_inv_start[of ops load n content ls 0]
      by (simp add: reader_inv_def)
  qed (use assms(2) r in \<open>auto simp: reader_inv_def\<close>)
  then show ?thesis using r by (simp add: poll_complete_def)
qed

section \<open>Reading to the end\<close>

text \<open>A sequence of polls with buffers of the given sizes, all loads being finished.\<close>

fun read_polls ::
  "'cid ufs_ops \<Rightarrow> bool \<Rightarrow> ('cid \<Rightarrow> ufs_error + bytes) \<Rightarrow> nat list \<Rightarrow> 'cid content_reader \<Rightarrow> bytes option" where
  "read_polls ops oc load [] r = Some []"
| "read_polls ops oc load (n # ns) r =
     (case poll_read ops oc load (\<lambda>_. True) n r of
        Some (Ready (Inr _), bs, r') \<Rightarrow> map_option ((@) bs) (read_polls ops oc load ns r')
      | _ \<Rightarrow> None)"

definition clip :: "nat option \<Rightarrow> bytes \<Rightarrow> bytes" where
  "clip pos_max content = (case pos_max of None \<Rightarrow> content | Some m \<Rightarrow> take m content)"

lemma read_ok_ready: "read_ok content pos_max n (\<lambda>_. True) pos p bs \<Longrightarrow> p = Ready (Inr ())"
  by (auto simp: read_ok_def)

lemma clip_step:
  assumes "read_ok content pos_max n (\<lambda>_. True) pos p bs" and "0 < n"
  shows "bs @ drop (pos + length bs) (clip pos_max content) = drop pos (clip pos_max content)"
    and "bs = [] \<Longrightarrow> drop pos (clip pos_max content) = []"
proof -
  have bs: "bs = take (length bs) (drop pos content)" "bs = [] \<longrightarrow> length content \<le> pos \<or> (\<exists>m. pos_max = Some m \<and> m \<le> pos)"
    "\<And>m. pos_max = Some m \<Longrightarrow> length bs \<le> m - pos"
    using assms by (auto simp: read_ok_def)
  show "bs = [] \<Longrightarrow> drop pos (clip pos_max content) = []"
    using bs(2) by (auto simp: clip_def split: option.splits)
  have "take (length bs) (drop pos (clip pos_max content)) = take (length bs) (drop pos content)"
    by (cases pos_max) (use bs(3) in \<open>simp_all add: clip_def drop_take min_absorb1\<close>)
  then have "bs = take (length bs) (drop pos (clip pos_max content))" using bs(1) by (rule trans[OF _ sym, rotated])
  then show "bs @ drop (pos + length bs) (clip pos_max content) = drop pos (clip pos_max content)"
    by (metis append_take_drop_id drop_drop add.commute)
qed

lemma read_polls_content:
  fixes r :: "'cid content_reader"
  assumes "reader_inv ops load content r" and "\<forall>n \<in> set ns. 0 < n"
    and "length (drop (poll_complete r) (clip (rd_pos_max r) content)) \<le> length ns"
  shows "read_polls ops oc load ns r = Some (drop (poll_complete r) (clip (rd_pos_max r) content))"
  using assms
proof (induction ns arbitrary: r)
  case (Cons n ns)
  obtain p bs r' where r': "poll_read ops oc load (\<lambda>_. True) n r = Some (p, bs, r')"
    and ok: "read_ok content (rd_pos_max r) n (\<lambda>_ :: 'cid. True) (poll_complete r) p bs"
    and pos: "poll_complete r' = poll_complete r + length bs" "rd_pos_max r' = rd_pos_max r"
    and inv: "reader_inv ops load content r'"
    using poll_read_ok[OF Cons.prems(1), where oc = oc and ready = "\<lambda>_. True" and remaining = n] by (elim exE conjE) (rule that)
  have n: "0 < n" using Cons.prems(2) by simp
  note split = clip_step[OF ok n]
  have "length (drop (poll_complete r') (clip (rd_pos_max r') content)) \<le> length ns"
    using Cons.prems(3) split(2) pos by (cases bs) simp_all
  from Cons.IH[OF inv _ this] Cons.prems(2) have
    "read_polls ops oc load ns r' = Some (drop (poll_complete r + length bs) (clip (rd_pos_max r) content))"
    by (simp add: pos)
  then show ?case using r' read_ok_ready[OF ok] split(1) by simp
qed simp

section \<open>Positions\<close>

lemma smod_adjusted:
  assumes "0 < (b :: int)"
  shows "(if a smod b < 0 then a smod b + b else a smod b) = a mod b"
proof -
  have r: "- b < a smod b" "a smod b < b" using smod_int_range[where a = a and b = b] assms by auto
  have a: "a mod b = (a smod b) mod b" by (metis mod_mult_self2 smod_mult_sdiv_eq)
  show ?thesis
  proof (cases "a smod b < 0")
    case True
    have "a mod b = (a smod b + b) mod b" using a by simp
    also have "\<dots> = a smod b + b" using True r by (intro mod_pos_pos_trivial) auto
    finally show ?thesis using True by simp
  next
    case False
    then show ?thesis using a r by (simp add: mod_pos_pos_trivial)
  qed
qed

lemma as_i64_small: "n < 2 ^ 63 \<Longrightarrow> as_i64 n = int n"
  by (simp add: as_i64_def signed_of_nat signed_take_bit_int_eq_self)

lemma as_usize_small: "0 \<le> i \<Longrightarrow> i < 2 ^ 64 \<Longrightarrow> as_usize i = nat i"
  by (simp add: as_usize_def unsigned_of_int take_bit_int_eq_self)

lemma size_known:
  assumes "root_content ops load u content" and "UnixfsNode_size u = Some len"
  shows "len = length content"
  using assms by (cases u) (auto simp: root_content_def UnixfsNode_size_def Node_size_def data_or_empty_def split: if_splits option.splits)

text \<open>A seek leaves the reader in a good state, whatever the position it goes to.\<close>

lemma seek_inv:
  assumes "reader_inv ops load content r" and "rd_pos_max r = None" and "links_owned ops (rd_root r) = Inr ls"
    and "p < 2 ^ 64" and "UnixfsNode_size (rd_root r) \<noteq> None \<Longrightarrow> p \<le> length content"
    and "\<And>n. rd_root r = Symlink n \<Longrightarrow> pn_links (n_outer n) = []"
  shows "reader_inv ops load content (r\<lparr>rd_state := \<lparr>fs_pos = p, fs_node = Outer, fs_links = [ls]\<rparr>\<rparr>)"
proof -
  have root: "root_content ops load (rd_root r) content" using assms(1) by (simp add: reader_inv_def)
  then show ?thesis
  proof (cases rule: root_contentE)
    case 1
    then show ?thesis using root assms(2,5) by (simp add: reader_inv_def UnixfsNode_size_def)
  next
    case (2 n)
    then show ?thesis using root assms(2,5,6) by (simp add: reader_inv_def UnixfsNode_size_def Node_size_def)
  next
    case (3 n)
    then have "pn_links (n_outer n) = [] \<Longrightarrow> p \<le> length content"
      using assms(5) by (simp add: UnixfsNode_size_def Node_size_def)
    from file_inv_start[OF root[unfolded 3] assms(3)[unfolded 3] assms(4) this] show ?thesis
      using root 3 by (simp add: reader_inv_def)
  qed
qed

text \<open>The position that a seek in a file of known length goes to.\<close>

fun seek_target :: "nat \<Rightarrow> nat \<Rightarrow> seek_from \<Rightarrow> nat" where
  "seek_target len pos (SeekStart offset) = min (unat offset) (len - 1)"
| "seek_target len pos (SeekEnd offset) = nat ((int len + offset) mod int len)"
| "seek_target len pos (SeekCurrent offset) = nat (max 0 (min (int pos + offset) (int len - 1)))"

fun offset_ok :: "nat \<Rightarrow> nat \<Rightarrow> seek_from \<Rightarrow> bool" where
  "offset_ok len pos (SeekStart offset) \<longleftrightarrow> True"
| "offset_ok len pos (SeekEnd offset) \<longleftrightarrow> - (2 ^ 63) \<le> int len + offset \<and> int len + offset < 2 ^ 63"
| "offset_ok len pos (SeekCurrent offset) \<longleftrightarrow> - (2 ^ 63) \<le> int pos + offset \<and> int pos + offset < 2 ^ 63"

lemma seek_target_less: "0 < len \<Longrightarrow> seek_target len pos position < len"
  by (cases position) (auto simp: nat_less_iff)

lemma seek_pos_known:
  assumes "0 < len" and "len < 2 ^ 63" and "pos < 2 ^ 63" and "offset_ok len pos position"
  shows "seek_pos oc (Some len) pos position = Inr (seek_target len pos position)"
proof (cases position)
  case (SeekStart offset)
  then show ?thesis using assms(1) by (simp add: seek_pos_def)
next
  case (SeekEnd offset)
  have r: "0 \<le> (int len + offset) mod int len" "(int len + offset) mod int len < int len" using assms(1) by simp_all
  have "(int len + offset) mod int len < 2 ^ 64" using r(2) assms(2) by simp
  with r(1) have "as_usize (if (int len + offset) smod int len < 0 then (int len + offset) smod int len + int len
      else (int len + offset) smod int len) = nat ((int len + offset) mod int len)"
    using smod_adjusted[of "int len" "int len + offset"] assms(1) as_usize_small by simp
  moreover have "as_i64 len = int len" using assms(2) by (rule as_i64_small)
  ultimately show ?thesis using SeekEnd assms(1,4)
    by (simp add: seek_pos_def i64_add_def Let_def split del: if_split cong: if_cong)
next
  case (SeekCurrent offset)
  then show ?thesis using assms
    by (simp add: seek_pos_def i64_add_def as_i64_small as_usize_small Let_def min_def max_def)
qed


section \<open>Where the reader loses bytes or panics\<close>

text \<open>
  A root with data of its own and links: the reader delivers the data and then requests the first link at
  offset 0, so it skips as many bytes of the linked content as the root has.
\<close>

lemma reader_root_data_overlap:
  assumes "pn_links (n_outer n) \<noteq> []" and "d_data (n_inner n) = Some d" and "d \<noteq> []"
    and "load_node ops load (l_cid l) = Inr (Raw c)" and "length d < length c"
    and "length d \<le> b1" and "length c \<le> b2"
  shows "read_polls ops oc load [b1, b2] \<lparr>rd_root = File n, rd_pos_max = None,
      rd_state = \<lparr>fs_pos = 0, fs_node = Outer, fs_links = [[l]]\<rparr>\<rparr> = Some (d @ drop (length d) c)"
proof -
  let ?st = "\<lambda>p nd ls. \<lparr>fs_pos = p, fs_node = nd, fs_links = ls\<rparr> :: 'a file_state"
  let ?poll = "poll_read_file_at ops oc load (\<lambda>_. True) n None"
  note defs = file_step_def read_slice_def slice_from_def read_data_to_buf_def Let_def
  have 1: "?poll b1 (?st 0 Outer [[l]]) = Some (Ready (Inr ()), d, ?st (length d) Outer [[l]])"
    using assms(1-3,6) by (subst poll_read_file_at.simps) (simp add: defs)
  have leaf: "links_owned ops (Raw c) = Inr []"
    by (rule node_loaded_leaf[where d = c]) (simp add: leaf_data_def)
  have "?poll b2 (?st (length d) Outer [[l]]) = ?poll b2 (?st (length d) (NextNodeRequested 0) [[l]])"
    using assms(1,2) by (subst poll_read_file_at.simps) (simp add: defs)
  also have "\<dots> = ?poll b2 (?st (length d) (Loading 0 (Some (l_cid l))) [[]])"
    by (subst poll_read_file_at.simps) (simp add: defs)
  also have "\<dots> = ?poll b2 (?st (length d) (Loaded 0 (length d) (Raw c)) [[]])"
    using assms(4) leaf by (subst poll_read_file_at.simps) (simp add: defs node_loaded_def)
  also have "\<dots> = Some (Ready (Inr ()), drop (length d) c, ?st (length c) (Loaded 0 (length c) (Raw c)) [[]])"
    using assms(5,7) by (subst poll_read_file_at.simps) (simp add: defs read_loaded_def)
  finally show ?thesis using 1 by (simp add: poll_read_def Let_def)
qed

text \<open>
  A load that fails: the link is already taken from the stack, so a caller that polls again gets the bytes of
  the next link, at the offset of the one that failed.
\<close>

lemma reader_retry_skips:
  assumes "pn_links (n_outer n) \<noteq> []" and "d_data (n_inner n) = None"
    and "load_node ops load1 (l_cid l1) = Inl e" and "load_node ops load2 (l_cid l2) = Inr (Raw c)" and "c \<noteq> []"
  shows "\<exists>r1 r2. poll_read ops oc load1 (\<lambda>_. True) b \<lparr>rd_root = File n, rd_pos_max = None,
        rd_state = \<lparr>fs_pos = 0, fs_node = Outer, fs_links = [[l1, l2]]\<rparr>\<rparr> = Some (Ready (Inl e), [], r1) \<and>
    poll_read ops oc load2 (\<lambda>_. True) b r1 = Some (Ready (Inr ()), take b c, r2)"
proof -
  let ?st = "\<lambda>nd ls. \<lparr>fs_pos = 0, fs_node = nd, fs_links = ls\<rparr> :: 'a file_state"
  note defs = file_step_def read_slice_def slice_from_def read_data_to_buf_def Let_def
  have "poll_read_file_at ops oc load1 (\<lambda>_. True) n None b (?st Outer [[l1, l2]]) =
      Some (Ready (Inl e), [], ?st (NextNodeRequested 0) [[l2]])"
    using assms(1-3)
    by (subst poll_read_file_at.simps, simp add: defs, subst poll_read_file_at.simps, simp add: defs,
        subst poll_read_file_at.simps, simp add: defs)
  moreover have leaf: "links_owned ops (Raw c) = Inr []"
    by (rule node_loaded_leaf[where d = c]) (simp add: leaf_data_def)
  have "\<exists>st. poll_read_file_at ops oc load2 (\<lambda>_. True) n None b (?st (NextNodeRequested 0) [[l2]]) =
      Some (Ready (Inr ()), take b c, st)"
    using assms(4,5) leaf
    by (subst poll_read_file_at.simps, simp add: defs, subst poll_read_file_at.simps, simp add: defs node_loaded_def,
        subst poll_read_file_at.simps, simp add: defs read_loaded_def min_def)
  ultimately show ?thesis by (auto simp: poll_read_def Let_def)
qed

text \<open>An inner node with links but no block sizes makes the reader panic.\<close>

lemma find_block_no_sizes: "UnixfsNode_blocksizes u = [] \<Longrightarrow> find_block oc u pos off = None"
  by (simp add: find_block_def arr_at_def)

section \<open>Instances\<close>

definition demo_load :: "u64 \<times> bytes \<Rightarrow> ufs_error + bytes" where
  "demo_load cid = Inr (snd cid)"

definition demo_link :: "bytes \<Rightarrow> (u64 \<times> bytes) link" where
  "demo_link d = \<lparr>l_cid = (Codec_Raw, d), l_name = None, l_tsize = None\<rparr>"

definition demo_pb_link :: "bytes \<Rightarrow> pb_link" where
  "demo_pb_link d = \<lparr>pl_hash = Some (uc_to_bytes demo_ufs (Codec_Raw, d)), pl_name = None, pl_tsize = None\<rparr>"

definition demo_file :: node where
  "demo_file = \<lparr>n_outer = \<lparr>pn_links = [demo_pb_link [1, 2], demo_pb_link [3]], pn_data = None\<rparr>,
     n_inner = unixfs_data_default\<lparr>d_type := 2, d_blocksizes := [2, 1]\<rparr>\<rparr>"

lemma demo_file_links: "links_owned demo_ufs (File demo_file) = Inr [demo_link [1, 2], demo_link [3]]"
  by (simp add: links_owned_def UnixfsNode_links_def PbLinks_def demo_file_def demo_pb_link_def
      PbLinks_item_written[OF demo_ufs_laws] collect_Inr_iff demo_link_def)

lemma demo_raw_at: "file_at demo_ufs demo_load (Codec_Raw, d) d 1"
  by (rule raw_at) (simp add: load_node_def demo_load_def UnixfsNode_decode_def demo_ufs_def)

lemma demo_links_at: "links_at demo_ufs demo_load [demo_link [1, 2], demo_link [3]] [[1, 2], [3]] (1 + (1 + 0))"
  by (intro links_Cons links_Nil) (simp_all add: demo_link_def demo_raw_at[unfolded One_nat_def])

lemma demo_root_content: "root_content demo_ufs demo_load (File demo_file) [1, 2, 3]"
proof -
  have "pn_links (n_outer demo_file) \<noteq> [] \<and> data_or_empty demo_file = []"
    by (simp add: demo_file_def data_or_empty_def unixfs_data_default_def)
  moreover have "[1, 2, 3] = concat [[1, 2], [3 :: byte]]" by simp
  ultimately show ?thesis using demo_file_links demo_links_at by (auto simp: root_content_def)
qed

lemma demo_reader:
  assumes "root_content demo_ufs demo_load u content" and "links_owned demo_ufs u = Inr ls"
  shows "\<exists>r. into_content_reader demo_ufs None u = Inr (Some r) \<and> reader_inv demo_ufs demo_load content r \<and>
    rd_root r = u \<and> rd_pos_max r = None \<and> poll_complete r = 0"
proof -
  have "\<not> is_dir u" using assms(1) by (cases u) (auto simp: root_content_def)
  then obtain r where r: "into_content_reader demo_ufs None u = Inr (Some r)" "rd_root r = u"
    using assms(2) by (auto simp: into_content_reader_def)
  then show ?thesis using into_content_reader_inv[OF r(1) assms(1)] by auto
qed

theorem poll_read_correct_witness:
  "\<exists>r bs r'. into_content_reader demo_ufs None (File demo_file) = Inr (Some r) \<and>
     poll_read demo_ufs True demo_load (\<lambda>_. True) 8 r = Some (Ready (Inr ()), bs, r') \<and> bs \<noteq> [] \<and>
     bs = take (length bs) [1, 2, 3]"
proof -
  obtain r where r: "into_content_reader demo_ufs None (File demo_file) = Inr (Some r)"
    "reader_inv demo_ufs demo_load [1, 2, 3] r" "rd_pos_max r = None" "poll_complete r = 0"
    using demo_reader[OF demo_root_content demo_file_links] by blast
  from poll_read_correct[OF r(2), of True "\<lambda>_. True" 8] r(1,3,4) show ?thesis by (auto simp: read_ok_def)
qed


end
