(* ===== verification/Rabin.thy ===== *)
theory Rabin
  imports Chunker
begin

text \<open>
  The content-defined chunker of \<open>iroh-unixfs\<close> (\<open>chunker/rabin.rs\<close>): a rolling Rabin fingerprint over a
  window of bytes decides where a chunk ends. State and tables are 64-bit words. A value \<open>None\<close> is a panic
  (an index out of bounds, a failed assertion or an underflow) or a loop that does not end.
\<close>

unbundle bit_operations_syntax

section \<open>Configuration and preset\<close>

record preset =
  out_table :: "64 word list"
  mod_table :: "64 word list"
  window_size :: nat
  deg_shift :: nat
  polynomial :: "64 word"

record rabin_config =
  target_value :: "64 word"
  mask_bits :: nat
  max_size :: nat
  min_size :: nat

definition rabin_config_default :: rabin_config where
  "rabin_config_default = \<lparr>target_value = 0, mask_bits = 18, max_size = 393216, min_size = 87381\<rparr>"

definition GoIpfsV0_out_table :: "64 word list" where
  "GoIpfsV0_out_table = [
     0x0, 0x17fa63217c2ad7, 0x1207c39d4afdab, 0x5fda0bc36d77c, 0x19fc82e5275353, 0xe06e1c45b7984,
     0xbfb41786daef8, 0x1c01225911842f, 0xe0a0015fc0ea3, 0x19f06334802474, 0x1c0dc388b6f308, 0xbf7a0a9cad9df,
     0x17f682f0db5df0, 0xce1d1a77727, 0x5f1416d91a05b, 0x120b224ced8a8c, 0x1c14002bf81d46, 0xbee630a843791,
     0xe13c3b6b2e0ed, 0x19e9a097ceca3a, 0x5e882cedf4e15, 0x1212e1efa364c2, 0x17ef415395b3be, 0x152272e99969,
     0x121e003e0413e5, 0x5e4631f783932, 0x19c3a34eee4e, 0x17e3a08232c499, 0xbe282db2340b6, 0x1c18e1fa5f6a61,
     0x19e5414669bd1d, 0xe1f22671597ca, 0x5db0588429289, 0x122166a93eb85e, 0x17dcc615086f22, 0x26a5347445f5,
     0x1c27876d65c1da, 0xbdde44c19eb0d, 0xe2044f02f3c71, 0x19da27d15316a6, 0xbd1059dbe9c2a, 0x1c2b66bcc2b6fd,
     0x19d6c600f46181, 0xe2ca521884b56, 0x122d877899cf79, 0x5d7e459e5e5ae, 0x2a44e5d332d2, 0x17d027c4af1805,
     0x19cf05a3ba8fcf, 0xe356682c6a518, 0xbc8c63ef07264, 0x1c32a51f8c58b3, 0x3387469ddc9c, 0x17c9e467e1f64b,
     0x123444dbd72137, 0x5ce27faab0be0, 0x17c505b646816c, 0x3f66973aabbb, 0x5c2c62b0c7cc7, 0x1238a50a705610,
     0xe39875361d23f, 0x19c3e4721df8e8, 0x1c3e44ce2b2f94, 0xbc427ef570543, 0xbb60b10852512, 0x1c4c6831f90fc5,
     0x19b1c88dcfd8b9, 0xe4babacb3f26e, 0x124a89f5a27641, 0x5b0ead4de5c96, 0x4d4a68e88bea, 0x17b7294994a13d,
     0x5bc0b05792bb1, 0x12466824050166, 0x17bbc89833d61a, 0x41abb94ffccd, 0x1c4089e05e78e2, 0xbbaeac1225235,
     0xe474a7d148549, 0x19bd295c68af9e, 0x17a20b3b7d3854, 0x58681a011283, 0x5a5c8a637c5ff, 0x125fab874bef28,
     0xe5e89de5a6b07, 0x19a4eaff2641d0, 0x1c594a431096ac, 0xba329626cbc7b, 0x19a80b2e8136f7, 0xe52680ffd1c20,
     0xbafc8b3cbcb5c, 0x1c55ab92b7e18b, 0x5489cba665a4, 0x17aeeaeada4f73, 0x12534a56ec980f, 0x5a9297790b2d8,
     0xe6d0e98c7b79b, 0x19976db9bb9d4c, 0x1c6acd058d4a30, 0xb90ae24f160e7, 0x17918c7de0e4c8, 0x6bef5c9cce1f,
     0x5964fe0aa1963, 0x126c2cc1d633b4, 0x670e8d3bb938, 0x179d6dac4793ef, 0x1260cd10714493, 0x59aae310d6e44,
     0x199b8c681cea6b, 0xe61ef4960c0bc, 0xb9c4ff55617c0, 0x1c662cd42a3d17, 0x12790eb33faadd, 0x5836d9243800a,
     0x7ecd2e755776, 0x1784ae0f097da1, 0xb858c5618f98e, 0x1c7fef7764d359, 0x19824fcb520425, 0xe782cea2e2ef2,
     0x1c730ea6c3a47e, 0xb896d87bf8ea9, 0xe74cd3b8959d5, 0x198eae1af57302, 0x58f8c43e4f72d, 0x1275ef6298ddfa,
     0x17884fdeae0a86, 0x722cffd22051, 0x176c16210a4a24, 0x9675007660f3, 0x56bd5bc40b78f, 0x1291b69d3c9d58,
     0xe9094c42d1977, 0x196af7e55133a0, 0x1c97575967e4dc, 0xb6d34781bce0b, 0x19661634f64487, 0xe9c75158a6e50,
     0xb61d5a9bcb92c, 0x1c9bb688c093fb, 0x9a94d1d117d4, 0x1760f7f0ad3d03, 0x129d574c9bea7f, 0x567346de7c0a8,
     0xb78160af25762, 0x1c82752b8e7db5, 0x197fd597b8aac9, 0xe85b6b6c4801e, 0x128494efd50431, 0x57ef7cea92ee6,
     0x8357729ff99a, 0x17793453e3d34d, 0x572161f0e59c1, 0x1288753e727316, 0x1775d58244a46a, 0x8fb6a3388ebd,
     0x1c8e94fa290a92, 0xb74f7db552045, 0xe89576763f739, 0x197334461fddee, 0x12b713a948d8ad, 0x54d708834f27a,
     0xb0d034022506, 0x174ab3157e0fd1, 0xb4b914c6f8bfe, 0x1cb1f26d13a129, 0x194c52d1257655, 0xeb631f0595c82,
     0x1cbd13bcb4d60e, 0xb47709dc8fcd9, 0xebad021fe2ba5, 0x1940b300820172, 0x541915993855d, 0x12bbf278efaf8a,
     0x174652c4d978f6, 0xbc31e5a55221, 0xea31382b0c5eb, 0x195970a3ccef3c, 0x1ca4d01ffa3840, 0xb5eb33e861297,
     0x175f91679796b8, 0xa5f246ebbc6f, 0x55852fadd6b13, 0x12a231dba141c4, 0xa913974ccb48, 0x175370b630e19f,
     0x12aed00a0636e3, 0x554b32b7a1c34, 0x195591726b981b, 0xeaff25317b2cc, 0xb5252ef2165b0, 0x1ca831ce5d4f67,
     0x1cda1d318f6f36, 0xb207e10f345e1, 0xedddeacc5929d, 0x1927bd8db9b84a, 0x5269fd4a83c65, 0x12dcfcf5d416b2,
     0x17215c49e2c1ce, 0xdb3f689eeb19, 0x12d01d24736195, 0x52a7e050f4b42, 0xd7deb9399c3e, 0x172dbd9845b6e9,
     0xb2c9fc15432c6, 0x1cd6fce0281811, 0x192b5c5c1ecf6d, 0xed13f7d62e5ba, 0xce1d1a777270, 0x17347e3b0b58a7,
     0x12c9de873d8fdb, 0x533bda641a50c, 0x19329fff502123, 0xec8fcde2c0bf4, 0xb355c621adc88, 0x1ccf3f4366f65f,
     0xec41d0f8b7cd3, 0x193e7e2ef75604, 0x1cc3de92c18178, 0xb39bdb3bdabaf, 0x17389feaac2f80, 0xc2fccbd00557,
     0x53f5c77e6d22b, 0x12c53f569af8fc, 0x190118b9cdfdbf, 0xefb7b98b1d768, 0xb06db24870014, 0x1cfcb805fb2ac3,
     0xfd9a5ceaaeec, 0x1707f97d96843b, 0x12fa59c1a05347, 0x5003ae0dc7990, 0x170b18ac31f31c, 0xf17b8d4dd9cb,
     0x50cdb317b0eb7, 0x12f6b810072460, 0xef79a4916a04f, 0x190df9686a8a98, 0x1cf059d45c5de4, 0xb0a3af5207733,
     0x515189235e0f9, 0x12ef7bb349ca2e, 0x1712db0f7f1d52, 0xe8b82e033785, 0x1ce99a7712b3aa, 0xb13f9566e997d,
     0xeee59ea584e01, 0x19143acb2464d6, 0xb1f1887c9ee5a, 0x1ce57ba6b5c48d, 0x1918db1a8313f1, 0xee2b83bff3926,
     0x12e39a62eebd09, 0x519f9439297de, 0xe459ffa440a2, 0x171e3aded86a75]"

definition GoIpfsV0_mod_table :: "64 word list" where
  "GoIpfsV0_mod_table = [
     0x0, 0x3df305dfb2a805, 0x46150e60d7f80f, 0x7be60bbf65500a, 0x8c2a1cc1aff01e, 0xb1d9191e1d581b,
     0xca3f12a1780811, 0xf7cc177ecaa014, 0x1185439835fe03c, 0x125a73c5ced4839, 0x15e4137e3881833, 0x163b2323c3ab036,
     0x1947e2542f01022, 0x1a98d209d42b827, 0x1d26b2b2227e82d, 0x1ef982efd954028, 0x20d5b76d90d687d, 0x230a87306bfc078,
     0x24b4e78b9da9072, 0x276bd7d66683877, 0x281716a18a29863, 0x2bc826fc7103066, 0x2c764647875606c, 0x2fa9761a7c7c869,
     0x3150f4f5a528841, 0x328fc4a85e02044, 0x3531a413a85704e, 0x36ee944e537d84b, 0x39925539bfd785f, 0x3a4d656444fd05a,
     0x3df305dfb2a8050, 0x3e2c35824982855, 0x41ab6edb21ad0fa, 0x42745e86da878ff, 0x45ca3e3d2cd28f5, 0x46150e60d7f80f0,
     0x4969cf173b520e4, 0x4ab6ff4ac0788e1, 0x4d089ff1362d8eb, 0x4ed7afaccd070ee, 0x502e2d4314530c6, 0x53f11d1eef798c3,
     0x544f7da5192c8c9, 0x57904df8e2060cc, 0x58ec8c8f0eac0d8, 0x5b33bcd2f5868dd, 0x5c8ddc6903d38d7, 0x5f52ec34f8f90d2,
     0x617ed9b6b17b887, 0x62a1e9eb4a51082, 0x651f8950bc04088, 0x66c0b90d472e88d, 0x69bc787aab84899, 0x6a63482750ae09c,
     0x6ddd289ca6fb096, 0x6e0218c15dd1893, 0x70fb9a2e84858bb, 0x7324aa737faf0be, 0x749acac889fa0b4, 0x7745fa9572d08b1,
     0x78393be29e7a8a5, 0x7be60bbf65500a0, 0x7c586b0493050aa, 0x7f875b59682f8af, 0x8089edebb8709f1, 0x8356ddb6435a1f4,
     0x84e8bd0db50f1fe, 0x87378d504e259fb, 0x884b4c27a28f9ef, 0x8b947c7a59a51ea, 0x8c2a1cc1aff01e0, 0x8ff52c9c54da9e5,
     0x910cae738d8e9cd, 0x92d39e2e76a41c8, 0x956dfe9580f11c2, 0x96b2cec87bdb9c7, 0x99ce0fbf97719d3, 0x9a113fe26c5b1d6,
     0x9daf5f599a0e1dc, 0x9e706f0461249d9, 0xa05c5a8628a618c, 0xa3836adbd38c989, 0xa43d0a6025d9983, 0xa7e23a3ddef3186,
     0xa89efb4a3259192, 0xab41cb17c973997, 0xacffabac3f2699d, 0xaf209bf1c40c198, 0xb1d9191e1d581b0, 0xb2062943e6729b5,
     0xb5b849f810279bf, 0xb66779a5eb0d1ba, 0xb91bb8d207a71ae, 0xbac4888ffc8d9ab, 0xbd7ae8340ad89a1, 0xbea5d869f1f21a4,
     0xc122833099dd90b, 0xc2fdb36d62f710e, 0xc543d3d694a2104, 0xc69ce38b6f88901, 0xc9e022fc8322915, 0xca3f12a17808110,
     0xcd81721a8e5d11a, 0xce5e4247757791f, 0xd0a7c0a8ac23937, 0xd378f0f55709132, 0xd4c6904ea15c138, 0xd719a0135a7693d,
     0xd8656164b6dc929, 0xdbba51394df612c, 0xdc043182bba3126, 0xdfdb01df4089923, 0xe1f7345d090b176, 0xe2280400f221973,
     0xe59664bb0474979, 0xe64954e6ff5e17c, 0xe935959113f4168, 0xeaeaa5cce8de96d, 0xed54c5771e8b967, 0xee8bf52ae5a1162,
     0xf07277c53cf514a, 0xf3ad4798c7df94f, 0xf4132723318a945, 0xf7cc177ecaa0140, 0xf8b0d609260a154, 0xfb6fe654dd20951,
     0xfcd186ef2b7595b, 0xff0eb6b2d05f15e, 0x10113dbd770e13e2, 0x102cceb8a8bcbbe7, 0x105728b317d9ebed, 0x106adbb6c86b43e8,
     0x109d17a1b6a1e3fc, 0x10a0e4a469134bf9, 0x10db02afd6761bf3, 0x10e6f1aa09c4b3f6, 0x11096984f451f3de, 0x11349a812be35bdb,
     0x114f7c8a94860bd1, 0x11728f8f4b34a3d4, 0x1185439835fe03c0, 0x11b8b09dea4cabc5, 0x11c356965529fbcf, 0x11fea5938a9b53ca,
     0x121c66cbae037b9f, 0x122195ce71b1d39a, 0x125a73c5ced48390, 0x126780c011662b95, 0x12904cd76fac8b81, 0x12adbfd2b01e2384,
     0x12d659d90f7b738e, 0x12ebaadcd0c9db8b, 0x130432f22d5c9ba3, 0x1339c1f7f2ee33a6, 0x134227fc4d8b63ac, 0x137fd4f99239cba9,
     0x138818eeecf36bbd, 0x13b5ebeb3341c3b8, 0x13ce0de08c2493b2, 0x13f3fee553963bb7, 0x140b8b50c514c318, 0x143678551aa66b1d,
     0x144d9e5ea5c33b17, 0x14706d5b7a719312, 0x1487a14c04bb3306, 0x14ba5249db099b03, 0x14c1b442646ccb09, 0x14fc4747bbde630c,
     0x1513df69464b2324, 0x152e2c6c99f98b21, 0x1555ca67269cdb2b, 0x15683962f92e732e, 0x159ff57587e4d33a, 0x15a2067058567b3f,
     0x15d9e07be7332b35, 0x15e4137e38818330, 0x1606d0261c19ab65, 0x163b2323c3ab0360, 0x1640c5287cce536a, 0x167d362da37cfb6f,
     0x168afa3addb65b7b, 0x16b7093f0204f37e, 0x16ccef34bd61a374, 0x16f11c3162d30b71, 0x171e841f9f464b59, 0x1723771a40f4e35c,
     0x17589111ff91b356, 0x1765621420231b53, 0x1792ae035ee9bb47, 0x17af5d06815b1342, 0x17d4bb0d3e3e4348, 0x17e94808e18ceb4d,
     0x1819a363cc891a13, 0x18245066133bb216, 0x185fb66dac5ee21c, 0x1862456873ec4a19, 0x1895897f0d26ea0d, 0x18a87a7ad2944208,
     0x18d39c716df11202, 0x18ee6f74b243ba07, 0x1901f75a4fd6fa2f, 0x193c045f9064522a, 0x1947e2542f010220, 0x197a1151f0b3aa25,
     0x198ddd468e790a31, 0x19b02e4351cba234, 0x19cbc848eeaef23e, 0x19f63b4d311c5a3b, 0x1a14f8151584726e, 0x1a290b10ca36da6b,
     0x1a52ed1b75538a61, 0x1a6f1e1eaae12264, 0x1a98d209d42b8270, 0x1aa5210c0b992a75, 0x1adec707b4fc7a7f, 0x1ae334026b4ed27a,
     0x1b0cac2c96db9252, 0x1b315f2949693a57, 0x1b4ab922f60c6a5d, 0x1b774a2729bec258, 0x1b8086305774624c, 0x1bbd753588c6ca49,
     0x1bc6933e37a39a43, 0x1bfb603be8113246, 0x1c03158e7e93cae9, 0x1c3ee68ba12162ec, 0x1c4500801e4432e6, 0x1c78f385c1f69ae3,
     0x1c8f3f92bf3c3af7, 0x1cb2cc97608e92f2, 0x1cc92a9cdfebc2f8, 0x1cf4d99900596afd, 0x1d1b41b7fdcc2ad5, 0x1d26b2b2227e82d0,
     0x1d5d54b99d1bd2da, 0x1d60a7bc42a97adf, 0x1d976bab3c63dacb, 0x1daa98aee3d172ce, 0x1dd17ea55cb422c4, 0x1dec8da083068ac1,
     0x1e0e4ef8a79ea294, 0x1e33bdfd782c0a91, 0x1e485bf6c7495a9b, 0x1e75a8f318fbf29e, 0x1e8264e46631528a, 0x1ebf97e1b983fa8f,
     0x1ec471ea06e6aa85, 0x1ef982efd9540280, 0x1f161ac124c142a8, 0x1f2be9c4fb73eaad, 0x1f500fcf4416baa7, 0x1f6dfcca9ba412a2,
     0x1f9a30dde56eb2b6, 0x1fa7c3d83adc1ab3, 0x1fdc25d385b94ab9, 0x1fe1d6d65a0be2bc]"

definition GO_IPFS_V0_PRESET :: preset where
  "GO_IPFS_V0_PRESET = \<lparr>out_table = GoIpfsV0_out_table, mod_table = GoIpfsV0_mod_table, window_size = 16,
     deg_shift = 45, polynomial = 0x3df305dfb2a805\<rparr>"

record rabin =
  init_state :: "64 word"
  rb_mask :: "64 word"
  mins_sans_preheat :: nat
  rb_preset :: preset
  rb_config :: rabin_config

text \<open>\<open>overflow_checks\<close> is the build option of the same name; a shift by 64 or more panics with it.\<close>

definition Rabin_new :: "bool \<Rightarrow> rabin_config \<Rightarrow> preset \<Rightarrow> rabin option" where
  "Rabin_new overflow_checks config p =
     (if \<not> min_size config < max_size config then None
      else Option.bind (arr_at (out_table p) 0) (\<lambda>out0.
           Option.bind (arr_at (mod_table p) (unat (drop_bit (deg_shift p) out0))) (\<lambda>m.
           Option.bind (usize_sub overflow_checks (min_size config) (window_size p)) (\<lambda>sans.
           Option.bind (usize_sub overflow_checks (mask_bits config) 1) (\<lambda>bits.
             if overflow_checks \<and> bits \<ge> 64 then None
             else Some \<lparr>init_state = (push_bit 8 out0 OR 1) XOR m, rb_mask = push_bit (bits mod 64) 1,
                        mins_sans_preheat = sans, rb_preset = p, rb_config = config\<rparr>)))))"

section \<open>The rolling fingerprint\<close>

text \<open>A byte leaves the window (its table entry is given) and a byte enters it.\<close>

definition roll :: "preset \<Rightarrow> 64 word \<Rightarrow> 8 word \<Rightarrow> 64 word \<Rightarrow> 64 word option" where
  "roll p out_entry b state =
     (let s = state XOR out_entry
      in Option.bind (arr_at (mod_table p) (unat (drop_bit (deg_shift p) s))) (\<lambda>table_point.
           Some ((push_bit 8 s OR ucast b) XOR table_point)))"

text \<open>The preheat loop, with \<open>i\<close> the loop variable.\<close>

fun preheat :: "preset \<Rightarrow> bytes \<Rightarrow> nat list \<Rightarrow> nat \<Rightarrow> 64 word \<Rightarrow> (nat \<times> 64 word) option" where
  "preheat p buf [] cur_idx state = Some (cur_idx, state)"
| "preheat p buf (i # is) cur_idx state =
     Option.bind (arr_at (out_table p) (if i = window_size p then 1 else 0)) (\<lambda>out_entry.
     Option.bind (arr_at buf cur_idx) (\<lambda>b.
     Option.bind (roll p out_entry b state) (\<lambda>state'.
       preheat p buf is (cur_idx + 1) state')))"

function cycle :: "rabin \<Rightarrow> bytes \<Rightarrow> nat \<Rightarrow> nat \<Rightarrow> 64 word \<Rightarrow> nat option" where
  "cycle r buf next_round_max cur_idx state =
     (if cur_idx < next_round_max \<and> state AND rb_mask r \<noteq> target_value (rb_config r)
      then Option.bind (usize_sub True cur_idx (window_size (rb_preset r))) (\<lambda>oldest.
           Option.bind (arr_at buf oldest) (\<lambda>b_out.
           Option.bind (arr_at (out_table (rb_preset r)) (unat b_out)) (\<lambda>out_entry.
           Option.bind (arr_at buf cur_idx) (\<lambda>b_in.
           Option.bind (roll (rb_preset r) out_entry b_in state) (\<lambda>state'.
             cycle r buf next_round_max (cur_idx + 1) state')))))
      else Some cur_idx)"
  by pat_completeness auto

termination
  by (relation "measure (\<lambda>(r, buf, m, i, s). m - i)") auto

declare cycle.simps [simp del]

section \<open>The stream of chunks\<close>

text \<open>
  The inner loop over a filled buffer: the chunks found are appended to \<open>out\<close>; the result has the index of
  the first byte that is not yet part of a chunk.
\<close>

partial_function (option) rounds ::
    "rabin \<Rightarrow> bytes \<Rightarrow> bool \<Rightarrow> nat \<Rightarrow> ('e + bytes) list \<Rightarrow> (('e + bytes) list \<times> nat) option" where
  "rounds r buf use_entire_buffer cur_idx out =
     (let c = rb_config r; post_buf_idx = length buf; last_idx = cur_idx;
          next_round_max = last_idx + max_size c
      in if next_round_max > post_buf_idx \<and> \<not> use_entire_buffer then Some (out, cur_idx)
         else let next_round_max = (if next_round_max > post_buf_idx then post_buf_idx else next_round_max)
              in if cur_idx + min_size c \<ge> post_buf_idx
                 then Some (if use_entire_buffer \<and> post_buf_idx \<noteq> cur_idx then out @ [Inr (drop cur_idx buf)] else out, cur_idx)
                 else Option.bind (preheat (rb_preset r) buf [1..<window_size (rb_preset r) + 1]
                                     (cur_idx + mins_sans_preheat r) (init_state r)) (\<lambda>(cur_idx, state).
                      Option.bind (cycle r buf next_round_max cur_idx state) (\<lambda>cur_idx.
                        rounds r buf use_entire_buffer cur_idx
                          (out @ [Inr (take (cur_idx - last_idx) (drop last_idx buf))]))))"

text \<open>Filling the buffer; the error of the source ends the stream.\<close>

fun fill :: "nat \<Rightarrow> bytes \<Rightarrow> nat \<Rightarrow> 'e read_result list \<Rightarrow> 'e + bytes \<times> nat \<times> 'e read_result list" where
  "fill limit buf total_read [] = Inr (buf, total_read, [])"
| "fill limit buf total_read (x # reads) =
     (if length buf < limit
      then case x of
             Fail e \<Rightarrow> Inl e
           | Data d \<Rightarrow> if d = [] then Inr (buf, total_read, reads)
                       else fill limit (buf @ d) (total_read + length d) reads
      else Inr (buf, total_read, x # reads))"

partial_function (option) rabin_loop ::
    "rabin \<Rightarrow> bytes \<Rightarrow> 'e read_result list \<Rightarrow> ('e + bytes) list \<Rightarrow> ('e + bytes) list option" where
  "rabin_loop r buf reads out =
     (case fill (3 * max_size (rb_config r)) buf 0 reads of
        Inl e \<Rightarrow> Some (out @ [Inl e])
      | Inr (buf, total_read, reads) \<Rightarrow>
          if length buf < min_size (rb_config r)
          then Some (if buf = [] then out else out @ [Inr buf])
          else let use_entire_buffer = (total_read = 0)
               in Option.bind (rounds r buf use_entire_buffer 0 out) (\<lambda>(out, cur_idx).
                    if use_entire_buffer then Some out else rabin_loop r (drop cur_idx buf) reads out))"

definition Rabin_chunks :: "rabin \<Rightarrow> 'e read_result list \<Rightarrow> ('e + bytes) list option" where
  "Rabin_chunks r reads = rabin_loop r [] reads []"

text \<open>The chunker of a configuration, and its stream of chunks.\<close>

datatype chunker = ChunkFixed nat | ChunkRabin rabin

definition Chunker_from :: "bool \<Rightarrow> chunker_config \<Rightarrow> chunker option" where
  "Chunker_from overflow_checks cfg =
     (case cfg of
        Fixed chunk_size \<Rightarrow> map_option ChunkFixed (Fixed_new chunk_size)
      | Rabin \<Rightarrow> map_option ChunkRabin (Rabin_new overflow_checks rabin_config_default GO_IPFS_V0_PRESET))"

definition Chunker_chunks :: "chunker \<Rightarrow> 'e read_result list \<Rightarrow> ('e + bytes) list option" where
  "Chunker_chunks c reads =
     (case c of ChunkFixed n \<Rightarrow> Some (Fixed_chunks n reads) | ChunkRabin r \<Rightarrow> Rabin_chunks r reads)"

section \<open>The tables keep the state in range\<close>

text \<open>
  The fingerprint is a polynomial of degree less than 53. Then the eight bits that index the table are
  bits 45 to 52, and the entry of the table takes them out again after the shift.
\<close>

definition in_range :: "64 word \<Rightarrow> bool" where
  "in_range s \<longleftrightarrow> drop_bit 53 s = 0"

definition preset_ok :: "preset \<Rightarrow> bool" where
  "preset_ok p \<longleftrightarrow> length (out_table p) = 256 \<and> length (mod_table p) = 256 \<and> deg_shift p = 45 \<and>
     (\<forall>x \<in> set (out_table p). in_range x) \<and> (\<forall>i < 256. drop_bit 53 (mod_table p ! i) = word_of_nat i)"

lemma in_range_bit: "in_range s \<Longrightarrow> 53 \<le> n \<Longrightarrow> \<not> bit s n"
proof -
  assume s: "in_range s" and n: "53 \<le> n"
  have "bit (drop_bit 53 s) (n - 53) = bit s n" using n by (simp add: bit_drop_bit_eq)
  then show "\<not> bit s n" using s by (simp add: in_range_def)
qed

lemma in_range_xor: "in_range a \<Longrightarrow> in_range b \<Longrightarrow> in_range (a XOR b)"
  by (simp add: in_range_def)

lemma in_range_index: "in_range s \<Longrightarrow> unat (drop_bit 45 s) < 256"
proof -
  assume "in_range s"
  then have "drop_bit 8 (drop_bit 45 s) = 0" by (simp add: in_range_def)
  then have "drop_bit 8 (unat (drop_bit 45 s)) = 0" by (simp only: unat_drop_bit_eq[symmetric] unat_0)
  then show ?thesis by (simp add: drop_bit_eq_div div_eq_0_iff)
qed

lemma roll_in_range:
  assumes p: "preset_ok p" and "in_range out_entry" and "in_range s"
  shows "\<exists>s'. roll p out_entry b s = Some s' \<and> in_range s'"
proof -
  define x where "x = s XOR out_entry"
  let ?i = "unat (drop_bit 45 x)"
  have x: "in_range x" unfolding x_def by (rule in_range_xor[OF assms(3,2)])
  have i: "?i < 256" by (rule in_range_index[OF x])
  have mod: "drop_bit 53 (mod_table p ! ?i) = drop_bit 45 x"
    using p i by (simp add: preset_ok_def)
  have push: "drop_bit 53 (push_bit 8 x) = drop_bit 45 x"
  proof (rule bit_eqI)
    fix n assume "possible_bit TYPE(64 word) n"
    then show "bit (drop_bit 53 (push_bit 8 x)) n = bit (drop_bit 45 x) n"
      using in_range_bit[OF x, of "45 + n"] by (cases "n < 8") (auto simp: bit_drop_bit_eq bit_push_bit_iff)
  qed
  have "drop_bit 53 (ucast b :: 64 word) = 0"
    by (rule bit_eqI) (auto simp: bit_drop_bit_eq bit_ucast_iff dest: bit_imp_le_length)
  then have "in_range ((push_bit 8 x OR ucast b) XOR mod_table p ! ?i)"
    by (simp add: in_range_def push mod)
  moreover have "roll p out_entry b s = Some ((push_bit 8 x OR ucast b) XOR mod_table p ! ?i)"
    using p i by (simp add: roll_def arr_at_def preset_ok_def Let_def x_def[symmetric])
  ultimately show ?thesis by blast
qed

lemma out_entry_in_range: "preset_ok p \<Longrightarrow> i < 256 \<Longrightarrow> \<exists>x. arr_at (out_table p) i = Some x \<and> in_range x"
  by (auto simp: arr_at_def preset_ok_def)

section \<open>Where a chunk ends\<close>

definition rabin_ok :: "rabin \<Rightarrow> bool" where
  "rabin_ok r \<longleftrightarrow> preset_ok (rb_preset r) \<and> in_range (init_state r) \<and> 0 < window_size (rb_preset r) \<and>
     mins_sans_preheat r + window_size (rb_preset r) = min_size (rb_config r) \<and>
     min_size (rb_config r) < max_size (rb_config r)"

lemma rabin_okD:
  assumes "rabin_ok r"
  shows "preset_ok (rb_preset r)" and "in_range (init_state r)" and "0 < window_size (rb_preset r)"
    and "mins_sans_preheat r + window_size (rb_preset r) = min_size (rb_config r)"
    and "min_size (rb_config r) < max_size (rb_config r)"
  using assms by (simp_all add: rabin_ok_def)

lemma preheat_ok:
  assumes p: "preset_ok p" and "cur + length is \<le> length buf" and "in_range s"
  shows "\<exists>s'. preheat p buf is cur s = Some (cur + length is, s') \<and> in_range s'"
  using assms(2,3)
proof (induction "is" arbitrary: cur s)
  case (Cons i "is")
  obtain x where x: "arr_at (out_table p) (if i = window_size p then 1 else 0) = Some x" "in_range x"
    using out_entry_in_range[OF p, of 1] out_entry_in_range[OF p, of 0] by (cases "i = window_size p") auto
  have b: "arr_at buf cur = Some (buf ! cur)" using Cons.prems by (simp add: arr_at_def)
  obtain s1 where s1: "roll p x (buf ! cur) s = Some s1" "in_range s1" using roll_in_range[OF p x(2) Cons.prems(2)] by blast
  obtain s' where "preheat p buf is (cur + 1) s1 = Some (cur + 1 + length is, s')" "in_range s'"
    using Cons.IH[OF _ s1(2), of "cur + 1"] Cons.prems(1) by auto
  then show ?case using x b s1 by simp
qed simp

lemma cycle_step:
  assumes r: "rabin_ok r" and "window_size (rb_preset r) \<le> cur" and "cur < m" and "m \<le> length buf" and "in_range s"
    and "s AND rb_mask r \<noteq> target_value (rb_config r)"
  obtains s' where "in_range s'" and "cycle r buf m cur s = cycle r buf m (cur + 1) s'"
    and "roll (rb_preset r) (out_table (rb_preset r) ! unat (buf ! (cur - window_size (rb_preset r)))) (buf ! cur) s = Some s'"
proof -
  let ?w = "window_size (rb_preset r)" let ?b = "buf ! (cur - ?w)"
  note p = rabin_okD(1)[OF r]
  have "unat ?b < 2 ^ 8" using unsigned_less[of ?b] by simp
  then have "unat ?b < 256" by simp
  then obtain x where x: "arr_at (out_table (rb_preset r)) (unat ?b) = Some x" "in_range x" using out_entry_in_range[OF p] by blast
  then have xeq: "x = out_table (rb_preset r) ! unat ?b" by (simp add: arr_at_def split: if_splits)
  obtain s' where s': "roll (rb_preset r) x (buf ! cur) s = Some s'" "in_range s'"
    using roll_in_range[OF p x(2) assms(5)] by blast
  have "arr_at buf (cur - ?w) = Some ?b" "arr_at buf cur = Some (buf ! cur)" using assms(3,4) by (auto simp: arr_at_def)
  then have "cycle r buf m cur s = cycle r buf m (cur + 1) s'"
    using assms x s' by (subst cycle.simps) simp
  then show thesis using that s' xeq by blast
qed

lemma cycle_stop: "\<not> (cur < m \<and> s AND rb_mask r \<noteq> target_value (rb_config r)) \<Longrightarrow> cycle r buf m cur s = Some cur"
  by (subst cycle.simps) auto

lemma cycle_ok:
  assumes r: "rabin_ok r" and "window_size (rb_preset r) \<le> cur" and "cur \<le> m" and "m \<le> length buf" and "in_range s"
  shows "\<exists>k. cycle r buf m cur s = Some k \<and> cur \<le> k \<and> k \<le> m"
  using assms(2-5)
proof (induction "m - cur" arbitrary: cur s)
  case 0
  then show ?case using cycle_stop[of cur m] by auto
next
  case (Suc n)
  show ?case
  proof (cases "s AND rb_mask r = target_value (rb_config r)")
    case True
    then show ?thesis using cycle_stop[of cur m s r buf] Suc.prems by auto
  next
    case False
    have lt: "cur < m" using Suc.hyps(2) by linarith
    obtain s' where s': "in_range s'" "cycle r buf m cur s = cycle r buf m (cur + 1) s'"
      by (rule cycle_step[OF r Suc.prems(1) lt Suc.prems(3,4) False])
    have "\<exists>k. cycle r buf m (cur + 1) s' = Some k \<and> cur + 1 \<le> k \<and> k \<le> m"
      using Suc.hyps(2) Suc.prems lt s'(1) by (intro Suc.hyps(1)) auto
    then show ?thesis using s'(2) by auto
  qed
qed

text \<open>The same bytes at another place of a buffer give the same states.\<close>

lemma preheat_agree:
  assumes p: "preset_ok p" and "\<And>j. j < m \<Longrightarrow> arr_at buf (c + j) = arr_at buf' j" and "k + length is \<le> m"
  shows "preheat p buf is (c + k) s = map_option (\<lambda>(i, s). (c + i, s)) (preheat p buf' is k s)"
  using assms(3)
proof (induction "is" arbitrary: k s)
  case (Cons i "is")
  have at: "arr_at buf (c + k) = arr_at buf' k" using Cons.prems assms(2) by simp
  have "preheat p buf is (c + (k + 1)) = (\<lambda>s. map_option (\<lambda>(i, s). (c + i, s)) (preheat p buf' is (k + 1) s))"
    using Cons.prems by (intro ext Cons.IH) simp
  then show ?case by (simp add: at map_option_bind comp_def)
qed simp

lemma cycle_agree:
  assumes "\<And>j. j < m \<Longrightarrow> arr_at buf (c + j) = arr_at buf' j" and "window_size (rb_preset r) \<le> k"
  shows "cycle r buf (c + m) (c + k) s = map_option ((+) c) (cycle r buf' m k s)"
  using assms(2)
proof (induction "m - k" arbitrary: k s rule: less_induct)
  case less
  show ?case
  proof (cases "k < m \<and> s AND rb_mask r \<noteq> target_value (rb_config r)")
    case False
    then show ?thesis using cycle_stop[of k m s r buf'] cycle_stop[of "c + k" "c + m" s r buf] by simp
  next
    case True
    let ?w = "window_size (rb_preset r)"
    have at: "arr_at buf (c + k) = arr_at buf' k" "arr_at buf (c + k - ?w) = arr_at buf' (k - ?w)"
      using True less.prems assms(1)[of k] assms(1)[of "k - ?w"] by (simp_all add: less_imp_diff_less)
    have IH: "cycle r buf (c + m) (c + k + 1) = (\<lambda>s. map_option ((+) c) (cycle r buf' m (k + 1) s))"
      using less.hyps[of "k + 1"] diff_less_mono2[of k "k + 1" m] True less.prems by (intro ext) (simp add: add.assoc)
    then show ?thesis using less.prems
      unfolding cycle.simps[of r buf "c + m" "c + k"] cycle.simps[of r buf' m k]
      by (simp add: at IH[simplified] map_option_bind comp_def)
  qed
qed

text \<open>The length of the first chunk of a content that is longer than the minimum.\<close>

definition chunk_end :: "rabin \<Rightarrow> bytes \<Rightarrow> nat option" where
  "chunk_end r xs = Option.bind (preheat (rb_preset r) xs [1..<window_size (rb_preset r) + 1] (mins_sans_preheat r) (init_state r))
     (\<lambda>(k, s). cycle r xs (min (max_size (rb_config r)) (length xs)) k s)"

lemma preheat_window:
  assumes r: "rabin_ok r" and "min_size (rb_config r) \<le> length xs"
  obtains s where "preheat (rb_preset r) xs [1..<window_size (rb_preset r) + 1] (mins_sans_preheat r) (init_state r) =
      Some (min_size (rb_config r), s)" and "in_range s"
proof -
  note D = rabin_okD[OF r]
  have len: "length [1..<window_size (rb_preset r) + 1] = window_size (rb_preset r)" by simp
  have "mins_sans_preheat r + window_size (rb_preset r) \<le> length xs" using D(4) assms(2) by simp
  from preheat_ok[OF D(1), of "mins_sans_preheat r" "[1..<window_size (rb_preset r) + 1]" xs, unfolded len, OF this D(2)]
  show thesis using that unfolding D(4) by blast
qed

lemma chunk_end_ok:
  assumes r: "rabin_ok r" and "min_size (rb_config r) < length xs"
  obtains k where "chunk_end r xs = Some k" and "min_size (rb_config r) \<le> k" and "k \<le> max_size (rb_config r)" and "k \<le> length xs"
proof -
  note D = rabin_okD[OF r]
  let ?w = "window_size (rb_preset r)" let ?m = "min (max_size (rb_config r)) (length xs)"
  obtain s where s: "preheat (rb_preset r) xs [1..<?w + 1] (mins_sans_preheat r) (init_state r) =
      Some (min_size (rb_config r), s)" "in_range s" using preheat_window[OF r, of xs] assms(2) by (metis less_imp_le_nat)
  have "\<exists>k. cycle r xs ?m (min_size (rb_config r)) s = Some k \<and> min_size (rb_config r) \<le> k \<and> k \<le> ?m"
    using D assms(2) s(2) by (intro cycle_ok[OF r]) auto
  then show thesis using that s(1) by (auto simp: chunk_end_def)
qed

section \<open>The reference\<close>

text \<open>Cutting a whole content: each chunk ends where \<open>chunk_end\<close> says, a rest up to the minimum is the last chunk.\<close>

function rabin_ref :: "rabin \<Rightarrow> bytes \<Rightarrow> bytes list" where
  "rabin_ref r xs =
     (if xs = [] then []
      else if length xs \<le> min_size (rb_config r) then [xs]
      else case chunk_end r xs of
             None \<Rightarrow> [xs]
           | Some k \<Rightarrow> if 0 < k then take k xs # rabin_ref r (drop k xs) else [xs])"
  by pat_completeness auto

termination
  by (relation "measure (\<lambda>(r, xs). length xs)") auto

declare rabin_ref.simps [simp del]

lemma rabin_ref_step:
  assumes "rabin_ok r" and "min_size (rb_config r) < length xs" and "chunk_end r xs = Some k"
  shows "rabin_ref r xs = take k xs # rabin_ref r (drop k xs)" and "0 < k"
proof -
  have "min_size (rb_config r) \<le> k" by (rule chunk_end_ok[OF assms(1,2)]) (use assms(3) in simp)
  then show "0 < k" using rabin_okD(3,4)[OF assms(1)] by linarith
  then show "rabin_ref r xs = take k xs # rabin_ref r (drop k xs)"
    using assms(2,3) by (subst rabin_ref.simps) auto
qed

lemma rabin_ref_short: "length xs \<le> min_size (rb_config r) \<Longrightarrow> rabin_ref r xs = (if xs = [] then [] else [xs])"
  by (subst rabin_ref.simps) simp

lemma rabin_ref_spec:
  assumes r: "rabin_ok r"
  shows "concat (rabin_ref r xs) = xs \<and> (\<forall>c \<in> set (rabin_ref r xs). c \<noteq> [] \<and> length c \<le> max_size (rb_config r)) \<and>
    (\<forall>c \<in> set (butlast (rabin_ref r xs)). min_size (rb_config r) \<le> length c)"
proof (induction "length xs" arbitrary: xs rule: less_induct)
  case less
  show ?case
  proof (cases "length xs \<le> min_size (rb_config r)")
    case True
    then show ?thesis using rabin_ref_short[OF True] rabin_okD(5)[OF r] by auto
  next
    case False
    then obtain k where k: "chunk_end r xs = Some k" "min_size (rb_config r) \<le> k" "k \<le> max_size (rb_config r)" "k \<le> length xs"
      using chunk_end_ok[OF r, of xs] by auto
    note step = rabin_ref_step[OF r _ k(1)]
    have "length (drop k xs) < length xs" using False step(2) by auto
    from less[OF this] show ?thesis using step False k by (auto split: if_splits)
  qed
qed

section \<open>The loops compute the reference\<close>

lemma cut_in_buffer:
  assumes r: "rabin_ok r" and c: "c \<le> length buf" and long: "c + min_size (rb_config r) < length buf"
    and all: "ys = [] \<or> c + max_size (rb_config r) \<le> length buf"
    and k: "chunk_end r (drop c buf @ ys) = Some k"
  shows "Option.bind (preheat (rb_preset r) buf [1..<window_size (rb_preset r) + 1] (c + mins_sans_preheat r) (init_state r))
      (\<lambda>(i, s). cycle r buf (min (c + max_size (rb_config r)) (length buf)) i s) = Some (c + k)"
proof -
  note D = rabin_okD[OF r]
  let ?xs = "drop c buf @ ys" let ?w = "window_size (rb_preset r)"
  have agree: "arr_at buf (c + j) = arr_at ?xs j" if "j < length buf - c" for j
    using that by (simp add: arr_at_def nth_append less_diff_conv add.commute)
  have ph: "preheat (rb_preset r) buf [1..<?w + 1] (c + mins_sans_preheat r) (init_state r) =
      map_option (\<lambda>(i, s). (c + i, s)) (preheat (rb_preset r) ?xs [1..<?w + 1] (mins_sans_preheat r) (init_state r))"
    by (rule preheat_agree[OF D(1), where m = "length buf - c"]) (use agree D(4) long in auto)
  have "min_size (rb_config r) \<le> length ?xs" using long by simp
  then obtain s where s: "preheat (rb_preset r) ?xs [1..<?w + 1] (mins_sans_preheat r) (init_state r) =
      Some (min_size (rb_config r), s)" by (rule preheat_window[OF r])
  let ?m = "min (max_size (rb_config r)) (length buf - c)"
  have m: "min (max_size (rb_config r)) (length ?xs) = ?m" "min (c + max_size (rb_config r)) (length buf) = c + ?m"
    using all c by auto
  have "cycle r buf (c + ?m) (c + min_size (rb_config r)) s = map_option ((+) c) (cycle r ?xs ?m (min_size (rb_config r)) s)"
    using D(4) by (intro cycle_agree agree) auto
  then show ?thesis using k unfolding chunk_end_def ph s m by simp
qed

lemma rounds_entire:
  assumes r: "rabin_ok r" and "c \<le> length buf"
  shows "\<exists>c'. rounds r buf True c out = Some (out @ map Inr (rabin_ref r (drop c buf)), c')"
  using assms(2)
proof (induction "length buf - c" arbitrary: c out rule: less_induct)
  case less
  show ?case
  proof (cases "length buf \<le> c + min_size (rb_config r)")
    case True
    then have "rabin_ref r (drop c buf) = (if length buf = c then [] else [drop c buf])"
      using less.prems by (subst rabin_ref_short) auto
    then show ?thesis using True by (subst rounds.simps) (simp add: Let_def)
  next
    case False
    then have long: "min_size (rb_config r) < length (drop c buf)" by auto
    obtain k where k: "chunk_end r (drop c buf) = Some k" "k \<le> length (drop c buf)"
      by (rule chunk_end_ok[OF r long])
    note step = rabin_ref_step[OF r long k(1)]
    have "rounds r buf True c out = rounds r buf True (c + k) (out @ [Inr (take k (drop c buf))])"
      using False cut_in_buffer[OF r less.prems, of "[]" k] k(1)
      by (subst rounds.simps) (auto simp: Let_def min_def bind_eq_Some_conv split: if_splits)
    moreover obtain c' where "rounds r buf True (c + k) (out @ [Inr (take k (drop c buf))]) =
        Some ((out @ [Inr (take k (drop c buf))]) @ map Inr (rabin_ref r (drop (c + k) buf)), c')"
      using less.hyps[of "c + k" "out @ [Inr (take k (drop c buf))]"] less.prems step(2) k(2) by force
    ultimately show ?thesis using step(1) by (simp add: add.commute)
  qed
qed

lemma rounds_partial:
  assumes r: "rabin_ok r" and "c \<le> length buf"
  shows "\<exists>cs c'. rounds r buf False c out = Some (out @ map Inr cs, c') \<and> c' \<le> length buf \<and>
    length buf - c' < max_size (rb_config r) \<and>
    (\<forall>ys. rabin_ref r (drop c buf @ ys) = cs @ rabin_ref r (drop c' buf @ ys))"
  using assms(2)
proof (induction "length buf - c" arbitrary: c out rule: less_induct)
  case less
  show ?case
  proof (cases "length buf < c + max_size (rb_config r)")
    case True
    then have "rounds r buf False c out = Some (out @ map Inr [], c)"
      by (subst rounds.simps) (simp add: Let_def)
    then show ?thesis using less.prems True by (intro exI[of _ "[]"] exI[of _ c]) auto
  next
    case False
    have long: "min_size (rb_config r) < length (drop c buf @ ys)" for ys using False rabin_okD(5)[OF r] by simp
    have room: "c + min_size (rb_config r) < length buf" "ys = [] \<or> c + max_size (rb_config r) \<le> length buf" for ys
      using False rabin_okD(5)[OF r] by auto
    obtain k where k: "chunk_end r (drop c buf @ []) = Some k" "k \<le> length (drop c buf @ [])"
      by (rule chunk_end_ok[OF r long])
    note inb = cut_in_buffer[OF r less.prems room(1) room(2)]
    have cut: "chunk_end r (drop c buf @ ys) = Some k" for ys
    proof -
      obtain k' where k': "chunk_end r (drop c buf @ ys) = Some k'" by (rule chunk_end_ok[OF r long])
      then show ?thesis using inb[OF k'] inb[OF k(1)] by simp
    qed
    note step = rabin_ref_step[OF r long cut]
    define out' where "out' = out @ [Inr (take k (drop c buf))]"
    have "rounds r buf False c out = rounds r buf False (c + k) out'"
      using False room(1) inb[OF k(1)]
      by (subst rounds.simps) (auto simp: Let_def min_def bind_eq_Some_conv out'_def split: if_splits)
    moreover have "\<exists>cs c'. rounds r buf False (c + k) out' = Some (out' @ map Inr cs, c') \<and> c' \<le> length buf \<and>
      length buf - c' < max_size (rb_config r) \<and>
      (\<forall>ys. rabin_ref r (drop (c + k) buf @ ys) = cs @ rabin_ref r (drop c' buf @ ys))"
      using less.prems k(2) step(2) room(1) by (intro less.hyps) auto
    moreover have "rabin_ref r (drop c buf @ ys) = take k (drop c buf) # rabin_ref r (drop (c + k) buf @ ys)" for ys
      using step(1)[of ys] k(2) by (simp add: add.commute)
    ultimately show ?thesis by (auto simp: out'_def)
  qed
qed

lemma fill_spec:
  assumes "\<And>x. x \<in> set reads \<Longrightarrow> \<exists>d. x = Data d \<and> d \<noteq> []"
  shows "\<exists>d reads'. fill limit buf n reads = Inr (buf @ d, n + length d, reads') \<and> data_of reads = d @ data_of reads' \<and>
    set reads' \<subseteq> set reads \<and> (d = [] \<longrightarrow> reads = [] \<or> limit \<le> length buf) \<and> (d \<noteq> [] \<longrightarrow> length reads' < length reads) \<and>
    length reads' \<le> length reads \<and> (length (buf @ d) < limit \<longrightarrow> reads' = [])"
  using assms
proof (induction reads arbitrary: buf n)
  case Nil
  show ?case by (intro exI[of _ "[]"]) simp
next
  case (Cons x reads)
  obtain d where d: "x = Data d" "d \<noteq> []" using Cons.prems[of x] by auto
  show ?case
  proof (cases "length buf < limit")
    case True
    obtain d' reads' where "fill limit (buf @ d) (n + length d) reads = Inr ((buf @ d) @ d', n + length d + length d', reads')"
      "data_of reads = d' @ data_of reads'" "set reads' \<subseteq> set reads" "length reads' \<le> length reads"
      "length ((buf @ d) @ d') < limit \<longrightarrow> reads' = []"
      using Cons.IH[of "buf @ d" "n + length d"] Cons.prems by auto
    then show ?thesis using True d by (intro exI[of _ "d @ d'"] exI[of _ reads']) auto
  next
    case False
    then show ?thesis by (intro exI[of _ "[]"] exI[of _ "x # reads"]) auto
  qed
qed

lemma rabin_loop_spec:
  assumes r: "rabin_ok r" and "\<And>x. x \<in> set reads \<Longrightarrow> \<exists>d. x = Data d \<and> d \<noteq> []"
    and "length buf < 3 * max_size (rb_config r)"
  shows "rabin_loop r buf reads out = Some (out @ map Inr (rabin_ref r (buf @ data_of reads)))"
  using assms(2,3)
proof (induction "length reads" arbitrary: buf reads out rule: less_induct)
  case less
  note D = rabin_okD[OF r]
  let ?t = "3 * max_size (rb_config r)"
  obtain d reads' where fill: "fill ?t buf 0 reads = Inr (buf @ d, length d, reads')"
    and dat: "data_of reads = d @ data_of reads'" and sub: "set reads' \<subseteq> set reads"
    and empty: "d = [] \<Longrightarrow> reads = []" and shrink: "d \<noteq> [] \<Longrightarrow> length reads' < length reads"
    and le: "length reads' \<le> length reads" and exhausted: "length (buf @ d) < ?t \<Longrightarrow> reads' = []"
    using fill_spec[of reads ?t buf 0] less.prems by auto
  show ?case
  proof (cases "length (buf @ d) < min_size (rb_config r)")
    case True
    then have "reads' = []" using exhausted D(5) by linarith
    moreover have "rabin_ref r (buf @ d) = (if buf @ d = [] then [] else [buf @ d])"
      using True by (intro rabin_ref_short) simp
    ultimately show ?thesis using True fill dat by (subst rabin_loop.simps) auto
  next
    case False
    show ?thesis
    proof (cases "d = []")
      case True
      then have "reads = []" "reads' = []" using empty le by simp_all
      moreover obtain c' where "rounds r buf True 0 out = Some (out @ map Inr (rabin_ref r buf), c')"
        using rounds_entire[OF r, of 0 buf out] by auto
      ultimately show ?thesis using fill True False by (subst rabin_loop.simps) simp
    next
      case nonempty: False
      obtain cs c' where cs: "rounds r (buf @ d) False 0 out = Some (out @ map Inr cs, c')" "c' \<le> length (buf @ d)"
        "length (buf @ d) - c' < max_size (rb_config r)"
        "\<And>ys. rabin_ref r ((buf @ d) @ ys) = cs @ rabin_ref r (drop c' (buf @ d) @ ys)"
        using rounds_partial[OF r, of 0 "buf @ d" out] by auto
      have "rabin_loop r (drop c' (buf @ d)) reads' (out @ map Inr cs) =
          Some ((out @ map Inr cs) @ map Inr (rabin_ref r (drop c' (buf @ d) @ data_of reads')))"
      proof (rule less.hyps[OF shrink[OF nonempty]])
        show "\<exists>d. x = Data d \<and> d \<noteq> []" if "x \<in> set reads'" for x using that sub less.prems(1) by blast
        show "length (drop c' (buf @ d)) < ?t" using cs(3) by simp
      qed
      then show ?thesis using fill nonempty False cs(1) cs(4)[of "data_of reads'"] dat
        by (subst rabin_loop.simps) simp
    qed
  qed
qed

section \<open>The preset of go-ipfs\<close>

lemma out_table_in_range: "list_all in_range GoIpfsV0_out_table \<and> length GoIpfsV0_out_table = 256"
  by (simp add: GoIpfsV0_out_table_def in_range_def)

lemma mod_table_cancels:
  "map (drop_bit 53) GoIpfsV0_mod_table = map word_of_nat [0..<256]"
  by (simp add: GoIpfsV0_mod_table_def upt_rec)

lemma preset_GoIpfsV0_ok: "preset_ok GO_IPFS_V0_PRESET"
proof -
  have len: "length GoIpfsV0_mod_table = 256" using arg_cong[OF mod_table_cancels, of length] by simp
  have "drop_bit 53 (GoIpfsV0_mod_table ! i) = word_of_nat i" if "i < 256" for i
    using arg_cong[OF mod_table_cancels, of "\<lambda>xs. xs ! i"] that len by simp
  then show ?thesis using out_table_in_range len by (simp add: preset_ok_def GO_IPFS_V0_PRESET_def list_all_iff)
qed

lemma GoIpfsV0_first: "arr_at GoIpfsV0_out_table 0 = Some 0" "arr_at GoIpfsV0_mod_table 0 = Some 0"
  by (simp_all add: arr_at_def GoIpfsV0_out_table_def GoIpfsV0_mod_table_def)

lemma Rabin_new_ok:
  assumes "Rabin_new oc config GO_IPFS_V0_PRESET = Some r" and "16 \<le> min_size config"
  shows "rabin_ok r" and "rb_config r = config" and "init_state r = 1"
    and "1 \<le> mask_bits config \<Longrightarrow> rb_mask r = push_bit ((mask_bits config - 1) mod 64) 1"
proof -
  have r: "min_size config < max_size config" "init_state r = 1" "mins_sans_preheat r = min_size config - 16"
    "rb_preset r = GO_IPFS_V0_PRESET" "rb_config r = config"
    using assms by (auto simp: Rabin_new_def GO_IPFS_V0_PRESET_def GoIpfsV0_first bind_eq_Some_conv split: if_splits)
  show "rabin_ok r"
    using r assms(2) preset_GoIpfsV0_ok by (simp add: rabin_ok_def in_range_def) (simp add: GO_IPFS_V0_PRESET_def)
  show "rb_config r = config" "init_state r = 1" by (rule r)+
  assume "1 \<le> mask_bits config"
  then show "rb_mask r = push_bit ((mask_bits config - 1) mod 64) 1"
    using assms by (auto simp: Rabin_new_def GO_IPFS_V0_PRESET_def GoIpfsV0_first bind_eq_Some_conv split: if_splits)
qed

section \<open>Properties\<close>

text \<open>
  C20: The Rabin chunker, with its preset and any configuration whose minimum covers the window, neither
  panics nor hangs on any error-free source, and its buffering is transparent: the chunks are those of the
  reference, which sees the whole content at once, so they do not depend on how the source fragments it.
  Joined they are the content, none is empty or longer than the maximum, and only the last may be
  shorter than the minimum. Every table index is in bounds because the tables keep the fingerprint below
  degree 53.
\<close>

theorem Rabin_chunks_correct:
  assumes "Rabin_new oc config GO_IPFS_V0_PRESET = Some r" and "16 \<le> min_size config"
    and "\<And>x. x \<in> set reads \<Longrightarrow> \<exists>d. x = Data d \<and> d \<noteq> []"
  shows "Rabin_chunks r reads = Some (map Inr (rabin_ref r (data_of reads))) \<and>
    concat (rabin_ref r (data_of reads)) = data_of reads \<and>
    (\<forall>c \<in> set (rabin_ref r (data_of reads)). c \<noteq> [] \<and> length c \<le> max_size config) \<and>
    (\<forall>c \<in> set (butlast (rabin_ref r (data_of reads))). min_size config \<le> length c)"
proof -
  note ok = Rabin_new_ok(1,2)[OF assms(1,2)]
  have "0 < max_size (rb_config r)" using rabin_okD(5)[OF ok(1)] by linarith
  then have "Rabin_chunks r reads = Some (map Inr (rabin_ref r (data_of reads)))"
    using rabin_loop_spec[OF ok(1) assms(3), where buf = "[]" and out = "[]"] by (simp add: Rabin_chunks_def)
  then show ?thesis using rabin_ref_spec[OF ok(1), of "data_of reads"] ok(2) by simp
qed

theorem Rabin_chunks_correct_witness:
  "\<exists>r cs. Rabin_new True rabin_config_default GO_IPFS_V0_PRESET = Some r \<and>
     Rabin_chunks r [Data [1, 2], Data [3] :: unit read_result] = Some (map Inr cs) \<and> concat cs = [1, 2, 3]"
proof -
  obtain r where r: "Rabin_new True rabin_config_default GO_IPFS_V0_PRESET = Some r"
    by (simp add: Rabin_new_def rabin_config_default_def GO_IPFS_V0_PRESET_def GoIpfsV0_first)
  from Rabin_chunks_correct[OF r, of "[Data [1, 2], Data [3]] :: unit read_result list"] r
  show ?thesis by (auto simp: rabin_config_default_def)
qed

text \<open>
  The mask has a single bit: a chunk ends as soon as one bit of the fingerprint, number \<open>mask_bits - 1\<close>,
  agrees with the target, while the configuration documents \<open>mask_bits\<close> as the amount of bits to compare.
\<close>

lemma Rabin_mask_single_bit:
  assumes "Rabin_new oc rabin_config_default GO_IPFS_V0_PRESET = Some r"
  shows "s AND rb_mask r = target_value (rb_config r) \<longleftrightarrow> \<not> bit s 17"
proof -
  have "rb_mask r = push_bit 17 1" "rb_config r = rabin_config_default"
    using Rabin_new_ok(2,4)[OF assms] by (simp_all add: rabin_config_default_def)
  then have "s AND rb_mask r = target_value (rb_config r) \<longleftrightarrow> s AND push_bit 17 1 = 0"
    by (simp add: rabin_config_default_def)
  also have "\<dots> \<longleftrightarrow> \<not> bit s 17"
    using and_exp_eq_0_iff_not_bit[of s 17] by (simp add: push_bit_of_1)
  finally show ?thesis .
qed

end
