(* ===== verification/BalancedTree.thy ===== *)
theory BalancedTree
  imports ContentReader Rabin
begin

text \<open>
  Building the tree of a file from its chunks (\<open>iroh-unixfs/src/balanced_tree.rs\<close>) and the file builder
  (\<open>builder.rs\<close>). A stream of blocks is the list of its items. It ends after the first error.
\<close>

section \<open>Definitions\<close>

definition DEFAULT_DEGREE :: nat where
  "DEFAULT_DEGREE = 174"

datatype tree_builder = Balanced nat

text \<open>\<open>None\<close> is the failed assertion.\<close>

definition balanced_tree_with_degree :: "nat \<Rightarrow> tree_builder option" where
  "balanced_tree_with_degree degree = (if degree > 1 then Some (Balanced degree) else None)"

definition balanced_tree :: "tree_builder option" where
  "balanced_tree = balanced_tree_with_degree DEFAULT_DEGREE"

record link_info =
  raw_data_len :: u64
  encoded_len :: u64

datatype 'cid tree_node = Leaf bytes | Stem "('cid \<times> link_info) list"

fun u64_sum :: "bool \<Rightarrow> u64 \<Rightarrow> u64 list \<Rightarrow> u64 option" where
  "u64_sum oc acc [] = Some acc"
| "u64_sum oc acc (x # xs) = Option.bind (u64_add oc acc x) (\<lambda>acc. u64_sum oc acc xs)"

definition stem_data :: "u64 \<Rightarrow> u64 list \<Rightarrow> unixfs_data" where
  "stem_data filesize blocksizes = unixfs_data_default\<lparr>d_type := DataType_into TFile, d_filesize := Some filesize,
     d_blocksizes := blocksizes\<rparr>"

definition stem_link :: "'cid ufs_ops \<Rightarrow> 'cid \<times> link_info \<Rightarrow> pb_link" where
  "stem_link ops l = \<lparr>pl_hash = Some (uc_to_bytes ops (fst l)), pl_name = None, pl_tsize = Some (encoded_len (snd l))\<rparr>"

definition create_unixfs_node_from_links ::
  "'cid ufs_ops \<Rightarrow> bool \<Rightarrow> ('cid \<times> link_info) list \<Rightarrow> ufs_error + 'cid unixfs_node" where
  "create_unixfs_node_from_links ops oc links =
     (let blocksizes = map (\<lambda>l. raw_data_len (snd l)) links
      in result_bind (ok_or Panicked (u64_sum oc 0 blocksizes)) (\<lambda>filesize.
         result_bind (encode_unixfs_pb ops (stem_data filesize blocksizes) (map (stem_link ops) links)) (\<lambda>outer.
         Inr (File \<lparr>n_outer = outer, n_inner = stem_data filesize blocksizes\<rparr>))))"

fun TreeNode_encode :: "'cid ufs_ops \<Rightarrow> bool \<Rightarrow> 'cid tree_node \<Rightarrow> ufs_error + 'cid ufs_block \<times> link_info" where
  "TreeNode_encode ops oc (Leaf bytes) =
     result_bind (UnixfsNode_encode ops (Raw bytes)) (\<lambda>block.
     Inr (block, \<lparr>raw_data_len = of_nat (length bytes), encoded_len = of_nat (length bytes)\<rparr>))"
| "TreeNode_encode ops oc (Stem links) =
     result_bind (ok_or Panicked (u64_sum oc 0 (map (\<lambda>l. encoded_len (snd l)) links))) (\<lambda>encoded.
     result_bind (create_unixfs_node_from_links ops oc links) (\<lambda>node.
     result_bind (UnixfsNode_encode ops node) (\<lambda>block.
     result_bind (ok_or Panicked (u64_add oc encoded (of_nat (length (ub_data block))))) (\<lambda>encoded.
     result_bind (ok_or Panicked (UnixfsNode_filesize node)) (\<lambda>raw.
     Inr (block, \<lparr>raw_data_len = raw, encoded_len = encoded\<rparr>))))))"

text \<open>
  The layers of the tree, the lowest first. \<open>carry\<close> is the loop that empties full layers: the blocks it emits,
  and the layers after it or an error.
\<close>

type_synonym 'cid layers = "('cid \<times> link_info) list list"

function carry ::
  "'cid ufs_ops \<Rightarrow> bool \<Rightarrow> nat \<Rightarrow> 'cid layers \<Rightarrow> 'cid ufs_block list \<times> (ufs_error + 'cid layers)" where
  "carry ops oc degree [] = ([], Inr [])"
| "carry ops oc degree (links # tree) =
     (if length links < degree then ([], Inr (links # tree))
      else case TreeNode_encode ops oc (Stem links) of
             Inl e \<Rightarrow> ([], Inl e)
           | Inr (block, link_info) \<Rightarrow>
               (case tree of
                  [] \<Rightarrow> ([block], Inr [[], [(ub_cid block, link_info)]])
                | parent # tree' \<Rightarrow>
                    let (out, r) = carry ops oc degree ((parent @ [(ub_cid block, link_info)]) # tree')
                    in (block # out, result_bind r (\<lambda>t. Inr ([] # t)))))"
  by pat_completeness auto

termination
  by (relation "measure (\<lambda>(ops, oc, degree, tree). length tree)") auto

text \<open>The stem nodes that are left at the end.\<close>

function finish :: "'cid ufs_ops \<Rightarrow> bool \<Rightarrow> 'cid layers \<Rightarrow> (ufs_error + 'cid ufs_block) list" where
  "finish ops oc [] = []"
| "finish ops oc (links # tree) =
     (case TreeNode_encode ops oc (Stem links) of
        Inl e \<Rightarrow> [Inl e]
      | Inr (block, link_info) \<Rightarrow>
          Inr block #
            (case tree of
               [] \<Rightarrow> []
             | parent # tree' \<Rightarrow> finish ops oc ((parent @ [(ub_cid block, link_info)]) # tree')))"
  by pat_completeness auto

termination
  by (relation "measure (\<lambda>(ops, oc, tree). length tree)") auto

fun tree_loop ::
  "'cid ufs_ops \<Rightarrow> bool \<Rightarrow> nat \<Rightarrow> 'cid layers \<Rightarrow> (ufs_error + bytes) list \<Rightarrow> (ufs_error + 'cid ufs_block) list" where
  "tree_loop ops oc degree tree [] =
     (if length tree = 1 \<and> length (hd tree) = 1 then [] else finish ops oc tree)"
| "tree_loop ops oc degree tree (Inl e # chunks) = [Inl e]"
| "tree_loop ops oc degree tree (Inr chunk # chunks) =
     (case TreeNode_encode ops oc (Leaf chunk) of
        Inl e \<Rightarrow> [Inl e]
      | Inr (block, link_info) \<Rightarrow>
          let (out, r) = (if length (hd tree) = degree then carry ops oc degree tree else ([], Inr tree))
          in map Inr out @
             (case r of
                Inl e \<Rightarrow> [Inl e]
              | Inr tree \<Rightarrow>
                  Inr block #
                    tree_loop ops oc degree ((hd tree @ [(ub_cid block, link_info)]) # tl tree) chunks))"

definition stream_balanced_tree ::
  "'cid ufs_ops \<Rightarrow> bool \<Rightarrow> nat \<Rightarrow> (ufs_error + bytes) list \<Rightarrow> (ufs_error + 'cid ufs_block) list" where
  "stream_balanced_tree ops oc degree in_stream = tree_loop ops oc degree [[]] in_stream"

fun stream_tree ::
  "'cid ufs_ops \<Rightarrow> bool \<Rightarrow> tree_builder \<Rightarrow> (ufs_error + bytes) list \<Rightarrow> (ufs_error + 'cid ufs_block) list" where
  "stream_tree ops oc (Balanced degree) chunks = stream_balanced_tree ops oc degree chunks"

section \<open>Sums\<close>

lemma u64_sum_ok:
  assumes "unat acc + sum_list (map unat xs) < 2 ^ 64"
  shows "\<exists>s. u64_sum oc acc xs = Some s \<and> unat s = unat acc + sum_list (map unat xs)"
  using assms
proof (induction xs arbitrary: acc)
  case (Cons x xs)
  have "unat acc + unat x < 2 ^ 64" using Cons.prems by simp
  then have "unat (acc + x) = unat acc + unat x" by (intro unat_add_lem[THEN iffD1]) simp
  with Cons.IH[of "acc + x"] Cons.prems \<open>unat acc + unat x < 2 ^ 64\<close> show ?case by (simp add: u64_add_def add.assoc)
qed simp

text \<open>
  The codec encodes a stem node with at most \<open>degree\<close> links within the size limit of a block. A content id that
  the builder makes has a fixed length and an integer at most ten bytes, so this holds for the default degree.
\<close>

definition stems_fit :: "'cid ufs_ops \<Rightarrow> nat \<Rightarrow> bool" where
  "stems_fit ops degree \<longleftrightarrow>
     (\<forall>filesize links. length links \<le> degree \<longrightarrow>
        (let d = enc_data ops (stem_data filesize (map (\<lambda>l. raw_data_len (snd l)) links))
         in length d \<le> DEFAULT_CHUNK_SIZE_LIMIT \<and>
            length (enc_node ops \<lparr>pn_links = map (stem_link ops) links, pn_data = Some d\<rparr>) \<le> DEFAULT_CHUNK_SIZE_LIMIT))"

text \<open>
  A link and the part of the file below it: its content and the number of its blocks. \<open>sized\<close> is about the
  lengths that the link records, \<open>part_at\<close> about what a block store has below the link.
\<close>

type_synonym part = "bytes \<times> nat"

definition sized :: "'cid \<times> link_info \<Rightarrow> part \<Rightarrow> bool" where
  "sized l p \<longleftrightarrow> raw_data_len (snd l) = of_nat (length (fst p)) \<and>
     unat (encoded_len (snd l)) \<le> DEFAULT_CHUNK_SIZE_LIMIT * snd p"

definition part_at :: "'cid ufs_ops \<Rightarrow> ('cid \<Rightarrow> ufs_error + bytes) \<Rightarrow> 'cid \<times> link_info \<Rightarrow> part \<Rightarrow> bool" where
  "part_at ops load l p \<longleftrightarrow> (\<exists>k. file_at ops load (fst l) (fst p) k)"

definition parts_content :: "part list \<Rightarrow> bytes" where
  "parts_content ps = concat (map fst ps)"

definition parts_weight :: "part list \<Rightarrow> nat" where
  "parts_weight ps = sum_list (map snd ps)"

definition stored :: "('cid \<Rightarrow> ufs_error + bytes) \<Rightarrow> 'cid ufs_block list \<Rightarrow> bool" where
  "stored load bs \<longleftrightarrow> (\<forall>b \<in> set bs. load (ub_cid b) = Inr (ub_data b))"

lemma sized_sums:
  assumes "list_all2 sized links ps"
  shows "length (parts_content ps) < 2 ^ 64 \<Longrightarrow>
      sum_list (map unat (map (\<lambda>l. raw_data_len (snd l)) links)) = length (parts_content ps)"
    and "sum_list (map unat (map (\<lambda>l. encoded_len (snd l)) links)) \<le> DEFAULT_CHUNK_SIZE_LIMIT * parts_weight ps"
    and "map (\<lambda>l. raw_data_len (snd l)) links = map (\<lambda>c. of_nat (length c)) (map fst ps)"
  using assms
  by (induction rule: list_all2_induct)
    (auto simp: sized_def parts_content_def parts_weight_def unat_u64 distrib_left intro: add_mono)

lemma part_at_links:
  assumes "list_all2 (part_at ops load) links ps" and "list_all2 (\<lambda>l x. l_cid x = fst l) links ls"
  shows "\<exists>k. links_at ops load ls (map fst ps) k"
  using assms
proof (induction arbitrary: ls rule: list_all2_induct)
  case Nil
  then show ?case using links_Nil by auto
next
  case (Cons l links p ps)
  then obtain x xs where ls: "ls = x # xs" "l_cid x = fst l" "list_all2 (\<lambda>l x. l_cid x = fst l) links xs"
    by (auto simp: list_all2_Cons1)
  obtain k m where "links_at ops load xs (map fst ps) k" "file_at ops load (l_cid x) (fst p) m"
    using Cons.IH[OF ls(3)] Cons.hyps(1) ls(2) by (auto simp: part_at_def)
  then have "links_at ops load (x # xs) (fst p # map fst ps) (m + k)" by (intro links_Cons)
  then show ?case using ls(1) by auto
qed

section \<open>Stem nodes\<close>

definition stem_node :: "'cid ufs_ops \<Rightarrow> u64 \<Rightarrow> ('cid \<times> link_info) list \<Rightarrow> node" where
  "stem_node ops filesize links =
     (let inn = stem_data filesize (map (\<lambda>l. raw_data_len (snd l)) links)
      in \<lparr>n_outer = \<lparr>pn_links = map (stem_link ops) links, pn_data = Some (enc_data ops inn)\<rparr>, n_inner = inn\<rparr>)"

definition stem_links :: "('cid \<times> link_info) list \<Rightarrow> 'cid link list" where
  "stem_links links = map (\<lambda>l. \<lparr>l_cid = fst l, l_name = None, l_tsize = Some (encoded_len (snd l))\<rparr>) links"

definition stem_block :: "'cid ufs_ops \<Rightarrow> u64 \<Rightarrow> ('cid \<times> link_info) list \<Rightarrow> 'cid ufs_block" where
  "stem_block ops filesize links =
     (let out = Node_encode ops (stem_node ops filesize links)
      in \<lparr>ub_cid = uc_new ops Codec_DagPb out, ub_data = out, ub_links = map fst links\<rparr>)"

lemma stem_PbLinks:
  assumes "ufs_laws ops"
  shows "PbLinks ops (n_outer (stem_node ops fs links)) = map Inr (stem_links links)"
  by (simp add: PbLinks_def stem_node_def stem_links_def stem_link_def PbLinks_item_written[OF assms] Let_def)

lemma stem_encoded:
  assumes "ufs_laws ops" and "stems_fit ops degree" and "length links \<le> degree"
  shows "UnixfsNode_encode ops (File (stem_node ops fs links)) = Inr (stem_block ops fs links)"
    and "u64_sum oc 0 (map (\<lambda>l. raw_data_len (snd l)) links) = Some fs \<Longrightarrow>
      create_unixfs_node_from_links ops oc links = Inr (File (stem_node ops fs links))"
proof -
  let ?n = "stem_node ops fs links"
  have fits: "length (Node_encode ops ?n) \<le> DEFAULT_CHUNK_SIZE_LIMIT"
    "length (enc_data ops (stem_data fs (map (\<lambda>l. raw_data_len (snd l)) links))) \<le> DEFAULT_CHUNK_SIZE_LIMIT"
    using assms(2,3) by (simp_all add: stems_fit_def Node_encode_def stem_node_def Let_def)
  have "Node_links ops ?n = Inr (map Inr (stem_links links))"
    using stem_PbLinks[OF assms(1)]
    by (simp add: Node_links_def Node_typ_def DataType_try_from_def stem_node_def stem_data_def Let_def)
  moreover have "map l_cid (stem_links links) = map fst links" by (simp add: stem_links_def)
  ultimately show "UnixfsNode_encode ops (File ?n) = Inr (stem_block ops fs links)"
    using fits(1) by (simp add: UnixfsNode_encode_def Let_def stem_block_def del: map_map)
  show "create_unixfs_node_from_links ops oc links = Inr (File ?n)"
    if "u64_sum oc 0 (map (\<lambda>l. raw_data_len (snd l)) links) = Some fs"
    using that fits(2)
    by (simp add: create_unixfs_node_from_links_def encode_unixfs_pb_def stem_node_def Let_def)
qed

lemma stem_decoded:
  assumes "ufs_laws ops" and "load (ub_cid (stem_block ops fs links)) = Inr (ub_data (stem_block ops fs links))"
  shows "load_node ops load (ub_cid (stem_block ops fs links)) = Inr (File (stem_node ops fs links))"
proof -
  have coherent: "node_coherent ops (stem_node ops fs links)"
    by (simp add: node_coherent_def stem_node_def names_valid_def stem_link_def list_all_iff Let_def)
  have "DataType_try_from (d_type (n_inner (stem_node ops fs links))) = Some TFile"
    by (simp add: stem_node_def stem_data_def DataType_try_from_def Let_def)
  with decode_outer[OF assms(1) coherent] assms(2) show ?thesis
    by (simp add: load_node_def stem_block_def Let_def)
qed

lemma stem_content:
  assumes "ufs_laws ops" and "list_all2 sized links ps" and "list_all2 (part_at ops load) links ps"
    and "load_node ops load cid = Inr (File (stem_node ops fs links))" and "length (parts_content ps) < 2 ^ 64"
  shows "root_content ops load (File (stem_node ops fs links)) (parts_content ps)"
    and "part_at ops load (cid, info) (parts_content ps, w)"
proof -
  let ?n = "stem_node ops fs links"
  have links: "links_owned ops (File ?n) = Inr (stem_links links)"
    by (simp add: links_owned_def UnixfsNode_links_def stem_PbLinks[OF assms(1)])
  obtain k where k: "links_at ops load (stem_links links) (map fst ps) k"
    using part_at_links[OF assms(3), of "stem_links links"] by (auto simp: stem_links_def list_all2_conv_all_nth)
  have data: "data_or_empty ?n = []"
    by (simp add: data_or_empty_def stem_node_def stem_data_def unixfs_data_default_def Let_def)
  have empty: "pn_links (n_outer ?n) = [] \<longleftrightarrow> links = []" by (simp add: stem_node_def Let_def)
  have nil: "parts_content ps = []" if "links = []" using that assms(2) by (simp add: parts_content_def)
  show "root_content ops load (File ?n) (parts_content ps)"
    using links k data empty nil assms(5) by (auto simp: root_content_def parts_content_def)
  have "\<exists>k. file_at ops load cid (parts_content ps) k"
  proof (cases "links = []")
    case True
    then show ?thesis using leaf_at[OF assms(4)] empty data nil by auto
  next
    case False
    then have "stem_links links \<noteq> []" by (simp add: stem_links_def)
    moreover have "d_blocksizes (n_inner ?n) = map (\<lambda>c. of_nat (length c)) (map fst ps)"
      using sized_sums(3)[OF assms(2)] by (simp add: stem_node_def stem_data_def Let_def)
    ultimately show ?thesis using stem_at[OF assms(4) links _ k] unfolding parts_content_def by blast
  qed
  then show "part_at ops load (cid, info) (parts_content ps, w)" by (simp add: part_at_def)
qed

lemma encode_stem:
  assumes "ufs_laws ops" and "stems_fit ops degree" and "list_all2 sized links ps" and "length links \<le> degree"
    and "length (parts_content ps) < 2 ^ 64" and "DEFAULT_CHUNK_SIZE_LIMIT * (parts_weight ps + 1) < 2 ^ 64"
  shows "\<exists>b info. TreeNode_encode ops oc (Stem links) = Inr (b, info) \<and>
    sized (ub_cid b, info) (parts_content ps, parts_weight ps + 1) \<and> length (ub_links b) \<le> degree \<and>
    (\<forall>load. load (ub_cid b) = Inr (ub_data b) \<longrightarrow> list_all2 (part_at ops load) links ps \<longrightarrow>
       (\<exists>n. load_node ops load (ub_cid b) = Inr (File n) \<and> root_content ops load (File n) (parts_content ps)) \<and>
       part_at ops load (ub_cid b, info) (parts_content ps, parts_weight ps + 1))"
proof -
  obtain en where en: "u64_sum oc 0 (map (\<lambda>l. encoded_len (snd l)) links) = Some en"
    "unat en \<le> DEFAULT_CHUNK_SIZE_LIMIT * parts_weight ps"
    using u64_sum_ok[of 0 "map (\<lambda>l. encoded_len (snd l)) links" oc] sized_sums(2)[OF assms(3)] assms(6) by auto
  obtain fs where fs: "u64_sum oc 0 (map (\<lambda>l. raw_data_len (snd l)) links) = Some fs"
    "unat fs = length (parts_content ps)"
    using u64_sum_ok[of 0 "map (\<lambda>l. raw_data_len (snd l)) links" oc] sized_sums(1)[OF assms(3,5)] assms(5) by auto
  let ?b = "stem_block ops fs links"
  have lim: "length (ub_data ?b) \<le> DEFAULT_CHUNK_SIZE_LIMIT"
    using stem_encoded(1)[OF assms(1,2,4), of fs] by (auto dest: encode_outer(4))
  then have size: "unat (of_nat (length (ub_data ?b)) :: u64) = length (ub_data ?b)"
    by (intro unat_u64) (simp add: DEFAULT_CHUNK_SIZE_LIMIT_def)
  have sum: "unat en + length (ub_data ?b) \<le> DEFAULT_CHUNK_SIZE_LIMIT * (parts_weight ps + 1)"
    using en(2) lim by (simp add: distrib_left)
  then have less: "unat en + length (ub_data ?b) < 2 ^ 64" using assms(6) by linarith
  let ?info = "\<lparr>raw_data_len = fs, encoded_len = en + of_nat (length (ub_data ?b))\<rparr>"
  have "UnixfsNode_filesize (File (stem_node ops fs links) :: 'a unixfs_node) = Some fs"
    by (simp add: UnixfsNode_filesize_def stem_node_def stem_data_def Let_def)
  then have "TreeNode_encode ops oc (Stem links) = Inr (?b, ?info)"
    using en(1) stem_encoded(1)[OF assms(1,2,4), of fs] stem_encoded(2)[OF assms(1,2,4) fs(1)] less size
    by (simp add: u64_add_def)
  moreover have "unat (en + of_nat (length (ub_data ?b))) = unat en + length (ub_data ?b)"
    using less size by (subst unat_add_lem[THEN iffD1]) simp_all
  then have "sized (ub_cid ?b, ?info) (parts_content ps, parts_weight ps + 1)"
    using sum word_of_unat[OF fs(2)] by (simp add: sized_def)
  moreover have "length (ub_links ?b) \<le> degree" using assms(4) by (simp add: stem_block_def Let_def)
  ultimately show ?thesis
    using stem_decoded[OF assms(1)] stem_content[OF assms(1,3) _ _ assms(5)] by blast
qed

section \<open>Layers\<close>

text \<open>The content of the layers is that of the top layer, followed by those below.\<close>

fun layers_content :: "part list list \<Rightarrow> bytes" where
  "layers_content [] = []"
| "layers_content (p # ps) = layers_content ps @ parts_content p"

definition layers_weight :: "part list list \<Rightarrow> nat" where
  "layers_weight ps = sum_list (map parts_weight ps)"

text \<open>Emptying a layer replaces many links by one, so this sum bounds the number of blocks.\<close>

definition potential :: "part list list \<Rightarrow> nat" where
  "potential ps = layers_weight ps + sum_list (map length ps) + length ps"

definition layers_small :: "part list list \<Rightarrow> bool" where
  "layers_small ps \<longleftrightarrow> length (layers_content ps) < 2 ^ 64 \<and>
     DEFAULT_CHUNK_SIZE_LIMIT * (layers_weight ps + length ps) < 2 ^ 64"

definition layered :: "'cid layers \<Rightarrow> part list list \<Rightarrow> bool" where
  "layered tree ps \<longleftrightarrow> list_all2 (list_all2 sized) tree ps"

definition layers_at :: "'cid ufs_ops \<Rightarrow> ('cid \<Rightarrow> ufs_error + bytes) \<Rightarrow> 'cid layers \<Rightarrow> part list list \<Rightarrow> bool" where
  "layers_at ops load tree ps \<longleftrightarrow> list_all2 (list_all2 (part_at ops load)) tree ps"

lemma parts_append [simp]:
  "parts_content (ps @ qs) = parts_content ps @ parts_content qs" "parts_content [] = []" "parts_content [(c, w)] = c"
  "parts_weight (ps @ qs) = parts_weight ps + parts_weight qs" "parts_weight [] = 0" "parts_weight [(c, w)] = w"
  by (simp_all add: parts_content_def parts_weight_def)

lemma layers_simps [simp]:
  "layered [] ps \<longleftrightarrow> ps = []" "layered (l # tree) (p # ps) \<longleftrightarrow> list_all2 sized l p \<and> layered tree ps"
  "layers_at ops load [] ps \<longleftrightarrow> ps = []"
  "layers_at ops load (l # tree) (p # ps) \<longleftrightarrow> list_all2 (part_at ops load) l p \<and> layers_at ops load tree ps"
  "layers_weight [] = 0" "layers_weight (p # ps) = parts_weight p + layers_weight ps"
  by (auto simp: layered_def layers_at_def layers_weight_def)

lemma potential_simps [simp]: "potential [] = 0" "potential (p # ps) = parts_weight p + length p + 1 + potential ps"
  by (simp_all add: potential_def layers_weight_def)

lemma layered_Cons: "layered (l # tree) ps \<longleftrightarrow> (\<exists>p qs. ps = p # qs \<and> list_all2 sized l p \<and> layered tree qs)"
  by (auto simp: layered_def list_all2_Cons1)

lemma stored_simps [simp]:
  "stored load []" "stored load (b # bs) \<longleftrightarrow> load (ub_cid b) = Inr (ub_data b) \<and> stored load bs"
  "stored load (as @ bs) \<longleftrightarrow> stored load as \<and> stored load bs"
  by (auto simp: stored_def)

lemma layers_small_Cons:
  assumes "layers_small (p # ps)"
  shows "length (parts_content p) < 2 ^ 64" "DEFAULT_CHUNK_SIZE_LIMIT * (parts_weight p + 1) < 2 ^ 64"
    and "ps = q # qs \<Longrightarrow> layers_small ((q @ [(parts_content p, parts_weight p + 1)]) # qs)"
proof -
  have le: "parts_weight p + 1 \<le> layers_weight (p # ps) + length (p # ps)" by simp
  show "length (parts_content p) < 2 ^ 64" using assms by (simp add: layers_small_def)
  show "DEFAULT_CHUNK_SIZE_LIMIT * (parts_weight p + 1) < 2 ^ 64"
    using mult_le_mono2[OF le, of DEFAULT_CHUNK_SIZE_LIMIT] assms unfolding layers_small_def by linarith
  show "layers_small ((q @ [(parts_content p, parts_weight p + 1)]) # qs)" if "ps = q # qs"
    using assms that by (simp add: layers_small_def algebra_simps)
qed

lemma carry_ok:
  assumes "ufs_laws ops" and "stems_fit ops degree" and "1 < degree"
    and "layered tree ps" and "tree \<noteq> []" and "length (hd tree) \<le> degree" and "\<forall>l \<in> set (tl tree). length l < degree"
    and "layers_small ps"
  shows "\<exists>out tree' ps'. carry ops oc degree tree = (out, Inr tree') \<and> layered tree' ps' \<and> tree' \<noteq> [] \<and>
    (\<forall>l \<in> set tree'. length l < degree) \<and> layers_content ps' = layers_content ps \<and> potential ps' \<le> potential ps + 1 \<and>
    (length (hd tree) = degree \<longrightarrow> 2 \<le> length tree') \<and> (\<forall>b \<in> set out. length (ub_links b) \<le> degree) \<and>
    (\<forall>load. stored load out \<longrightarrow> layers_at ops load tree ps \<longrightarrow> layers_at ops load tree' ps')"
  using assms(4-)
proof (induction tree arbitrary: ps rule: measure_induct_rule[of length])
  case (less tree)
  then obtain l ls where tree: "tree = l # ls" by (cases tree) auto
  obtain p qs where ps: "ps = p # qs" and sz: "list_all2 sized l p" "layered ls qs"
    using less.prems(1) unfolding tree layered_Cons by blast
  show ?case
  proof (cases "length l < degree")
    case True
    then show ?thesis using less.prems tree
      by (intro exI[of _ "[]"] exI[of _ tree] exI[of _ ps]) simp
  next
    case False
    then have len: "length l = degree" "length p = degree"
      using less.prems(3) tree list_all2_lengthD[OF sz(1)] by auto
    note small = layers_small_Cons[OF less.prems(5)[unfolded ps]]
    obtain b info where b: "TreeNode_encode ops oc (Stem l) = Inr (b, info)"
      and sb: "sized (ub_cid b, info) (parts_content p, parts_weight p + 1)" and lb: "length (ub_links b) \<le> degree"
      and at: "\<And>load. load (ub_cid b) = Inr (ub_data b) \<Longrightarrow> list_all2 (part_at ops load) l p \<Longrightarrow>
        part_at ops load (ub_cid b, info) (parts_content p, parts_weight p + 1)"
      using encode_stem[OF assms(1,2) sz(1) _ small(1,2), of oc] len(1) by auto
    let ?s = "(parts_content p, parts_weight p + 1)" and ?x = "(ub_cid b, info)"
    show ?thesis
    proof (cases ls)
      case Nil
      then have "carry ops oc degree tree = ([b], Inr [[], [?x]])" using tree False b by simp
      then show ?thesis using Nil sz(2) sb lb at assms(3) len tree ps
        by (intro exI[of _ "[b]"] exI[of _ "[[], [?x]]"] exI[of _ "[[], [?s]]"]) auto
    next
      case (Cons f fs)
      obtain q qs' where qs: "qs = q # qs'" and sz': "list_all2 sized f q" "layered fs qs'"
        using sz(2) unfolding Cons layered_Cons by blast
      have "layered ((f @ [?x]) # fs) ((q @ [?s]) # qs')" using sz' sb by (simp add: list_all2_appendI)
      moreover have "length (hd ((f @ [?x]) # fs)) \<le> degree" "\<forall>l \<in> set (tl ((f @ [?x]) # fs)). length l < degree"
        using less.prems(4) tree Cons by auto
      ultimately obtain out t ps' where IH: "carry ops oc degree ((f @ [?x]) # fs) = (out, Inr t)" "layered t ps'" "t \<noteq> []"
        "\<forall>l \<in> set t. length l < degree" "layers_content ps' = layers_content ((q @ [?s]) # qs')"
        "potential ps' \<le> potential ((q @ [?s]) # qs') + 1" "\<forall>b \<in> set out. length (ub_links b) \<le> degree"
        "\<forall>load. stored load out \<longrightarrow> layers_at ops load ((f @ [?x]) # fs) ((q @ [?s]) # qs') \<longrightarrow> layers_at ops load t ps'"
        using less.IH[of "(f @ [?x]) # fs" "(q @ [?s]) # qs'"] small(3)[OF qs] tree Cons by auto
      have "carry ops oc degree tree = (b # out, Inr ([] # t))" using tree Cons False b IH(1) by simp
      moreover have "layers_at ops load ([] # t) ([] # ps')"
        if "stored load (b # out)" and "layers_at ops load tree ps" for load
        using that at[of load] IH(8) tree ps Cons qs by (auto simp: list_all2_appendI)
      moreover have "potential ([] # ps') \<le> potential ps + 1" using IH(6) len(2) assms(3) ps qs by simp
      moreover have "layers_content ([] # ps') = layers_content ps" using IH(5) ps qs by simp
      moreover have "2 \<le> length ([] # t)" using IH(3) by (cases t) auto
      ultimately show ?thesis using IH(2,4,7) lb assms(3)
        by (intro exI[of _ "b # out"] exI[of _ "[] # t"] exI[of _ "[] # ps'"]) auto
    qed
  qed
qed

text \<open>The file below a content id.\<close>

definition root_at :: "'cid ufs_ops \<Rightarrow> ('cid \<Rightarrow> ufs_error + bytes) \<Rightarrow> 'cid \<Rightarrow> bytes \<Rightarrow> bool" where
  "root_at ops load cid content \<longleftrightarrow>
     (\<exists>u. load_node ops load cid = Inr u \<and> root_content ops load u content \<and> UnixfsNode_typ u \<in> {None, Some TFile})"

lemma root_at_File: "load_node ops load cid = Inr (File n) \<Longrightarrow> root_content ops load (File n) c \<Longrightarrow> root_at ops load cid c"
  unfolding root_at_def by (intro exI[of _ "File n"]) simp

lemma finish_ok:
  assumes "ufs_laws ops" and "stems_fit ops degree"
    and "layered tree ps" and "tree \<noteq> []" and "length (hd tree) \<le> degree" and "\<forall>l \<in> set (tl tree). length l < degree"
    and "layers_small ps"
  shows "\<exists>out. finish ops oc tree = map Inr out \<and> out \<noteq> [] \<and> (\<forall>b \<in> set out. length (ub_links b) \<le> degree) \<and>
    (\<forall>load. stored load out \<longrightarrow> layers_at ops load tree ps \<longrightarrow>
       root_at ops load (ub_cid (last out)) (layers_content ps))"
  using assms(3-)
proof (induction tree arbitrary: ps rule: measure_induct_rule[of length])
  case (less tree)
  then obtain l ls where tree: "tree = l # ls" by (cases tree) auto
  obtain p qs where ps: "ps = p # qs" and sz: "list_all2 sized l p" "layered ls qs"
    using less.prems(1) unfolding tree layered_Cons by blast
  note small = layers_small_Cons[OF less.prems(5)[unfolded ps]]
  let ?s = "(parts_content p, parts_weight p + 1)"
  have "length l \<le> degree" using less.prems(3) tree by simp
  from encode_stem[OF assms(1,2) sz(1) this small(1,2), of oc] obtain b info where
    b: "TreeNode_encode ops oc (Stem l) = Inr (b, info)"
    and sb: "sized (ub_cid b, info) ?s" and lb: "length (ub_links b) \<le> degree"
    and at: "\<And>load. load (ub_cid b) = Inr (ub_data b) \<Longrightarrow> list_all2 (part_at ops load) l p \<Longrightarrow>
      root_at ops load (ub_cid b) (parts_content p) \<and> part_at ops load (ub_cid b, info) ?s"
    by (blast intro: root_at_File)
  let ?x = "(ub_cid b, info)"
  show ?case
  proof (cases ls)
    case Nil
    then have "finish ops oc tree = map Inr [b]" using tree b by simp
    then show ?thesis using Nil sz(2) lb at tree ps by (intro exI[of _ "[b]"]) auto
  next
    case (Cons f fs)
    obtain q qs' where qs: "qs = q # qs'" and sz': "list_all2 sized f q" "layered fs qs'"
      using sz(2) unfolding Cons layered_Cons by blast
    have "layered ((f @ [?x]) # fs) ((q @ [?s]) # qs')" using sz' sb by (simp add: list_all2_appendI)
    moreover have "length (hd ((f @ [?x]) # fs)) \<le> degree" "\<forall>l \<in> set (tl ((f @ [?x]) # fs)). length l < degree"
      using less.prems(4) tree Cons by auto
    ultimately obtain out where IH: "finish ops oc ((f @ [?x]) # fs) = map Inr out" "out \<noteq> []"
      "\<forall>b \<in> set out. length (ub_links b) \<le> degree"
      "\<forall>load. stored load out \<longrightarrow> layers_at ops load ((f @ [?x]) # fs) ((q @ [?s]) # qs') \<longrightarrow>
         root_at ops load (ub_cid (last out)) (layers_content ((q @ [?s]) # qs'))"
      using less.IH[of "(f @ [?x]) # fs" "(q @ [?s]) # qs'"] small(3)[OF qs] tree Cons by auto
    have "finish ops oc tree = map Inr (b # out)" using tree Cons b IH(1) by simp
    moreover have "root_at ops load (ub_cid (last (b # out))) (layers_content ps)"
      if "stored load (b # out)" and "layers_at ops load tree ps" for load
      using that at[of load] IH(2,4) tree ps Cons qs by (auto simp: list_all2_appendI)
    ultimately show ?thesis using IH(2,3) lb by (intro exI[of _ "b # out"]) auto
  qed
qed

lemma encode_leaf:
  assumes "ufs_laws ops" and "length c \<le> DEFAULT_CHUNK_SIZE_LIMIT"
  shows "\<exists>b info. TreeNode_encode ops oc (Leaf c) = Inr (b, info) \<and> sized (ub_cid b, info) (c, 1) \<and> ub_links b = [] \<and>
    (\<forall>load. load (ub_cid b) = Inr (ub_data b) \<longrightarrow>
       load_node ops load (ub_cid b) = Inr (Raw c) \<and> part_at ops load (ub_cid b, info) (c, 1))"
proof -
  let ?b = "\<lparr>ub_cid = uc_new ops Codec_Raw c, ub_data = c, ub_links = []\<rparr>"
  let ?info = "\<lparr>raw_data_len = of_nat (length c), encoded_len = of_nat (length c)\<rparr>"
  have "UnixfsNode_encode ops (Raw c) = Inr ?b" using encode_Raw assms(2) by blast
  then have "TreeNode_encode ops oc (Leaf c) = Inr (?b, ?info)" by simp
  moreover have "length c < 2 ^ 64" using assms(2) by (simp add: DEFAULT_CHUNK_SIZE_LIMIT_def)
  then have "sized (ub_cid ?b, ?info) (c, 1)" using assms(2) by (simp add: sized_def unat_u64)
  moreover have "load_node ops load (ub_cid ?b) = Inr (Raw c)" if "load (ub_cid ?b) = Inr (ub_data ?b)" for load
    using that decode_Raw[OF assms(1)] by (simp add: load_node_def)
  moreover from this have "part_at ops load (ub_cid ?b, ?info) (c, 1)" if "load (ub_cid ?b) = Inr (ub_data ?b)" for load
    using raw_at[of ops load] that unfolding part_at_def fst_conv by blast
  ultimately show ?thesis by (intro exI[of _ ?b] exI[of _ ?info]) (simp del: TreeNode_encode.simps)
qed

lemma layers_small_potential:
  assumes "potential ps \<le> 3 * n + 1" and "n < 2 ^ 42" and "length (layers_content ps) \<le> DEFAULT_CHUNK_SIZE_LIMIT * n"
  shows "layers_small ps"
proof -
  have "layers_weight ps + length ps \<le> 3 * n + 1" using assms(1) by (simp add: potential_def)
  then have "DEFAULT_CHUNK_SIZE_LIMIT * (layers_weight ps + length ps) \<le> DEFAULT_CHUNK_SIZE_LIMIT * (3 * n + 1)"
    by (rule mult_le_mono2)
  then show ?thesis using assms(2,3) by (simp add: layers_small_def DEFAULT_CHUNK_SIZE_LIMIT_def)
qed

text \<open>The tree before the chunk number \<open>n\<close>, counted from 0.\<close>

definition tree_inv :: "nat \<Rightarrow> 'cid layers \<Rightarrow> part list list \<Rightarrow> nat \<Rightarrow> bool" where
  "tree_inv degree tree ps n \<longleftrightarrow>
     layered tree ps \<and> tree \<noteq> [] \<and> length (hd tree) \<le> degree \<and> (\<forall>l \<in> set (tl tree). length l < degree) \<and>
     potential ps \<le> 3 * n + 1 \<and> length (layers_content ps) \<le> DEFAULT_CHUNK_SIZE_LIMIT * n \<and>
     (length tree = 1 \<longrightarrow> length (hd tree) = n)"

text \<open>A chunk is added to the tree, after full layers were emptied.\<close>

lemma tree_step:
  assumes "ufs_laws ops" and "stems_fit ops degree" and "1 < degree" and "tree_inv degree tree ps n" and "n < 2 ^ 42"
  shows "\<exists>out tree' ps'.
    (if length (hd tree) = degree then carry ops oc degree tree else ([], Inr tree)) = (out, Inr tree') \<and>
    layers_content ps' = layers_content ps \<and> (\<forall>b \<in> set out. length (ub_links b) \<le> degree) \<and>
    (\<forall>x p. sized x p \<longrightarrow> snd p = 1 \<longrightarrow> length (fst p) \<le> DEFAULT_CHUNK_SIZE_LIMIT \<longrightarrow>
       tree_inv degree ((hd tree' @ [x]) # tl tree') ((hd ps' @ [p]) # tl ps') (Suc n)) \<and>
    (\<exists>l ls q qs. tree' = l # ls \<and> ps' = q # qs \<and>
      (\<forall>load. stored load out \<longrightarrow> layers_at ops load tree ps \<longrightarrow> layers_at ops load (l # ls) (q # qs)))"
proof -
  have inv: "layered tree ps" "tree \<noteq> []" "length (hd tree) \<le> degree" "\<forall>l \<in> set (tl tree). length l < degree"
    "potential ps \<le> 3 * n + 1" "length (layers_content ps) \<le> DEFAULT_CHUNK_SIZE_LIMIT * n"
    "length tree = 1 \<longrightarrow> length (hd tree) = n"
    using assms(4) by (simp_all add: tree_inv_def)
  obtain out tree' ps' where t: "(if length (hd tree) = degree then carry ops oc degree tree else ([], Inr tree)) = (out, Inr tree')"
    "layered tree' ps'" "tree' \<noteq> []" "\<forall>l \<in> set tree'. length l < degree" "layers_content ps' = layers_content ps"
    "potential ps' \<le> potential ps + 1" "length tree' = 1 \<longrightarrow> length (hd tree') = n"
    "\<forall>b \<in> set out. length (ub_links b) \<le> degree"
    "\<forall>load. stored load out \<longrightarrow> layers_at ops load tree ps \<longrightarrow> layers_at ops load tree' ps'"
  proof (cases "length (hd tree) = degree")
    case True
    from carry_ok[OF assms(1-3) inv(1-4) layers_small_potential[OF inv(5) assms(5) inv(6)], of oc] show ?thesis
      by (elim exE conjE) (rule that, use True in auto)
  next
    case False
    then have "\<forall>l \<in> set tree. length l < degree" using inv(2-4) by (cases tree) auto
    with False that inv show ?thesis by auto
  qed
  obtain l ls where tree': "tree' = l # ls" using t(3) by (cases tree') auto
  obtain q qs where ps': "ps' = q # qs" and sz: "list_all2 sized l q" "layered ls qs"
    using t(2) unfolding tree' layered_Cons by blast
  have "length (layers_content qs) + length (parts_content q) = length (layers_content ps)"
    using t(5) ps' by (metis length_append layers_content.simps(2))
  then have "tree_inv degree ((l @ [x]) # ls) ((q @ [p]) # qs) (Suc n)"
    if "sized x p" "snd p = 1" "length (fst p) \<le> DEFAULT_CHUNK_SIZE_LIMIT" for x p
    using that sz t(4,5,6,7) inv(5,6) tree' ps'
    by (cases p) (auto simp: tree_inv_def list_all2_appendI)
  with t(1,5,8,9) tree' ps' show ?thesis
    by (intro exI[of _ out] exI[of _ tree'] exI[of _ ps']) auto
qed

lemma tree_loop_ok:
  assumes "ufs_laws ops" and "stems_fit ops degree" and "1 < degree" and "tree_inv degree tree ps n"
    and "\<forall>c \<in> set cs. length c \<le> DEFAULT_CHUNK_SIZE_LIMIT" and "n + length cs < 2 ^ 42" and "n + length cs \<noteq> 1"
  shows "\<exists>out. tree_loop ops oc degree tree (map Inr cs) = map Inr out \<and> out \<noteq> [] \<and>
    (\<forall>b \<in> set out. length (ub_links b) \<le> degree) \<and>
    (\<forall>load. stored load out \<longrightarrow> layers_at ops load tree ps \<longrightarrow>
       root_at ops load (ub_cid (last out)) (layers_content ps @ concat cs))"
  using assms(4-)
proof (induction cs arbitrary: tree ps n)
  case Nil
  have inv: "layered tree ps" "tree \<noteq> []" "length (hd tree) \<le> degree" "\<forall>l \<in> set (tl tree). length l < degree"
    "potential ps \<le> 3 * n + 1" "length (layers_content ps) \<le> DEFAULT_CHUNK_SIZE_LIMIT * n" "n < 2 ^ 42"
    "\<not> (length tree = 1 \<and> length (hd tree) = 1)"
    using Nil.prems by (auto simp: tree_inv_def)
  from finish_ok[OF assms(1,2) inv(1-4) layers_small_potential[OF inv(5,7,6)], of oc] inv(8) show ?case by simp
next
  case (Cons c cs)
  have n: "n < 2 ^ 42" using Cons.prems(3) by simp
  obtain b info where b: "TreeNode_encode ops oc (Leaf c) = Inr (b, info)" "sized (ub_cid b, info) (c, 1)" "ub_links b = []"
    and at: "\<And>load. load (ub_cid b) = Inr (ub_data b) \<Longrightarrow> part_at ops load (ub_cid b, info) (c, 1)"
    using encode_leaf[OF assms(1), of c oc] Cons.prems(2) by (auto simp del: TreeNode_encode.simps)
  let ?x = "(ub_cid b, info)" and ?p = "(c, 1 :: nat)"
  obtain out tree' ps' l ls q qs where
    t: "(if length (hd tree) = degree then carry ops oc degree tree else ([], Inr tree)) = (out, Inr tree')"
      "layers_content ps' = layers_content ps" "\<forall>b \<in> set out. length (ub_links b) \<le> degree" "tree' = l # ls" "ps' = q # qs"
    and inv: "tree_inv degree ((hd tree' @ [?x]) # tl tree') ((hd ps' @ [?p]) # tl ps') (Suc n)"
    and load: "\<forall>load. stored load out \<longrightarrow> layers_at ops load tree ps \<longrightarrow> layers_at ops load (l # ls) (q # qs)"
    using tree_step[OF assms(1-3) Cons.prems(1) n, of oc] b(2) Cons.prems(2) by (auto 0 3)
  obtain rest where rest: "tree_loop ops oc degree ((l @ [?x]) # ls) (map Inr cs) = map Inr rest" "rest \<noteq> []"
    "\<forall>b \<in> set rest. length (ub_links b) \<le> degree"
    "\<forall>load. stored load rest \<longrightarrow> layers_at ops load ((l @ [?x]) # ls) ((q @ [?p]) # qs) \<longrightarrow>
       root_at ops load (ub_cid (last rest)) (layers_content ((q @ [?p]) # qs) @ concat cs)"
    using Cons.IH[OF inv] Cons.prems(2-4) t(4,5) by auto
  have "tree_loop ops oc degree tree (map Inr (c # cs)) = map Inr (out @ b # rest)"
    using b(1) t(1,4) rest(1) by (simp del: TreeNode_encode.simps)
  moreover have "root_at ops load (ub_cid (last (out @ b # rest))) (layers_content ps @ concat (c # cs))"
    if st: "stored load (out @ b # rest)" and "layers_at ops load tree ps" for load
  proof -
    have "list_all2 (part_at ops load) l q" "layers_at ops load ls qs" using load that by auto
    then have "layers_at ops load ((l @ [?x]) # ls) ((q @ [?p]) # qs)" using at[of load] st by (simp add: list_all2_appendI)
    then have "root_at ops load (ub_cid (last rest)) (layers_content ((q @ [?p]) # qs) @ concat cs)" using rest(4) st by simp
    moreover have "layers_content ((q @ [?p]) # qs) @ concat cs = layers_content ps @ concat (c # cs)"
      by (simp add: t(5) flip: t(2))
    moreover have "last (out @ b # rest) = last rest" using rest(2) by simp
    ultimately show ?thesis by metis
  qed
  ultimately show ?case using rest(2,3) t(3) b(3) by (intro exI[of _ "out @ b # rest"]) auto
qed

lemma stream_balanced_tree_ok:
  assumes "ufs_laws ops" and "stems_fit ops degree" and "1 < degree"
    and "\<forall>c \<in> set cs. length c \<le> DEFAULT_CHUNK_SIZE_LIMIT" and "length cs < 2 ^ 42"
  shows "\<exists>out. stream_balanced_tree ops oc degree (map Inr cs) = map Inr out \<and> out \<noteq> [] \<and>
    (\<forall>b \<in> set out. length (ub_links b) \<le> degree) \<and>
    (\<forall>load. stored load out \<longrightarrow> root_at ops load (ub_cid (last out)) (concat cs))"
proof (cases "length cs = 1")
  case True
  then obtain c where c: "cs = [c]" by (auto simp: length_Suc_conv)
  obtain b info where b: "TreeNode_encode ops oc (Leaf c) = Inr (b, info)" "ub_links b = []"
    "\<forall>load. load (ub_cid b) = Inr (ub_data b) \<longrightarrow> load_node ops load (ub_cid b) = Inr (Raw c)"
    using encode_leaf[OF assms(1), of c oc] assms(4) c by (auto simp del: TreeNode_encode.simps)
  have "stream_balanced_tree ops oc degree (map Inr cs) = map Inr [b]"
    using c b(1) assms(3) by (simp add: stream_balanced_tree_def del: TreeNode_encode.simps)
  moreover have "length c < 2 ^ 64" using assms(4) c by (simp add: DEFAULT_CHUNK_SIZE_LIMIT_def)
  ultimately show ?thesis using b(2,3) c
    by (intro exI[of _ "[b]"]) (auto simp: root_at_def root_content_def)
next
  case False
  have "tree_inv degree [[]] [[]] 0" using assms(3) by (simp add: tree_inv_def)
  from tree_loop_ok[OF assms(1-3) this assms(4), of oc] assms(5) False show ?thesis
    by (simp add: stream_balanced_tree_def)
qed

end
