(* ===== verification/Builder.thy ===== *)
theory Builder
  imports BalancedTree
begin

text \<open>
  The builders of files, symbolic links and directories, flat and sharded, and their encoding into blocks
  (\<open>iroh-unixfs/src/builder.rs\<close>). A stream of blocks is the list of its items and ends after the first error.
  The file system is the parameter \<open>open_file\<close>, the reads of the file at a path; the murmur3 hash of a
  library is the parameter \<open>murmur3\<close>.
\<close>

section \<open>Paths\<close>

fun split_on :: "byte \<Rightarrow> bytes \<Rightarrow> bytes list" where
  "split_on sep [] = [[]]"
| "split_on sep (b # bs) =
     (if b = sep then [] # split_on sep bs else (b # hd (split_on sep bs)) # tl (split_on sep bs))"

text \<open>\<open>path.file_name().and_then(|s| s.to_str()).unwrap_or_default()\<close>.\<close>

definition file_name_or_empty :: "bytes \<Rightarrow> bytes" where
  "file_name_or_empty path =
     (let comps = filter (\<lambda>c. c \<noteq> [] \<and> c \<noteq> [46]) (split_on 47 path)
      in if comps = [] \<or> last comps = [46, 46] \<or> \<not> utf8_valid (last comps) then [] else last comps)"

section \<open>Files\<close>

type_synonym reads = "ufs_error read_result list"

datatype content = Reader reads | Path bytes

record ufs_file =
  f_name :: bytes
  f_content :: content
  f_tree_builder :: tree_builder
  f_chunker :: chunker

definition File_encode ::
  "'cid ufs_ops \<Rightarrow> bool \<Rightarrow> (bytes \<Rightarrow> ufs_error + reads) \<Rightarrow> ufs_file \<Rightarrow> ufs_error + (ufs_error + 'cid ufs_block) list" where
  "File_encode ops oc open_file f =
     result_bind (case f_content f of Path path \<Rightarrow> open_file path | Reader reader \<Rightarrow> Inr reader) (\<lambda>reader.
     result_bind (ok_or Panicked (Chunker_chunks (f_chunker f) reader)) (\<lambda>chunks.
     Inr (stream_tree ops oc (f_tree_builder f) chunks)))"

text \<open>\<open>encode_root\<close>: the last item of the stream.\<close>

definition last_item :: "(ufs_error + 'cid ufs_block) list \<Rightarrow> ufs_error + 'cid ufs_block" where
  "last_item parts = (if parts = [] then Inl Panicked else last parts)"

definition File_encode_root ::
  "'cid ufs_ops \<Rightarrow> bool \<Rightarrow> (bytes \<Rightarrow> ufs_error + reads) \<Rightarrow> ufs_file \<Rightarrow> ufs_error + 'cid ufs_block" where
  "File_encode_root ops oc open_file f = result_bind (File_encode ops oc open_file f) last_item"

record file_builder =
  fb_name :: "bytes option"
  fb_path :: "bytes option"
  fb_reader :: "reads option"
  fb_chunker :: chunker
  fb_degree :: nat

definition FileBuilder_new :: file_builder where
  "FileBuilder_new = \<lparr>fb_name = None, fb_path = None, fb_reader = None,
     fb_chunker = ChunkFixed DEFAULT_CHUNKS_SIZE, fb_degree = DEFAULT_DEGREE\<rparr>"

definition FileBuilder_path :: "bytes \<Rightarrow> file_builder \<Rightarrow> file_builder" where
  "FileBuilder_path p b = b\<lparr>fb_path := Some p\<rparr>"

definition FileBuilder_name :: "bytes \<Rightarrow> file_builder \<Rightarrow> file_builder" where
  "FileBuilder_name n b = b\<lparr>fb_name := Some n\<rparr>"

definition FileBuilder_chunker :: "chunker \<Rightarrow> file_builder \<Rightarrow> file_builder" where
  "FileBuilder_chunker c b = b\<lparr>fb_chunker := c\<rparr>"

definition FileBuilder_fixed_chunker :: "nat \<Rightarrow> file_builder \<Rightarrow> file_builder option" where
  "FileBuilder_fixed_chunker chunk_size b = map_option (\<lambda>n. b\<lparr>fb_chunker := ChunkFixed n\<rparr>) (Fixed_new chunk_size)"

definition FileBuilder_rabin_chunker :: "bool \<Rightarrow> file_builder \<Rightarrow> file_builder option" where
  "FileBuilder_rabin_chunker oc b =
     map_option (\<lambda>r. b\<lparr>fb_chunker := ChunkRabin r\<rparr>) (Rabin_new oc rabin_config_default GO_IPFS_V0_PRESET)"

definition FileBuilder_degree :: "nat \<Rightarrow> file_builder \<Rightarrow> file_builder" where
  "FileBuilder_degree d b = b\<lparr>fb_degree := d\<rparr>"

definition FileBuilder_content_bytes :: "bytes \<Rightarrow> file_builder \<Rightarrow> file_builder" where
  "FileBuilder_content_bytes content b = b\<lparr>fb_reader := Some (if content = [] then [] else [Data content])\<rparr>"

definition FileBuilder_content_reader :: "reads \<Rightarrow> file_builder \<Rightarrow> file_builder" where
  "FileBuilder_content_reader content b = b\<lparr>fb_reader := Some content\<rparr>"

datatype build_error = MustAddName | MustHaveContent | BuildPanic

definition FileBuilder_build :: "file_builder \<Rightarrow> build_error + ufs_file" where
  "FileBuilder_build b =
     (case balanced_tree_with_degree (fb_degree b) of
        None \<Rightarrow> Inl BuildPanic
      | Some tree_builder \<Rightarrow>
          (case fb_path b of
             Some path \<Rightarrow>
               Inr \<lparr>f_name = (case fb_name b of Some n \<Rightarrow> n | None \<Rightarrow> file_name_or_empty path),
                    f_content = Path path, f_tree_builder = tree_builder, f_chunker = fb_chunker b\<rparr>
           | None \<Rightarrow>
               (case fb_reader b of
                  Some reader \<Rightarrow>
                    (case fb_name b of
                       None \<Rightarrow> Inl MustAddName
                     | Some name \<Rightarrow>
                         Inr \<lparr>f_name = name, f_content = Reader reader, f_tree_builder = tree_builder,
                              f_chunker = fb_chunker b\<rparr>)
                | None \<Rightarrow> Inl MustHaveContent)))"

section \<open>Symbolic links\<close>

record symlink =
  s_name :: bytes
  s_target :: bytes

definition Symlink_new :: "bytes \<Rightarrow> bytes \<Rightarrow> symlink" where
  "Symlink_new path target = \<lparr>s_name = file_name_or_empty path, s_target = target\<rparr>"

definition symlink_data :: "bytes \<Rightarrow> unixfs_data" where
  "symlink_data target = unixfs_data_default\<lparr>d_type := DataType_into TSymlink, d_data := Some target\<rparr>"

definition Symlink_encode :: "'cid ufs_ops \<Rightarrow> symlink \<Rightarrow> ufs_error + 'cid ufs_block" where
  "Symlink_encode ops s =
     (if \<not> utf8_valid (s_target s) then Inl BadUtf8
      else result_bind (encode_unixfs_pb ops (symlink_data (s_target s)) []) (\<lambda>outer.
           UnixfsNode_encode ops (Symlink \<lparr>n_outer = outer, n_inner = symlink_data (s_target s)\<rparr>)))"

record symlink_builder =
  sb_path :: bytes
  sb_target :: "bytes option"

definition SymlinkBuilder_new :: "bytes \<Rightarrow> symlink_builder" where
  "SymlinkBuilder_new path = \<lparr>sb_path = path, sb_target = None\<rparr>"

definition SymlinkBuilder_target :: "bytes \<Rightarrow> symlink_builder \<Rightarrow> symlink_builder" where
  "SymlinkBuilder_target target b = b\<lparr>sb_target := Some target\<rparr>"

text \<open>\<open>read_link\<close> is the file system's.\<close>

definition SymlinkBuilder_build :: "(bytes \<Rightarrow> ufs_error + bytes) \<Rightarrow> symlink_builder \<Rightarrow> ufs_error + symlink" where
  "SymlinkBuilder_build read_link b =
     result_bind (case sb_target b of Some t \<Rightarrow> Inr t | None \<Rightarrow> read_link (sb_path b)) (\<lambda>target.
     Inr \<lparr>s_name = file_name_or_empty (sb_path b), s_target = target\<rparr>)"

section \<open>Directories\<close>

text \<open>The entries of a branch are sorted by their key, as those of a \<open>BTreeMap\<close>.\<close>

datatype entry = EFile ufs_file | EDirectory directory | ESymlink symlink
  and directory = Basic bytes "entry list" | Hamt bytes hamt_tree
  and hamt_tree = HBranch "(nat \<times> hamt_tree) list" | HLeaf bytes entry

fun Directory_name :: "directory \<Rightarrow> bytes" where
  "Directory_name (Basic name _) = name"
| "Directory_name (Hamt name _) = name"

fun Directory_set_name :: "bytes \<Rightarrow> directory \<Rightarrow> directory" where
  "Directory_set_name value (Basic _ entries) = Basic value entries"
| "Directory_set_name value (Hamt _ h) = Hamt value h"

fun Entry_name :: "entry \<Rightarrow> bytes" where
  "Entry_name (EFile f) = f_name f"
| "Entry_name (EDirectory d) = Directory_name d"
| "Entry_name (ESymlink s) = s_name s"

definition Directory_single :: "bytes \<Rightarrow> entry \<Rightarrow> directory" where
  "Directory_single name e = Basic name [e]"

text \<open>\<open>File::wrap\<close>, \<open>Directory::wrap\<close>, \<open>Symlink::wrap\<close> and \<open>Entry::wrap\<close>.\<close>

definition Entry_wrap :: "entry \<Rightarrow> directory" where
  "Entry_wrap e = Directory_single [] e"

fun HamtNode_name :: "hamt_tree \<Rightarrow> bytes" where
  "HamtNode_name (HBranch _) = []"
| "HamtNode_name (HLeaf _ e) = Entry_name e"

subsection \<open>Encoding\<close>

text \<open>The items of a stream, and then those of another unless the first ended with an error.\<close>

fun stream_then :: "('e + 'b) list \<Rightarrow> ('b list \<Rightarrow> ('e + 'b) list) \<Rightarrow> ('e + 'b) list" where
  "stream_then [] k = k []"
| "stream_then (Inl e # s) k = [Inl e]"
| "stream_then (Inr b # s) k = Inr b # stream_then s (\<lambda>bs. k (b # bs))"

definition directory_data :: unixfs_data where
  "directory_data = unixfs_data_default\<lparr>d_type := DataType_into TDirectory\<rparr>"

definition directory_link :: "'cid ufs_ops \<Rightarrow> bytes \<Rightarrow> 'cid ufs_block \<Rightarrow> pb_link" where
  "directory_link ops name root_block = \<lparr>pl_hash = Some (uc_to_bytes ops (ub_cid root_block)), pl_name = Some name,
     pl_tsize = Some (of_nat (length (ub_data root_block)))\<rparr>"

definition directory_node :: "'cid ufs_ops \<Rightarrow> pb_link list \<Rightarrow> ufs_error + 'cid ufs_block" where
  "directory_node ops links =
     result_bind (encode_unixfs_pb ops directory_data links) (\<lambda>outer.
     UnixfsNode_encode ops (Directory \<lparr>n_outer = outer, n_inner = directory_data\<rparr>))"

definition shard_data :: "bitfield \<Rightarrow> unixfs_data" where
  "shard_data bf = unixfs_data_default\<lparr>d_type := DataType_into THamtShard,
     d_hash_type := Some (HamtHashFunction_into Murmur3), d_fanout := Some 256, d_data := Some (as_bytes bf)\<rparr>"

text \<open>\<open>format!("{:02X}{}", prefix, name)\<close>.\<close>

definition shard_name :: "nat \<Rightarrow> bytes \<Rightarrow> bytes" where
  "shard_name prefix name = (if prefix < 16 then 48 # hex_upper prefix else hex_upper prefix) @ name"

definition shard_link :: "'cid ufs_ops \<Rightarrow> nat \<Rightarrow> bytes \<Rightarrow> 'cid ufs_block list \<Rightarrow> pb_link" where
  "shard_link ops prefix name blocks = \<lparr>pl_hash = (if blocks = [] then None else Some (uc_to_bytes ops (ub_cid (last blocks)))),
     pl_name = Some (shard_name prefix name), pl_tsize = None\<rparr>"

text \<open>The failed \<open>unwrap\<close> of \<open>encode_unixfs_pb\<close> is a panic.\<close>

definition shard_node :: "'cid ufs_ops \<Rightarrow> bitfield \<Rightarrow> pb_link list \<Rightarrow> ufs_error + 'cid ufs_block" where
  "shard_node ops bf links =
     (case encode_unixfs_pb ops (shard_data bf) links of
        Inl _ \<Rightarrow> Inl Panicked
      | Inr outer \<Rightarrow> UnixfsNode_encode ops (Directory \<lparr>n_outer = outer, n_inner = shard_data bf\<rparr>))"

definition open_stream :: "ufs_error + (ufs_error + 'cid ufs_block) list \<Rightarrow> (ufs_error + 'cid ufs_block) list" where
  "open_stream r = (case r of Inl e \<Rightarrow> [Inl e] | Inr s \<Rightarrow> s)"

fun Entry_encode ::
    "'cid ufs_ops \<Rightarrow> bool \<Rightarrow> (bytes \<Rightarrow> ufs_error + reads) \<Rightarrow> entry \<Rightarrow> ufs_error + (ufs_error + 'cid ufs_block) list"
  and Directory_encode ::
    "'cid ufs_ops \<Rightarrow> bool \<Rightarrow> (bytes \<Rightarrow> ufs_error + reads) \<Rightarrow> directory \<Rightarrow> (ufs_error + 'cid ufs_block) list"
  and BasicDirectory_encode ::
    "'cid ufs_ops \<Rightarrow> bool \<Rightarrow> (bytes \<Rightarrow> ufs_error + reads) \<Rightarrow> pb_link list \<Rightarrow> entry list \<Rightarrow>
     (ufs_error + 'cid ufs_block) list"
  and HamtNode_encode ::
    "'cid ufs_ops \<Rightarrow> bool \<Rightarrow> (bytes \<Rightarrow> ufs_error + reads) \<Rightarrow> hamt_tree \<Rightarrow> (ufs_error + 'cid ufs_block) list"
  and HamtBranch_encode ::
    "'cid ufs_ops \<Rightarrow> bool \<Rightarrow> (bytes \<Rightarrow> ufs_error + reads) \<Rightarrow> pb_link list \<Rightarrow> bitfield \<Rightarrow> (nat \<times> hamt_tree) list \<Rightarrow>
     (ufs_error + 'cid ufs_block) list" where
  "Entry_encode ops oc open_file (EFile f) = File_encode ops oc open_file f"
| "Entry_encode ops oc open_file (EDirectory d) = Inr (Directory_encode ops oc open_file d)"
| "Entry_encode ops oc open_file (ESymlink s) = Inr [Symlink_encode ops s]"
| "Directory_encode ops oc open_file (Basic _ entries) = BasicDirectory_encode ops oc open_file [] entries"
| "Directory_encode ops oc open_file (Hamt _ h) = HamtNode_encode ops oc open_file h"
| "BasicDirectory_encode ops oc open_file links [] = [directory_node ops links]"
| "BasicDirectory_encode ops oc open_file links (e # entries) =
     stream_then (open_stream (Entry_encode ops oc open_file e)) (\<lambda>blocks.
       if blocks = [] then [Inl Panicked]
       else BasicDirectory_encode ops oc open_file (links @ [directory_link ops (Entry_name e) (last blocks)]) entries)"
| "HamtNode_encode ops oc open_file (HBranch tree) = HamtBranch_encode ops oc open_file [] Bitfield_zero tree"
| "HamtNode_encode ops oc open_file (HLeaf _ e) = open_stream (Entry_encode ops oc open_file e)"
| "HamtBranch_encode ops oc open_file links bf [] = [shard_node ops bf links]"
| "HamtBranch_encode ops oc open_file links bf ((prefix, n) # tree) =
     (case set_bit prefix bf of
        None \<Rightarrow> [Inl Panicked]
      | Some bf' \<Rightarrow>
          stream_then (HamtNode_encode ops oc open_file n) (\<lambda>blocks.
            HamtBranch_encode ops oc open_file (links @ [shard_link ops prefix (HamtNode_name n) blocks]) bf' tree))"

definition Directory_encode_root ::
  "'cid ufs_ops \<Rightarrow> bool \<Rightarrow> (bytes \<Rightarrow> ufs_error + reads) \<Rightarrow> directory \<Rightarrow> ufs_error + 'cid ufs_block" where
  "Directory_encode_root ops oc open_file d = last_item (Directory_encode ops oc open_file d)"

subsection \<open>Building a sharded directory\<close>

text \<open>\<open>hash_key\<close> of \<open>hamt.rs\<close>: the low 64 bits of the hash, in big-endian order (the host is little-endian).\<close>

definition hash_key :: "(bytes \<Rightarrow> 128 word) \<Rightarrow> bytes \<Rightarrow> bytes" where
  "hash_key murmur3 key = to_be_bytes (ucast (murmur3 key))"

fun bits_error :: "hash_bits_error \<Rightarrow> ufs_error" where
  "bits_error InvalidBitLength = BadBitLength"
| "bits_error MaximumDepth = MaxDepth"
| "bits_error IndexPanic = Panicked"

definition bits :: "bytes \<Rightarrow> nat \<Rightarrow> nat \<Rightarrow> ufs_error + nat" where
  "bits hash pos len =
     (case HashBits_next len (new_at_index hash pos) of
        Inl e \<Rightarrow> Inl (bits_error e)
      | Inr (_, v) \<Rightarrow> Inr (unat v))"

text \<open>\<open>res.entry(value).or_default().push(leaf)\<close> on a sorted map.\<close>

fun btree_push :: "nat \<Rightarrow> 'a \<Rightarrow> (nat \<times> 'a list) list \<Rightarrow> (nat \<times> 'a list) list" where
  "btree_push k x [] = [(k, [x])]"
| "btree_push k x ((k', xs) # m) =
     (if k = k' then (k', xs @ [x]) # m
      else if k < k' then (k, [x]) # (k', xs) # m
      else (k', xs) # btree_push k x m)"

definition group_by_bits :: "(bytes \<times> entry) list \<Rightarrow> nat \<Rightarrow> ufs_error + (nat \<times> (bytes \<times> entry) list) list" where
  "group_by_bits leafs pos =
     fold_result (\<lambda>leaf res. result_bind (bits (fst leaf) pos 8) (\<lambda>v. Inr (btree_push v leaf res))) leafs []"

lemma result_bind_cong [fundef_cong]:
  "r = r' \<Longrightarrow> (\<And>a. r' = Inr a \<Longrightarrow> f a = g a) \<Longrightarrow> result_bind r f = result_bind r' g"
  by (cases r') simp_all

lemma bits_depth: "length hash = 8 \<Longrightarrow> bits hash pos 8 = Inr v \<Longrightarrow> pos \<le> 56"
  by (auto simp: bits_def HashBits_next_def new_at_index_def split: if_splits)

lemma group_by_bits_depth:
  assumes "group_by_bits leafs pos = Inr res" and "list_all (\<lambda>l. length (fst l) = 8) leafs"
  shows "pos \<le> 56 \<or> res = []"
proof (cases leafs)
  case (Cons l ls)
  then show ?thesis using assms bits_depth[of "fst l" pos]
    by (cases "bits (fst l) pos 8") (auto simp: group_by_bits_def)
qed (use assms in \<open>simp add: group_by_bits_def\<close>)

text \<open>\<open>HamtNode::group\<close>, which is called with the bit length 8 only. A hash is an array of eight bytes.\<close>

function group :: "(bytes \<times> entry) list \<Rightarrow> nat \<Rightarrow> ufs_error + hamt_tree"
  and group_all :: "(nat \<times> (bytes \<times> entry) list) list \<Rightarrow> nat \<Rightarrow> ufs_error + (nat \<times> hamt_tree) list" where
  "group leafs pos =
     (if \<not> list_all (\<lambda>l. length (fst l) = 8) leafs then Inl Panicked
      else if length leafs = 1 \<and> pos > 0 then Inr (HLeaf (fst (hd leafs)) (snd (hd leafs)))
      else result_bind (group_by_bits leafs pos) (\<lambda>res.
           result_bind (group_all res (pos + 8)) (\<lambda>tree. Inr (HBranch tree))))"
| "group_all [] pos = Inr []"
| "group_all ((key, leafs) # rest) pos =
     result_bind (group leafs pos) (\<lambda>node.
     result_bind (group_all rest pos) (\<lambda>tree. Inr ((key, node) # tree)))"
  by pat_completeness auto

termination
  by (relation "measures [case_sum (\<lambda>(leafs, pos). 2 * (80 - pos) + 1) (\<lambda>(res, pos). if res = [] then 0 else 2 * (80 - pos) + 2),
      case_sum (\<lambda>_. 0) (\<lambda>(res, pos). length res)]")
    (auto dest!: group_by_bits_depth)

declare group.simps [simp del]

definition HamtNode_new :: "(bytes \<Rightarrow> 128 word) \<Rightarrow> entry list \<Rightarrow> ufs_error + hamt_tree" where
  "HamtNode_new murmur3 entries = group (map (\<lambda>e. (hash_key murmur3 (Entry_name e), e)) entries) 0"

subsection \<open>The directory builder\<close>

definition DIRECTORY_LINK_LIMIT :: nat where
  "DIRECTORY_LINK_LIMIT = 6000"

datatype directory_type = TypeBasic | TypeHamt

record directory_builder =
  db_name :: "bytes option"
  db_entries :: "entry list"
  db_typ :: directory_type
  db_chunker :: chunker
  db_degree :: nat
  db_path :: "bytes option"

definition DirectoryBuilder_new :: directory_builder where
  "DirectoryBuilder_new = \<lparr>db_name = None, db_entries = [], db_typ = TypeBasic,
     db_chunker = ChunkFixed DEFAULT_CHUNKS_SIZE, db_degree = DEFAULT_DEGREE, db_path = None\<rparr>"

definition DirectoryBuilder_hamt :: "directory_builder \<Rightarrow> directory_builder" where
  "DirectoryBuilder_hamt b = b\<lparr>db_typ := TypeHamt\<rparr>"

definition DirectoryBuilder_name :: "bytes \<Rightarrow> directory_builder \<Rightarrow> directory_builder" where
  "DirectoryBuilder_name n b = b\<lparr>db_name := Some n\<rparr>"

definition DirectoryBuilder_path :: "bytes \<Rightarrow> directory_builder \<Rightarrow> directory_builder" where
  "DirectoryBuilder_path p b = b\<lparr>db_path := Some p\<rparr>"

definition DirectoryBuilder_chunker :: "chunker \<Rightarrow> directory_builder \<Rightarrow> directory_builder" where
  "DirectoryBuilder_chunker c b = b\<lparr>db_chunker := c\<rparr>"

definition DirectoryBuilder_degree :: "nat \<Rightarrow> directory_builder \<Rightarrow> directory_builder" where
  "DirectoryBuilder_degree d b = b\<lparr>db_degree := d\<rparr>"

definition DirectoryBuilder_entry :: "entry \<Rightarrow> directory_builder \<Rightarrow> directory_builder" where
  "DirectoryBuilder_entry e b =
     (let b = (if db_typ b = TypeBasic \<and> length (db_entries b) \<ge> DIRECTORY_LINK_LIMIT then b\<lparr>db_typ := TypeHamt\<rparr> else b)
      in b\<lparr>db_entries := db_entries b @ [e]\<rparr>)"

definition DirectoryBuilder_add_dir :: "directory \<Rightarrow> directory_builder \<Rightarrow> directory_builder" where
  "DirectoryBuilder_add_dir d b = DirectoryBuilder_entry (EDirectory d) b"

definition DirectoryBuilder_add_file :: "ufs_file \<Rightarrow> directory_builder \<Rightarrow> directory_builder" where
  "DirectoryBuilder_add_file f b = DirectoryBuilder_entry (EFile f) b"

definition DirectoryBuilder_add_symlink :: "symlink \<Rightarrow> directory_builder \<Rightarrow> directory_builder" where
  "DirectoryBuilder_add_symlink s b = DirectoryBuilder_entry (ESymlink s) b"

text \<open>\<open>build\<close> when no path is set.\<close>

definition DirectoryBuilder_build_entries ::
  "(bytes \<Rightarrow> 128 word) \<Rightarrow> directory_builder \<Rightarrow> ufs_error + directory" where
  "DirectoryBuilder_build_entries murmur3 b =
     (let name = (case db_name b of None \<Rightarrow> [] | Some n \<Rightarrow> n)
      in case db_typ b of
           TypeBasic \<Rightarrow> Inr (Basic name (db_entries b))
         | TypeHamt \<Rightarrow> result_bind (HamtNode_new murmur3 (db_entries b)) (\<lambda>hamt. Inr (Hamt name hamt)))"

text \<open>
  What the file system has at a path: a directory with the names of its entries in the order of \<open>read_dir\<close>, a
  symbolic link with its target and what it resolves to, a regular file, or something else.
\<close>

datatype fs_node = FsDir "(bytes \<times> fs_node) list" | FsFile | FsSymlink bytes "fs_node option" | FsOther

definition build_file :: "chunker \<Rightarrow> nat \<Rightarrow> bytes \<Rightarrow> ufs_error + ufs_file" where
  "build_file c degree path =
     (case FileBuilder_build (FileBuilder_path path (FileBuilder_degree degree (FileBuilder_chunker c FileBuilder_new))) of
        Inl _ \<Rightarrow> Inl Panicked
      | Inr f \<Rightarrow> Inr f)"

fun make_dir_from_path ::
    "(bytes \<Rightarrow> 128 word) \<Rightarrow> chunker \<Rightarrow> nat \<Rightarrow> bytes \<Rightarrow> fs_node \<Rightarrow> ufs_error + directory"
  and read_entries ::
    "(bytes \<Rightarrow> 128 word) \<Rightarrow> chunker \<Rightarrow> nat \<Rightarrow> bytes \<Rightarrow> (bytes \<times> fs_node) list \<Rightarrow> directory_builder \<Rightarrow>
     ufs_error + directory_builder" where
  "make_dir_from_path murmur3 c degree path (FsDir items) =
     result_bind (read_entries murmur3 c degree path items
       (DirectoryBuilder_name (file_name_or_empty path) DirectoryBuilder_new)) (\<lambda>dir.
     DirectoryBuilder_build_entries murmur3 dir)"
| "make_dir_from_path murmur3 c degree path _ = Inl IoError"
| "read_entries murmur3 c degree path [] dir = Inr dir"
| "read_entries murmur3 c degree path ((name, item) # items) dir =
     (let p = path @ [47] @ name
      in result_bind
           (case item of
              FsSymlink target _ \<Rightarrow>
                result_bind (SymlinkBuilder_build (\<lambda>_. Inr target) (SymlinkBuilder_new p)) (\<lambda>s.
                Inr (DirectoryBuilder_add_symlink s dir))
            | FsFile \<Rightarrow> result_bind (build_file c degree p) (\<lambda>f. Inr (DirectoryBuilder_add_file f dir))
            | FsDir sub \<Rightarrow>
                result_bind (make_dir_from_path murmur3 c degree p (FsDir sub)) (\<lambda>d. Inr (DirectoryBuilder_add_dir d dir))
            | FsOther \<Rightarrow> Inl IoError)
           (\<lambda>dir. read_entries murmur3 c degree path items dir))"

definition DirectoryBuilder_build ::
  "(bytes \<Rightarrow> 128 word) \<Rightarrow> (bytes \<Rightarrow> fs_node) \<Rightarrow> directory_builder \<Rightarrow> ufs_error + directory" where
  "DirectoryBuilder_build murmur3 fs b =
     (case db_path b of
        Some path \<Rightarrow>
          result_bind (make_dir_from_path murmur3 (db_chunker b) (db_degree b) path (fs path)) (\<lambda>dir.
          Inr (case db_name b of None \<Rightarrow> dir | Some name \<Rightarrow> Directory_set_name name dir))
      | None \<Rightarrow> DirectoryBuilder_build_entries murmur3 b)"

record add_config =
  cfg_wrap :: bool
  cfg_chunker :: "chunker_config option"

text \<open>What a path leads to when symbolic links are followed.\<close>

fun resolve_node :: "fs_node \<Rightarrow> fs_node option" where
  "resolve_node (FsSymlink _ r) = r"
| "resolve_node n = Some n"

definition Entry_from_path ::
  "bool \<Rightarrow> (bytes \<Rightarrow> 128 word) \<Rightarrow> (bytes \<Rightarrow> fs_node) \<Rightarrow> bytes \<Rightarrow> add_config \<Rightarrow> ufs_error + entry" where
  "Entry_from_path oc murmur3 fs path config =
     (let chunker = result_bind (ok_or IoError (cfg_chunker config)) (\<lambda>c. ok_or Panicked (Chunker_from oc c));
          fs' = (\<lambda>p. case resolve_node (fs p) of None \<Rightarrow> fs p | Some n \<Rightarrow> n)
      in result_bind
           (case resolve_node (fs path) of
              Some (FsDir _) \<Rightarrow>
                result_bind chunker (\<lambda>c.
                result_bind (DirectoryBuilder_build murmur3 fs'
                  (DirectoryBuilder_path path (DirectoryBuilder_chunker c DirectoryBuilder_new))) (\<lambda>dir.
                Inr (EDirectory dir)))
            | Some FsFile \<Rightarrow>
                result_bind chunker (\<lambda>c. result_bind (build_file c DEFAULT_DEGREE path) (\<lambda>f. Inr (EFile f)))
            | _ \<Rightarrow>
                (case fs path of
                   FsSymlink target _ \<Rightarrow>
                     result_bind (SymlinkBuilder_build (\<lambda>_. Inr target) (SymlinkBuilder_new path)) (\<lambda>s. Inr (ESymlink s))
                 | _ \<Rightarrow> Inl IoError))
           (\<lambda>entry. Inr (if cfg_wrap config then EDirectory (Entry_wrap entry) else entry)))"

section \<open>Files can be read back\<close>

declare stream_simps [simp del]

text \<open>A chunker as the builders make them: of a fixed size within the limit, or the default Rabin chunker.\<close>

definition chunker_ok :: "chunker \<Rightarrow> bool" where
  "chunker_ok c \<longleftrightarrow>
     (case c of
        ChunkFixed n \<Rightarrow> 0 < n \<and> n \<le> DEFAULT_CHUNK_SIZE_LIMIT
      | ChunkRabin r \<Rightarrow> \<exists>oc. Rabin_new oc rabin_config_default GO_IPFS_V0_PRESET = Some r)"

definition reads_ok :: "reads \<Rightarrow> bool" where
  "reads_ok reads \<longleftrightarrow> list_all (\<lambda>x. case x of Data d \<Rightarrow> d \<noteq> [] | Fail _ \<Rightarrow> False) reads"

lemma chunk_list_sizes: "c \<in> set (chunk_list n xs) \<Longrightarrow> c \<noteq> [] \<and> length c \<le> n"
proof (induction n xs rule: chunk_list.induct)
  case (1 n xs)
  show ?case
  proof (cases "xs = [] \<or> n = 0")
    case True
    then show ?thesis using "1.prems" by (subst (asm) chunk_list.simps) auto
  next
    case False
    with "1.prems" have "c = take n xs \<or> c \<in> set (chunk_list n (drop n xs))"
      by (subst (asm) chunk_list.simps) auto
    then show ?thesis using "1.IH"[OF False] False by auto
  qed
qed

lemma errors_out_Nil: "errors_out items = [] \<Longrightarrow> items = map Inr (chunks_out items)"
  by (induction items) (auto simp: errors_out_def chunks_out_def split: sum.splits)

lemma errors_of_ok: "reads_ok reads \<Longrightarrow> errors_of reads = [] \<and> Data [] \<notin> set reads"
  by (induction reads) (auto simp: reads_ok_def errors_of_def split: read_result.splits)

lemma length_concat_ge: "\<forall>x \<in> set cs. x \<noteq> [] \<Longrightarrow> length cs \<le> length (concat cs)"
proof (induction cs)
  case (Cons c cs)
  then show ?case by (cases c) auto
qed simp

text \<open>
  What the tree builder relies on in a chunker: if no read fails, it returns the content in pieces that are not empty
  and not above the limit of a block, however the source is fragmented.
\<close>

locale chunking =
  fixes valid :: "'c \<Rightarrow> bool" and chunks :: "'c \<Rightarrow> reads \<Rightarrow> (ufs_error + bytes) list option"
  assumes pieces: "valid c \<Longrightarrow> reads_ok reads \<Longrightarrow> \<exists>cs. chunks c reads = Some (map Inr cs) \<and> concat cs = data_of reads \<and>
    (\<forall>x \<in> set cs. x \<noteq> [] \<and> length x \<le> DEFAULT_CHUNK_SIZE_LIMIT)"
begin

text \<open>There are no more chunks than bytes, so the tree over them is as small as the content.\<close>

lemma tree_of_chunks:
  assumes "valid c" and "reads_ok reads" and "length (data_of reads) < 2 ^ 42"
    and "ufs_laws ops" and "stems_fit ops degree" and "1 < degree"
  shows "\<exists>cs out. chunks c reads = Some (map Inr cs) \<and> stream_balanced_tree ops oc degree (map Inr cs) = map Inr out \<and> out \<noteq> [] \<and>
    (\<forall>b \<in> set out. length (ub_links b) \<le> degree) \<and>
    (\<forall>load. stored load out \<longrightarrow> root_at ops load (ub_cid (last out)) (data_of reads))"
proof -
  obtain cs where cs: "chunks c reads = Some (map Inr cs)" "concat cs = data_of reads"
    "\<forall>x \<in> set cs. x \<noteq> [] \<and> length x \<le> DEFAULT_CHUNK_SIZE_LIMIT"
    using pieces[OF assms(1,2)] by blast
  have "length cs < 2 ^ 42" using length_concat_ge[of cs] cs(2,3) assms(3) by fastforce
  then show ?thesis using stream_balanced_tree_ok[OF assms(4-6), of cs oc] cs by metis
qed

end

interpretation fixed_size: chunking "\<lambda>n. 0 < n \<and> n \<le> DEFAULT_CHUNK_SIZE_LIMIT" "\<lambda>n reads. Some (Fixed_chunks n reads)"
proof
  fix n and reads :: reads
  assume n: "0 < n \<and> n \<le> DEFAULT_CHUNK_SIZE_LIMIT" and ok: "reads_ok reads"
  have "chunks_out (Fixed_chunks n reads) = chunk_list n (data_of reads)" "errors_out (Fixed_chunks n reads) = []"
    using fixed_loop_spec[OF conjunct1[OF n], of reads "[]"] errors_of_ok[OF ok] by (simp_all add: Fixed_chunks_def)
  then have "Fixed_chunks n reads = map Inr (chunk_list n (data_of reads))" using errors_out_Nil by metis
  then show "\<exists>cs. Some (Fixed_chunks n reads) = Some (map Inr cs) \<and> concat cs = data_of reads \<and>
      (\<forall>x \<in> set cs. x \<noteq> [] \<and> length x \<le> DEFAULT_CHUNK_SIZE_LIMIT)"
    using chunk_list_concat[OF conjunct1[OF n]] chunk_list_sizes[of _ n] n by fastforce
qed

interpretation content_defined: chunking "\<lambda>r. \<exists>oc. Rabin_new oc rabin_config_default GO_IPFS_V0_PRESET = Some r" Rabin_chunks
proof
  fix r and reads :: reads
  assume "\<exists>oc. Rabin_new oc rabin_config_default GO_IPFS_V0_PRESET = Some r" and rok: "reads_ok reads"
  then obtain oc where r: "Rabin_new oc rabin_config_default GO_IPFS_V0_PRESET = Some r" by blast
  have ok: "rabin_ok r" "rb_config r = rabin_config_default"
    using Rabin_new_ok(1,2)[OF r] by (simp_all add: rabin_config_default_def)
  have "\<exists>d. x = Data d \<and> d \<noteq> []" if "x \<in> set reads" for x
    using rok that by (cases x) (auto simp: reads_ok_def list_all_iff dest!: bspec)
  then have "Rabin_chunks r reads = Some (map Inr (rabin_ref r (data_of reads)))"
    using rabin_loop_spec[OF ok(1), of reads "[]" "[]"] ok(2) by (simp add: Rabin_chunks_def rabin_config_default_def)
  moreover note rabin_ref_spec[OF ok(1), of "data_of reads"]
  moreover have "max_size (rb_config r) \<le> DEFAULT_CHUNK_SIZE_LIMIT"
    by (simp add: ok(2) rabin_config_default_def DEFAULT_CHUNK_SIZE_LIMIT_def)
  ultimately show "\<exists>cs. Rabin_chunks r reads = Some (map Inr cs) \<and> concat cs = data_of reads \<and>
      (\<forall>x \<in> set cs. x \<noteq> [] \<and> length x \<le> DEFAULT_CHUNK_SIZE_LIMIT)"
    by (intro exI[of _ "rabin_ref r (data_of reads)"]) auto
qed

text \<open>The chunkers of the builders are both of these.\<close>

interpretation any_chunker: chunking chunker_ok Chunker_chunks
proof
  fix c and reads :: reads
  assume "chunker_ok c" and "reads_ok reads"
  then show "\<exists>cs. Chunker_chunks c reads = Some (map Inr cs) \<and> concat cs = data_of reads \<and>
      (\<forall>x \<in> set cs. x \<noteq> [] \<and> length x \<le> DEFAULT_CHUNK_SIZE_LIMIT)"
    using fixed_size.pieces content_defined.pieces
    by (cases c) (simp_all add: chunker_ok_def Chunker_chunks_def)
qed

lemma root_at_reader:
  assumes "root_at ops load cid content"
  shows "\<exists>u r. load_node ops load cid = Inr u \<and> into_content_reader ops None u = Inr (Some r) \<and>
    reader_inv ops load content r \<and> poll_complete r = 0 \<and> rd_pos_max r = None"
proof -
  obtain u where u: "load_node ops load cid = Inr u" "root_content ops load u content" "UnixfsNode_typ u \<in> {None, Some TFile}"
    using assms by (auto simp: root_at_def)
  have "\<exists>ls. links_owned ops u = Inr ls"
    using u(2,3)
    by (cases u) (auto simp: root_content_def links_owned_def UnixfsNode_links_def PbLinks_def collect_def split: if_splits)
  moreover have "\<not> is_dir u" using u(3) by (cases u) auto
  ultimately obtain r where r: "into_content_reader ops None u = Inr (Some r)" by (auto simp: into_content_reader_def)
  from into_content_reader_inv[OF r u(2)] u(1) r show ?thesis by auto
qed

text \<open>What is read for a file.\<close>

definition file_reads :: "(bytes \<Rightarrow> ufs_error + reads) \<Rightarrow> ufs_file \<Rightarrow> ufs_error + reads" where
  "file_reads open_file f = (case f_content f of Path path \<Rightarrow> open_file path | Reader reader \<Rightarrow> Inr reader)"

lemma File_encode_root_at:
  assumes "ufs_laws ops" and "stems_fit ops degree" and "1 < degree" and "f_tree_builder f = Balanced degree"
    and "chunker_ok (f_chunker f)" and "file_reads open_file f = Inr reads" and "reads_ok reads" and "length (data_of reads) < 2 ^ 42"
  shows "\<exists>out. File_encode ops oc open_file f = Inr (map Inr out) \<and> out \<noteq> [] \<and> (\<forall>b \<in> set out. length (ub_links b) \<le> degree) \<and>
    (\<forall>load. stored load out \<longrightarrow> root_at ops load (ub_cid (last out)) (data_of reads))"
proof -
  obtain cs out where cs: "Chunker_chunks (f_chunker f) reads = Some (map Inr cs)"
    and out: "stream_balanced_tree ops oc degree (map Inr cs) = map Inr out" "out \<noteq> []"
    "\<forall>b \<in> set out. length (ub_links b) \<le> degree"
    "\<forall>load. stored load out \<longrightarrow> root_at ops load (ub_cid (last out)) (data_of reads)"
    using any_chunker.tree_of_chunks[OF assms(5,7,8,1-3), of oc] by (elim exE conjE) (rule that)
  have "File_encode ops oc open_file f = Inr (map Inr out)"
    using cs out(1) assms(4,6) by (simp add: File_encode_def file_reads_def[symmetric])
  then show ?thesis using out(2-4) by (intro exI[of _ out] conjI)
qed

text \<open>A stored file is read by any sequence of non-empty buffers that is long enough.\<close>

definition delivers ::
  "'cid ufs_ops \<Rightarrow> bool \<Rightarrow> ('cid \<Rightarrow> ufs_error + bytes) \<Rightarrow> 'cid content_reader \<Rightarrow> bytes \<Rightarrow> bool" where
  "delivers ops oc load r content \<longleftrightarrow>
     (\<forall>ns. (\<forall>n \<in> set ns. 0 < n) \<longrightarrow> length content \<le> length ns \<longrightarrow> read_polls ops oc load ns r = Some content)"

lemma root_at_delivers:
  assumes "root_at ops load cid content"
  shows "\<exists>u r. load_node ops load cid = Inr u \<and> into_content_reader ops None u = Inr (Some r) \<and> delivers ops oc load r content"
proof -
  from root_at_reader[OF assms] obtain u r where
    r: "load_node ops load cid = Inr u" "into_content_reader ops None u = Inr (Some r)"
      "reader_inv ops load content r" "poll_complete r = 0" "rd_pos_max r = None"
    by (elim exE conjE) (rule that)
  have "read_polls ops oc load ns r = Some content"
    if "\<forall>n \<in> set ns. 0 < n" and "length content \<le> length ns" for ns
    using read_polls_content[OF r(3) that(1), of oc] that(2) r(4,5) by (simp add: clip_def)
  then have "delivers ops oc load r content" by (simp add: delivers_def)
  then show ?thesis using r(1,2) by blast
qed


subsection \<open>An instance\<close>

text \<open>A codec whose content ids have a fixed length: the digest is a sum.\<close>

definition sum_digest :: "bytes \<Rightarrow> u64" where
  "sum_digest bs = fold (\<lambda>b acc. acc * 257 + ucast b + 1) bs 0"

definition sum_ufs :: "(u64 \<times> u64) ufs_ops" where
  "sum_ufs = \<lparr>uc_codec = fst, uc_new = (\<lambda>c d. (c, sum_digest d)), uc_to_bytes = (\<lambda>(c, d). to_be_bytes c @ to_be_bytes d),
     uc_read = (\<lambda>bs. let (c, rest) = get_u64 bs in Some (c, fst (get_u64 rest))),
     enc_data = demo_enc_data, dec_data = demo_dec_data, enc_node = demo_enc_node, dec_node = demo_dec_node\<rparr>"

lemma sum_ufs_laws: "ufs_laws sum_ufs"
  by (auto simp: ufs_laws_def sum_ufs_def demo_data_back demo_node_back reads_backD[OF reads_back_u64])

lemma sum_stems_fit: "stems_fit sum_ufs 2"
proof -
  have fit: "length (demo_enc_data (stem_data fs (map (\<lambda>l. raw_data_len (snd l)) links))) \<le> 100 \<and>
    length (demo_enc_node \<lparr>pn_links = map (stem_link sum_ufs) links,
      pn_data = Some (demo_enc_data (stem_data fs (map (\<lambda>l. raw_data_len (snd l)) links)))\<rparr>) \<le> 1000"
    if len: "length links \<le> 2" for fs and links :: "((u64 \<times> u64) \<times> link_info) list"
  proof -
    consider "links = []" | l where "links = [l]" | l l' where "links = [l, l']"
      using len by (cases links; cases "tl links"; cases "tl (tl links)") auto
    then show ?thesis
      by cases (auto simp: demo_enc_data_def demo_enc_node_def stem_data_def stem_link_def put_list_def put_option_def
          put_bytes_def unixfs_data_default_def demo_put_link_def sum_ufs_def split_beta)
  qed
  have enc: "enc_data sum_ufs = demo_enc_data" "enc_node sum_ufs = demo_enc_node" by (simp_all add: sum_ufs_def)
  have lim: "100 \<le> DEFAULT_CHUNK_SIZE_LIMIT" "1000 \<le> DEFAULT_CHUNK_SIZE_LIMIT"
    by (simp_all add: DEFAULT_CHUNK_SIZE_LIMIT_def)
  show ?thesis
    unfolding stems_fit_def Let_def enc using fit lim by (intro allI impI) (meson le_trans)
qed

definition demo_leaf :: "bytes \<Rightarrow> (u64 \<times> u64) ufs_block" where
  "demo_leaf d = \<lparr>ub_cid = (Codec_Raw, sum_digest d), ub_data = d, ub_links = []\<rparr>"

lemma demo_leaf_encode:
  "length d \<le> 100 \<Longrightarrow> TreeNode_encode sum_ufs oc (Leaf d) =
     Inr (demo_leaf d, \<lparr>raw_data_len = of_nat (length d), encoded_len = of_nat (length d)\<rparr>)"
  by (simp add: UnixfsNode_encode_def demo_leaf_def sum_ufs_def DEFAULT_CHUNK_SIZE_LIMIT_def)

lemma demo_stream:
  "\<exists>fs links. stream_balanced_tree sum_ufs oc 2 [Inr [1, 2], Inr [3]] =
     map Inr [demo_leaf [1, 2], demo_leaf [3], stem_block sum_ufs fs links]"
proof -
  let ?i = "\<lambda>n. \<lparr>raw_data_len = of_nat n, encoded_len = of_nat n\<rparr>"
  let ?ls = "[(ub_cid (demo_leaf [1, 2]), ?i 2), (ub_cid (demo_leaf [3]), ?i 1)]"
  have sz: "list_all2 sized ?ls [([1, 2], 1), ([3], 1)]" by (simp add: sized_def DEFAULT_CHUNK_SIZE_LIMIT_def)
  have len: "length ?ls \<le> 2" by simp
  have small: "length (parts_content [([1, 2], 1), ([3], 1)]) < 2 ^ 64"
    "DEFAULT_CHUNK_SIZE_LIMIT * (parts_weight [([1, 2], 1), ([3], 1)] + 1) < 2 ^ 64"
    by (simp_all add: parts_content_def parts_weight_def DEFAULT_CHUNK_SIZE_LIMIT_def)
  obtain fs where fs: "u64_sum oc 0 (map (\<lambda>l. raw_data_len (snd l)) ?ls) = Some fs"
    by (simp add: u64_add_def)
  obtain b info where b: "TreeNode_encode sum_ufs oc (Stem ?ls) = Inr (b, info)"
    using encode_stem[OF sum_ufs_laws sum_stems_fit sz len small, of oc] by (elim exE conjE) (rule that)
  then have "b = stem_block sum_ufs fs ?ls"
    using stem_encoded(1)[OF sum_ufs_laws sum_stems_fit len, of fs] stem_encoded(2)[OF sum_ufs_laws sum_stems_fit len fs]
    by (auto simp: result_bind_def split: sum.splits)
  with b show ?thesis
    by (intro exI[of _ fs] exI[of _ ?ls]) (simp add: stream_balanced_tree_def demo_leaf_encode del: TreeNode_encode.simps)
qed

definition demo_builder :: file_builder where
  "demo_builder = FileBuilder_name [97] (FileBuilder_content_reader [Data [1, 2, 3]]
     (FileBuilder_degree 2 (FileBuilder_chunker (ChunkFixed 2) FileBuilder_new)))"


end
