(* ===== verification/Hamt.thy ===== *)
theory Hamt
  imports Builder
begin

text \<open>
  Sharded directories (\<open>iroh-unixfs/src/hamt.rs\<close>): looking up a name in a shard and listing the children of
  it, and that every entry of a built directory is found. The content loader is the parameter \<open>load\<close>.
\<close>

section \<open>Definitions\<close>

datatype 'cid inner_node = INode "'cid hamt_node" "'cid unixfs_node" | ILeaf "'cid link" "'cid unixfs_node"

text \<open>\<open>load_child\<close> loads the link, or takes what an earlier load put into the cache.\<close>

definition load_from_link ::
  "'cid ufs_ops \<Rightarrow> ('cid \<Rightarrow> ufs_error + bytes) \<Rightarrow> 'cid link \<Rightarrow> ufs_error + 'cid inner_node" where
  "load_from_link ops load l =
     result_bind (load_node ops load (l_cid l)) (\<lambda>u.
     Inr (case u of HamtShard _ hamt \<Rightarrow> INode hamt u | _ \<Rightarrow> ILeaf l u))"

definition MAX_DEPTH :: nat where
  "MAX_DEPTH = 8"

text \<open>\<open>None\<close> is the failed assertion.\<close>

definition index_for_bit_pos :: "'cid hamt_node \<Rightarrow> nat \<Rightarrow> nat option" where
  "index_for_bit_pos n bp =
     (let mask = set_bits_le bp Bitfield_zero
      in if count_ones mask = bp then Some (count_ones (Bitfield_and mask (hn_bitfield n))) else None)"

text \<open>The name of a link without the prefix; \<open>None\<close> is a panic of the slice.\<close>

definition stripped_name :: "nat \<Rightarrow> 'cid link \<Rightarrow> bytes option" where
  "stripped_name padding_len l = (case l_name l of None \<Rightarrow> Some [] | Some s \<Rightarrow> slice_from s padding_len)"

definition next_index :: "nat \<Rightarrow> hash_bits \<Rightarrow> ufs_error + hash_bits \<times> nat" where
  "next_index i hb =
     (case HashBits_next i hb of Inl e \<Rightarrow> Inl (bits_error e) | Inr (hb', v) \<Rightarrow> Inr (hb', unat v))"

function get_value ::
  "'cid ufs_ops \<Rightarrow> ('cid \<Rightarrow> ufs_error + bytes) \<Rightarrow> bytes \<Rightarrow> 'cid hamt_node \<Rightarrow> hash_bits \<Rightarrow> nat \<Rightarrow>
   ufs_error + ('cid link \<times> 'cid unixfs_node) option" where
  "get_value ops load key n hb depth =
     (if \<not> depth < MAX_DEPTH then Inl MaxDepth
      else result_bind (next_index (hn_bit_width n) hb) (\<lambda>(hb', idx).
           result_bind (ok_or Panicked (test_bit (hn_bitfield n) idx)) (\<lambda>present.
           if \<not> present then Inr None
           else result_bind (ok_or Panicked (index_for_bit_pos n idx)) (\<lambda>cindex.
                result_bind (ok_or Panicked (arr_at (hn_pointers n) cindex)) (\<lambda>child.
                result_bind (load_from_link ops load child) (\<lambda>c.
                result_bind (ok_or Panicked (stripped_name (hn_padding_len n) child)) (\<lambda>name.
                case c of
                  INode n' value \<Rightarrow>
                    if key = name then Inr (Some (child, value)) else get_value ops load key n' hb' (depth + 1)
                | ILeaf l value \<Rightarrow> Inr (if key = name then Some (l, value) else None))))))))"
  by pat_completeness auto

termination
  by (relation "measure (\<lambda>(ops, load, key, n, hb, depth). 8 - depth)") (auto simp: MAX_DEPTH_def)

declare get_value.simps [simp del]

definition Hamt_get ::
  "'cid ufs_ops \<Rightarrow> ('cid \<Rightarrow> ufs_error + bytes) \<Rightarrow> (bytes \<Rightarrow> 128 word) \<Rightarrow> 'cid hamt_node \<Rightarrow> bytes \<Rightarrow>
   ufs_error + ('cid link \<times> 'cid unixfs_node) option" where
  "Hamt_get ops load murmur3 n key = get_value ops load key n (HashBits_new (hash_key murmur3 key)) 0"

definition calculate_padding_len :: "node \<Rightarrow> nat" where
  "calculate_padding_len n =
     length (hex_upper ((case Node_fanout n of None \<Rightarrow> DEFAULT_FANOUT | Some f \<Rightarrow> f) - 1))"

text \<open>
  The stream of children. A shard may link to itself when the loader is arbitrary, so the depth is bounded by
  \<open>fuel\<close>; \<open>None\<close> is running out of it.
\<close>

definition child_link :: "nat \<Rightarrow> 'cid link \<Rightarrow> bytes \<Rightarrow> ufs_error + 'cid link" where
  "child_link padding_len l name =
     (let s = drop padding_len name
      in if utf8_valid s then Inr \<lparr>l_cid = l_cid l, l_name = Some s, l_tsize = l_tsize l\<rparr> else Inl Panicked)"

text \<open>The items of a stream up to its first error, and then those of another if there was none.\<close>

fun option_then :: "('e + 'b) list option \<Rightarrow> ('e + 'b) list option \<Rightarrow> ('e + 'b) list option" where
  "option_then None t = None"
| "option_then (Some s) t =
     (if list_all (\<lambda>x. \<not> isl x) s then map_option ((@) s) t else Some (stream_then s (\<lambda>_. [])))"

fun Hamt_children ::
    "'cid ufs_ops \<Rightarrow> ('cid \<Rightarrow> ufs_error + bytes) \<Rightarrow> nat \<Rightarrow> nat \<Rightarrow> 'cid link list \<Rightarrow> (ufs_error + 'cid link) list option" where
  "Hamt_children ops load fuel padding_len [] = Some []"
| "Hamt_children ops load fuel padding_len (pointer # pointers) =
     (case l_name pointer of
        None \<Rightarrow> Hamt_children ops load fuel padding_len pointers
      | Some name \<Rightarrow>
          if length name > padding_len
          then option_then (Some [child_link padding_len pointer name]) (Hamt_children ops load fuel padding_len pointers)
          else (case load_from_link ops load pointer of
                  Inl e \<Rightarrow> Some [Inl e]
                | Inr (INode n _) \<Rightarrow>
                    (case fuel of
                       0 \<Rightarrow> None
                     | Suc fuel' \<Rightarrow>
                         option_then (Hamt_children ops load fuel' (hn_padding_len n) (hn_pointers n))
                           (Hamt_children ops load fuel padding_len pointers))
                | Inr (ILeaf _ value) \<Rightarrow>
                    (case value of
                       Directory _ \<Rightarrow>
                         option_then (Some (UnixfsNode_links ops value)) (Hamt_children ops load fuel padding_len pointers)
                     | _ \<Rightarrow> Hamt_children ops load fuel padding_len pointers)))"

text \<open>\<open>as_child_reader\<close> of \<open>unixfs.rs\<close>: the links of a directory, or the children of a shard.\<close>

definition as_child_reader ::
  "'cid ufs_ops \<Rightarrow> ('cid \<Rightarrow> ufs_error + bytes) \<Rightarrow> nat \<Rightarrow> 'cid unixfs_node \<Rightarrow> (ufs_error + 'cid link) list option option" where
  "as_child_reader ops load fuel u =
     (case u of
        Directory _ \<Rightarrow> Some (Some (UnixfsNode_links ops u))
      | HamtShard _ n \<Rightarrow> Some (Hamt_children ops load fuel (hn_padding_len n) (hn_pointers n))
      | _ \<Rightarrow> None)"

section \<open>Grouping by hash\<close>

text \<open>The bits at a multiple of eight are a byte of the hash.\<close>

lemma HashBits_next_byte:
  assumes "length hash = 8" and "d < 8"
  shows "HashBits_next 8 (new_at_index hash (8 * d)) = Inr (new_at_index hash (8 * (d + 1)), ucast (hash ! d))"
proof -
  let ?h = "new_at_index hash (8 * d)"
  have "next_bits 8 ?h = Some (?h\<lparr>hb_consumed := 8 * d + 8\<rparr>, of_nat (bits_at hash (8 * d) 8))"
    using next_bits_correct[of 8 ?h] assms by (simp add: new_at_index_def)
  moreover have "bits_at hash (8 * d) 8 = unat (hash ! d)"
    using bits_at_byte[of d hash 0 8] assms unat_byte[of "hash ! d"] by simp
  ultimately show ?thesis using assms by (simp add: HashBits_next_def new_at_index_def add.commute)
qed

lemma unat_byte32: "unat (ucast (b :: byte) :: 32 word) = unat b"
  using unat_byte[of b] by (simp add: unsigned_ucast_eq take_bit_eq_mod)

lemma bits_byte:
  assumes "length hash = 8"
  shows "bits hash (8 * d) 8 = (if d < 8 then Inr (unat (hash ! d)) else Inl MaxDepth)"
proof (cases "d < 8")
  case True
  then show ?thesis using HashBits_next_byte[OF assms] by (simp add: bits_def unat_byte32)
next
  case False
  then show ?thesis using assms by (simp add: bits_def HashBits_next_def new_at_index_def)
qed

lemma next_index_byte:
  assumes "length hash = 8" and "d < 8"
  shows "next_index 8 (new_at_index hash (8 * d)) = Inr (new_at_index hash (8 * (d + 1)), unat (hash ! d))"
  using HashBits_next_byte[OF assms] by (simp add: next_index_def unat_byte32)

definition key_at :: "nat \<Rightarrow> bytes \<times> entry \<Rightarrow> nat" where
  "key_at d l = unat (fst l ! d)"

definition with_key :: "nat \<Rightarrow> nat \<Rightarrow> (bytes \<times> entry) list \<Rightarrow> (bytes \<times> entry) list" where
  "with_key d k leafs = filter (\<lambda>l. key_at d l = k) leafs"

lemma btree_push_keys: "set (map fst (btree_push k x m)) = insert k (set (map fst m))"
  by (induction k x m rule: btree_push.induct) auto

lemma btree_push_sorted: "sorted_wrt (<) (map fst m) \<Longrightarrow> sorted_wrt (<) (map fst (btree_push k x m))"
proof (induction k x m rule: btree_push.induct)
  case (2 k x k' xs m)
  then show ?case using btree_push_keys[of k x m] by fastforce
qed simp

lemma btree_push_get:
  "sorted_wrt (<) (map fst m) \<Longrightarrow>
   map_of (btree_push k x m) j =
     (if j = k then Some ((case map_of m k of None \<Rightarrow> [] | Some xs \<Rightarrow> xs) @ [x]) else map_of m j)"
proof (induction k x m rule: btree_push.induct)
  case (2 k x k' xs m)
  have m: "sorted_wrt (<) (map fst m)" "\<forall>j \<in> set (map fst m). k' < j" using "2.prems" by auto
  have "map_of m i = None" if "i \<le> k'" for i
    using m(2) that by (auto simp: map_of_eq_None_iff)
  then show ?case using "2.IH"[OF _ _ m(1)] by (cases "k = k'"; cases "k < k'"; cases "j = k") simp_all
qed simp

lemma group_by_bits_ok:
  assumes "d < 8" and "list_all (\<lambda>l. length (fst l) = 8) leafs"
  shows "\<exists>res. group_by_bits leafs (8 * d) = Inr res \<and> sorted_wrt (<) (map fst res) \<and>
    (\<forall>k. map_of res k = (if with_key d k leafs = [] then None else Some (with_key d k leafs)))"
proof -
  let ?f = "\<lambda>l. btree_push (key_at d l) l"
  have "group_by_bits leafs (8 * d) = Inr (fold ?f leafs [])"
    unfolding group_by_bits_def
    by (rule fold_result_Inr) (use assms in \<open>auto simp: bits_byte key_at_def list_all_iff\<close>)
  moreover have "sorted_wrt (<) (map fst (fold ?f leafs [])) \<and>
    (\<forall>k. map_of (fold ?f leafs []) k = (if with_key d k leafs = [] then None else Some (with_key d k leafs)))"
  proof (induction leafs rule: rev_induct)
    case (snoc l leafs)
    then show ?case by (auto simp: btree_push_sorted btree_push_get with_key_def)
  qed (simp add: with_key_def)
  ultimately show ?thesis by blast
qed

text \<open>
  A tree of some leaves, whose hashes agree below depth \<open>d\<close>: a branch has a sorted entry for each byte that
  occurs at depth \<open>d\<close>.
\<close>

inductive tree_of :: "nat \<Rightarrow> (bytes \<times> entry) list \<Rightarrow> hamt_tree \<Rightarrow> bool" where
  tree_leaf: "0 < d \<Longrightarrow> tree_of d [l] (HLeaf (fst l) (snd l))"
| tree_branch: "d < 8 \<Longrightarrow> sorted_wrt (<) (map fst tree) \<Longrightarrow> (\<forall>k. map_of tree k = None \<longleftrightarrow> with_key d k leafs = []) \<Longrightarrow>
    (\<forall>k n. map_of tree k = Some n \<longrightarrow> tree_of (Suc d) (with_key d k leafs) n) \<Longrightarrow> tree_of d leafs (HBranch tree)"

text \<open>Grouping succeeds exactly if no two hashes are equal.\<close>

definition agree :: "nat \<Rightarrow> (bytes \<times> entry) list \<Rightarrow> bool" where
  "agree d leafs \<longleftrightarrow> (\<forall>l \<in> set leafs. length (fst l) = 8) \<and>
     (\<forall>l \<in> set leafs. \<forall>l' \<in> set leafs. \<forall>i < d. fst l ! i = fst l' ! i)"

lemma agreeD:
  assumes "agree d leafs"
  shows "l \<in> set leafs \<Longrightarrow> length (fst l) = 8"
    and "l \<in> set leafs \<Longrightarrow> l' \<in> set leafs \<Longrightarrow> i < d \<Longrightarrow> fst l ! i = fst l' ! i"
  using assms unfolding agree_def by blast+

lemma with_key_set: "l \<in> set (with_key d k leafs) \<longleftrightarrow> l \<in> set leafs \<and> unat (fst l ! d) = k"
  by (simp add: with_key_def key_at_def)

lemma agree_with_key:
  assumes "agree d leafs"
  shows "agree (Suc d) (with_key d k leafs)"
  unfolding agree_def
proof (intro conjI ballI allI impI)
  fix l l' i
  assume l: "l \<in> set (with_key d k leafs)"
  then show "length (fst l) = 8" using agreeD(1)[OF assms] with_key_set by blast
  assume l': "l' \<in> set (with_key d k leafs)" and "i < Suc d"
  then consider "i = d" | "i < d" by linarith
  then show "fst l ! i = fst l' ! i"
  proof cases
    case 1
    then have "unat (fst l ! i) = unat (fst l' ! i)" using l l' with_key_set by simp
    then show ?thesis by (rule unsigned_word_eqI)
  next
    case 2
    from l l' show ?thesis using agreeD(2)[OF assms _ _ 2] with_key_set by blast
  qed
qed

lemma agree_all:
  assumes "agree 8 leafs" and "l \<in> set leafs" and "l' \<in> set leafs"
  shows "fst l = fst l'"
proof (rule nth_equalityI)
  show len: "length (fst l) = length (fst l')" using agreeD(1)[OF assms(1)] assms(2,3) by simp
  show "fst l ! i = fst l' ! i" if "i < length (fst l)" for i
    using agreeD(2)[OF assms, of i] agreeD(1)[OF assms(1,2)] that by simp
qed

lemma distinct_with_key:
  "distinct (map fst leafs) \<longleftrightarrow> (\<forall>k. distinct (map fst (with_key d k leafs)))"
proof
  assume "\<forall>k. distinct (map fst (with_key d k leafs))"
  then show "distinct (map fst leafs)"
  proof (induction leafs)
    case (Cons l leafs)
    have "distinct (map fst (with_key d k leafs))" for k
      using Cons.prems[THEN spec, of k] by (auto simp: with_key_def split: if_splits)
    moreover have "fst l \<notin> set (map fst leafs)"
    proof
      assume "fst l \<in> set (map fst leafs)"
      then obtain l' where "l' \<in> set leafs" "fst l' = fst l" by auto
      then have "fst l \<in> set (map fst (with_key d (key_at d l) leafs))"
        by (auto simp: with_key_def key_at_def intro!: image_eqI[of _ fst l'])
      then show False using Cons.prems[THEN spec, of "key_at d l"] by (simp add: with_key_def)
    qed
    ultimately show ?case using Cons.IH by auto
  qed simp
qed (auto simp: with_key_def distinct_map_filter)

lemma group_all_Inr:
  assumes "\<And>k xs. (k, xs) \<in> set res \<Longrightarrow> \<exists>t. group xs pos = Inr t \<and> P k t"
  shows "\<exists>tree. group_all res pos = Inr tree \<and> map fst tree = map fst res \<and> (\<forall>(k, t) \<in> set tree. P k t)"
  using assms
proof (induction res)
  case (Cons r res)
  obtain k xs where r: "r = (k, xs)" by (cases r)
  obtain t where t: "group xs pos = Inr t" "P k t" using Cons.prems r by auto
  obtain tree where "group_all res pos = Inr tree" "map fst tree = map fst res" "\<forall>(k, t) \<in> set tree. P k t"
    using Cons.IH Cons.prems by (auto 0 3)
  then show ?case using t r by simp
qed simp

lemma group_all_Inl:
  assumes "\<And>k xs. (k, xs) \<in> set res \<Longrightarrow> (\<exists>t. group xs pos = Inr t) \<or> group xs pos = Inl e"
    and "(k, xs) \<in> set res" and "group xs pos = Inl e"
  shows "group_all res pos = Inl e"
  using assms
proof (induction res)
  case (Cons r res)
  obtain j ys where r: "r = (j, ys)" by (cases r)
  from Cons.prems(1)[of j ys] r consider t where "group ys pos = Inr t" | "group ys pos = Inl e" by auto
  then show ?case
  proof cases
    case 1
    then have "(k, xs) \<in> set res" using Cons.prems(2,3) r by auto
    then have "group_all res pos = Inl e" using Cons.IH Cons.prems(1,3) by (metis list.set_intros(2))
    then show ?thesis using 1 r by simp
  next
    case 2
    then show ?thesis using r by simp
  qed
qed simp

lemma group_ok:
  assumes "agree d leafs" and "d \<le> 8" and "d = 0 \<or> leafs \<noteq> []"
  shows "if distinct (map fst leafs) then \<exists>t. group leafs (8 * d) = Inr t \<and> tree_of d leafs t
    else group leafs (8 * d) = Inl MaxDepth"
  using assms
proof (induction "8 - d" arbitrary: d leafs rule: less_induct)
  case less
  have len: "list_all (\<lambda>l. length (fst l) = 8) leafs" using agreeD(1)[OF less.prems(1)] by (simp add: list_all_iff)
  consider "length leafs = 1" "0 < d" | "\<not> (length leafs = 1 \<and> 0 < d)" "d = 8" | "\<not> (length leafs = 1 \<and> 0 < d)" "d < 8"
    using less.prems(2) by linarith
  then show ?case
  proof cases
    case 1
    then obtain l where "leafs = [l]" by (auto simp: length_Suc_conv)
    then show ?thesis using 1 len tree_leaf[of d l] by (subst group.simps) simp
  next
    case 2
    then obtain l l' ls where ls: "leafs = l # l' # ls" using less.prems(3) by (cases leafs; cases "tl leafs") auto
    have "fst l = fst l'" using agree_all[of leafs l l'] less.prems(1) 2(2) ls by simp
    moreover have "group_by_bits leafs 64 = Inl MaxDepth"
      using bits_byte[of "fst l" 8] len ls by (simp add: group_by_bits_def)
    ultimately show ?thesis using ls len 2 by (subst group.simps) simp
  next
    case 3
    obtain res where res: "group_by_bits leafs (8 * d) = Inr res" "sorted_wrt (<) (map fst res)"
      "\<And>k. map_of res k = (if with_key d k leafs = [] then None else Some (with_key d k leafs))"
      using group_by_bits_ok[OF 3(2) len] by blast
    have distinct: "distinct (map fst res)" using res(2) by (simp add: strict_sorted_iff)
    have grp: "group leafs (8 * d) = result_bind (group_all res (8 * Suc d)) (\<lambda>tree. Inr (HBranch tree))"
      using 3(1) len res(1) by (subst group.simps) (auto simp: add.commute)
    have part: "xs = with_key d k leafs \<and> xs \<noteq> []" if "(k, xs) \<in> set res" for k xs
      using res(3)[of k] map_of_is_SomeI[OF distinct that] by (simp split: if_splits)
    have IH: "if distinct (map fst xs) then \<exists>t. group xs (8 * Suc d) = Inr t \<and> tree_of (Suc d) xs t
        else group xs (8 * Suc d) = Inl MaxDepth" if "(k, xs) \<in> set res" for k xs
      by (rule less.hyps) (use part[OF that] agree_with_key[OF less.prems(1), of k] 3(2) in auto)
    show ?thesis
    proof (cases "distinct (map fst leafs)")
      case True
      then have dk: "distinct (map fst (with_key d k leafs))" for k using distinct_with_key by blast
      have "\<exists>t. group xs (8 * Suc d) = Inr t \<and> tree_of (Suc d) (with_key d k leafs) t" if "(k, xs) \<in> set res" for k xs
        using IH[OF that] dk[of k] part[OF that] by simp
      from group_all_Inr[of res "8 * Suc d" "\<lambda>k. tree_of (Suc d) (with_key d k leafs)", OF this] obtain tree where tree: "group_all res (8 * Suc d) = Inr tree"
        "map fst tree = map fst res" "\<forall>(k, t) \<in> set tree. tree_of (Suc d) (with_key d k leafs) t"
        by blast
      have "map_of tree k = None \<longleftrightarrow> with_key d k leafs = []" for k
        using res(3)[of k] tree(2) by (metis (no_types, lifting) list.set_map map_of_eq_None_iff option.distinct(1))
      moreover have "tree_of (Suc d) (with_key d k leafs) n" if "map_of tree k = Some n" for k n
        using tree(3) map_of_SomeD[OF that] by auto
      ultimately have "tree_of d leafs (HBranch tree)" using 3(2) res(2) tree(2) by (intro tree_branch) auto
      then show ?thesis using True grp tree(1) by simp
    next
      case False
      then obtain k where k: "\<not> distinct (map fst (with_key d k leafs))" using distinct_with_key by blast
      then have "(k, with_key d k leafs) \<in> set res" using res(3)[of k] by (intro map_of_SomeD) auto
      moreover from IH[OF this] k have "group (with_key d k leafs) (8 * Suc d) = Inl MaxDepth" by simp
      moreover have "(\<exists>t. group xs (8 * Suc d) = Inr t) \<or> group xs (8 * Suc d) = Inl MaxDepth" if "(k, xs) \<in> set res" for k xs
        using IH[OF that] by (auto split: if_splits)
      ultimately have "group_all res (8 * Suc d) = Inl MaxDepth" by (intro group_all_Inl) auto
      then show ?thesis using False grp by simp
    qed
  qed
qed

lemma HamtNode_new_ok:
  "if distinct (map (\<lambda>e. hash_key murmur3 (Entry_name e)) entries)
   then \<exists>t. HamtNode_new murmur3 entries = Inr t \<and>
     tree_of 0 (map (\<lambda>e. (hash_key murmur3 (Entry_name e), e)) entries) t
   else HamtNode_new murmur3 entries = Inl MaxDepth"
proof -
  let ?leafs = "map (\<lambda>e. (hash_key murmur3 (Entry_name e), e)) entries"
  have "agree 0 ?leafs" by (auto simp: agree_def hash_key_def)
  from group_ok[OF this] show ?thesis by (simp add: HamtNode_new_def comp_def cong: if_cong split del: if_split)
qed

text \<open>C19: building a sharded directory fails exactly if two entries have the same hash, which two entries of the same name have, and
  then with the depth exhausted; otherwise the tree has the entries at the positions of their hashes.\<close>

theorem HamtNode_new_fails_iff:
  "if distinct (map (\<lambda>e. hash_key murmur3 (Entry_name e)) entries)
   then \<exists>t. HamtNode_new murmur3 entries = Inr t \<and>
     tree_of 0 (map (\<lambda>e. (hash_key murmur3 (Entry_name e), e)) entries) t
   else HamtNode_new murmur3 entries = Inl MaxDepth"
  by (rule HamtNode_new_ok)

end
