(* ===== verification/DirectoryTree.thy ===== *)
theory DirectoryTree
  imports Hamt
begin

text \<open>
  What the store has after a directory was encoded, and that every entry of a directory, flat or sharded, is found in it
  by its name. The theory relates the builder (\<open>builder.rs\<close>) to the lookup (\<open>hamt.rs\<close>, \<open>unixfs.rs\<close>).
\<close>

section \<open>Stored entries\<close>

text \<open>
  An entry is at a content id if the node there is the entry's and the nodes of its children are at the links of the
  node. \<open>F\<close> says where a file is.
\<close>

definition node_codec :: "'cid unixfs_node \<Rightarrow> u64" where
  "node_codec u = (case u of Raw _ \<Rightarrow> Codec_Raw | _ \<Rightarrow> Codec_DagPb)"

abbreviation loads :: "'cid ufs_ops \<Rightarrow> ('cid \<Rightarrow> ufs_error + bytes) \<Rightarrow> 'cid \<Rightarrow> 'cid unixfs_node \<Rightarrow> bool" where
  "loads ops load cid u \<equiv> load_node ops load cid = Inr u \<and> uc_codec ops cid = node_codec u"

lemma node_codec_simps [simp]:
  "node_codec (Raw d) = Codec_Raw" "node_codec (RawNode n) = Codec_DagPb" "node_codec (Directory n) = Codec_DagPb"
  "node_codec (File n) = Codec_DagPb" "node_codec (Symlink n) = Codec_DagPb" "node_codec (HamtShard n hn) = Codec_DagPb"
  by (simp_all add: node_codec_def)

definition shard_of :: "'cid hamt_node \<Rightarrow> (nat \<times> hamt_tree) list \<Rightarrow> bool" where
  "shard_of hn tree \<longleftrightarrow> hn_bit_width hn = 8 \<and> hn_padding_len hn = 2 \<and> length (hn_bitfield hn) = 4 \<and>
     bits_of (hn_bitfield hn) = set (map fst tree)"

fun entry_at :: "'cid ufs_ops \<Rightarrow> ('cid \<Rightarrow> ufs_error + bytes) \<Rightarrow> (ufs_file \<Rightarrow> 'cid \<Rightarrow> bool) \<Rightarrow> entry \<Rightarrow> 'cid \<Rightarrow> bool"
  and directory_at :: "'cid ufs_ops \<Rightarrow> ('cid \<Rightarrow> ufs_error + bytes) \<Rightarrow> (ufs_file \<Rightarrow> 'cid \<Rightarrow> bool) \<Rightarrow> directory \<Rightarrow> 'cid \<Rightarrow> bool"
  and entries_at ::
    "'cid ufs_ops \<Rightarrow> ('cid \<Rightarrow> ufs_error + bytes) \<Rightarrow> (ufs_file \<Rightarrow> 'cid \<Rightarrow> bool) \<Rightarrow> entry list \<Rightarrow> 'cid link list \<Rightarrow> bool"
  and tree_at :: "'cid ufs_ops \<Rightarrow> ('cid \<Rightarrow> ufs_error + bytes) \<Rightarrow> (ufs_file \<Rightarrow> 'cid \<Rightarrow> bool) \<Rightarrow> hamt_tree \<Rightarrow> 'cid \<Rightarrow> bool"
  and trees_at ::
    "'cid ufs_ops \<Rightarrow> ('cid \<Rightarrow> ufs_error + bytes) \<Rightarrow> (ufs_file \<Rightarrow> 'cid \<Rightarrow> bool) \<Rightarrow> (nat \<times> hamt_tree) list \<Rightarrow> 'cid link list \<Rightarrow>
     bool" where
  "entry_at ops load F (EFile f) cid \<longleftrightarrow>
     F f cid \<and> (\<exists>u. loads ops load cid u \<and> UnixfsNode_typ u \<in> {None, Some TFile})"
| "entry_at ops load F (EDirectory d) cid \<longleftrightarrow> directory_at ops load F d cid"
| "entry_at ops load F (ESymlink s) cid \<longleftrightarrow>
     (\<exists>n. loads ops load cid (Symlink n) \<and> n_inner n = symlink_data (s_target s) \<and> pn_links (n_outer n) = [] \<and>
        utf8_valid (s_target s))"
| "directory_at ops load F (Basic _ es) cid \<longleftrightarrow>
     (\<exists>n ls. loads ops load cid (Directory n) \<and> PbLinks ops (n_outer n) = map Inr ls \<and> entries_at ops load F es ls)"
| "directory_at ops load F (Hamt _ t) cid \<longleftrightarrow> tree_at ops load F t cid"
| "entries_at ops load F [] ls \<longleftrightarrow> ls = []"
| "entries_at ops load F (e # es) ls \<longleftrightarrow>
     (\<exists>l ls'. ls = l # ls' \<and> l_name l = Some (Entry_name e) \<and> entry_at ops load F e (l_cid l) \<and> entries_at ops load F es ls')"
| "tree_at ops load F (HBranch tree) cid \<longleftrightarrow>
     (\<exists>n hn. loads ops load cid (HamtShard n hn) \<and> shard_of hn tree \<and> trees_at ops load F tree (hn_pointers hn))"
| "tree_at ops load F (HLeaf _ e) cid \<longleftrightarrow> entry_at ops load F e cid"
| "trees_at ops load F [] ls \<longleftrightarrow> ls = []"
| "trees_at ops load F ((k, t) # tree) ls \<longleftrightarrow>
     (\<exists>l ls'. ls = l # ls' \<and> l_name l = Some (shard_name k (HamtNode_name t)) \<and> tree_at ops load F t (l_cid l) \<and>
        trees_at ops load F tree ls')"

lemma trees_at_nth:
  "trees_at ops load F tree ls \<Longrightarrow> i < length tree \<Longrightarrow> tree ! i = (k, t) \<Longrightarrow>
    i < length ls \<and> l_name (ls ! i) = Some (shard_name k (HamtNode_name t)) \<and> tree_at ops load F t (l_cid (ls ! i))"
proof (induction tree arbitrary: ls i)
  case (Cons p tree)
  then show ?case by (cases p; cases i) auto
qed simp

lemma entries_at_nth:
  "entries_at ops load F es ls \<Longrightarrow> i < length es \<Longrightarrow>
    i < length ls \<and> l_name (ls ! i) = Some (Entry_name (es ! i)) \<and> entry_at ops load F (es ! i) (l_cid (ls ! i))"
proof (induction es arbitrary: ls i)
  case (Cons e es)
  then show ?case by (cases i) auto
qed simp

lemma entries_at_length: "entries_at ops load F es ls \<Longrightarrow> length ls = length es"
  by (induction es arbitrary: ls) auto

text \<open>An entry that is stored can be loaded; its node is a shard only if it is a sharded directory.\<close>

fun sharded :: "entry \<Rightarrow> bool" where
  "sharded (EDirectory (Hamt _ _)) = True"
| "sharded _ = False"

lemma tree_at_loads:
  "entry_at ops load F e cid \<Longrightarrow> \<exists>u. loads ops load cid u"
  "directory_at ops load F d cid \<Longrightarrow> \<exists>u. loads ops load cid u"
  "entries_at ops load F es ls \<Longrightarrow> True"
  "tree_at ops load F t cid \<Longrightarrow> \<exists>u. loads ops load cid u"
  "trees_at ops load F tree ls \<Longrightarrow> True"
  by (induction ops load F e cid and ops load F d cid and ops load F es ls and ops load F t cid and ops load F tree ls
      rule: entry_at_directory_at_entries_at_tree_at_trees_at.induct) auto

lemma entry_at_not_shard:
  assumes "entry_at ops load F e cid" and "\<not> sharded e" and "load_node ops load cid = Inr u"
  shows "UnixfsNode_typ u \<noteq> Some THamtShard"
  using assms
proof (cases e)
  case (EDirectory d)
  then show ?thesis using assms by (cases d) auto
qed auto

section \<open>Looking up a name in a shard\<close>

lemma index_sorted:
  fixes tree :: "(nat \<times> 'b) list"
  assumes "sorted_wrt (<) (map fst tree)" and "i < length tree"
  shows "card ({..<fst (tree ! i)} \<inter> set (map fst tree)) = i"
proof -
  let ?ks = "map fst tree"
  have dist: "distinct ?ks" using assms(1) by (simp add: strict_sorted_iff)
  have lt: "?ks ! j < ?ks ! k" if "j < k" "k < length tree" for j k
    using sorted_wrt_nth_less[OF assms(1), of j k] that by simp
  have "{..<?ks ! i} \<inter> set ?ks = set (take i ?ks)"
  proof (intro equalityI subsetI)
    fix k assume "k \<in> {..<?ks ! i} \<inter> set ?ks"
    then obtain j where j: "j < length ?ks" "k = ?ks ! j" "?ks ! j < ?ks ! i" by (auto simp: in_set_conv_nth)
    then have "j < i" using lt[of i j] by (metis length_map linorder_neqE_nat less_asym)
    then show "k \<in> set (take i ?ks)" using j assms(2) by (auto simp: in_set_conv_nth intro!: exI[of _ j])
  next
    fix k assume "k \<in> set (take i ?ks)"
    then obtain j where "j < i" "j < length ?ks" "k = ?ks ! j" by (auto simp: in_set_conv_nth)
    then show "k \<in> {..<?ks ! i} \<inter> set ?ks" using lt[of j i] assms(2) by auto
  qed
  then show ?thesis using assms(2) distinct_card[OF distinct_take[OF dist, of i]] by simp
qed

lemma map_of_index: "map_of tree k = Some t \<Longrightarrow> \<exists>i < length tree. tree ! i = (k, t)"
  using map_of_SomeD[of tree k t] by (auto simp: in_set_conv_nth)

lemma shard_index:
  assumes "shard_of hn tree" and "sorted_wrt (<) (map fst tree)" and "map_of tree k = Some t" and "trees_at ops load F tree (hn_pointers hn)"
    and "k < 256"
  shows "\<exists>i l. test_bit (hn_bitfield hn) k = Some True \<and> index_for_bit_pos hn k = Some i \<and> arr_at (hn_pointers hn) i = Some l \<and>
    l_name l = Some (shard_name k (HamtNode_name t)) \<and> tree_at ops load F t (l_cid l)"
proof -
  obtain i where i: "i < length tree" "tree ! i = (k, t)" using map_of_index[OF assms(3)] by blast
  have "k \<in> bits_of (hn_bitfield hn)" using assms(1) nth_mem[OF i(1)] i(2) by (force simp: shard_of_def)
  moreover have "index_for_bit_pos hn k = Some i"
    using assms(1,5) index_sorted[OF assms(2) i(1)] i(2)
    by (simp add: index_for_bit_pos_def Let_def count_ones_card bits_of_set_bits_le bits_of_and shard_of_def)
  ultimately show ?thesis
    using trees_at_nth[OF assms(4) i] assms(1,5) by (auto simp: test_bit_iff arr_at_def shard_of_def)
qed

lemma shard_no_index:
  assumes "shard_of hn tree" and "map_of tree k = None" and "k < 256"
  shows "test_bit (hn_bitfield hn) k = Some False"
  using assms by (auto simp: shard_of_def test_bit_iff map_of_eq_None_iff)

lemma hex_upper_length: "k < 256 \<Longrightarrow> length (hex_upper k) = (if k < 16 then 1 else 2)"
  by (subst hex_upper.simps) (auto simp: hex_upper.simps[of "k div 16"])

lemma shard_name_stripped: "k < 256 \<Longrightarrow> l_name l = Some (shard_name k name) \<Longrightarrow> stripped_name 2 l = Some name"
  by (auto simp: stripped_name_def shard_name_def slice_from_def hex_upper_length)

text \<open>The position of a hash that is reached at depth \<open>d\<close>.\<close>

abbreviation hash_at :: "bytes \<Rightarrow> nat \<Rightarrow> hash_bits" where
  "hash_at h d \<equiv> new_at_index h (8 * d)"

lemma byte_less: "unat (b :: byte) < 256"
  using unat_byte[of b] by simp

lemma get_value_absent:
  assumes "shard_of hn tree" and "map_of tree (unat (h ! d)) = None" and "length h = 8" and "d < 8"
  shows "get_value ops load key hn (hash_at h d) d = Inr None"
  using assms shard_no_index[OF assms(1,2) byte_less] next_index_byte[OF assms(3,4)]
  by (subst get_value.simps) (simp add: MAX_DEPTH_def shard_of_def)

lemma get_value_child:
  assumes "shard_of hn tree" and "sorted_wrt (<) (map fst tree)" and "map_of tree (unat (h ! d)) = Some t"
    and "trees_at ops load F tree (hn_pointers hn)" and "length h = 8" and "d < 8"
  shows "\<exists>l u. tree_at ops load F t (l_cid l) \<and> load_node ops load (l_cid l) = Inr u \<and>
    get_value ops load key hn (hash_at h d) d =
      (if key = HamtNode_name t then Inr (Some (l, u))
       else case u of HamtShard _ hn' \<Rightarrow> get_value ops load key hn' (hash_at h (Suc d)) (Suc d) | _ \<Rightarrow> Inr None)"
proof -
  let ?k = "unat (h ! d)"
  obtain i l where l: "test_bit (hn_bitfield hn) ?k = Some True" "index_for_bit_pos hn ?k = Some i"
    "arr_at (hn_pointers hn) i = Some l" "l_name l = Some (shard_name ?k (HamtNode_name t))" "tree_at ops load F t (l_cid l)"
    using shard_index[OF assms(1-4) byte_less] by blast
  obtain u where u: "load_node ops load (l_cid l) = Inr u" using tree_at_loads(4)[OF l(5)] by blast
  have "stripped_name (hn_padding_len hn) l = Some (HamtNode_name t)"
    using shard_name_stripped[OF byte_less l(4)] assms(1) by (simp add: shard_of_def)
  moreover have "hn_bit_width hn = 8" using assms(1) by (simp add: shard_of_def)
  ultimately have "get_value ops load key hn (hash_at h d) d =
      (if key = HamtNode_name t then Inr (Some (l, u))
       else case u of HamtShard _ hn' \<Rightarrow> get_value ops load key hn' (hash_at h (Suc d)) (Suc d) | _ \<Rightarrow> Inr None)"
    using l(1-3) u next_index_byte[OF assms(5,6)] assms(6)
    by (subst get_value.simps) (simp add: MAX_DEPTH_def load_from_link_def split: unixfs_node.split)
  then show ?thesis using l(5) u by blast
qed

inductive_cases tree_of_branchE: "tree_of d leafs (HBranch tree)"
inductive_cases tree_of_leafE: "tree_of d leafs (HLeaf h e)"

text \<open>The entry is found.\<close>

lemma get_value_found:
  assumes "tree_of d leafs t" and "t = HBranch tree" and "(h, e) \<in> set leafs" and "length h = 8" and "Entry_name e \<noteq> []"
    and "shard_of hn tree" and "trees_at ops load F tree (hn_pointers hn)"
  shows "\<exists>l u. get_value ops load (Entry_name e) hn (hash_at h d) d = Inr (Some (l, u)) \<and>
    entry_at ops load F e (l_cid l) \<and> load_node ops load (l_cid l) = Inr u"
  using assms
proof (induction arbitrary: tree hn rule: tree_of.induct)
  case (tree_branch d tr leafs)
  have sub: "(h, e) \<in> set (with_key d (unat (h ! d)) leafs)" using tree_branch.prems(2) by (simp add: with_key_set)
  then obtain t where t: "map_of tr (unat (h ! d)) = Some t"
    using tree_branch.hyps(3)[THEN spec, of "unat (h ! d)"] by (cases "map_of tr (unat (h ! d))") auto
  have tr: "tr = tree" using tree_branch.prems(1) by simp
  obtain l u where l: "tree_at ops load F t (l_cid l)" "load_node ops load (l_cid l) = Inr u"
    "get_value ops load (Entry_name e) hn (hash_at h d) d =
      (if Entry_name e = HamtNode_name t then Inr (Some (l, u))
       else case u of HamtShard _ hn' \<Rightarrow> get_value ops load (Entry_name e) hn' (hash_at h (Suc d)) (Suc d) | _ \<Rightarrow> Inr None)"
    using get_value_child[OF tree_branch.prems(5)[folded tr] tree_branch.hyps(2) t tree_branch.prems(6)[folded tr]
        tree_branch.prems(3) tree_branch.hyps(1)] by blast
  show ?case
  proof (cases t)
    case (HBranch tr')
    then obtain n hn' where "load_node ops load (l_cid l) = Inr (HamtShard n hn')" "shard_of hn' tr'"
      "trees_at ops load F tr' (hn_pointers hn')"
      using l(1) by auto
    then show ?thesis
      using tree_branch.IH[THEN spec, THEN spec, THEN mp, OF t] l(2,3) sub HBranch tree_branch.prems(3,4) by auto
  next
    case (HLeaf h' e')
    then have "tree_of (Suc d) (with_key d (unat (h ! d)) leafs) (HLeaf h' e')"
      using tree_branch.IH[THEN spec, THEN spec, THEN mp, OF t] by blast
    then have "with_key d (unat (h ! d)) leafs = [(h', e')]" by (auto elim!: tree_of_leafE)
    then have "e' = e" using sub by simp
    then show ?thesis using l HLeaf by auto
  qed
qed simp

text \<open>Another name is not, unless a child is itself a sharded directory.\<close>

lemma get_value_not_found:
  assumes "tree_of d leafs t" and "t = HBranch tree" and "length h = 8" and "key \<noteq> []"
    and "shard_of hn tree" and "trees_at ops load F tree (hn_pointers hn)"
    and "\<forall>l \<in> set leafs. Entry_name (snd l) \<noteq> key \<and> \<not> sharded (snd l)"
  shows "get_value ops load key hn (hash_at h d) d = Inr None"
  using assms
proof (induction arbitrary: tree hn rule: tree_of.induct)
  case (tree_branch d tr leafs)
  have tr: "tr = tree" using tree_branch.prems(1) by simp
  have sub: "\<forall>l \<in> set (with_key d (unat (h ! d)) leafs). Entry_name (snd l) \<noteq> key \<and> \<not> sharded (snd l)"
    using tree_branch.prems(6) by (simp add: with_key_set)
  show ?case
  proof (cases "map_of tr (unat (h ! d))")
    case None
    then show ?thesis using get_value_absent[OF tree_branch.prems(4)[folded tr] None tree_branch.prems(2) tree_branch.hyps(1)] by simp
  next
    case (Some t)
    obtain l u where l: "tree_at ops load F t (l_cid l)" "load_node ops load (l_cid l) = Inr u"
      "get_value ops load key hn (hash_at h d) d =
        (if key = HamtNode_name t then Inr (Some (l, u))
         else case u of HamtShard _ hn' \<Rightarrow> get_value ops load key hn' (hash_at h (Suc d)) (Suc d) | _ \<Rightarrow> Inr None)"
      using get_value_child[OF tree_branch.prems(4)[folded tr] tree_branch.hyps(2) Some tree_branch.prems(5)[folded tr]
          tree_branch.prems(2) tree_branch.hyps(1)] by blast
    show ?thesis
    proof (cases t)
      case (HBranch tr')
      then obtain n hn' where "load_node ops load (l_cid l) = Inr (HamtShard n hn')" "shard_of hn' tr'"
        "trees_at ops load F tr' (hn_pointers hn')"
        using l(1) by auto
      then show ?thesis
        using tree_branch.IH[THEN spec, THEN spec, THEN mp, OF Some] l(2,3) sub HBranch tree_branch.prems(2,3) by auto
    next
      case (HLeaf h' e)
      then have "tree_of (Suc d) (with_key d (unat (h ! d)) leafs) (HLeaf h' e)"
        using tree_branch.IH[THEN spec, THEN spec, THEN mp, OF Some] by blast
      then have e: "with_key d (unat (h ! d)) leafs = [(h', e)]" by (auto elim!: tree_of_leafE)
      then have "Entry_name e \<noteq> key" "\<not> sharded e" using sub by simp_all
      then show ?thesis using l HLeaf entry_at_not_shard[of ops load F e "l_cid l" u] by (cases u) auto
    qed
  qed
qed simp

section \<open>Encoded entries are stored\<close>

lemma stream_then_Inr:
  "stream_then s k = map Inr bs \<longleftrightarrow> (\<exists>xs ys. s = map Inr xs \<and> k xs = map Inr ys \<and> bs = xs @ ys)"
proof (induction s k arbitrary: bs rule: stream_then.induct)
  case (3 b s k)
  show ?case
  proof
    assume "stream_then (Inr b # s) k = map Inr bs"
    then obtain bs' where "bs = b # bs'" "stream_then s (\<lambda>bs. k (b # bs)) = map Inr bs'" by (auto simp: Cons_eq_map_conv)
    moreover from this(2) obtain xs ys where "s = map Inr xs" "k (b # xs) = map Inr ys" "bs' = xs @ ys" using 3 by auto
    ultimately show "\<exists>xs ys. Inr b # s = map Inr xs \<and> k xs = map Inr ys \<and> bs = xs @ ys"
      by (intro exI[of _ "b # xs"] exI[of _ ys]) simp
  qed (auto simp: 3 Cons_eq_map_conv)
qed (auto simp: Cons_eq_map_conv)

lemma stored_last: "stored load bs \<Longrightarrow> bs \<noteq> [] \<Longrightarrow> load (ub_cid (last bs)) = Inr (ub_data (last bs))"
  by (simp add: stored_def)

text \<open>A node that was encoded is decoded.\<close>

lemma pb_decoded:
  assumes "ufs_laws ops" and "encode_unixfs_pb ops inn links = Inr out" and "UnixfsNode_encode ops u = Inr b"
    and "node_of u = Some \<lparr>n_outer = out, n_inner = inn\<rparr>" and "\<forall>l \<in> set links. \<forall>s. pl_name l = Some s \<longrightarrow> utf8_valid s"
  shows "UnixfsNode_decode ops (ub_cid b) (ub_data b) =
    (case DataType_try_from (d_type inn) of
       None \<Rightarrow> Inl BadType
     | Some TRaw \<Rightarrow> Inl Panicked
     | Some TDirectory \<Rightarrow> Inr (Directory \<lparr>n_outer = out, n_inner = inn\<rparr>)
     | Some TFile \<Rightarrow> Inr (File \<lparr>n_outer = out, n_inner = inn\<rparr>)
     | Some TSymlink \<Rightarrow> Inr (Symlink \<lparr>n_outer = out, n_inner = inn\<rparr>)
     | Some THamtShard \<Rightarrow> result_bind (HamtNode_from_node ops \<lparr>n_outer = out, n_inner = inn\<rparr>)
         (\<lambda>hamt. Inr (HamtShard \<lparr>n_outer = out, n_inner = inn\<rparr> hamt))
     | Some TMetadata \<Rightarrow> Inl MetadataUnsupported)"
    and "\<exists>ls. PbLinks ops out = map Inr ls \<and> list_all2 (\<lambda>p l. PbLinks_item ops p = Inr l) links ls"
    and "uc_codec ops (ub_cid b) = Codec_DagPb"
proof -
  have coh: "pn_links out = links" "node_coherent ops \<lparr>n_outer = out, n_inner = inn\<rparr>"
    using encode_unixfs_pb_coherent[OF assms(2)] assms(5) by blast+
  note enc = encode_outer[OF assms(3,4)]
  from decode_outer[OF assms(1) coh(2)] show "UnixfsNode_decode ops (ub_cid b) (ub_data b) =
    (case DataType_try_from (d_type inn) of
       None \<Rightarrow> Inl BadType
     | Some TRaw \<Rightarrow> Inl Panicked
     | Some TDirectory \<Rightarrow> Inr (Directory \<lparr>n_outer = out, n_inner = inn\<rparr>)
     | Some TFile \<Rightarrow> Inr (File \<lparr>n_outer = out, n_inner = inn\<rparr>)
     | Some TSymlink \<Rightarrow> Inr (Symlink \<lparr>n_outer = out, n_inner = inn\<rparr>)
     | Some THamtShard \<Rightarrow> result_bind (HamtNode_from_node ops \<lparr>n_outer = out, n_inner = inn\<rparr>)
         (\<lambda>hamt. Inr (HamtShard \<lparr>n_outer = out, n_inner = inn\<rparr> hamt))
     | Some TMetadata \<Rightarrow> Inl MetadataUnsupported)"
    by (simp add: enc(1,2))
  show "uc_codec ops (ub_cid b) = Codec_DagPb" using assms(1) by (simp add: enc(1) ufs_laws_def)
  obtain ls where "collect (PbLinks ops out) = Inr ls" using enc(3) by auto
  then show "\<exists>ls. PbLinks ops out = map Inr ls \<and> list_all2 (\<lambda>p l. PbLinks_item ops p = Inr l) links ls"
    using PbLinks_collect[of ops out ls] coh(1) by (auto simp: collect_Inr_iff)
qed

subsection \<open>Files\<close>

definition file_block :: "'cid ufs_ops \<Rightarrow> 'cid ufs_block \<Rightarrow> bool" where
  "file_block ops b \<longleftrightarrow> (\<exists>u. UnixfsNode_decode ops (ub_cid b) (ub_data b) = Inr u \<and> uc_codec ops (ub_cid b) = node_codec u \<and>
     UnixfsNode_typ u \<in> {None, Some TFile})"

lemma TreeNode_encode_file_block:
  assumes "ufs_laws ops" and "TreeNode_encode ops oc tn = Inr (b, info)"
  shows "file_block ops b"
proof (cases tn)
  case (Leaf bytes)
  then have "UnixfsNode_encode ops (Raw bytes) = Inr b" using assms(2) by (auto simp: result_bind_def split: sum.splits)
  then show ?thesis using decode_Raw[OF assms(1), of bytes] assms(1) by (auto simp: encode_Raw file_block_def ufs_laws_def)
next
  case (Stem links)
  then obtain fs out where out: "encode_unixfs_pb ops (stem_data fs (map (\<lambda>l. raw_data_len (snd l)) links)) (map (stem_link ops) links) = Inr out"
    "UnixfsNode_encode ops (File \<lparr>n_outer = out, n_inner = stem_data fs (map (\<lambda>l. raw_data_len (snd l)) links)\<rparr>) = Inr b"
    using assms(2) by (auto simp: create_unixfs_node_from_links_def result_bind_def Let_def split: sum.splits)
  from pb_decoded(1,3)[OF assms(1) out] show ?thesis
    by (auto simp: stem_link_def stem_data_def DataType_try_from_def file_block_def)
qed

lemma carry_file_blocks:
  "ufs_laws ops \<Longrightarrow> b \<in> set (fst (carry ops oc degree tree)) \<Longrightarrow> file_block ops b"
proof (induction ops oc degree tree rule: carry.induct)
  case (2 ops oc degree links tree)
  show ?case
  proof (cases "length links < degree")
    case False
    show ?thesis
    proof (cases "TreeNode_encode ops oc (Stem links)")
      case (Inr r)
      obtain block info where r: "r = (block, info)" by (cases r)
      have block: "file_block ops block" using TreeNode_encode_file_block[OF "2.prems"(1)] Inr r by blast
      show ?thesis
      proof (cases tree)
        case (Cons parent tree')
        have "b = block \<or> b \<in> set (fst (carry ops oc degree ((parent @ [(ub_cid block, info)]) # tree')))"
          using "2.prems"(2) False Inr r Cons
          by (subst (asm) carry.simps(2)) (simp add: split_beta Let_def del: TreeNode_encode.simps carry.simps)
        then show ?thesis using "2.IH"[OF False Inr r[symmetric] Cons "2.prems"(1)] block by blast
      qed (use "2.prems" False Inr r block in \<open>simp del: TreeNode_encode.simps\<close>)
    qed (use "2.prems" False in \<open>simp del: TreeNode_encode.simps\<close>)
  qed (use "2.prems" in simp)
qed simp

lemma finish_file_blocks:
  "ufs_laws ops \<Longrightarrow> Inr b \<in> set (finish ops oc tree) \<Longrightarrow> file_block ops b"
proof (induction ops oc tree rule: finish.induct)
  case (2 ops oc links tree)
  show ?case
  proof (cases "TreeNode_encode ops oc (Stem links)")
    case (Inr r)
    obtain block info where r: "r = (block, info)" by (cases r)
    have block: "file_block ops block" using TreeNode_encode_file_block[OF "2.prems"(1)] Inr r by blast
    show ?thesis
    proof (cases tree)
      case (Cons parent tree')
      then show ?thesis using "2.IH"[OF Inr r[symmetric] Cons "2.prems"(1)] "2.prems"(2) Inr r block
        by (auto simp del: TreeNode_encode.simps)
    qed (use "2.prems" Inr r block in \<open>simp del: TreeNode_encode.simps\<close>)
  qed (use "2.prems" in \<open>simp del: TreeNode_encode.simps\<close>)
qed simp

lemma tree_loop_file_blocks:
  "ufs_laws ops \<Longrightarrow> Inr b \<in> set (tree_loop ops oc degree tree chunks) \<Longrightarrow> file_block ops b"
proof (induction ops oc degree tree chunks rule: tree_loop.induct)
  case (1 ops oc degree tree)
  then show ?case using finish_file_blocks[OF "1.prems"(1)] by (auto split: if_splits)
next
  case (3 ops oc degree tree chunk chunks)
  show ?case
  proof (cases "TreeNode_encode ops oc (Leaf chunk)")
    case (Inr r)
    obtain block info where r: "r = (block, info)" by (cases r)
    have block: "file_block ops block" using TreeNode_encode_file_block[OF "3.prems"(1)] Inr r by blast
    define c where "c = (if length (hd tree) = degree then carry ops oc degree tree else ([], Inr tree))"
    obtain out res where c: "c = (out, res)" by (cases c)
    have out: "file_block ops x" if "x \<in> set out" for x
      using carry_file_blocks[OF "3.prems"(1), of x oc degree tree] that c by (auto simp: c_def split: if_splits)
    have "Inr b \<in> set (map Inr out @ (case res of Inl e \<Rightarrow> [Inl e] | Inr tree \<Rightarrow>
        Inr block # tree_loop ops oc degree ((hd tree @ [(ub_cid block, info)]) # tl tree) chunks))"
      using "3.prems"(2) Inr r c unfolding c_def by (simp del: TreeNode_encode.simps)
    then show ?thesis using out block "3.IH"[OF Inr r[symmetric] c_def c[symmetric] _ "3.prems"(1)] c
      by (auto split: sum.splits)
  qed (use "3.prems" in \<open>simp del: TreeNode_encode.simps\<close>)
qed simp

lemma stream_tree_file_blocks:
  assumes "ufs_laws ops" and "stream_tree ops oc tb chunks = map Inr blocks"
  shows "blocks \<noteq> []" and "\<forall>b \<in> set blocks. file_block ops b"
proof -
  obtain degree where tb: "tb = Balanced degree" by (cases tb)
  have tree: "tree_loop ops oc degree [[]] chunks = map Inr blocks"
    using assms(2) tb by (simp add: stream_balanced_tree_def)
  show "\<forall>b \<in> set blocks. file_block ops b"
  proof
    fix b assume "b \<in> set blocks"
    then have "Inr b \<in> set (tree_loop ops oc degree [[]] chunks)" by (simp add: tree)
    then show "file_block ops b" by (rule tree_loop_file_blocks[OF assms(1)])
  qed
  have "tree_loop ops oc degree [[]] chunks \<noteq> []"
  proof (cases chunks)
    case Nil
    then show ?thesis by (simp del: TreeNode_encode.simps split: sum.splits prod.splits)
  next
    case (Cons c cs)
    then show ?thesis by (cases c) (simp_all del: TreeNode_encode.simps split: sum.splits prod.splits)
  qed
  then show "blocks \<noteq> []" by (auto simp: tree)
qed

text \<open>Where a file is: the root of its blocks, all of which are in the store.\<close>

definition file_stored ::
  "'cid ufs_ops \<Rightarrow> bool \<Rightarrow> (bytes \<Rightarrow> ufs_error + reads) \<Rightarrow> ('cid \<Rightarrow> ufs_error + bytes) \<Rightarrow> ufs_file \<Rightarrow> 'cid \<Rightarrow> bool" where
  "file_stored ops oc open_file load f cid \<longleftrightarrow>
     (\<exists>blocks. File_encode ops oc open_file f = Inr (map Inr blocks) \<and> blocks \<noteq> [] \<and> stored load blocks \<and>
        cid = ub_cid (last blocks))"

lemma File_encode_at:
  assumes "ufs_laws ops" and "open_stream (File_encode ops oc open_file f) = map Inr blocks"
  shows "blocks \<noteq> []"
    and "stored load blocks \<Longrightarrow> entry_at ops load (file_stored ops oc open_file load) (EFile f) (ub_cid (last blocks))"
proof -
  obtain r chunks where enc: "File_encode ops oc open_file f = Inr (map Inr blocks)"
    "stream_tree ops oc (f_tree_builder f) chunks = map Inr blocks"
    using assms(2)
    by (auto simp: open_stream_def File_encode_def result_bind_def Cons_eq_map_conv split: sum.splits)
  note b = stream_tree_file_blocks[OF assms(1) enc(2)]
  show "blocks \<noteq> []" by (rule b(1))
  assume st: "stored load blocks"
  have "file_block ops (last blocks)" using b by simp
  then show "entry_at ops load (file_stored ops oc open_file load) (EFile f) (ub_cid (last blocks))"
    using st b(1) enc(1) stored_last[OF st b(1)]
    by (auto simp: file_stored_def file_block_def load_node_def)
qed

subsection \<open>Symbolic links and directories\<close>

lemma Symlink_encode_at:
  assumes "ufs_laws ops" and "Symlink_encode ops s = Inr b" and "load (ub_cid b) = Inr (ub_data b)"
  shows "entry_at ops load F (ESymlink s) (ub_cid b)"
proof -
  obtain out where out: "encode_unixfs_pb ops (symlink_data (s_target s)) [] = Inr out"
    "UnixfsNode_encode ops (Symlink \<lparr>n_outer = out, n_inner = symlink_data (s_target s)\<rparr>) = Inr b"
    using assms(2) by (auto simp: Symlink_encode_def result_bind_def split: sum.splits if_splits)
  have "utf8_valid (s_target s)" using assms(2) by (simp add: Symlink_encode_def split: if_splits)
  moreover have "pn_links out = []" using out(1) by (auto simp: encode_unixfs_pb_def Let_def split: if_splits)
  ultimately show ?thesis using pb_decoded(1,3)[OF assms(1) out] assms(3)
    by (simp add: load_node_def symlink_data_def DataType_try_from_def)
qed

lemma directory_node_decoded:
  assumes "ufs_laws ops" and "directory_node ops links = Inr b" and "\<forall>l \<in> set links. \<forall>s. pl_name l = Some s \<longrightarrow> utf8_valid s"
  shows "\<exists>n ls. UnixfsNode_decode ops (ub_cid b) (ub_data b) = Inr (Directory n) \<and> uc_codec ops (ub_cid b) = Codec_DagPb \<and> PbLinks ops (n_outer n) = map Inr ls \<and>
    list_all2 (\<lambda>p l. PbLinks_item ops p = Inr l) links ls"
proof -
  obtain out where out: "encode_unixfs_pb ops directory_data links = Inr out"
    "UnixfsNode_encode ops (Directory \<lparr>n_outer = out, n_inner = directory_data\<rparr>) = Inr b"
    using assms(2) by (auto simp: directory_node_def result_bind_def split: sum.splits)
  from pb_decoded[OF assms(1) out _ assms(3)] show ?thesis
    by (auto simp: directory_data_def DataType_try_from_def)
qed

lemma log2_256: "log2 256 = 8"
  by code_simp

lemma shard_node_decoded:
  assumes "ufs_laws ops" and "shard_node ops bf links = Inr b" and "\<forall>l \<in> set links. \<forall>s. pl_name l = Some s \<longrightarrow> utf8_valid s"
    and "length bf = 4"
  shows "\<exists>n hn. UnixfsNode_decode ops (ub_cid b) (ub_data b) = Inr (HamtShard n hn) \<and> uc_codec ops (ub_cid b) = Codec_DagPb \<and> hn_bitfield hn = bf \<and>
    hn_bit_width hn = 8 \<and> hn_padding_len hn = 2 \<and> list_all2 (\<lambda>p l. PbLinks_item ops p = Inr l) links (hn_pointers hn)"
proof -
  obtain out where out: "encode_unixfs_pb ops (shard_data bf) links = Inr out"
    "UnixfsNode_encode ops (Directory \<lparr>n_outer = out, n_inner = shard_data bf\<rparr>) = Inr b"
    using assms(2) by (auto simp: shard_node_def split: sum.splits)
  obtain ls where ls: "PbLinks ops out = map Inr ls" "list_all2 (\<lambda>p l. PbLinks_item ops p = Inr l) links ls"
    using pb_decoded(2)[OF assms(1) out _ assms(3)] by auto
  have "HamtNode_from_node ops \<lparr>n_outer = out, n_inner = shard_data bf\<rparr> =
    Inr \<lparr>hn_bitfield = bf, hn_bit_width = 8, hn_padding_len = 2, hn_pointers = ls\<rparr>"
    using ls(1) from_slice_as_bytes[OF assms(4)]
    by (simp add: HamtNode_from_node_def Node_hash_type_def Node_fanout_def shard_data_def HamtHashFunction_try_from_def
        HamtHashFunction_into_def        log2_256 hex_upper_length)
  then show ?thesis
    using pb_decoded(1,3)[OF assms(1) out _ assms(3)] ls(2) by (simp add: shard_data_def DataType_try_from_def)
qed

subsection \<open>Trees of entries\<close>

text \<open>
  An entry as the builder makes it: the names are strings, and the tree of a sharded directory is that of the hashes
  of the names of its entries.
\<close>

definition keyed :: "(bytes \<Rightarrow> 128 word) \<Rightarrow> (bytes \<times> entry) list \<Rightarrow> bool" where
  "keyed m leafs \<longleftrightarrow> (\<forall>(h, e) \<in> set leafs. h = hash_key m (Entry_name e))"

fun entry_ok :: "(bytes \<Rightarrow> 128 word) \<Rightarrow> entry \<Rightarrow> bool"
  and directory_ok :: "(bytes \<Rightarrow> 128 word) \<Rightarrow> directory \<Rightarrow> bool"
  and entries_ok :: "(bytes \<Rightarrow> 128 word) \<Rightarrow> entry list \<Rightarrow> bool"
  and tree_ok :: "(bytes \<Rightarrow> 128 word) \<Rightarrow> hamt_tree \<Rightarrow> bool"
  and trees_ok :: "(bytes \<Rightarrow> 128 word) \<Rightarrow> (nat \<times> hamt_tree) list \<Rightarrow> bool" where
  "entry_ok m (EFile f) \<longleftrightarrow> utf8_valid (f_name f)"
| "entry_ok m (EDirectory d) \<longleftrightarrow> directory_ok m d"
| "entry_ok m (ESymlink s) \<longleftrightarrow> utf8_valid (s_name s)"
| "directory_ok m (Basic name es) \<longleftrightarrow> utf8_valid name \<and> entries_ok m es"
| "directory_ok m (Hamt name t) \<longleftrightarrow> utf8_valid name \<and> tree_ok m t \<and> (\<exists>leafs. tree_of 0 leafs t \<and> keyed m leafs)"
| "entries_ok m [] \<longleftrightarrow> True"
| "entries_ok m (e # es) \<longleftrightarrow> entry_ok m e \<and> entries_ok m es"
| "tree_ok m (HBranch tree) \<longleftrightarrow> trees_ok m tree"
| "tree_ok m (HLeaf h e) \<longleftrightarrow> entry_ok m e"
| "trees_ok m [] \<longleftrightarrow> True"
| "trees_ok m ((k, t) # tree) \<longleftrightarrow> tree_ok m t \<and> trees_ok m tree"

lemma entry_ok_name: "entry_ok m e \<Longrightarrow> utf8_valid (Entry_name e)"
proof (cases e)
  case (EDirectory d)
  then show "entry_ok m e \<Longrightarrow> utf8_valid (Entry_name e)" by (cases d) auto
qed auto

lemma tree_ok_name: "tree_ok m t \<Longrightarrow> utf8_valid (HamtNode_name t)"
  using entry_ok_name by (cases t) auto

lemma utf8_ascii: "\<forall>b \<in> set as. b < 0x80 \<Longrightarrow> utf8_valid (as @ bs) = utf8_valid bs"
  by (induction as) auto

lemma hex_digit_ascii: "d < 16 \<Longrightarrow> hex_digit d < 0x80"
  by (simp add: hex_digit_def word_less_nat_alt unsigned_of_nat take_bit_eq_mod)

lemma hex_upper_ascii: "b \<in> set (hex_upper n) \<Longrightarrow> b < 0x80"
proof (induction n rule: hex_upper.induct)
  case (1 n)
  then show ?case using hex_digit_ascii[of n] hex_digit_ascii[of "n mod 16"]
    by (subst (asm) (2) hex_upper.simps) (auto split: if_splits)
qed

lemma shard_name_valid: "utf8_valid name \<Longrightarrow> utf8_valid (shard_name k name)"
  using hex_upper_ascii[of _ k] by (auto simp: shard_name_def utf8_ascii)

lemma set_bit_Some:
  assumes "length b = 4" and "set_bit i b = Some b'"
  shows "length b' = 4 \<and> bits_of b' = insert i (bits_of b)"
proof -
  have "i < 256" using assms by (auto simp: set_bit_def arr_at_def Let_def split: if_splits)
  then show ?thesis using set_bit_bits[OF assms(1), of i] assms(2) by simp
qed

definition valid_links :: "pb_link list \<Rightarrow> bool" where
  "valid_links links \<longleftrightarrow> (\<forall>l \<in> set links. \<forall>s. pl_name l = Some s \<longrightarrow> utf8_valid s)"

text \<open>What a stream of blocks leaves in the store that has them: \<open>P\<close> at the last block.\<close>

definition leaves :: "('cid ufs_block list) \<Rightarrow> (('cid \<Rightarrow> ufs_error + bytes) \<Rightarrow> 'cid \<Rightarrow> bool) \<Rightarrow> bool" where
  "leaves blocks P \<longleftrightarrow> blocks \<noteq> [] \<and> (\<forall>load. stored load blocks \<longrightarrow> P load (ub_cid (last blocks)))"

lemma leavesI: "blocks \<noteq> [] \<Longrightarrow> (\<And>load. stored load blocks \<Longrightarrow> P load (ub_cid (last blocks))) \<Longrightarrow> leaves blocks P"
  by (simp add: leaves_def)

lemma leavesD: "leaves blocks P \<Longrightarrow> blocks \<noteq> []" "leaves blocks P \<Longrightarrow> stored load blocks \<Longrightarrow> P load (ub_cid (last blocks))"
  by (simp_all add: leaves_def)

lemma directory_link_item:
  assumes "ufs_laws ops"
  shows "PbLinks_item ops (directory_link ops name b) =
    Inr \<lparr>l_cid = ub_cid b, l_name = Some name, l_tsize = Some (of_nat (length (ub_data b)))\<rparr>"
  by (simp add: directory_link_def PbLinks_item_written[OF assms])

lemma shard_link_item:
  assumes "ufs_laws ops" and "blocks \<noteq> []"
  shows "PbLinks_item ops (shard_link ops k name blocks) =
    Inr \<lparr>l_cid = ub_cid (last blocks), l_name = Some (shard_name k name), l_tsize = None\<rparr>"
  using assms by (simp add: shard_link_def PbLinks_item_written[OF assms(1)])

text \<open>The node that ends the encoding of a directory, when \<open>links\<close> were collected before.\<close>

definition basic_at where
  "basic_at ops oc open_file links es load cid \<longleftrightarrow>
     (\<exists>n ls ls'. loads ops load cid (Directory n) \<and> PbLinks ops (n_outer n) = map Inr (ls @ ls') \<and>
        list_all2 (\<lambda>p l. PbLinks_item ops p = Inr l) links ls \<and> entries_at ops load (file_stored ops oc open_file load) es ls')"

definition branch_at where
  "branch_at ops oc open_file links bf tree load cid \<longleftrightarrow>
     (\<exists>n hn ls ls'. loads ops load cid (HamtShard n hn) \<and> hn_bit_width hn = 8 \<and> hn_padding_len hn = 2 \<and>
        length (hn_bitfield hn) = 4 \<and> bits_of (hn_bitfield hn) = bits_of bf \<union> set (map fst tree) \<and>
        hn_pointers hn = ls @ ls' \<and> list_all2 (\<lambda>p l. PbLinks_item ops p = Inr l) links ls \<and>
        trees_at ops load (file_stored ops oc open_file load) tree ls')"

lemma basic_at_step:
  assumes "ufs_laws ops" and "basic_at ops oc open_file (links @ [directory_link ops (Entry_name e) b]) es load cid"
    and "entry_at ops load (file_stored ops oc open_file load) e (ub_cid b)"
  shows "basic_at ops oc open_file links (e # es) load cid"
proof -
  obtain n ls ls' where n: "loads ops load cid (Directory n)" "PbLinks ops (n_outer n) = map Inr (ls @ ls')"
    "list_all2 (\<lambda>p l. PbLinks_item ops p = Inr l) (links @ [directory_link ops (Entry_name e) b]) ls"
    "entries_at ops load (file_stored ops oc open_file load) es ls'"
    using assms(2) unfolding basic_at_def by blast
  obtain xs l where ls: "ls = xs @ [l]" "list_all2 (\<lambda>p l. PbLinks_item ops p = Inr l) links xs"
    "PbLinks_item ops (directory_link ops (Entry_name e) b) = Inr l"
    using n(3) by (auto simp: list_all2_append1 list_all2_Cons1)
  then show ?thesis
    unfolding basic_at_def using n(1,2,4) assms(3) directory_link_item[OF assms(1)]
    by (intro exI[of _ n] exI[of _ xs] exI[of _ "l # ls'"]) auto
qed

lemma branch_at_step:
  assumes "ufs_laws ops" and "branch_at ops oc open_file (links @ [shard_link ops k (HamtNode_name t) blocks]) bf' tree load cid"
    and "blocks \<noteq> []" and "tree_at ops load (file_stored ops oc open_file load) t (ub_cid (last blocks))"
    and "bits_of bf' = insert k (bits_of bf)"
  shows "branch_at ops oc open_file links bf ((k, t) # tree) load cid"
proof -
  obtain n hn ls ls' where n: "loads ops load cid (HamtShard n hn)" "hn_bit_width hn = 8" "hn_padding_len hn = 2"
    "length (hn_bitfield hn) = 4" "bits_of (hn_bitfield hn) = bits_of bf' \<union> set (map fst tree)" "hn_pointers hn = ls @ ls'"
    "list_all2 (\<lambda>p l. PbLinks_item ops p = Inr l) (links @ [shard_link ops k (HamtNode_name t) blocks]) ls"
    "trees_at ops load (file_stored ops oc open_file load) tree ls'"
    using assms(2) unfolding branch_at_def by blast
  obtain xs l where ls: "ls = xs @ [l]" "list_all2 (\<lambda>p l. PbLinks_item ops p = Inr l) links xs"
    "PbLinks_item ops (shard_link ops k (HamtNode_name t) blocks) = Inr l"
    using n(7) by (auto simp: list_all2_append1 list_all2_Cons1)
  then show ?thesis
    unfolding branch_at_def using n(1-6,8) assms(4,5) shard_link_item[OF assms(1,3)]
    by (intro exI[of _ n] exI[of _ hn] exI[of _ xs] exI[of _ "l # ls'"]) auto
qed

lemma open_stream_Inr [simp]: "open_stream (Inr s) = s"
  by (simp add: open_stream_def)

lemma basic_at_end:
  assumes "ufs_laws ops" and "valid_links links" and "directory_node ops links = Inr b" and "load (ub_cid b) = Inr (ub_data b)"
  shows "basic_at ops oc open_file links [] load (ub_cid b)"
  using directory_node_decoded[OF assms(1,3)] assms(2,4)
  by (auto simp: basic_at_def load_node_def valid_links_def)

lemma branch_at_end:
  assumes "ufs_laws ops" and "valid_links links" and "shard_node ops bf links = Inr b" and "load (ub_cid b) = Inr (ub_data b)"
    and "length bf = 4"
  shows "branch_at ops oc open_file links bf [] load (ub_cid b)"
  using shard_node_decoded[OF assms(1,3) _ assms(5)] assms(2,4,5)
  by (force simp: branch_at_def load_node_def valid_links_def)

lemma encode_leaves:
  "ufs_laws ops \<Longrightarrow> entry_ok m e \<Longrightarrow> open_stream (Entry_encode ops oc open_file e) = map Inr blocks \<Longrightarrow>
     leaves blocks (\<lambda>load. entry_at ops load (file_stored ops oc open_file load) e)"
  "ufs_laws ops \<Longrightarrow> directory_ok m d \<Longrightarrow> Directory_encode ops oc open_file d = map Inr blocks \<Longrightarrow>
     leaves blocks (\<lambda>load. directory_at ops load (file_stored ops oc open_file load) d)"
  "ufs_laws ops \<Longrightarrow> entries_ok m es \<Longrightarrow> valid_links links \<Longrightarrow> BasicDirectory_encode ops oc open_file links es = map Inr blocks \<Longrightarrow>
     leaves blocks (basic_at ops oc open_file links es)"
  "ufs_laws ops \<Longrightarrow> tree_ok m t \<Longrightarrow> HamtNode_encode ops oc open_file t = map Inr blocks \<Longrightarrow>
     leaves blocks (\<lambda>load. tree_at ops load (file_stored ops oc open_file load) t)"
  "ufs_laws ops \<Longrightarrow> trees_ok m tree \<Longrightarrow> valid_links links \<Longrightarrow> length bf = 4 \<Longrightarrow>
   HamtBranch_encode ops oc open_file links bf tree = map Inr blocks \<Longrightarrow>
     leaves blocks (branch_at ops oc open_file links bf tree)"
proof (induction ops oc open_file e and ops oc open_file d and ops oc open_file links es and ops oc open_file t
    and ops oc open_file links bf tree arbitrary: blocks and blocks and blocks and blocks and blocks
    rule: Entry_encode_Directory_encode_BasicDirectory_encode_HamtNode_encode_HamtBranch_encode.induct)
  case (1 ops oc open_file f)
  then show ?case using File_encode_at[of ops oc open_file f blocks] by (simp add: leaves_def)
next
  case (2 ops oc open_file d)
  then show ?case by simp
next
  case (3 ops oc open_file s)
  then obtain b where "Symlink_encode ops s = Inr b" "blocks = [b]" by (auto simp: Cons_eq_map_conv)
  then show ?case using Symlink_encode_at[OF "3.prems"(1)] by (auto simp: leaves_def)
next
  case (4 ops oc open_file name es)
  then have "leaves blocks (basic_at ops oc open_file [] es)" by (simp add: valid_links_def)
  then show ?case by (auto simp: leaves_def basic_at_def)
next
  case (5 ops oc open_file name t)
  then show ?case by simp
next
  case (6 ops oc open_file links)
  then obtain b where "directory_node ops links = Inr b" "blocks = [b]" by (auto simp: Cons_eq_map_conv)
  then show ?case using basic_at_end[OF "6.prems"(1,3)] by (auto simp: leaves_def)
next
  case (7 ops oc open_file links e es)
  then obtain xs ys where s: "open_stream (Entry_encode ops oc open_file e) = map Inr xs" "blocks = xs @ ys" "xs \<noteq> []"
    "BasicDirectory_encode ops oc open_file (links @ [directory_link ops (Entry_name e) (last xs)]) es = map Inr ys"
    by (auto simp: stream_then_Inr Cons_eq_map_conv split: if_splits)
  have e: "leaves xs (\<lambda>load. entry_at ops load (file_stored ops oc open_file load) e)"
    using "7.IH"(1)[OF "7.prems"(1) _ s(1)] "7.prems"(2) by simp
  have "valid_links (links @ [directory_link ops (Entry_name e) (last xs)])"
    using "7.prems"(2,3) entry_ok_name by (auto simp: valid_links_def directory_link_def)
  then have r: "leaves ys (basic_at ops oc open_file (links @ [directory_link ops (Entry_name e) (last xs)]) es)"
    using "7.IH"(2)[OF s(3) "7.prems"(1) _ _ s(4)] "7.prems"(2) by simp
  show ?case
    using basic_at_step[OF "7.prems"(1) leavesD(2)[OF r] leavesD(2)[OF e]] leavesD(1)[OF r] s(2)
    by (intro leavesI) simp_all
next
  case (8 ops oc open_file tree)
  then have "leaves blocks (branch_at ops oc open_file [] Bitfield_zero tree)" by (simp add: valid_links_def)
  then show ?case by (auto simp: leaves_def branch_at_def shard_of_def)
next
  case (9 ops oc open_file h e)
  then show ?case by simp
next
  case (10 ops oc open_file links bf)
  then obtain b where "shard_node ops bf links = Inr b" "blocks = [b]" by (auto simp: Cons_eq_map_conv)
  then show ?case using branch_at_end[OF "10.prems"(1,3) _ _ "10.prems"(4)] by (auto simp: leaves_def)
next
  case (11 ops oc open_file links bf k t tree)
  then obtain bf' xs ys where s: "set_bit k bf = Some bf'" "HamtNode_encode ops oc open_file t = map Inr xs" "blocks = xs @ ys"
    "HamtBranch_encode ops oc open_file (links @ [shard_link ops k (HamtNode_name t) xs]) bf' tree = map Inr ys"
    by (auto simp: stream_then_Inr Cons_eq_map_conv split: option.splits)
  note bf' = set_bit_Some[OF "11.prems"(4) s(1)]
  have t: "leaves xs (\<lambda>load. tree_at ops load (file_stored ops oc open_file load) t)"
    using "11.IH"(1)[OF s(1) "11.prems"(1) _ s(2)] "11.prems"(2) by simp
  have "valid_links (links @ [shard_link ops k (HamtNode_name t) xs])"
    using "11.prems"(2,3) tree_ok_name shard_name_valid by (auto simp: valid_links_def shard_link_def)
  then have r: "leaves ys (branch_at ops oc open_file (links @ [shard_link ops k (HamtNode_name t) xs]) bf' tree)"
    using "11.IH"(2)[OF s(1) "11.prems"(1) _ _ _ s(4)] "11.prems"(2) bf' by simp
  show ?case
    using branch_at_step[OF "11.prems"(1) leavesD(2)[OF r] leavesD(1)[OF t] leavesD(2)[OF t]] bf' leavesD(1)[OF r] s(3)
    by (intro leavesI) simp_all
qed

section \<open>What the builder makes\<close>

fun tree_entries :: "hamt_tree \<Rightarrow> entry list"
  and trees_entries :: "(nat \<times> hamt_tree) list \<Rightarrow> entry list" where
  "tree_entries (HBranch tree) = trees_entries tree"
| "tree_entries (HLeaf _ e) = [e]"
| "trees_entries [] = []"
| "trees_entries ((_, t) # tree) = tree_entries t @ trees_entries tree"

lemma trees_entries_set: "set (trees_entries tree) = (\<Union>(k, t) \<in> set tree. set (tree_entries t))"
  by (induction tree) auto

lemma trees_ok_iff: "trees_ok m tree \<longleftrightarrow> (\<forall>(k, t) \<in> set tree. tree_ok m t)"
  by (induction tree) auto

lemma entries_ok_iff: "entries_ok m es \<longleftrightarrow> (\<forall>e \<in> set es. entry_ok m e)"
  by (induction es) auto

lemma tree_branch_mem:
  assumes "sorted_wrt (<) (map fst tree)" and "(k :: nat, t) \<in> set tree"
  shows "map_of tree k = Some t"
  using assms by (intro map_of_is_SomeI) (simp_all add: strict_sorted_iff)

lemma tree_of_entries: "tree_of d leafs t \<Longrightarrow> set (tree_entries t) = snd ` set leafs"
proof (induction rule: tree_of.induct)
  case (tree_branch d tree leafs)
  have sub: "set (tree_entries t) = snd ` set (with_key d k leafs)" if "(k, t) \<in> set tree" for k t
    using tree_branch.IH[THEN spec, THEN spec, THEN mp, OF tree_branch_mem[OF tree_branch.hyps(2) that]] by blast
  have "\<exists>t. (unat (h ! d), t) \<in> set tree" if "(h, e) \<in> set leafs" for h e
  proof -
    have "(h, e) \<in> set (with_key d (unat (h ! d)) leafs)" using that by (simp add: with_key_set)
    then have "map_of tree (unat (h ! d)) \<noteq> None" using tree_branch.hyps(3) by auto
    then show ?thesis by (auto dest: map_of_SomeD)
  qed
  then have "set (tree_entries (HBranch tree)) \<supseteq> snd ` set leafs"
    using sub by (force simp: trees_entries_set with_key_set)
  moreover have "set (tree_entries (HBranch tree)) \<subseteq> snd ` set leafs"
    using sub by (fastforce simp: trees_entries_set with_key_set)
  ultimately show ?case by blast
qed simp

lemma tree_of_ok: "tree_of d leafs t \<Longrightarrow> \<forall>l \<in> set leafs. entry_ok m (snd l) \<Longrightarrow> tree_ok m t"
proof (induction rule: tree_of.induct)
  case (tree_branch d tree leafs)
  have "tree_ok m t" if "(k, t) \<in> set tree" for k t
    using tree_branch.IH[THEN spec, THEN spec, THEN mp, OF tree_branch_mem[OF tree_branch.hyps(2) that]] tree_branch.prems
    by (auto simp: with_key_set)
  then show ?case by (auto simp: trees_ok_iff)
qed simp

lemma HamtNode_new_directory_ok:
  assumes "HamtNode_new m es = Inr t" and "entries_ok m es" and "utf8_valid name"
  shows "directory_ok m (Hamt name t)" and "set (tree_entries t) = set es"
proof -
  let ?leafs = "map (\<lambda>e. (hash_key m (Entry_name e), e)) es"
  have t: "tree_of 0 ?leafs t" using HamtNode_new_ok[of m es] assms(1) by (auto split: if_splits)
  moreover have "keyed m ?leafs" by (auto simp: keyed_def)
  moreover have "tree_ok m t" using tree_of_ok[OF t] assms(2) by (simp add: entries_ok_iff)
  ultimately show "directory_ok m (Hamt name t)" using assms(3) by auto
  show "set (tree_entries t) = set es" using tree_of_entries[OF t] by force
qed

lemma file_name_valid: "utf8_valid (file_name_or_empty path)"
  by (simp add: file_name_or_empty_def Let_def)

definition builder_ok :: "(bytes \<Rightarrow> 128 word) \<Rightarrow> directory_builder \<Rightarrow> bool" where
  "builder_ok m b \<longleftrightarrow> entries_ok m (db_entries b) \<and> (case db_name b of None \<Rightarrow> True | Some n \<Rightarrow> utf8_valid n)"

lemma builder_ok_entry: "builder_ok m b \<Longrightarrow> entry_ok m e \<Longrightarrow> builder_ok m (DirectoryBuilder_entry e b)"
  by (simp add: builder_ok_def DirectoryBuilder_entry_def Let_def entries_ok_iff)

lemma build_entries_ok:
  assumes "builder_ok m b" and "DirectoryBuilder_build_entries m b = Inr d"
  shows "directory_ok m d"
proof (cases "db_typ b")
  case TypeHamt
  then obtain t name where "HamtNode_new m (db_entries b) = Inr t" "d = Hamt name t" "utf8_valid name"
    using assms by (auto simp: DirectoryBuilder_build_entries_def builder_ok_def result_bind_def split: sum.splits option.splits)
  then show ?thesis using HamtNode_new_directory_ok(1) assms(1) by (simp add: builder_ok_def)
qed (use assms in \<open>auto simp: DirectoryBuilder_build_entries_def builder_ok_def split: option.splits\<close>)

lemma build_file_name: "build_file c degree path = Inr f \<Longrightarrow> utf8_valid (f_name f)"
  by (auto simp: build_file_def FileBuilder_build_def FileBuilder_path_def FileBuilder_degree_def FileBuilder_chunker_def
      FileBuilder_new_def file_name_valid split: option.splits)

lemma SymlinkBuilder_name: "SymlinkBuilder_build rl (SymlinkBuilder_new path) = Inr s \<Longrightarrow> utf8_valid (s_name s)"
  by (auto simp: SymlinkBuilder_build_def SymlinkBuilder_new_def file_name_valid result_bind_def split: sum.splits)

lemma make_dir_from_path_ok:
  "make_dir_from_path m c degree path fs = Inr d \<Longrightarrow> directory_ok m d"
  "read_entries m c degree path items b = Inr b' \<Longrightarrow> builder_ok m b \<Longrightarrow> builder_ok m b'"
proof (induction m c degree path fs and m c degree path items b arbitrary: d and b'
    rule: make_dir_from_path_read_entries.induct)
  case (1 m c degree path items)
  let ?b = "DirectoryBuilder_name (file_name_or_empty path) DirectoryBuilder_new"
  obtain b' where b': "read_entries m c degree path items ?b = Inr b'" "DirectoryBuilder_build_entries m b' = Inr d"
    using "1.prems" by (auto simp: result_bind_def split: sum.splits)
  have "builder_ok m ?b" by (simp add: builder_ok_def DirectoryBuilder_name_def DirectoryBuilder_new_def file_name_valid)
  then show ?case using "1.IH"[OF b'(1)] build_entries_ok[OF _ b'(2)] by blast
next
  case (4 m c degree path name item items b)
  let ?p = "path @ [47] @ name"
  let ?r = "case item of
              FsSymlink target _ \<Rightarrow>
                result_bind (SymlinkBuilder_build (\<lambda>_. Inr target) (SymlinkBuilder_new ?p)) (\<lambda>s.
                Inr (DirectoryBuilder_add_symlink s b))
            | FsFile \<Rightarrow> result_bind (build_file c degree ?p) (\<lambda>f. Inr (DirectoryBuilder_add_file f b))
            | FsDir sub \<Rightarrow>
                result_bind (make_dir_from_path m c degree ?p (FsDir sub)) (\<lambda>d. Inr (DirectoryBuilder_add_dir d b))
            | FsOther \<Rightarrow> Inl IoError"
  obtain b1 where b1: "?r = Inr b1" "read_entries m c degree path items b1 = Inr b'"
  proof -
    have "result_bind ?r (\<lambda>dir. read_entries m c degree path items dir) = Inr b'"
      using "4.prems"(1) by (simp only: read_entries.simps Let_def)
    then show ?thesis using that by (cases ?r) simp_all
  qed
  have "builder_ok m b1"
  proof (cases item)
    case (FsDir sub)
    then show ?thesis using b1(1) "4.IH"(1)[OF refl FsDir] builder_ok_entry[OF "4.prems"(2), of "EDirectory _"]
      by (auto simp: DirectoryBuilder_add_dir_def result_bind_def split: sum.splits)
  next
    case FsFile
    then show ?thesis using b1(1) build_file_name[of c degree ?p] builder_ok_entry[OF "4.prems"(2), of "EFile _"]
      by (auto simp: DirectoryBuilder_add_file_def result_bind_def split: sum.splits)
  next
    case (FsSymlink target r)
    then show ?thesis using b1(1) SymlinkBuilder_name[of _ ?p] builder_ok_entry[OF "4.prems"(2), of "ESymlink _"]
      by (auto simp: DirectoryBuilder_add_symlink_def result_bind_def split: sum.splits)
  qed (use b1(1) in simp)
  then show ?case by (rule "4.IH"(2)[OF refl b1])
qed simp_all

lemma entry_ok_wrap: "directory_ok m (Entry_wrap e) = entry_ok m e"
  by (simp add: Entry_wrap_def Directory_single_def)

lemma Entry_from_path_ok:
  assumes "Entry_from_path oc m fs path config = Inr e"
  shows "entry_ok m e"
  using assms
  by (auto simp: Entry_from_path_def Let_def result_bind_def DirectoryBuilder_build_def DirectoryBuilder_path_def
      DirectoryBuilder_chunker_def DirectoryBuilder_new_def entry_ok_wrap make_dir_from_path_ok(1) build_file_name
      SymlinkBuilder_name simp del: make_dir_from_path.simps split: sum.splits option.splits fs_node.splits if_splits)

section \<open>Finding an entry\<close>

fun children :: "entry \<Rightarrow> entry list" where
  "children (EDirectory (Basic _ es)) = es"
| "children (EDirectory (Hamt _ t)) = tree_entries t"
| "children _ = []"

definition child :: "entry \<Rightarrow> bytes \<Rightarrow> entry option" where
  "child e name = find (\<lambda>c. Entry_name c = name) (children e)"

lemma find_links:
  assumes "entries_at ops load F es ls"
  shows "find (\<lambda>c. Entry_name c = name) es = Some e \<Longrightarrow>
      \<exists>l. find (\<lambda>r. case r of Inr l \<Rightarrow> l_name l = Some name | Inl _ \<Rightarrow> False) (map Inr ls :: (ufs_error + _) list) = Some (Inr l) \<and>
        entry_at ops load F e (l_cid l)"
    and "find (\<lambda>c. Entry_name c = name) es = None \<Longrightarrow>
      find (\<lambda>r. case r of Inr l \<Rightarrow> l_name l = Some name | Inl _ \<Rightarrow> False) (map Inr ls :: (ufs_error + _) list) = None"
  using assms by (induction es arbitrary: ls) (auto split: if_splits)

lemma get_link_by_name_child:
  assumes "directory_at ops load F (Basic name es) cid"
  shows "\<exists>n. loads ops load cid (Directory n) \<and>
    (case child (EDirectory (Basic name es)) key of
       None \<Rightarrow> get_link_by_name ops (Directory n) key = Inr None
     | Some e \<Rightarrow> \<exists>l. get_link_by_name ops (Directory n) key = Inr (Some l) \<and> entry_at ops load F e (l_cid l))"
proof -
  obtain n ls where n: "loads ops load cid (Directory n)" "PbLinks ops (n_outer n) = map Inr ls"
    "entries_at ops load F es ls"
    using assms by auto
  show ?thesis
  proof (cases "child (EDirectory (Basic name es)) key")
    case None
    then show ?thesis using n(1,2) find_links(2)[OF n(3), of key]
      by (intro exI[of _ n]) (simp add: child_def get_link_by_name_def UnixfsNode_links_def)
  next
    case (Some e)
    then show ?thesis using n(1,2) find_links(1)[OF n(3), of key e]
      by (intro exI[of _ n]) (auto simp: child_def get_link_by_name_def UnixfsNode_links_def)
  qed
qed

lemma Hamt_get_child:
  assumes "directory_at ops load F (Hamt name t) cid" and "directory_ok m (Hamt name t)" and "key \<noteq> []"
  shows "\<exists>n hn. loads ops load cid (HamtShard n hn) \<and>
    (case child (EDirectory (Hamt name t)) key of
       None \<Rightarrow> (\<forall>c \<in> set (tree_entries t). \<not> sharded c) \<longrightarrow> Hamt_get ops load m hn key = Inr None
     | Some e \<Rightarrow> \<exists>l u. Hamt_get ops load m hn key = Inr (Some (l, u)) \<and> entry_at ops load F e (l_cid l) \<and>
         load_node ops load (l_cid l) = Inr u)"
proof -
  obtain leafs where leafs: "tree_of 0 leafs t" "keyed m leafs" using assms(2) by auto
  then obtain tree where t: "t = HBranch tree" by (cases t) (auto elim: tree_of_leafE)
  obtain n hn where hn: "loads ops load cid (HamtShard n hn)" "shard_of hn tree" "trees_at ops load F tree (hn_pointers hn)"
    using assms(1) t by auto
  note entries = tree_of_entries[OF leafs(1)]
  have get: "Hamt_get ops load m hn key = get_value ops load key hn (hash_at (hash_key m key) 0) 0"
    by (simp add: Hamt_get_def HashBits_new_def new_at_index_def)
  have len: "length (hash_key m key) = 8" by (simp add: hash_key_def)
  show ?thesis
  proof (cases "child (EDirectory (Hamt name t)) key")
    case None
    then have "\<forall>l \<in> set leafs. Entry_name (snd l) \<noteq> key"
      using entries by (auto simp: child_def find_None_iff)
    then have "Hamt_get ops load m hn key = Inr None" if "\<forall>c \<in> set (tree_entries t). \<not> sharded c"
      using get_value_not_found[OF leafs(1) t len assms(3) hn(2,3)] that entries get by auto
    then show ?thesis using None hn(1) by auto
  next
    case (Some e)
    then have e: "e \<in> set (tree_entries t)" "Entry_name e = key"
      by (auto simp: child_def find_Some_iff)
    then obtain h where h: "(h, e) \<in> set leafs" using entries by force
    then have "h = hash_key m key" using leafs(2) e(2) by (auto simp: keyed_def)
    then show ?thesis
      using get_value_found[OF leafs(1) t h _ _ hn(2,3)] Some hn(1) len e(2) assms(3) get by simp
  qed
qed

section \<open>Listing a directory\<close>

fun tree_height :: "hamt_tree \<Rightarrow> nat"
  and trees_height :: "(nat \<times> hamt_tree) list \<Rightarrow> nat" where
  "tree_height (HBranch tree) = Suc (trees_height tree)"
| "tree_height (HLeaf _ _) = 0"
| "trees_height [] = 0"
| "trees_height ((_, t) # tree) = max (tree_height t) (trees_height tree)"

lemma trees_height_le: "(\<And>k t. (k, t) \<in> set tree \<Longrightarrow> tree_height t \<le> n) \<Longrightarrow> trees_height tree \<le> n"
proof (induction tree)
  case (Cons p tree)
  then show ?case by (cases p) auto
qed simp

lemma tree_of_height: "tree_of d leafs t \<Longrightarrow> tree_height t \<le> 8 - d"
proof (induction rule: tree_of.induct)
  case (tree_branch d tree leafs)
  have "trees_height tree \<le> 8 - Suc d"
    using tree_branch.IH[THEN spec, THEN spec, THEN mp, OF tree_branch_mem[OF tree_branch.hyps(2)]]
    by (intro trees_height_le) blast
  then show ?case using tree_branch.hyps(1) by simp
qed simp

definition lists_entry :: "'cid ufs_ops \<Rightarrow> ('cid \<Rightarrow> ufs_error + bytes) \<Rightarrow> (ufs_file \<Rightarrow> 'cid \<Rightarrow> bool) \<Rightarrow> entry \<Rightarrow> 'cid link \<Rightarrow> bool" where
  "lists_entry ops load F e l \<longleftrightarrow> l_name l = Some (Entry_name e) \<and> entry_at ops load F e (l_cid l)"

lemma option_then_Inr: "option_then (Some (map Inr a)) (Some (map Inr b)) = Some (map Inr (a @ b))"
  by (simp add: list_all_iff)

lemma shard_name_length: "k < 256 \<Longrightarrow> length (shard_name k name) = 2 + length name" "k < 256 \<Longrightarrow> drop 2 (shard_name k name) = name"
  by (simp_all add: shard_name_def hex_upper_length)

lemma shard_keys: "shard_of hn tree \<Longrightarrow> k \<in> fst ` set tree \<Longrightarrow> k < 256"
  by (auto simp: shard_of_def bits_of_def)

lemma Hamt_children_entries:
  "tree_at ops load F t cid \<Longrightarrow> tree_ok m t \<Longrightarrow> \<forall>e \<in> set (tree_entries t). Entry_name e \<noteq> [] \<Longrightarrow> tree_height t \<le> Suc fuel \<Longrightarrow>
     t = HBranch tree0 \<Longrightarrow>
     \<exists>n hn items. loads ops load cid (HamtShard n hn) \<and> hn_padding_len hn = 2 \<and>
       Hamt_children ops load fuel 2 (hn_pointers hn) = Some (map Inr items) \<and> list_all2 (lists_entry ops load F) (tree_entries t) items"
  "trees_at ops load F tree ls \<Longrightarrow> trees_ok m tree \<Longrightarrow> \<forall>e \<in> set (trees_entries tree). Entry_name e \<noteq> [] \<Longrightarrow> trees_height tree \<le> fuel \<Longrightarrow>
     \<forall>k \<in> fst ` set tree. k < 256 \<Longrightarrow>
     \<exists>items. Hamt_children ops load fuel 2 ls = Some (map Inr items) \<and> list_all2 (lists_entry ops load F) (trees_entries tree) items"
proof (induction t and tree arbitrary: cid fuel tree0 and ls fuel rule: tree_entries_trees_entries.induct)
  case (1 tree)
  then obtain n hn where hn: "loads ops load cid (HamtShard n hn)" "shard_of hn tree" "trees_at ops load F tree (hn_pointers hn)"
    by auto
  have "hn_padding_len hn = 2" using hn(2) by (simp add: shard_of_def)
  then show ?case using "1.IH"[OF hn(3), of fuel] "1.prems"(2-4) hn(1) shard_keys[OF hn(2)] by auto
next
  case (4 k t tree)
  then obtain l ls' where l: "ls = l # ls'" "l_name l = Some (shard_name k (HamtNode_name t))" "tree_at ops load F t (l_cid l)"
    "trees_at ops load F tree ls'"
    by auto
  have k: "k < 256" using "4.prems"(5) by simp
  obtain items where items: "Hamt_children ops load fuel 2 ls' = Some (map Inr items)"
    "list_all2 (lists_entry ops load F) (trees_entries tree) items"
    using "4.IH"(2)[OF l(4), of fuel] "4.prems"(2-5) by auto
  show ?case
  proof (cases t)
    case (HBranch tree1)
    then obtain fuel' where f: "fuel = Suc fuel'" using "4.prems"(4) by (cases fuel) auto
    obtain n hn items1 where t: "loads ops load (l_cid l) (HamtShard n hn)" "hn_padding_len hn = 2"
      "Hamt_children ops load fuel' 2 (hn_pointers hn) = Some (map Inr items1)"
      "list_all2 (lists_entry ops load F) (tree_entries t) items1"
      using "4.IH"(1)[OF l(3), of fuel' tree1] "4.prems"(2-4) HBranch f by auto
    have "Hamt_children ops load fuel 2 ls = Some (map Inr (items1 @ items))"
      using l(1,2) t(1-3) items(1) HBranch f k option_then_Inr[of items1 items]
      by (simp add: shard_name_length load_from_link_def)
    then show ?thesis using list_all2_appendI[OF t(4) items(2)] by (intro exI[of _ "items1 @ items"]) simp
  next
    case (HLeaf h e)
    let ?l = "\<lparr>l_cid = l_cid l, l_name = Some (Entry_name e), l_tsize = l_tsize l\<rparr>"
    have e: "Entry_name e \<noteq> []" "utf8_valid (Entry_name e)" "entry_at ops load F e (l_cid l)"
      using "4.prems"(2,3) HLeaf l(3) entry_ok_name by auto
    have "Hamt_children ops load fuel 2 ls = Some (map Inr ([?l] @ items))"
      using l(1,2) items(1) HLeaf k e(1,2) option_then_Inr[of "[?l]" items]
      by (simp add: shard_name_length child_link_def)
    moreover have "lists_entry ops load F e ?l" using e(3) by (simp add: lists_entry_def)
    ultimately show ?thesis using items(2) HLeaf by (intro exI[of _ "?l # items"]) simp
  qed
qed auto

lemma entries_at_lists: "entries_at ops load F es ls \<longleftrightarrow> list_all2 (lists_entry ops load F) es ls"
  by (induction es arbitrary: ls) (auto simp: list_all2_Cons1 lists_entry_def)

lemma as_child_reader_lists:
  assumes "directory_at ops load F d cid" and "directory_ok m d" and "\<forall>e \<in> set (children (EDirectory d)). Entry_name e \<noteq> []"
  shows "\<exists>u items. loads ops load cid u \<and> is_dir u \<and> as_child_reader ops load 8 u = Some (Some (map Inr items)) \<and>
    list_all2 (lists_entry ops load F) (children (EDirectory d)) items"
proof (cases d)
  case (Basic name es)
  then show ?thesis using assms(1)
    by (fastforce simp: as_child_reader_def UnixfsNode_links_def entries_at_lists)
next
  case (Hamt name t)
  obtain leafs where leafs: "tree_of 0 leafs t" using assms(2) Hamt by auto
  then obtain tree where t: "t = HBranch tree" by (cases t) (auto elim: tree_of_leafE)
  have "tree_height t \<le> Suc 8" using tree_of_height[OF leafs] by simp
  then show ?thesis
    using Hamt_children_entries(1)[of ops load F t cid m 8 tree] assms Hamt t
    by (fastforce simp: as_child_reader_def)
qed

end
