(* ===== verification/ResolverPath.thy ===== *)
theory ResolverPath
  imports DirectoryTree
begin

text \<open>
  The paths of the resolver (\<open>iroh-resolver/src/resolver.rs\<close>: \<open>Path\<close>) and DNS links
  (\<open>dns_resolver.rs\<close>). A string is its bytes. The text form of content ids and peer ids is the library's and a
  record of parameters; so are the DNS servers.
\<close>

section \<open>Strings\<close>

text \<open>\<open>s.split(|c| P c).filter(|s| !s.is_empty())\<close>.\<close>

fun split_by :: "(byte \<Rightarrow> bool) \<Rightarrow> bytes \<Rightarrow> bytes list" where
  "split_by P [] = [[]]"
| "split_by P (b # bs) = (if P b then [] # split_by P bs else (b # hd (split_by P bs)) # tl (split_by P bs))"

definition is_sep :: "byte \<Rightarrow> bool" where
  "is_sep b \<longleftrightarrow> b = 47 \<or> b = 92"

definition segments :: "bytes \<Rightarrow> bytes list" where
  "segments s = filter (\<lambda>p. p \<noteq> []) (split_by is_sep s)"

definition ends_with :: "byte \<Rightarrow> bytes \<Rightarrow> bool" where
  "ends_with b s \<longleftrightarrow> s \<noteq> [] \<and> last s = b"

definition to_lower :: "byte \<Rightarrow> byte" where
  "to_lower b = (if 65 \<le> b \<and> b \<le> 90 then b + 32 else b)"

definition eq_ignore_ascii_case :: "bytes \<Rightarrow> bytes \<Rightarrow> bool" where
  "eq_ignore_ascii_case s t \<longleftrightarrow> map to_lower s = map to_lower t"

text \<open>\<open>parts.join("/")\<close>.\<close>

fun join_slash :: "bytes list \<Rightarrow> bytes" where
  "join_slash [] = []"
| "join_slash [p] = p"
| "join_slash (p # q # ps) = p @ 47 # join_slash (q # ps)"

abbreviation s_ipfs :: bytes where
  "s_ipfs \<equiv> [105, 112, 102, 115]"

abbreviation s_ipns :: bytes where
  "s_ipns \<equiv> [105, 112, 110, 115]"

section \<open>Paths\<close>

text \<open>
  The text form of content ids (\<open>Cid::from_str\<close>, \<open>Display\<close>), the multihash of a base-58 string with its
  code and digest, and the content id of a peer's multihash.
\<close>

record 'cid path_ops =
  po_parse :: "bytes \<Rightarrow> 'cid option"
  po_show :: "'cid \<Rightarrow> bytes"
  po_multihash :: "bytes \<Rightarrow> (u64 \<times> bytes) option"
  po_peer_cid :: "u64 \<times> bytes \<Rightarrow> 'cid"

datatype path_error = PathTooShort | InvalidCid

datatype 'cid cid_or_domain = PCid 'cid | PDomain bytes

datatype path_type = Ipfs | Ipns

record 'cid path =
  p_typ :: path_type
  p_root :: "'cid cid_or_domain"
  p_tail :: "bytes list"

fun as_str :: "path_type \<Rightarrow> bytes" where
  "as_str Ipfs = s_ipfs"
| "as_str Ipns = s_ipns"

definition from_peer_id :: "'cid path_ops \<Rightarrow> bytes \<Rightarrow> (u64 \<times> bytes) option" where
  "from_peer_id po i =
     Option.bind (po_multihash po i) (\<lambda>(code, digest).
       if code = 0x12 then Some (code, digest)
       else if code = 0 \<and> length digest \<le> 42 then Some (code, digest)
       else None)"

definition Path_from_cid :: "'cid \<Rightarrow> 'cid path" where
  "Path_from_cid cid = \<lparr>p_typ = Ipfs, p_root = PCid cid, p_tail = []\<rparr>"

definition Path_from_parts :: "'cid path_ops \<Rightarrow> bytes \<Rightarrow> bytes \<Rightarrow> bytes \<Rightarrow> path_error + 'cid path" where
  "Path_from_parts po scheme cid_or_domain tail_path =
     result_bind
       (if eq_ignore_ascii_case scheme s_ipns
        then Inr (Ipns,
               (case po_parse po cid_or_domain of
                  Some cid \<Rightarrow> PCid cid
                | None \<Rightarrow>
                    (case from_peer_id po cid_or_domain of
                       Some multihash \<Rightarrow> PCid (po_peer_cid po multihash)
                     | None \<Rightarrow> PDomain cid_or_domain)))
        else result_bind (ok_or InvalidCid (po_parse po cid_or_domain)) (\<lambda>root. Inr (Ipfs, PCid root)))
       (\<lambda>(typ, root).
          let tail = segments tail_path
          in Inr \<lparr>p_typ = typ, p_root = root, p_tail = (if ends_with 47 tail_path then tail @ [[]] else tail)\<rparr>)"

definition has_trailing_slash :: "'cid path \<Rightarrow> bool" where
  "has_trailing_slash p \<longleftrightarrow> p_tail p \<noteq> [] \<and> last (p_tail p) = []"

definition Path_push :: "bytes \<Rightarrow> 'cid path \<Rightarrow> 'cid path" where
  "Path_push s p = p\<lparr>p_tail := p_tail p @ [s]\<rparr>"

definition to_relative_string :: "'cid path \<Rightarrow> bytes" where
  "to_relative_string p = join_slash (p_tail p)"

definition Path_cid :: "'cid path \<Rightarrow> 'cid option" where
  "Path_cid p = (case p_root p of PCid c \<Rightarrow> Some c | PDomain _ \<Rightarrow> None)"

fun CidOrDomain_fmt :: "'cid path_ops \<Rightarrow> 'cid cid_or_domain \<Rightarrow> bytes" where
  "CidOrDomain_fmt po (PCid c) = po_show po c"
| "CidOrDomain_fmt po (PDomain s) = s"

text \<open>\<open>Display for Path\<close> and \<open>FromStr for Path\<close>.\<close>

definition Path_fmt :: "'cid path_ops \<Rightarrow> 'cid path \<Rightarrow> bytes" where
  "Path_fmt po p =
     47 # as_str (p_typ p) @ 47 # CidOrDomain_fmt po (p_root p) @
     concat (map (\<lambda>part. 47 # part) (filter (\<lambda>part. part \<noteq> []) (p_tail p))) @
     (if has_trailing_slash p then [47] else [])"

definition next_part :: "bytes list \<Rightarrow> path_error + bytes \<times> bytes list" where
  "next_part parts = (case parts of [] \<Rightarrow> Inl PathTooShort | p # ps \<Rightarrow> Inr (p, ps))"

definition Path_from_str :: "'cid path_ops \<Rightarrow> bytes \<Rightarrow> path_error + 'cid path" where
  "Path_from_str po s =
     result_bind (next_part (segments s)) (\<lambda>(first_part, parts).
     result_bind
       (if eq_ignore_ascii_case first_part s_ipns
        then result_bind (next_part parts) (\<lambda>(root, parts).
             Inr (Ipns, (case po_parse po root of Some c \<Rightarrow> PCid c | None \<Rightarrow> PDomain root), parts))
        else result_bind (if eq_ignore_ascii_case first_part s_ipfs then next_part parts else Inr (first_part, parts))
               (\<lambda>(root, parts).
             result_bind (ok_or InvalidCid (po_parse po root)) (\<lambda>root. Inr (Ipfs, PCid root, parts))))
       (\<lambda>(typ, root, parts).
          Inr \<lparr>p_typ = typ, p_root = root, p_tail = (if ends_with 47 s then parts @ [[]] else parts)\<rparr>))"

section \<open>DNS links\<close>

text \<open>The servers: \<open>txt_lookup\<close> of the default one and of those for a top-level domain.\<close>

datatype dns_error = LookupFailed | BadRecord path_error

record dns_resolver =
  dr_default :: "bytes \<Rightarrow> bytes list option"
  dr_tlds :: "(bytes \<times> (bytes \<Rightarrow> bytes list option)) list option"

definition s_dnslink :: bytes where
  "s_dnslink = [100, 110, 115, 108, 105, 110, 107, 61]"

text \<open>\<open>trim_start_matches\<close> takes the prefix away as often as it is there.\<close>

function trim_start_matches :: "bytes \<Rightarrow> bytes \<Rightarrow> bytes" where
  "trim_start_matches pat s =
     (if pat \<noteq> [] \<and> take (length pat) s = pat then trim_start_matches pat (drop (length pat) s) else s)"
  by pat_completeness auto

termination
proof (relation "measure (\<lambda>(pat, s). length s)")
  fix pat s :: bytes
  assume "pat \<noteq> [] \<and> take (length pat) s = pat"
  then show "((pat, drop (length pat) s), (pat, s)) \<in> measure (\<lambda>(pat, s). length s)" by (cases s) auto
qed simp

declare trim_start_matches.simps [simp del]

text \<open>The encodings of the characters with the property \<open>White_Space\<close>.\<close>

definition white_spaces :: "bytes list" where
  "white_spaces =
     [[9], [10], [11], [12], [13], [32], [0xC2, 0x85], [0xC2, 0xA0], [0xE1, 0x9A, 0x80], [0xE2, 0x80, 0xA8],
      [0xE2, 0x80, 0xA9], [0xE2, 0x80, 0xAF], [0xE2, 0x81, 0x9F], [0xE3, 0x80, 0x80]] @
     map (\<lambda>b. [0xE2, 0x80, 0x80 + of_nat b]) [0..<11]"

function trim_with :: "bytes list \<Rightarrow> bytes \<Rightarrow> bytes" where
  "trim_with pats s =
     (case find (\<lambda>w. w \<noteq> [] \<and> take (length w) s = w) pats of
        None \<Rightarrow> s
      | Some w \<Rightarrow> trim_with pats (drop (length w) s))"
  by pat_completeness auto

termination
proof (relation "measure (\<lambda>(pats, s). length s)")
  fix pats s w
  assume "find (\<lambda>w. w \<noteq> [] \<and> take (length w) s = w) pats = Some w"
  then have "w \<noteq> []" "take (length w) s = w" by (auto simp: find_Some_iff)
  then show "((pats, drop (length w) s), (pats, s)) \<in> measure (\<lambda>(pats, s). length s)" by (cases s) auto
qed simp

declare trim_with.simps [simp del]

definition trim :: "bytes \<Rightarrow> bytes" where
  "trim s = rev (trim_with (map rev white_spaces) (rev (trim_with white_spaces s)))"

definition resolve_txt_record :: "dns_resolver \<Rightarrow> bytes \<Rightarrow> dns_error + bytes list" where
  "resolve_txt_record r url =
     (let parts = filter (\<lambda>s. s \<noteq> []) (split_by (\<lambda>b. b = 46) url);
          tld = (if parts = [] then None else Some (last parts));
          resolver = (case Option.bind tld (\<lambda>t. Option.bind (dr_tlds r) (\<lambda>m. map_of m t)) of
                        Some l \<Rightarrow> l
                      | None \<Rightarrow> dr_default r)
      in ok_or LookupFailed (resolver url))"

definition resolve_dnslink :: "'cid path_ops \<Rightarrow> dns_resolver \<Rightarrow> bytes \<Rightarrow> dns_error + 'cid path list" where
  "resolve_dnslink po r url =
     result_bind (resolve_txt_record r ([95] @ take 7 s_dnslink @ [46] @ url @ [46])) (\<lambda>records.
     collect
       (map (\<lambda>rec. case Path_from_str po (trim (trim_start_matches s_dnslink rec)) of
                      Inl e \<Rightarrow> Inl (BadRecord e)
                    | Inr p \<Rightarrow> Inr p)
         (filter (\<lambda>rec. take 8 rec = s_dnslink) records)))"

section \<open>Printing and parsing\<close>

text \<open>A segment of a path: a non-empty string without separators.\<close>

definition segment_ok :: "bytes \<Rightarrow> bool" where
  "segment_ok s \<longleftrightarrow> s \<noteq> [] \<and> (\<forall>b \<in> set s. \<not> is_sep b)"

lemma split_by_nonempty [simp]: "split_by P s \<noteq> []"
  by (cases s) auto

lemma split_by_segment: "\<forall>b \<in> set a. \<not> P b \<Longrightarrow> split_by P a = [a]"
  by (induction a) auto

lemma split_by_append: "\<forall>b \<in> set a. \<not> P b \<Longrightarrow> P c \<Longrightarrow> split_by P (a @ c # s) = a # split_by P s"
  by (induction a) auto

lemma segments_slash: "segments (47 # s) = segments s"
  by (simp add: segments_def is_sep_def)

lemma segments_cons: "segment_ok a \<Longrightarrow> segments (a @ 47 # s) = a # segments s"
  using split_by_append[of a is_sep 47 s] by (simp add: segments_def segment_ok_def is_sep_def)

lemma segments_single: "segment_ok a \<Longrightarrow> segments a = [a]"
  using split_by_segment[of a is_sep] by (simp add: segments_def segment_ok_def)

lemma segments_tail:
  assumes "segment_ok a" and "\<forall>p \<in> set ps. segment_ok p" and "e = [] \<or> e = [47]"
  shows "segments (a @ concat (map (\<lambda>part. 47 # part) ps) @ e) = a # ps"
  using assms(1,2)
proof (induction ps arbitrary: a)
  case Nil
  have "segments [] = []" by (simp add: segments_def)
  then show ?case using Nil assms(3) segments_single[of a] segments_cons[of a "[]"] by auto
next
  case (Cons p ps)
  then show ?case using segments_cons[of a "p @ concat (map (\<lambda>part. 47 # part) ps) @ e"] by simp
qed

lemma segment_ends: "segment_ok p \<Longrightarrow> \<not> ends_with 47 p"
  by (auto simp: segment_ok_def ends_with_def is_sep_def)

lemma parts_end:
  "segment_ok a \<Longrightarrow> \<forall>p \<in> set ps. segment_ok p \<Longrightarrow> \<not> ends_with 47 (a @ concat (map (\<lambda>part. 47 # part) ps))"
proof (induction ps arbitrary: a)
  case (Cons p ps)
  then have "\<not> ends_with 47 (p @ concat (map (\<lambda>part. 47 # part) ps))" by simp
  moreover have "p \<noteq> []" using Cons.prems(2) by (simp add: segment_ok_def)
  ultimately show ?case by (simp add: ends_with_def)
qed (simp add: segment_ends)

text \<open>
  A path as it is made by parsing: the root of an \<open>ipfs\<close> path is a content id, a domain is not the text of one, and
  only the last segment may be empty.
\<close>

definition path_ok :: "'cid path_ops \<Rightarrow> 'cid path \<Rightarrow> bool" where
  "path_ok po p \<longleftrightarrow>
     (case p_root p of
        PCid c \<Rightarrow> po_parse po (po_show po c) = Some c \<and> segment_ok (po_show po c)
      | PDomain d \<Rightarrow> p_typ p = Ipns \<and> po_parse po d = None \<and> segment_ok d) \<and>
     (\<exists>ps. (\<forall>s \<in> set ps. segment_ok s) \<and> (p_tail p = ps \<or> p_tail p = ps @ [[]]))"


subsection \<open>An instance\<close>

text \<open>Content ids whose text is a letter and a byte.\<close>

definition demo_paths :: "byte path_ops" where
  "demo_paths = \<lparr>po_parse = (\<lambda>s. case s of [b, c] \<Rightarrow> if b = 81 then Some c else None | _ \<Rightarrow> None), po_show = (\<lambda>c. [81, c]),
     po_multihash = (\<lambda>_. None), po_peer_cid = (\<lambda>_. 0)\<rparr>"

definition demo_path :: "byte path" where
  "demo_path = \<lparr>p_typ = Ipfs, p_root = PCid 109, p_tail = [[97, 98], [99], []]\<rparr>"


end
