(* ===== verification/Resolver.thy ===== *)
theory Resolver
  imports ResolverPath
begin

text \<open>
  The resolver (\<open>iroh-resolver/src/resolver.rs\<close>): from a path to a node, through flat and sharded directories or
  through the links of other formats, and the traversals of everything below a path. The content loader, the DNS
  servers and the library for the other formats are parameters; the loader's sessions are left out.
\<close>

section \<open>Codecs\<close>

text \<open>The codes of \<open>Codec\<close> (\<open>iroh-unixfs/src/codecs.rs\<close>).\<close>

definition codec_codes :: "u64 list" where
  "codec_codes =
     [0x0, 0x1, 0x2, 0x3, 0x4, 0x6, 0x11, 0x12, 0x13, 0x14, 0x15, 0x16, 0x17, 0x18, 0x19, 0x1a, 0x1b, 0x1c, 0x1d,
      0x1e, 0x20, 0x21, 0x22, 0x23, 0x29, 0x2a, 0x2f, 0x30, 0x31, 0x32, 0x33, 0x35, 0x36, 0x37, 0x38, 0x50, 0x51,
      0x55, 0x56, 0x60, 0x63, 0x70, 0x71, 0x72, 0x78, 0x7b, 0x7c, 0x81, 0x82, 0x83, 0x84, 0x85, 0x86, 0x90, 0x91,
      0x92, 0x93, 0x94, 0x95, 0x96, 0x97, 0x98, 0x99, 0x9a, 0xa0, 0xa1, 0xa2, 0xa3, 0xa4, 0xb0, 0xb1, 0xb2, 0xc0,
      0xc1, 0xca, 0xce, 0xd0, 0xd1, 0xd4, 0xd5, 0xd6, 0xe0, 0xe1, 0xe2, 0xe3, 0xe4, 0xe5, 0xe6, 0xe7, 0xea, 0xeb,
      0xec, 0xed, 0xee, 0xf0, 0xf1, 0xfa, 0xfb, 0x111, 0x113, 0x114, 0x115, 0x122, 0x129, 0x12d, 0x12e, 0x190, 0x196,
      0x1a5, 0x1bb, 0x1bc, 0x1bd, 0x1be, 0x1bf, 0x1c0, 0x1c6, 0x1cc, 0x1d1, 0x1dd, 0x1de, 0x1df, 0x1e0, 0x1f0, 0x200,
      0x201, 0x202, 0x301, 0x302, 0x400, 0x401, 0x900, 0x910, 0x1012, 0x1013, 0x1014, 0x1015, 0x1022, 0x1052, 0x1053,
      0x1054, 0x1055, 0x1100, 0x1200, 0x1201, 0x1202, 0x1203, 0x1204, 0x1205, 0x1300, 0x1301, 0x1302, 0x1d01, 0x534d,
      0xb201, 0xb202, 0xb203, 0xb204, 0xb205, 0xb206, 0xb207, 0xb208, 0xb209, 0xb20a, 0xb20b, 0xb20c, 0xb20d, 0xb20e,
      0xb20f, 0xb210, 0xb211, 0xb212, 0xb213, 0xb214, 0xb215, 0xb216, 0xb217, 0xb218, 0xb219, 0xb21a, 0xb21b, 0xb21c,
      0xb21d, 0xb21e, 0xb21f, 0xb220, 0xb221, 0xb222, 0xb223, 0xb224, 0xb225, 0xb226, 0xb227, 0xb228, 0xb229, 0xb22a,
      0xb22b, 0xb22c, 0xb22d, 0xb22e, 0xb22f, 0xb230, 0xb231, 0xb232, 0xb233, 0xb234, 0xb235, 0xb236, 0xb237, 0xb238,
      0xb239, 0xb23a, 0xb23b, 0xb23c, 0xb23d, 0xb23e, 0xb23f, 0xb240, 0xb241, 0xb242, 0xb243, 0xb244, 0xb245, 0xb246,
      0xb247, 0xb248, 0xb249, 0xb24a, 0xb24b, 0xb24c, 0xb24d, 0xb24e, 0xb24f, 0xb250, 0xb251, 0xb252, 0xb253, 0xb254,
      0xb255, 0xb256, 0xb257, 0xb258, 0xb259, 0xb25a, 0xb25b, 0xb25c, 0xb25d, 0xb25e, 0xb25f, 0xb260, 0xb301, 0xb302,
      0xb303, 0xb304, 0xb305, 0xb306, 0xb307, 0xb308, 0xb309, 0xb30a, 0xb30b, 0xb30c, 0xb30d, 0xb30e, 0xb30f, 0xb310,
      0xb311, 0xb312, 0xb313, 0xb314, 0xb315, 0xb316, 0xb317, 0xb318, 0xb319, 0xb31a, 0xb31b, 0xb31c, 0xb31d, 0xb31e,
      0xb31f, 0xb320, 0xb321, 0xb322, 0xb323, 0xb324, 0xb325, 0xb326, 0xb327, 0xb328, 0xb329, 0xb32a, 0xb32b, 0xb32c,
      0xb32d, 0xb32e, 0xb32f, 0xb330, 0xb331, 0xb332, 0xb333, 0xb334, 0xb335, 0xb336, 0xb337, 0xb338, 0xb339, 0xb33a,
      0xb33b, 0xb33c, 0xb33d, 0xb33e, 0xb33f, 0xb340, 0xb341, 0xb342, 0xb343, 0xb344, 0xb345, 0xb346, 0xb347, 0xb348,
      0xb349, 0xb34a, 0xb34b, 0xb34c, 0xb34d, 0xb34e, 0xb34f, 0xb350, 0xb351, 0xb352, 0xb353, 0xb354, 0xb355, 0xb356,
      0xb357, 0xb358, 0xb359, 0xb35a, 0xb35b, 0xb35c, 0xb35d, 0xb35e, 0xb35f, 0xb360, 0xb361, 0xb362, 0xb363, 0xb364,
      0xb365, 0xb366, 0xb367, 0xb368, 0xb369, 0xb36a, 0xb36b, 0xb36c, 0xb36d, 0xb36e, 0xb36f, 0xb370, 0xb371, 0xb372,
      0xb373, 0xb374, 0xb375, 0xb376, 0xb377, 0xb378, 0xb379, 0xb37a, 0xb37b, 0xb37c, 0xb37d, 0xb37e, 0xb37f, 0xb380,
      0xb381, 0xb382, 0xb383, 0xb384, 0xb385, 0xb386, 0xb387, 0xb388, 0xb389, 0xb38a, 0xb38b, 0xb38c, 0xb38d, 0xb38e,
      0xb38f, 0xb390, 0xb391, 0xb392, 0xb393, 0xb394, 0xb395, 0xb396, 0xb397, 0xb398, 0xb399, 0xb39a, 0xb39b, 0xb39c,
      0xb39d, 0xb39e, 0xb39f, 0xb3a0, 0xb3a1, 0xb3a2, 0xb3a3, 0xb3a4, 0xb3a5, 0xb3a6, 0xb3a7, 0xb3a8, 0xb3a9, 0xb3aa,
      0xb3ab, 0xb3ac, 0xb3ad, 0xb3ae, 0xb3af, 0xb3b0, 0xb3b1, 0xb3b2, 0xb3b3, 0xb3b4, 0xb3b5, 0xb3b6, 0xb3b7, 0xb3b8,
      0xb3b9, 0xb3ba, 0xb3bb, 0xb3bc, 0xb3bd, 0xb3be, 0xb3bf, 0xb3c0, 0xb3c1, 0xb3c2, 0xb3c3, 0xb3c4, 0xb3c5, 0xb3c6,
      0xb3c7, 0xb3c8, 0xb3c9, 0xb3ca, 0xb3cb, 0xb3cc, 0xb3cd, 0xb3ce, 0xb3cf, 0xb3d0, 0xb3d1, 0xb3d2, 0xb3d3, 0xb3d4,
      0xb3d5, 0xb3d6, 0xb3d7, 0xb3d8, 0xb3d9, 0xb3da, 0xb3db, 0xb3dc, 0xb3dd, 0xb3de, 0xb3df, 0xb3e0, 0xb401, 0xb402,
      0xcc01, 0xce11, 0xf101, 0xf102, 0x706c61, 0x807124, 0x817124, 0x947124, 0x957124, 0xa27124, 0xa37124, 0xb19910,
      0xb29910, 0xb39910, 0xb49910]"

definition Codec_DagCbor :: u64 where
  "Codec_DagCbor = 0x71"

definition Codec_DagJson :: u64 where
  "Codec_DagJson = 0x129"

definition Codec_try_from :: "u64 \<Rightarrow> u64 option" where
  "Codec_try_from c = (if c \<in> set codec_codes then Some c else None)"

text \<open>The formats of the library, with their codes.\<close>

datatype ipld_codec = IRaw | IDagCbor | IDagJson | IDagPb

definition IpldCodec_try_from :: "u64 \<Rightarrow> ipld_codec option" where
  "IpldCodec_try_from c =
     (if c = Codec_Raw then Some IRaw else if c = Codec_DagCbor then Some IDagCbor
      else if c = Codec_DagJson then Some IDagJson else if c = Codec_DagPb then Some IDagPb else None)"

text \<open>
  The library: reading and writing a value, the content id of a link, taking an element by position or key, the values of
  an iteration (the value itself first), the string of a string, the links in a value, the links in a block as a
  sorted list without duplicates, and such a list of any links.
\<close>

record ('cid, 'i) ipld_ops =
  il_decode :: "ipld_codec \<Rightarrow> bytes \<Rightarrow> 'i option"
  il_encode :: "ipld_codec \<Rightarrow> 'i \<Rightarrow> bytes option"
  il_link :: "'i \<Rightarrow> 'cid option"
  il_take_index :: "nat \<Rightarrow> 'i \<Rightarrow> 'i option"
  il_take_key :: "bytes \<Rightarrow> 'i \<Rightarrow> 'i option"
  il_iter :: "'i \<Rightarrow> 'i list"
  il_string :: "'i \<Rightarrow> bytes option"
  il_references :: "'i \<Rightarrow> 'cid list"
  il_block_links :: "ipld_codec \<Rightarrow> bytes \<Rightarrow> 'cid list option"
  il_sort_dedup :: "'cid list \<Rightarrow> 'cid list"

datatype res_error =
    RUfs ufs_error | RDns dns_error | RUnknownCodec | RUnsupportedCodec | RInvalidIpld | RLinkNotFound | RUnexpectedType
  | RPartNotFound | RNoLinks | RNoName | RNameNotString | RNoHash | RInvalidDomain | RNoDnslink | RTooManyLookups
  | RIsDirectory | RRecursionLimit | RUnsupportedHash | RInvalidHash | RWrongLinks | RNoRoot | RSeekEmpty | RPanic

definition lift_ufs :: "ufs_error + 'a \<Rightarrow> res_error + 'a" where
  "lift_ufs r = (case r of Inl e \<Rightarrow> Inl (RUfs e) | Inr a \<Rightarrow> Inr a)"

section \<open>Loading\<close>

datatype source = Bitswap | Http bytes | Store bytes

record loaded_cid =
  lc_data :: bytes
  lc_source :: source

type_synonym 'cid loader = "'cid \<Rightarrow> ufs_error + loaded_cid"

definition load_data :: "'cid loader \<Rightarrow> 'cid \<Rightarrow> ufs_error + bytes" where
  "load_data loader c = result_bind (loader c) (\<lambda>l. Inr (lc_data l))"

definition parse_links :: "'cid ufs_ops \<Rightarrow> ('cid, 'i) ipld_ops \<Rightarrow> 'cid \<Rightarrow> bytes \<Rightarrow> res_error + 'cid list" where
  "parse_links ops il cid bs =
     result_bind (ok_or RUnknownCodec (Codec_try_from (uc_codec ops cid))) (\<lambda>codec.
     result_bind
       (if codec = Codec_DagCbor then Inr IDagCbor
        else if codec = Codec_DagPb then Inr IDagPb
        else if codec = Codec_DagJson then Inr IDagJson
        else if codec = Codec_Raw then Inr IRaw
        else Inl RUnsupportedCodec) (\<lambda>codec.
     ok_or RInvalidIpld (il_block_links il codec bs)))"

text \<open>
  \<open>Block::validate\<close>; \<open>digest_of\<close> is the digest of some data by the hash function of a content id, if
  it is supported, and \<open>digest\<close> the digest in a content id.
\<close>

definition Block_validate ::
  "'cid ufs_ops \<Rightarrow> ('cid, 'i) ipld_ops \<Rightarrow> ('cid \<Rightarrow> bytes \<Rightarrow> bytes option) \<Rightarrow> ('cid \<Rightarrow> bytes) \<Rightarrow> 'cid ufs_block \<Rightarrow> res_error + unit" where
  "Block_validate ops il digest_of digest b =
     result_bind (ok_or RUnsupportedHash (digest_of (ub_cid b) (ub_data b))) (\<lambda>mh.
     if mh \<noteq> digest (ub_cid b) then Inl RInvalidHash
     else result_bind (parse_links ops il (ub_cid b) (ub_data b)) (\<lambda>expected_links.
          if expected_links = il_sort_dedup il (ub_links b) then Inr () else Inl RWrongLinks))"

text \<open>The content ids below are compared, as keys of the map that is the store.\<close>

definition store_of :: "'cid ufs_block list \<Rightarrow> 'cid loader" where
  "store_of blocks cid =
     (case map_of (rev (map (\<lambda>b. (ub_cid b, ub_data b)) blocks)) cid of
        None \<Rightarrow> Inl IoError
      | Some d \<Rightarrow> Inr \<lparr>lc_data = d, lc_source = Bitswap\<rparr>)"

definition stream_to_resolver ::
  "'cid ufs_ops \<Rightarrow> ('cid, 'i) ipld_ops \<Rightarrow> ('cid \<Rightarrow> bytes \<Rightarrow> bytes option) \<Rightarrow> ('cid \<Rightarrow> bytes) \<Rightarrow> (ufs_error + 'cid ufs_block) list \<Rightarrow>
   res_error + 'cid \<times> 'cid loader" where
  "stream_to_resolver ops il digest_of digest stream =
     result_bind (lift_ufs (collect stream)) (\<lambda>blocks.
     result_bind (fold_result (\<lambda>b _. Block_validate ops il digest_of digest b) blocks ()) (\<lambda>_.
     if blocks = [] then Inl RNoRoot else Inr (ub_cid (last blocks), store_of blocks)))"

section \<open>Results\<close>

datatype out_type = OutTypeDagPb | OutTypeUnixfs | OutTypeDagCbor | OutTypeDagJson | OutTypeRaw

datatype unixfs_type = UDir | UFile | USymlink

datatype ('cid, 'i) out_content =
    OutDagPb 'i bytes | OutUnixfs "'cid unixfs_node" | OutDagCbor 'i bytes | OutDagJson 'i bytes | OutRaw 'i bytes

fun OutContent_typ :: "('cid, 'i) out_content \<Rightarrow> out_type" where
  "OutContent_typ (OutDagPb _ _) = OutTypeDagPb"
| "OutContent_typ (OutUnixfs _) = OutTypeUnixfs"
| "OutContent_typ (OutDagCbor _ _) = OutTypeDagCbor"
| "OutContent_typ (OutDagJson _ _) = OutTypeDagJson"
| "OutContent_typ (OutRaw _ _) = OutTypeRaw"

fun OutContent_links :: "'cid ufs_ops \<Rightarrow> ('cid, 'i) ipld_ops \<Rightarrow> ('cid, 'i) out_content \<Rightarrow> res_error + 'cid list" where
  "OutContent_links ops il (OutDagPb i _) = Inr (il_references il i)"
| "OutContent_links ops il (OutDagCbor i _) = Inr (il_references il i)"
| "OutContent_links ops il (OutDagJson i _) = Inr (il_references il i)"
| "OutContent_links ops il (OutRaw i _) = Inr (il_references il i)"
| "OutContent_links ops il (OutUnixfs u) =
     result_bind (lift_ufs (collect (UnixfsNode_links ops u))) (\<lambda>ls. Inr (map l_cid ls))"

record 'cid metadata =
  m_path :: "'cid path"
  m_size :: "u64 option"
  m_typ :: out_type
  m_unixfs_type :: "unixfs_type option"
  m_resolved_path :: "'cid list"
  m_source :: source

record ('cid, 'i) out =
  o_metadata :: "'cid metadata"
  o_content :: "('cid, 'i) out_content"

definition Out_is_mutable :: "('cid, 'i) out \<Rightarrow> bool" where
  "Out_is_mutable o' \<longleftrightarrow> p_typ (m_path (o_metadata o')) = Ipns"

definition Out_is_dir :: "('cid, 'i) out \<Rightarrow> bool" where
  "Out_is_dir o' = (case o_content o' of OutUnixfs u \<Rightarrow> is_dir u | _ \<Rightarrow> False)"

definition Out_is_symlink :: "('cid, 'i) out \<Rightarrow> bool" where
  "Out_is_symlink o' \<longleftrightarrow> m_unixfs_type (o_metadata o') = Some USymlink"

definition named_links :: "'cid ufs_ops \<Rightarrow> ('cid, 'i) ipld_ops \<Rightarrow> ('cid, 'i) out \<Rightarrow> res_error + (bytes option \<times> 'cid) list" where
  "named_links ops il o' =
     (case o_content o' of
        OutUnixfs u \<Rightarrow>
          result_bind (lift_ufs (collect (UnixfsNode_links ops u))) (\<lambda>ls. Inr (map (\<lambda>l. (l_name l, l_cid l)) ls))
      | c \<Rightarrow> result_bind (OutContent_links ops il c) (\<lambda>ls. Inr (map (Pair None) ls)))"

text \<open>The outer \<open>None\<close> is running out of \<open>fuel\<close>, see \<open>Hamt_children\<close>; the inner one is \<open>Ok(None)\<close>.\<close>

definition unixfs_read_dir ::
  "'cid ufs_ops \<Rightarrow> 'cid loader \<Rightarrow> nat \<Rightarrow> ('cid, 'i) out \<Rightarrow> (ufs_error + 'cid link) list option option" where
  "unixfs_read_dir ops loader fuel o' =
     (case o_content o' of OutUnixfs u \<Rightarrow> as_child_reader ops (load_data loader) fuel u | _ \<Rightarrow> None)"

subsection \<open>Reading a result\<close>

record bytes_reader =
  br_pos :: nat
  br_bytes :: bytes

datatype 'cid pretty_reader = PBytes out_type bytes_reader | PUnixfs "'cid content_reader"

definition truncated :: "nat option \<Rightarrow> bytes \<Rightarrow> bytes" where
  "truncated pos_max bs = (case pos_max of None \<Rightarrow> bs | Some m \<Rightarrow> take m bs)"

definition bytes_pretty :: "out_type \<Rightarrow> nat option \<Rightarrow> bytes \<Rightarrow> res_error + 'cid pretty_reader" where
  "bytes_pretty t pos_max bs = Inr (PBytes t \<lparr>br_pos = 0, br_bytes = truncated pos_max bs\<rparr>)"

definition pretty :: "'cid ufs_ops \<Rightarrow> nat option \<Rightarrow> ('cid, 'i) out \<Rightarrow> res_error + 'cid pretty_reader" where
  "pretty ops pos_max o' =
     (case o_content o' of
        OutDagPb _ bs \<Rightarrow> bytes_pretty OutTypeDagPb pos_max bs
      | OutDagCbor _ bs \<Rightarrow> bytes_pretty OutTypeDagCbor pos_max bs
      | OutDagJson _ bs \<Rightarrow> bytes_pretty OutTypeDagJson pos_max bs
      | OutRaw _ bs \<Rightarrow> bytes_pretty OutTypeRaw pos_max bs
      | OutUnixfs u \<Rightarrow>
          result_bind (lift_ufs (into_content_reader ops pos_max u)) (\<lambda>r.
          result_bind (ok_or RIsDirectory r) (\<lambda>reader. Inr (PUnixfs reader))))"

definition BytesReader_size :: "bytes_reader \<Rightarrow> u64 option" where
  "BytesReader_size r = Some (of_nat (length (br_bytes r)))"

fun pretty_size :: "'cid pretty_reader \<Rightarrow> u64 option" where
  "pretty_size (PBytes _ r) = BytesReader_size r"
| "pretty_size (PUnixfs r) = reader_size r"

text \<open>The bytes that are read and the reader after it; \<open>None\<close> is a panic.\<close>

definition BytesReader_read :: "bool \<Rightarrow> nat \<Rightarrow> bytes_reader \<Rightarrow> (bytes \<times> bytes_reader) option" where
  "BytesReader_read oc remaining r =
     Option.bind (slice_from (br_bytes r) (br_pos r)) (\<lambda>data.
     Option.bind (read_data_to_buf oc (br_pos r) (Some (length (br_bytes r))) data remaining) (\<lambda>out.
     Some (out, r\<lparr>br_pos := br_pos r + length out\<rparr>)))"

definition BytesReader_seek :: "bool \<Rightarrow> seek_from \<Rightarrow> bytes_reader \<Rightarrow> res_error + bytes_reader" where
  "BytesReader_seek oc position r =
     (let data_len = length (br_bytes r)
      in if data_len = 0 then Inl RSeekEmpty
         else result_bind
           (case position of
              SeekStart pos \<Rightarrow> Inr (min (data_len - 1) (unat pos))
            | SeekEnd pos \<Rightarrow>
                result_bind (ok_or RPanic (i64_add oc (as_i64 data_len) pos)) (\<lambda>s.
                let i = s smod as_i64 data_len
                in Inr (as_usize (if i < 0 then i + as_i64 data_len else i)))
            | SeekCurrent pos \<Rightarrow>
                result_bind (ok_or RPanic (i64_add oc (as_i64 (br_pos r)) pos)) (\<lambda>s.
                Inr (as_usize (max 0 (min (as_i64 data_len - 1) s)))))
           (\<lambda>p. Inr (r\<lparr>br_pos := p\<rparr>)))"

section \<open>Resolving a path\<close>

text \<open>
  The environment of the resolver: the codecs, the library for the other formats, the text of content ids, the DNS
  servers, the hash of the shards and the loader.
\<close>

record ('cid, 'i) res_env =
  re_ops :: "'cid ufs_ops"
  re_ipld :: "('cid, 'i) ipld_ops"
  re_paths :: "'cid path_ops"
  re_dns :: dns_resolver
  re_murmur3 :: "bytes \<Rightarrow> 128 word"
  re_loader :: "'cid loader"

definition load_cid :: "('cid, 'i) res_env \<Rightarrow> 'cid \<Rightarrow> res_error + loaded_cid" where
  "load_cid env cid = lift_ufs (re_loader env cid)"

text \<open>\<open>load_ipns_record\<close> is not implemented and panics.\<close>

definition load_ipns_record :: "'cid \<Rightarrow> res_error + 'cid" where
  "load_ipns_record cid = Inl RPanic"

definition MAX_LOOKUPS :: nat where
  "MAX_LOOKUPS = 16"

fun lookup_loop :: "('cid, 'i) res_env \<Rightarrow> nat \<Rightarrow> 'cid path \<Rightarrow> res_error + 'cid" where
  "lookup_loop env 0 current = Inl RTooManyLookups"
| "lookup_loop env (Suc n) current =
     (case p_typ current of
        Ipfs \<Rightarrow> (case p_root current of PCid c \<Rightarrow> Inr c | PDomain _ \<Rightarrow> Inl RInvalidDomain)
      | Ipns \<Rightarrow>
          (case p_root current of
             PCid c \<Rightarrow> result_bind (load_ipns_record c) (\<lambda>c. lookup_loop env n (Path_from_cid c))
           | PDomain domain \<Rightarrow>
               (case resolve_dnslink (re_paths env) (re_dns env) domain of
                  Inl e \<Rightarrow> Inl (RDns e)
                | Inr [] \<Rightarrow> Inl RNoDnslink
                | Inr (r # _) \<Rightarrow> lookup_loop env n r)))"

definition resolve_path_to_cid :: "('cid, 'i) res_env \<Rightarrow> 'cid path \<Rightarrow> res_error + 'cid" where
  "resolve_path_to_cid env root = lookup_loop env MAX_LOOKUPS root"

definition resolve_root :: "('cid, 'i) res_env \<Rightarrow> 'cid path \<Rightarrow> res_error + 'cid \<times> loaded_cid" where
  "resolve_root env root =
     result_bind (resolve_path_to_cid env root) (\<lambda>cid.
     result_bind (load_cid env cid) (\<lambda>loaded. Inr (cid, loaded)))"

subsection \<open>UnixFS\<close>

definition inner_resolve ::
  "('cid, 'i) res_env \<Rightarrow> bytes \<Rightarrow> 'cid unixfs_node \<times> 'cid list \<Rightarrow> res_error + 'cid unixfs_node \<times> 'cid list" where
  "inner_resolve env part = (\<lambda>(current, resolved_path).
     case current of
       Directory _ \<Rightarrow>
         result_bind (lift_ufs (get_link_by_name (re_ops env) current part)) (\<lambda>l.
         result_bind (ok_or RLinkNotFound l) (\<lambda>next_link.
         result_bind (load_cid env (l_cid next_link)) (\<lambda>loaded.
         result_bind (lift_ufs (UnixfsNode_decode (re_ops env) (l_cid next_link) (lc_data loaded))) (\<lambda>next_node.
         Inr (next_node, resolved_path @ [l_cid next_link])))))
     | HamtShard _ hamt \<Rightarrow>
         result_bind (lift_ufs (Hamt_get (re_ops env) (load_data (re_loader env)) (re_murmur3 env) hamt part)) (\<lambda>r.
         result_bind (ok_or RLinkNotFound r) (\<lambda>(next_link, next_node).
         Inr (next_node, resolved_path @ [l_cid next_link])))
     | _ \<Rightarrow> Inl RUnexpectedType)"

fun unixfs_type_of :: "data_type option \<Rightarrow> unixfs_type option" where
  "unixfs_type_of (Some TDirectory) = Some UDir"
| "unixfs_type_of (Some THamtShard) = Some UDir"
| "unixfs_type_of (Some TFile) = Some UFile"
| "unixfs_type_of (Some TRaw) = Some UFile"
| "unixfs_type_of (Some TSymlink) = Some USymlink"
| "unixfs_type_of (Some TMetadata) = None"
| "unixfs_type_of None = Some UFile"

definition non_empty :: "bytes list \<Rightarrow> bytes list" where
  "non_empty parts = filter (\<lambda>s. s \<noteq> []) parts"

subsection \<open>Other formats\<close>

definition load_ipld_link :: "('cid, 'i) res_env \<Rightarrow> 'cid \<Rightarrow> res_error + ipld_codec \<times> 'i" where
  "load_ipld_link env cid =
     result_bind (ok_or RUnknownCodec (IpldCodec_try_from (uc_codec (re_ops env) cid))) (\<lambda>codec.
     result_bind (load_cid env cid) (\<lambda>loaded.
     result_bind (ok_or RInvalidIpld (il_decode (re_ipld env) codec (lc_data loaded))) (\<lambda>i. Inr (codec, i))))"

definition s_Links :: bytes where
  "s_Links = [76, 105, 110, 107, 115]"

definition s_Name :: bytes where
  "s_Name = [78, 97, 109, 101]"

definition s_Hash :: bytes where
  "s_Hash = [72, 97, 115, 104]"

fun find_dagpb_link :: "('cid, 'i) ipld_ops \<Rightarrow> bytes \<Rightarrow> 'i list \<Rightarrow> res_error + 'i" where
  "find_dagpb_link il name [] = Inl RLinkNotFound"
| "find_dagpb_link il name (l # ls) =
     result_bind (ok_or RNoName (il_take_key il s_Name l)) (\<lambda>n.
     case il_string il n of
       Some s \<Rightarrow> if s = name then ok_or RNoHash (il_take_key il s_Hash l) else find_dagpb_link il name ls
     | None \<Rightarrow> Inl RNameNotString)"

definition get_dagpb_link :: "('cid, 'i) ipld_ops \<Rightarrow> 'i \<Rightarrow> bytes \<Rightarrow> res_error + 'i" where
  "get_dagpb_link il i name =
     result_bind (ok_or RNoLinks (il_take_key il s_Links i)) (\<lambda>links.
     find_dagpb_link il name (tl (il_iter il links)))"

text \<open>\<open>part.parse::<usize>()\<close>.\<close>

definition part_index :: "bytes \<Rightarrow> nat option" where
  "part_index s =
     (let ds = (case s of b # r \<Rightarrow> if b = 43 then r else s | [] \<Rightarrow> []);
          v = foldl (\<lambda>n b. 10 * n + (unat b - 48)) 0 ds
      in if ds \<noteq> [] \<and> list_all (\<lambda>b. 48 \<le> b \<and> b \<le> 57) ds \<and> v < 2 ^ 64 then Some v else None)"

definition follow_link :: "('cid, 'i) res_env \<Rightarrow> ipld_codec \<times> 'i \<Rightarrow> res_error + ipld_codec \<times> 'i" where
  "follow_link env = (\<lambda>(codec, current).
     case il_link (re_ipld env) current of Some c \<Rightarrow> load_ipld_link env c | None \<Rightarrow> Inr (codec, current))"

definition ipld_step :: "('cid, 'i) res_env \<Rightarrow> bytes \<Rightarrow> ipld_codec \<times> 'i \<Rightarrow> res_error + ipld_codec \<times> 'i" where
  "ipld_step env part st =
     result_bind (follow_link env st) (\<lambda>(codec, current).
     result_bind
       (if codec = IDagPb then get_dagpb_link (re_ipld env) current part
        else ok_or RPartNotFound
               (case part_index part of
                  Some i \<Rightarrow> il_take_index (re_ipld env) i current
                | None \<Rightarrow> il_take_key (re_ipld env) part current)) (\<lambda>current.
     Inr (codec, current)))"

definition resolve_ipld_path ::
  "('cid, 'i) res_env \<Rightarrow> ipld_codec \<Rightarrow> 'i \<Rightarrow> bytes list \<Rightarrow> res_error + ipld_codec \<times> 'i" where
  "resolve_ipld_path env codec root path =
     result_bind (fold_result (ipld_step env) (non_empty path) (codec, root)) (follow_link env)"

fun ipld_out :: "ipld_codec \<Rightarrow> 'i \<Rightarrow> bytes \<Rightarrow> ('cid, 'i) out_content" where
  "ipld_out IRaw i bs = OutRaw i bs"
| "ipld_out IDagCbor i bs = OutDagCbor i bs"
| "ipld_out IDagJson i bs = OutDagJson i bs"
| "ipld_out IDagPb i bs = OutDagPb i bs"

definition resolve_ipld ::
  "('cid, 'i) res_env \<Rightarrow> 'cid path \<Rightarrow> 'cid \<Rightarrow> loaded_cid \<Rightarrow> res_error + ('cid, 'i) out" where
  "resolve_ipld env root_path cid loaded =
     result_bind (ok_or RUnknownCodec (IpldCodec_try_from (uc_codec (re_ops env) cid))) (\<lambda>codec.
     result_bind (ok_or RInvalidIpld (il_decode (re_ipld env) codec (lc_data loaded))) (\<lambda>i.
     result_bind (resolve_ipld_path env codec i (p_tail root_path)) (\<lambda>(codec, i).
     result_bind
       (if p_tail root_path = [] then Inr (lc_data loaded) else ok_or RInvalidIpld (il_encode (re_ipld env) codec i)) (\<lambda>bs.
     let content = ipld_out codec i bs
     in Inr \<lparr>o_metadata = \<lparr>m_path = root_path, m_size = Some (of_nat (length bs)), m_typ = OutContent_typ content,
               m_unixfs_type = None, m_resolved_path = [cid], m_source = lc_source loaded\<rparr>,
             o_content = content\<rparr>))))"

subsection \<open>Any path\<close>

text \<open>A panic while the root is decoded is not an error that is tried as another format.\<close>

definition resolve_dag_pb_or_unixfs ::
  "('cid, 'i) res_env \<Rightarrow> 'cid path \<Rightarrow> 'cid \<Rightarrow> loaded_cid \<Rightarrow> res_error + ('cid, 'i) out" where
  "resolve_dag_pb_or_unixfs env root_path cid loaded =
     (case UnixfsNode_decode (re_ops env) cid (lc_data loaded) of
        Inr node \<Rightarrow>
          result_bind (fold_result (inner_resolve env) (non_empty (p_tail root_path)) (node, [cid])) (\<lambda>(current, resolved_path).
          Inr \<lparr>o_metadata = \<lparr>m_path = root_path, m_size = UnixfsNode_filesize current, m_typ = OutTypeUnixfs,
                 m_unixfs_type = unixfs_type_of (UnixfsNode_typ current), m_resolved_path = resolved_path,
                 m_source = lc_source loaded\<rparr>,
               o_content = OutUnixfs current\<rparr>)
      | Inl e \<Rightarrow> if e = Panicked then Inl RPanic else resolve_ipld env root_path cid loaded)"

definition resolve_with_ctx :: "('cid, 'i) res_env \<Rightarrow> 'cid path \<Rightarrow> bool \<Rightarrow> res_error + ('cid, 'i) out" where
  "resolve_with_ctx env path force_raw =
     result_bind (resolve_root env path) (\<lambda>(root_cid, loaded).
     result_bind (if force_raw then Inr Codec_Raw else ok_or RUnknownCodec (Codec_try_from (uc_codec (re_ops env) root_cid)))
       (\<lambda>codec.
     if codec = Codec_DagPb then resolve_dag_pb_or_unixfs env path root_cid loaded
     else if codec = Codec_DagCbor \<or> codec = Codec_DagJson \<or> codec = Codec_Raw then resolve_ipld env path root_cid loaded
     else Inl RUnsupportedCodec))"

definition resolve :: "('cid, 'i) res_env \<Rightarrow> 'cid path \<Rightarrow> res_error + ('cid, 'i) out" where
  "resolve env path = resolve_with_ctx env path False"

definition resolve_raw :: "('cid, 'i) res_env \<Rightarrow> 'cid path \<Rightarrow> res_error + ('cid, 'i) out" where
  "resolve_raw env path = resolve_with_ctx env path True"

section \<open>Traversals\<close>

text \<open>
  A stream is the list of its items and ends after the first error; \<open>None\<close> is a stream that does not end. The
  chunks of a node's links are resolved at the same time, and an error among them is seen after all of its chunk.
\<close>

fun resolve_links :: "('cid \<Rightarrow> res_error + 'o) \<Rightarrow> 'cid list \<Rightarrow> res_error + 'o list" where
  "resolve_links res [] = Inr []"
| "resolve_links res (l # ls) =
     result_bind (res l) (\<lambda>o'. result_bind (resolve_links res ls) (\<lambda>os. Inr (o' # os)))"

partial_function (option) mapped_loop ::
  "('cid \<Rightarrow> res_error + 'o) \<Rightarrow> ('o \<Rightarrow> res_error + 'cid list) \<Rightarrow> nat option \<Rightarrow> nat \<Rightarrow> 'o list \<Rightarrow> (res_error + 'o) list option" where
  "mapped_loop res links limit counter cids =
     (case cids of
        [] \<Rightarrow> Some []
      | current # rest \<Rightarrow>
          (case links current of
             Inl e \<Rightarrow> Some [Inl e]
           | Inr ls \<Rightarrow>
               if (case limit of None \<Rightarrow> False | Some m \<Rightarrow> counter + length ls > m) then Some [Inl RRecursionLimit]
               else (case resolve_links res ls of
                       Inl e \<Rightarrow> Some [Inl e]
                     | Inr os \<Rightarrow>
                         Option.bind (mapped_loop res links limit (counter + length ls) (rest @ os)) (\<lambda>s.
                         Some (Inr current # s)))))"

definition resolve_recursive_mapped ::
  "('cid, 'i) res_env \<Rightarrow> 'cid path \<Rightarrow> nat option \<Rightarrow> ('cid \<Rightarrow> res_error + 'o) \<Rightarrow> ('o \<Rightarrow> res_error + 'cid list) \<Rightarrow>
   (res_error + 'o) list option" where
  "resolve_recursive_mapped env root recursion_limit res links =
     (case result_bind (resolve_path_to_cid env root) res of
        Inl e \<Rightarrow> Some [Inl e]
      | Inr root_block \<Rightarrow> mapped_loop res links recursion_limit 0 [root_block])"

definition resolve_recursive :: "('cid, 'i) res_env \<Rightarrow> 'cid path \<Rightarrow> (res_error + ('cid, 'i) out) list option" where
  "resolve_recursive env root =
     resolve_recursive_mapped env root None (\<lambda>cid. resolve_with_ctx env (Path_from_cid cid) False)
       (\<lambda>o'. OutContent_links (re_ops env) (re_ipld env) (o_content o'))"

record 'cid out_raw =
  or_source :: source
  or_content :: bytes
  or_cid :: 'cid

definition OutRaw_from_loaded :: "'cid \<Rightarrow> loaded_cid \<Rightarrow> 'cid out_raw" where
  "OutRaw_from_loaded cid loaded = \<lparr>or_source = lc_source loaded, or_content = lc_data loaded, or_cid = cid\<rparr>"

definition resolve_recursive_raw ::
  "('cid, 'i) res_env \<Rightarrow> 'cid path \<Rightarrow> nat option \<Rightarrow> (res_error + 'cid out_raw) list option" where
  "resolve_recursive_raw env root recursion_limit =
     resolve_recursive_mapped env root recursion_limit
       (\<lambda>cid. result_bind (load_cid env cid) (\<lambda>loaded. Inr (OutRaw_from_loaded cid loaded)))
       (\<lambda>o'. parse_links (re_ops env) (re_ipld env) (or_cid o') (or_content o'))"

definition link_path :: "'cid path_ops \<Rightarrow> 'cid path \<Rightarrow> 'cid link \<Rightarrow> 'cid path" where
  "link_path po p l = Path_push (case l_name l of None \<Rightarrow> po_show po (l_cid l) | Some n \<Rightarrow> n) p"

partial_function (option) paths_loop ::
  "('cid, 'i) res_env \<Rightarrow> nat \<Rightarrow> ('cid path \<times> (res_error + ('cid, 'i) out)) list \<Rightarrow>
   (res_error + 'cid path \<times> ('cid, 'i) out) list option" where
  "paths_loop env fuel blocks =
     (case blocks of
        [] \<Rightarrow> Some []
      | (current_path, current_out) # rest \<Rightarrow>
          (case current_out of
             Inl e \<Rightarrow> Some [Inl e]
           | Inr current \<Rightarrow>
               if \<not> Out_is_dir current
               then Option.bind (paths_loop env fuel rest) (\<lambda>s. Some (Inr (current_path, current) # s))
               else (case unixfs_read_dir (re_ops env) (re_loader env) fuel current of
                       None \<Rightarrow> Some [Inl RPanic]
                     | Some None \<Rightarrow> None
                     | Some (Some items) \<Rightarrow>
                         (case collect items of
                            Inl e \<Rightarrow> Some [Inl (RUfs e)]
                          | Inr ls \<Rightarrow>
                              Option.bind
                                (paths_loop env fuel
                                  (rest @ map (\<lambda>l. (link_path (re_paths env) current_path l, resolve env (Path_from_cid (l_cid l)))) ls))
                                (\<lambda>s. Some (Inr (current_path, current) # s))))))"

definition resolve_recursive_with_paths ::
  "('cid, 'i) res_env \<Rightarrow> nat \<Rightarrow> 'cid path \<Rightarrow> (res_error + 'cid path \<times> ('cid, 'i) out) list option" where
  "resolve_recursive_with_paths env fuel root = paths_loop env fuel [(root, resolve env root)]"

end
