(* ===== verification/ResolveTree.thy ===== *)
theory ResolveTree
  imports Resolver
begin

text \<open>
  The resolver on the directories that the builder encodes: a path leads to the entry of that name, or to the error that
  says why there is none, and the traversals end.
\<close>

section \<open>Walking the entries\<close>

fun walk :: "entry \<Rightarrow> bytes list \<Rightarrow> res_error + entry" where
  "walk e [] = Inr e"
| "walk e (p # ps) =
     (case e of
        EDirectory d \<Rightarrow> (case child e p of None \<Rightarrow> Inl RLinkNotFound | Some e' \<Rightarrow> walk e' ps)
      | _ \<Rightarrow> Inl RUnexpectedType)"

text \<open>
  A lookup in a sharded directory goes on in a child that is a sharded directory itself, so the lookups of missing names
  are those in directories without such children.
\<close>

fun unnested :: "entry \<Rightarrow> bytes list \<Rightarrow> bool" where
  "unnested e [] = True"
| "unnested e (p # ps) =
     (case child e p of
        None \<Rightarrow> sharded e \<longrightarrow> (\<forall>c \<in> set (children e). \<not> sharded c)
      | Some e' \<Rightarrow> unnested e' ps)"

fun entry_type :: "entry \<Rightarrow> unixfs_type" where
  "entry_type (EFile _) = UFile"
| "entry_type (EDirectory _) = UDir"
| "entry_type (ESymlink _) = USymlink"

lemma tree_ok_entries:
  "tree_ok m t \<Longrightarrow> e \<in> set (tree_entries t) \<Longrightarrow> entry_ok m e"
  "trees_ok m tree \<Longrightarrow> e \<in> set (trees_entries tree) \<Longrightarrow> entry_ok m e"
  by (induction t and tree rule: tree_entries_trees_entries.induct) auto

lemma child_ok: "entry_ok m e \<Longrightarrow> child e p = Some e' \<Longrightarrow> entry_ok m e'"
proof -
  assume e: "entry_ok m e" "child e p = Some e'"
  then have "e' \<in> set (children e)" by (auto simp: child_def find_Some_iff)
  then show ?thesis using e(1) tree_ok_entries(1) by (cases e rule: children.cases) (auto simp: entries_ok_iff)
qed

lemma entry_at_type:
  assumes "entry_at ops load F e cid" and "loads ops load cid u" and "entry_ok m e"
  shows "unixfs_type_of (UnixfsNode_typ u) = Some (entry_type e)"
proof (cases e)
  case (EFile f)
  then show ?thesis using assms(1,2) by (cases u) auto
next
  case (EDirectory d)
  show ?thesis
  proof (cases d)
    case (Hamt name t)
    then obtain leafs where "tree_of 0 leafs t" using assms(3) EDirectory by auto
    then show ?thesis using assms(1,2) EDirectory Hamt by (cases t) (auto elim: tree_of_leafE)
  qed (use assms(1,2) EDirectory in auto)
qed (use assms(1,2) in auto)

lemma load_cid_loads:
  assumes "load_node ops (load_data (re_loader env)) cid = Inr u"
  shows "\<exists>loaded. load_cid env cid = Inr loaded \<and> UnixfsNode_decode ops cid (lc_data loaded) = Inr u"
  using assms
  by (auto simp: load_node_def load_data_def load_cid_def lift_ufs_def result_bind_def split: sum.splits)

text \<open>One step of the resolver is one step of the walk.\<close>

lemma inner_resolve_child:
  fixes env :: "('cid, 'i) res_env"
  defines "load \<equiv> load_data (re_loader env)" and "ops \<equiv> re_ops env"
  assumes "entry_at ops load F e cid" and "loads ops load cid u" and "entry_ok (re_murmur3 env) e" and "part \<noteq> []"
  shows "case e of
      EDirectory _ \<Rightarrow>
        (case child e part of
           None \<Rightarrow> unnested e [part] \<longrightarrow> inner_resolve env part (u, res) = Inl RLinkNotFound
         | Some e' \<Rightarrow> \<exists>c u'. inner_resolve env part (u, res) = Inr (u', res @ [c]) \<and> entry_at ops load F e' c \<and> loads ops load c u')
    | _ \<Rightarrow> inner_resolve env part (u, res) = Inl RUnexpectedType"
proof (cases e)
  case (EFile f)
  then show ?thesis using assms(3,4) by (cases u) (auto simp: inner_resolve_def)
next
  case (ESymlink s)
  then show ?thesis using assms(3,4) by (auto simp: inner_resolve_def)
next
  case (EDirectory d)
  have at: "directory_at ops load F d cid" using assms(3) EDirectory by simp
  show ?thesis
  proof (cases d)
    case (Basic name es)
    obtain n where n: "loads ops load cid (Directory n)"
      "case child e part of
         None \<Rightarrow> get_link_by_name ops (Directory n) part = Inr None
       | Some e' \<Rightarrow> \<exists>l. get_link_by_name ops (Directory n) part = Inr (Some l) \<and> entry_at ops load F e' (l_cid l)"
      using get_link_by_name_child[OF at[unfolded Basic], of part] EDirectory Basic by blast
    have u: "u = Directory n" using n(1) assms(4) by simp
    show ?thesis
    proof (cases "child e part")
      case None
      then show ?thesis using n(2) EDirectory u by (simp add: inner_resolve_def lift_ufs_def ops_def ok_or_def)
    next
      case (Some e')
      then obtain l where l: "get_link_by_name ops (Directory n) part = Inr (Some l)" "entry_at ops load F e' (l_cid l)"
        using n(2) by auto
      obtain u' where u': "loads ops load (l_cid l) u'" using tree_at_loads(1)[OF l(2)] by blast
      then obtain loaded where "load_cid env (l_cid l) = Inr loaded" "UnixfsNode_decode ops (l_cid l) (lc_data loaded) = Inr u'"
        using load_cid_loads[of ops env "l_cid l" u'] by (auto simp: load_def)
      then show ?thesis using Some l u u' EDirectory by (auto simp: inner_resolve_def lift_ufs_def ops_def ok_or_def)
    qed
  next
    case (Hamt name t)
    have ok: "directory_ok (re_murmur3 env) (Hamt name t)" using assms(5) EDirectory Hamt by simp
    obtain n hn where n: "loads ops load cid (HamtShard n hn)"
      "case child e part of
         None \<Rightarrow> (\<forall>c \<in> set (tree_entries t). \<not> sharded c) \<longrightarrow> Hamt_get ops load (re_murmur3 env) hn part = Inr None
       | Some e' \<Rightarrow> \<exists>l u. Hamt_get ops load (re_murmur3 env) hn part = Inr (Some (l, u)) \<and> entry_at ops load F e' (l_cid l) \<and>
           load_node ops load (l_cid l) = Inr u"
      using Hamt_get_child[OF at[unfolded Hamt] ok assms(6)] EDirectory Hamt by blast
    have u: "u = HamtShard n hn" using n(1) assms(4) by simp
    show ?thesis
    proof (cases "child e part")
      case None
      then show ?thesis using n(2) EDirectory Hamt u
        by (auto simp: inner_resolve_def lift_ufs_def ops_def load_def ok_or_def)
    next
      case (Some e')
      then obtain l u' where l: "Hamt_get ops load (re_murmur3 env) hn part = Inr (Some (l, u'))"
        "entry_at ops load F e' (l_cid l)" "load_node ops load (l_cid l) = Inr u'"
        using n(2) by auto
      then have "loads ops load (l_cid l) u'" using tree_at_loads(1)[OF l(2)] by auto
      then show ?thesis using Some l u EDirectory by (auto simp: inner_resolve_def lift_ufs_def ops_def load_def ok_or_def)
    qed
  qed
qed

lemma resolve_parts_walk:
  fixes env :: "('cid, 'i) res_env"
  defines "load \<equiv> load_data (re_loader env)" and "ops \<equiv> re_ops env"
  assumes "entry_at ops load F e cid" and "loads ops load cid u" and "entry_ok (re_murmur3 env) e" and "\<forall>p \<in> set parts. p \<noteq> []"
  shows "case walk e parts of
      Inl err \<Rightarrow> unnested e parts \<longrightarrow> fold_result (inner_resolve env) parts (u, res) = Inl err
    | Inr e' \<Rightarrow> \<exists>cids u'. fold_result (inner_resolve env) parts (u, res) = Inr (u', res @ cids) \<and> length cids = length parts \<and>
        entry_at ops load F e' (last (cid # cids)) \<and> loads ops load (last (cid # cids)) u' \<and> entry_ok (re_murmur3 env) e'"
  using assms(3-6)
proof (induction parts arbitrary: e cid u res)
  case (Cons p ps)
  note step = inner_resolve_child[where env = env and F = F, folded load_def ops_def, OF Cons.prems(1-3), of p res]
  have p: "p \<noteq> []" using Cons.prems(4) by simp
  show ?case
  proof (cases "\<exists>d. e = EDirectory d")
    case False
    then show ?thesis using step p by (cases e) auto
  next
    case True
    then obtain d where d: "e = EDirectory d" by blast
    show ?thesis
    proof (cases "child e p")
      case None
      then show ?thesis using step p d by simp
    next
      case (Some e')
      then obtain c u' where c: "inner_resolve env p (u, res) = Inr (u', res @ [c])" "entry_at ops load F e' c" "loads ops load c u'"
        using step p d by auto
      note IH = Cons.IH[OF c(2,3) child_ok[OF Cons.prems(3) Some], of "res @ [c]"]
      show ?thesis
      proof (cases "walk e' ps")
        case (Inl err)
        then show ?thesis using IH c(1) Some d Cons.prems(4) by simp
      next
        case (Inr e'')
        then obtain cids u'' where "fold_result (inner_resolve env) ps (u', res @ [c]) = Inr (u'', (res @ [c]) @ cids)"
          "length cids = length ps" "entry_at ops load F e'' (last (c # cids))" "loads ops load (last (c # cids)) u''"
          "entry_ok (re_murmur3 env) e''"
          using IH Cons.prems(4) by auto
        then show ?thesis using Inr c(1) Some d by (auto intro!: exI[of _ "c # cids"])
      qed
    qed
  qed
qed (use assms in auto)

lemma Codec_try_from_DagPb: "Codec_try_from Codec_DagPb = Some Codec_DagPb"
  by code_simp

lemma Codec_try_from_Raw: "Codec_try_from Codec_Raw = Some Codec_Raw"
  by code_simp

lemma resolve_ipfs:
  assumes "p_typ p = Ipfs" and "p_root p = PCid cid"
  shows "resolve_path_to_cid env p = Inr cid"
  using assms by (simp add: resolve_path_to_cid_def MAX_LOOKUPS_def numeral_nat)

lemma resolve_dag_pb:
  assumes "p_typ p = Ipfs" and "p_root p = PCid cid" and "loads (re_ops env) (load_data (re_loader env)) cid u"
    and "node_codec u = Codec_DagPb"
  shows "\<exists>src. resolve env p =
    result_bind (fold_result (inner_resolve env) (non_empty (p_tail p)) (u, [cid])) (\<lambda>(current, resolved_path).
      Inr \<lparr>o_metadata = \<lparr>m_path = p, m_size = UnixfsNode_filesize current, m_typ = OutTypeUnixfs,
             m_unixfs_type = unixfs_type_of (UnixfsNode_typ current), m_resolved_path = resolved_path, m_source = src\<rparr>,
           o_content = OutUnixfs current\<rparr>)"
proof -
  obtain loaded where "load_cid env cid = Inr loaded" "UnixfsNode_decode (re_ops env) cid (lc_data loaded) = Inr u"
    using load_cid_loads[of "re_ops env" env cid u] assms(3) by blast
  then show ?thesis
    using assms(3,4) Codec_try_from_DagPb resolve_ipfs[OF assms(1,2), of env]
    by (auto simp: resolve_def resolve_with_ctx_def resolve_root_def resolve_dag_pb_or_unixfs_def ok_or_def)
qed

text \<open>What a path below a stored directory resolves to.\<close>

definition resolved_to ::
  "('cid, 'i) res_env \<Rightarrow> (ufs_file \<Rightarrow> 'cid \<Rightarrow> bool) \<Rightarrow> 'cid path \<Rightarrow> entry \<Rightarrow> ('cid, 'i) out \<Rightarrow> bool" where
  "resolved_to env F p e out \<longleftrightarrow>
     (\<exists>u cids. o_content out = OutUnixfs u \<and> m_path (o_metadata out) = p \<and> m_resolved_path (o_metadata out) = cids \<and>
        length cids = Suc (length (non_empty (p_tail p))) \<and>
        m_unixfs_type (o_metadata out) = Some (entry_type e) \<and> entry_ok (re_murmur3 env) e \<and>
        entry_at (re_ops env) (load_data (re_loader env)) F e (last cids) \<and>
        loads (re_ops env) (load_data (re_loader env)) (last cids) u)"

lemma directory_node_codec:
  assumes "directory_at ops load F d cid" and "loads ops load cid u" and "directory_ok m d"
  shows "node_codec u = Codec_DagPb"
proof (cases d)
  case (Hamt name t)
  then obtain leafs where "tree_of 0 leafs t" using assms(3) by auto
  then show ?thesis using assms Hamt by (cases t) (auto elim: tree_of_leafE)
qed (use assms in auto)

lemma resolve_directory_walk:
  assumes "directory_at (re_ops env) (load_data (re_loader env)) F d cid" and "directory_ok (re_murmur3 env) d"
    and "p_typ p = Ipfs" and "p_root p = PCid cid"
  shows "case walk (EDirectory d) (non_empty (p_tail p)) of
      Inl err \<Rightarrow> unnested (EDirectory d) (non_empty (p_tail p)) \<longrightarrow> resolve env p = Inl err
    | Inr e \<Rightarrow> \<exists>out. resolve env p = Inr out \<and> resolved_to env F p e out"
proof -
  let ?parts = "non_empty (p_tail p)"
  have at: "entry_at (re_ops env) (load_data (re_loader env)) F (EDirectory d) cid" using assms(1) by simp
  obtain u where u: "loads (re_ops env) (load_data (re_loader env)) cid u" using tree_at_loads(2)[OF assms(1)] by blast
  obtain src where res: "resolve env p =
    result_bind (fold_result (inner_resolve env) ?parts (u, [cid])) (\<lambda>(current, resolved_path).
      Inr \<lparr>o_metadata = \<lparr>m_path = p, m_size = UnixfsNode_filesize current, m_typ = OutTypeUnixfs,
             m_unixfs_type = unixfs_type_of (UnixfsNode_typ current), m_resolved_path = resolved_path, m_source = src\<rparr>,
           o_content = OutUnixfs current\<rparr>)"
    using resolve_dag_pb[OF assms(3,4) u directory_node_codec[OF assms(1) u assms(2)]] by blast
  have "\<forall>p \<in> set ?parts. p \<noteq> []" by (simp add: non_empty_def)
  note walk = resolve_parts_walk[OF at u _ this, of "[cid]"]
  show ?thesis
  proof (cases "walk (EDirectory d) ?parts")
    case (Inl err)
    then show ?thesis using walk assms(2) res by simp
  next
    case (Inr e)
    then obtain cids u' where e: "fold_result (inner_resolve env) ?parts (u, [cid]) = Inr (u', [cid] @ cids)"
      "length cids = length ?parts" "entry_at (re_ops env) (load_data (re_loader env)) F e (last (cid # cids))"
      "loads (re_ops env) (load_data (re_loader env)) (last (cid # cids)) u'" "entry_ok (re_murmur3 env) e"
      using walk assms(2) by auto
    note ty = entry_at_type[OF e(3,4,5)]
    show ?thesis unfolding Inr res using e ty by (simp add: resolved_to_def)
  qed
qed

section \<open>Encoded directories\<close>

lemma resolved_file:
  assumes "ufs_laws (re_ops env)" and "resolved_to env (file_stored (re_ops env) oc open_file (load_data (re_loader env))) p (EFile f) out"
    and "stems_fit (re_ops env) degree" and "1 < degree" and "f_tree_builder f = Balanced degree"
    and "chunker_ok (f_chunker f)" and "file_reads open_file f = Inr reads" and "reads_ok reads" and "length (data_of reads) < 2 ^ 42"
  shows "\<exists>r. pretty (re_ops env) None out = Inr (PUnixfs r) \<and>
    delivers (re_ops env) oc (load_data (re_loader env)) r (data_of reads)"
proof -
  obtain u cid blocks where out: "o_content out = OutUnixfs u" "loads (re_ops env) (load_data (re_loader env)) cid u"
    "File_encode (re_ops env) oc open_file f = Inr (map Inr blocks)" "stored (load_data (re_loader env)) blocks"
    "cid = ub_cid (last blocks)"
    using assms(2) by (auto simp: resolved_to_def file_stored_def)
  from File_encode_root_at[OF assms(1,3-9), of oc] obtain blocks' where
    "File_encode (re_ops env) oc open_file f = Inr (map Inr blocks')"
    "\<forall>load. stored load blocks' \<longrightarrow> root_at (re_ops env) load (ub_cid (last blocks')) (data_of reads)"
    by (elim exE conjE) (rule that)
  moreover from this(1) out(3) have "blocks' = blocks" by (simp add: inj_map_eq_map[OF inj_Inr])
  ultimately have "root_at (re_ops env) (load_data (re_loader env)) cid (data_of reads)" using out(4,5) by simp
  from root_at_delivers[OF this, of oc] show ?thesis
    using out(1,2) by (auto simp: pretty_def lift_ufs_def ok_or_def)
qed

lemma resolved_symlink:
  assumes "resolved_to env F p (ESymlink s) out"
  shows "\<exists>u. o_content out = OutUnixfs u \<and> UnixfsNode_symlink u = Inr (Some (s_target s))"
  using assms by (auto simp: resolved_to_def UnixfsNode_symlink_def symlink_data_def)

lemma resolved_directory:
  assumes "resolved_to env F p (EDirectory d) out" and "\<forall>c \<in> set (children (EDirectory d)). Entry_name c \<noteq> []"
  shows "\<exists>items. unixfs_read_dir (re_ops env) (re_loader env) 8 out = Some (Some (map Inr items)) \<and>
    list_all2 (lists_entry (re_ops env) (load_data (re_loader env)) F) (children (EDirectory d)) items"
proof -
  obtain u cid where out: "o_content out = OutUnixfs u" "loads (re_ops env) (load_data (re_loader env)) cid u"
    "directory_at (re_ops env) (load_data (re_loader env)) F d cid" "directory_ok (re_murmur3 env) d"
    using assms(1) by (auto simp: resolved_to_def)
  from as_child_reader_lists[OF out(3,4) assms(2)] out(1,2) show ?thesis by (auto simp: unixfs_read_dir_def)
qed

lemma lists_entry_names:
  "list_all2 (lists_entry ops load F) es items \<Longrightarrow> map l_name items = map (\<lambda>c. Some (Entry_name c)) es"
  by (induction rule: list_all2_induct) (auto simp: lists_entry_def)

text \<open>What the result for an entry gives to its reader.\<close>

definition gives_entry :: "('cid, 'i) res_env \<Rightarrow> bool \<Rightarrow> (bytes \<Rightarrow> ufs_error + reads) \<Rightarrow> entry \<Rightarrow> ('cid, 'i) out \<Rightarrow> bool" where
  "gives_entry env oc open_file e out \<longleftrightarrow>
     m_unixfs_type (o_metadata out) = Some (entry_type e) \<and>
     (case e of
        EFile f \<Rightarrow>
          \<forall>degree reads. stems_fit (re_ops env) degree \<and> 1 < degree \<and> f_tree_builder f = Balanced degree \<and>
            chunker_ok (f_chunker f) \<and> file_reads open_file f = Inr reads \<and> reads_ok reads \<and> length (data_of reads) < 2 ^ 42 \<longrightarrow>
            (\<exists>r. pretty (re_ops env) None out = Inr (PUnixfs r) \<and>
               delivers (re_ops env) oc (load_data (re_loader env)) r (data_of reads))
      | ESymlink s \<Rightarrow> \<exists>u. o_content out = OutUnixfs u \<and> UnixfsNode_symlink u = Inr (Some (s_target s))
      | EDirectory d \<Rightarrow>
          (\<forall>c \<in> set (children e). Entry_name c \<noteq> []) \<longrightarrow>
          (\<exists>items. unixfs_read_dir (re_ops env) (re_loader env) 8 out = Some (Some (map Inr items)) \<and>
             map l_name items = map (\<lambda>c. Some (Entry_name c)) (children e)))"

lemma resolved_gives_entry:
  assumes "ufs_laws (re_ops env)" and "resolved_to env (file_stored (re_ops env) oc open_file (load_data (re_loader env))) p e out"
  shows "gives_entry env oc open_file e out"
proof -
  have "m_unixfs_type (o_metadata out) = Some (entry_type e)" using assms(2) by (auto simp: resolved_to_def)
  then show ?thesis
    using assms resolved_file[OF assms(1)] resolved_symlink resolved_directory lists_entry_names
    unfolding gives_entry_def by (cases e) (fastforce+)
qed

lemma encoded_directory_at:
  assumes "ufs_laws ops" and "directory_ok m d" and "Directory_encode ops oc open_file d = map Inr blocks" and "stored load blocks"
  shows "directory_at ops load (file_stored ops oc open_file load) d (ub_cid (last blocks))"
  using leavesD(2)[OF encode_leaves(2)[OF assms(1-3)] assms(4)] .

text \<open>C2: a path below a directory that was built and encoded resolves to the entry that the names lead to, through flat and sharded
  directories, from any store that has the blocks: a file is then read back byte for byte, a symbolic link has its target,
  and a directory lists the names of its entries.\<close>

theorem resolve_encoded:
  assumes "ufs_laws (re_ops env)" and "directory_ok (re_murmur3 env) d"
    and "Directory_encode (re_ops env) oc open_file d = map Inr blocks" and "stored (load_data (re_loader env)) blocks"
    and "p_typ p = Ipfs" and "p_root p = PCid (ub_cid (last blocks))" and "walk (EDirectory d) (non_empty (p_tail p)) = Inr e"
  shows "\<exists>out. resolve env p = Inr out \<and> gives_entry env oc open_file e out"
  using resolve_directory_walk[OF encoded_directory_at[OF assms(1-4)] assms(2,5,6)] assms(7) resolved_gives_entry[OF assms(1)]
  by auto


section \<open>The limit of a traversal\<close>

lemma mapped_loop_limit:
  "counter \<le> m \<Longrightarrow> \<exists>s. mapped_loop res links (Some m) counter cids = Some s \<and> length s \<le> length cids + (m - counter) + 1 \<and>
     (\<forall>x \<in> set (butlast s). \<not> isl x)"
proof (induction "length cids + (m - counter)" arbitrary: cids counter rule: less_induct)
  case less
  show ?case
  proof (cases cids)
    case (Cons current rest)
    show ?thesis
    proof (cases "\<exists>ls os. links current = Inr ls \<and> counter + length ls \<le> m \<and> resolve_links res ls = Inr os")
      case True
      then obtain ls os where ls: "links current = Inr ls" "counter + length ls \<le> m" "resolve_links res ls = Inr os" by blast
      have "length os = length ls" if "resolve_links res ls = Inr os" for ls os
        using that by (induction ls arbitrary: os) (auto simp: result_bind_def split: sum.splits)
      then have len: "length os = length ls" using ls(3) .
      obtain s where "mapped_loop res links (Some m) (counter + length ls) (rest @ os) = Some s"
        "length s \<le> length (rest @ os) + (m - (counter + length ls)) + 1" "\<forall>x \<in> set (butlast s). \<not> isl x"
        using less.hyps[of "rest @ os" "counter + length ls"] ls(2) len Cons by auto
      then show ?thesis using ls len Cons by (subst mapped_loop.simps) auto
    next
      case False
      then have "\<exists>e. mapped_loop res links (Some m) counter cids = Some [Inl e]"
        using Cons by (subst mapped_loop.simps) (auto split: sum.splits)
      then show ?thesis by auto
    qed
  qed (subst mapped_loop.simps, simp)
qed


section \<open>Listing everything below a path\<close>

fun entry_weight :: "entry \<Rightarrow> nat"
  and directory_weight :: "directory \<Rightarrow> nat"
  and entries_weight :: "entry list \<Rightarrow> nat"
  and tree_weight :: "hamt_tree \<Rightarrow> nat"
  and trees_weight :: "(nat \<times> hamt_tree) list \<Rightarrow> nat" where
  "entry_weight (EFile _) = 1"
| "entry_weight (EDirectory d) = 1 + directory_weight d"
| "entry_weight (ESymlink _) = 1"
| "directory_weight (Basic _ es) = entries_weight es"
| "directory_weight (Hamt _ t) = tree_weight t"
| "entries_weight [] = 0"
| "entries_weight (e # es) = entry_weight e + entries_weight es"
| "tree_weight (HBranch tree) = trees_weight tree"
| "tree_weight (HLeaf _ e) = entry_weight e"
| "trees_weight [] = 0"
| "trees_weight ((_, t) # tree) = tree_weight t + trees_weight tree"

lemma entries_weight_sum: "entries_weight es = sum_list (map entry_weight es)"
  by (induction es) auto

lemma tree_weight_sum:
  "tree_weight t = sum_list (map entry_weight (tree_entries t))"
  "trees_weight tree = sum_list (map entry_weight (trees_entries tree))"
  by (induction t and tree rule: tree_entries_trees_entries.induct) auto

lemma entry_weight_children: "entry_weight e = Suc (sum_list (map entry_weight (children e)))"
  by (cases e rule: children.cases) (auto simp: entries_weight_sum tree_weight_sum)

text \<open>The entries below a path, level by level, with their paths.\<close>

definition child_paths :: "'cid path \<Rightarrow> entry \<Rightarrow> ('cid path \<times> entry) list" where
  "child_paths p e = map (\<lambda>c. (Path_push (Entry_name c) p, c)) (children e)"

function listing :: "('cid path \<times> entry) list \<Rightarrow> ('cid path \<times> entry) list" where
  "listing [] = []"
| "listing ((p, e) # queue) = (p, e) # listing (queue @ child_paths p e)"
  by pat_completeness auto

termination
proof (relation "measure (\<lambda>queue. sum_list (map (entry_weight \<circ> snd) queue))")
  fix p :: "'cid path" and e queue
  show "(queue @ child_paths p e, (p, e) # queue) \<in> measure (\<lambda>queue. sum_list (map (entry_weight \<circ> snd) queue))"
    using entry_weight_children[of e] by (simp add: child_paths_def comp_def)
qed simp

text \<open>
  What a result of the traversal is: the node of the entry. A file of one raw block has its bytes as a result of another format. The
  library decodes every raw block, into a value that is not a link.
\<close>

definition raw_laws :: "('cid, 'i) ipld_ops \<Rightarrow> bool" where
  "raw_laws il \<longleftrightarrow> (\<forall>d. \<exists>i. il_decode il IRaw d = Some i \<and> il_link il i = None)"

definition shows_entry :: "('cid, 'i) res_env \<Rightarrow> (ufs_file \<Rightarrow> 'cid \<Rightarrow> bool) \<Rightarrow> entry \<Rightarrow> ('cid, 'i) out \<Rightarrow> bool" where
  "shows_entry env F e out \<longleftrightarrow>
     entry_ok (re_murmur3 env) e \<and>
     (\<exists>cid u. entry_at (re_ops env) (load_data (re_loader env)) F e cid \<and> loads (re_ops env) (load_data (re_loader env)) cid u \<and>
        (o_content out = OutUnixfs u \<or> (\<exists>i d. u = Raw d \<and> o_content out = OutRaw i d))) \<and>
     (Out_is_symlink out \<longleftrightarrow> entry_type e = USymlink)"

lemma resolved_shows: "resolved_to env F p e out \<Longrightarrow> shows_entry env F e out"
  by (auto simp: resolved_to_def shows_entry_def Out_is_symlink_def)

lemma resolve_raw_block:
  assumes "raw_laws (re_ipld env)" and "loads (re_ops env) (load_data (re_loader env)) cid (Raw d)"
  shows "\<exists>out i. resolve env (Path_from_cid cid) = Inr out \<and> o_content out = OutRaw i d \<and> \<not> Out_is_symlink out"
proof -
  obtain loaded where loaded: "load_cid env cid = Inr loaded" "UnixfsNode_decode (re_ops env) cid (lc_data loaded) = Inr (Raw d)"
    using load_cid_loads[of "re_ops env" env cid "Raw d"] assms(2) by blast
  have d: "lc_data loaded = d" using loaded(2) assms(2) by (simp add: UnixfsNode_decode_def)
  obtain i where i: "il_decode (re_ipld env) IRaw d = Some i" "il_link (re_ipld env) i = None"
    using assms(1) by (auto simp: raw_laws_def)
  have "resolve_path_to_cid env (Path_from_cid cid) = Inr cid" by (rule resolve_ipfs) (simp_all add: Path_from_cid_def)
  then show ?thesis
    using loaded(1) d i assms(2) Codec_try_from_Raw
    by (simp add: resolve_def resolve_with_ctx_def resolve_root_def resolve_ipld_def resolve_ipld_path_def follow_link_def
        IpldCodec_try_from_def Codec_Raw_def Codec_DagPb_def Path_from_cid_def non_empty_def ok_or_def Let_def Out_is_symlink_def)
qed

lemma resolve_child_shows:
  assumes "raw_laws (re_ipld env)" and "entry_at (re_ops env) (load_data (re_loader env)) F e cid" and "entry_ok (re_murmur3 env) e"
  shows "\<exists>out. resolve env (Path_from_cid cid) = Inr out \<and> shows_entry env F e out"
proof -
  obtain u where u: "loads (re_ops env) (load_data (re_loader env)) cid u" using tree_at_loads(1)[OF assms(2)] by blast
  have ty: "unixfs_type_of (UnixfsNode_typ u) = Some (entry_type e)" by (rule entry_at_type[OF assms(2) u assms(3)])
  show ?thesis
  proof (cases "\<exists>d. u = Raw d")
    case True
    then have "entry_type e \<noteq> USymlink" using ty by auto
    then show ?thesis using True resolve_raw_block[OF assms(1)] u assms(2,3) by (fastforce simp: shows_entry_def)
  next
    case False
    then have c: "node_codec u = Codec_DagPb" by (cases u) auto
    from resolve_dag_pb[OF _ _ u c, of "Path_from_cid cid"] show ?thesis
      using u assms(2,3) ty by (fastforce simp: shows_entry_def Path_from_cid_def non_empty_def Out_is_symlink_def)
  qed
qed

lemma shows_entry_dir:
  assumes "shows_entry env F e out"
  shows "Out_is_dir out \<longleftrightarrow> (\<exists>d. e = EDirectory d)"
proof -
  obtain cid u where e: "entry_ok (re_murmur3 env) e" "entry_at (re_ops env) (load_data (re_loader env)) F e cid"
    "loads (re_ops env) (load_data (re_loader env)) cid u"
    and out: "o_content out = OutUnixfs u \<or> (\<exists>i d. u = Raw d \<and> o_content out = OutRaw i d)"
    using assms unfolding shows_entry_def by blast
  have "is_dir u \<longleftrightarrow> (\<exists>d. e = EDirectory d)"
    using entry_at_type[OF e(2,3,1)] by (cases u; cases e) auto
  then show ?thesis using out by (auto simp: Out_is_dir_def)
qed

lemma shows_entry_children:
  assumes "shows_entry env F e out" and "Out_is_dir out" and "\<forall>c \<in> set (children e). Entry_name c \<noteq> []"
  shows "\<exists>items. unixfs_read_dir (re_ops env) (re_loader env) 8 out = Some (Some (map Inr items)) \<and>
    list_all2 (lists_entry (re_ops env) (load_data (re_loader env)) F) (children e) items"
proof -
  obtain d where d: "e = EDirectory d" using shows_entry_dir[OF assms(1)] assms(2) by blast
  obtain cid u where e: "directory_ok (re_murmur3 env) d" "directory_at (re_ops env) (load_data (re_loader env)) F d cid"
    "loads (re_ops env) (load_data (re_loader env)) cid u" "o_content out = OutUnixfs u"
    using assms(1,2) unfolding shows_entry_def d by (auto simp: Out_is_dir_def)
  from as_child_reader_lists[OF e(2,1)] assms(3) d e(3,4) show ?thesis by (auto simp: unixfs_read_dir_def)
qed

text \<open>The queue of the traversal and the queue of entries.\<close>

definition queued :: "('cid, 'i) res_env \<Rightarrow> (ufs_file \<Rightarrow> 'cid \<Rightarrow> bool) \<Rightarrow> 'cid path \<times> entry \<Rightarrow>
    'cid path \<times> (res_error + ('cid, 'i) out) \<Rightarrow> bool" where
  "queued env F x y \<longleftrightarrow> fst y = fst x \<and> (\<exists>out. snd y = Inr out \<and> shows_entry env F (snd x) out)"

lemma queued_children:
  assumes "raw_laws (re_ipld env)" and "entry_ok (re_murmur3 env) e"
    and "list_all2 (lists_entry (re_ops env) (load_data (re_loader env)) F) (children e) items"
  shows "list_all2 (queued env F) (child_paths p e)
    (map (\<lambda>l. (link_path (re_paths env) p l, resolve env (Path_from_cid (l_cid l)))) items)"
proof -
  have ok: "entry_ok (re_murmur3 env) c" if "c \<in> set (children e)" for c
    using assms(2) that tree_ok_entries(1) by (cases e rule: children.cases) (auto simp: entries_ok_iff)
  have "queued env F (Path_push (Entry_name c) p, c) (link_path (re_paths env) p l, resolve env (Path_from_cid (l_cid l)))"
    if "lists_entry (re_ops env) (load_data (re_loader env)) F c l" "c \<in> set (children e)" for c l
    using resolve_child_shows[OF assms(1) _ ok[OF that(2)], of F "l_cid l"] that(1)
    by (auto simp: queued_def lists_entry_def link_path_def)
  then show ?thesis
    using assms(3) by (auto simp: child_paths_def list_all2_conv_all_nth)
qed

definition lists_result :: "('cid, 'i) res_env \<Rightarrow> (ufs_file \<Rightarrow> 'cid \<Rightarrow> bool) \<Rightarrow> 'cid path \<times> entry \<Rightarrow>
    'cid path \<times> ('cid, 'i) out \<Rightarrow> bool" where
  "lists_result env F x y \<longleftrightarrow> fst y = fst x \<and> shows_entry env F (snd x) (snd y)"

lemma lists_result_paths: "list_all2 (lists_result env F) xs outs \<Longrightarrow> map fst outs = map fst xs"
  by (induction rule: list_all2_induct) (simp_all add: lists_result_def)

lemma paths_loop_listing:
  assumes "raw_laws (re_ipld env)" and "list_all2 (queued env F) queue blocks"
    and "\<forall>x \<in> set (listing queue). \<forall>c \<in> set (children (snd x)). Entry_name c \<noteq> []"
  shows "\<exists>outs. paths_loop env 8 blocks = Some (map Inr outs) \<and> list_all2 (lists_result env F) (listing queue) outs"
  using assms(2,3)
proof (induction queue arbitrary: blocks rule: listing.induct)
  case 1
  then show ?case by (subst paths_loop.simps) simp
next
  case (2 p e queue)
  obtain out rest where b: "blocks = (p, Inr out) # rest" "shows_entry env F e out" "list_all2 (queued env F) queue rest"
  proof -
    from "2.prems"(1) obtain y rest where "blocks = y # rest" "queued env F (p, e) y" "list_all2 (queued env F) queue rest"
      by (auto simp: list_all2_Cons1)
    then show ?thesis using that by (cases y) (auto simp: queued_def)
  qed
  have names: "\<forall>c \<in> set (children e). Entry_name c \<noteq> []" using "2.prems"(2) by simp
  obtain next_blocks where n: "list_all2 (queued env F) (queue @ child_paths p e) next_blocks"
    "paths_loop env 8 blocks = Option.bind (paths_loop env 8 next_blocks) (\<lambda>s. Some (Inr (p, out) # s))"
  proof (cases "Out_is_dir out")
    case False
    then have "child_paths p e = []"
      using shows_entry_dir[OF b(2)] by (cases e) (auto simp: child_paths_def)
    then have "list_all2 (queued env F) (queue @ child_paths p e) rest" using b(3) by simp
    moreover have "paths_loop env 8 blocks = Option.bind (paths_loop env 8 rest) (\<lambda>s. Some (Inr (p, out) # s))"
      unfolding b(1) using False by (subst paths_loop.simps) simp
    ultimately show ?thesis by (rule that)
  next
    case True
    then obtain items where items: "unixfs_read_dir (re_ops env) (re_loader env) 8 out = Some (Some (map Inr items))"
      "list_all2 (lists_entry (re_ops env) (load_data (re_loader env)) F) (children e) items"
      using shows_entry_children[OF b(2) _ names] by blast
    have ok: "entry_ok (re_murmur3 env) e" using b(2) by (simp add: shows_entry_def)
    let ?new = "map (\<lambda>l. (link_path (re_paths env) p l, resolve env (Path_from_cid (l_cid l)))) items"
    have "paths_loop env 8 blocks = Option.bind (paths_loop env 8 (rest @ ?new)) (\<lambda>s. Some (Inr (p, out) # s))"
      unfolding b(1) using True items(1) by (subst paths_loop.simps) simp
    then show ?thesis by (rule that[OF list_all2_appendI[OF b(3) queued_children[OF assms(1) ok items(2)]]])
  qed
  from "2.IH"[OF n(1)] "2.prems"(2) obtain outs where
    "paths_loop env 8 next_blocks = Some (map Inr outs)" "list_all2 (lists_result env F) (listing (queue @ child_paths p e)) outs"
    by auto
  moreover have "lists_result env F (p, e) (p, out)" using b(2) by (simp add: lists_result_def)
  ultimately show ?case using n(2) by (intro exI[of _ "(p, out) # outs"]) simp
qed

lemma encoded_listing:
  assumes "ufs_laws (re_ops env)" and "directory_ok (re_murmur3 env) d"
    and "Directory_encode (re_ops env) oc open_file d = map Inr blocks" and "stored (load_data (re_loader env)) blocks"
    and "p_typ p = Ipfs" and "p_root p = PCid (ub_cid (last blocks))" and "walk (EDirectory d) (non_empty (p_tail p)) = Inr e"
    and "raw_laws (re_ipld env)"
    and "\<forall>x \<in> set (listing [(p, e)]). \<forall>c \<in> set (children (snd x)). Entry_name c \<noteq> []"
  shows "\<exists>outs. resolve_recursive_with_paths env 8 p = Some (map Inr outs) \<and>
    list_all2 (lists_result env (file_stored (re_ops env) oc open_file (load_data (re_loader env)))) (listing [(p, e)]) outs"
proof -
  let ?F = "file_stored (re_ops env) oc open_file (load_data (re_loader env))"
  obtain out where "resolve env p = Inr out" "resolved_to env ?F p e out"
    using resolve_directory_walk[OF encoded_directory_at[OF assms(1-4)] assms(2,5,6)] assms(7) by auto
  then have "list_all2 (queued env ?F) [(p, e)] [(p, resolve env p)]"
    using resolved_shows by (fastforce simp: queued_def)
  from paths_loop_listing[OF assms(8) this assms(9)] show ?thesis by (simp add: resolve_recursive_with_paths_def)
qed

text \<open>C13: the traversal of a path below a directory that was built and encoded ends, and gives the entry at the path and all entries
  below it, level by level and each under the path of its name, through flat and sharded directories, if none of
  them has an empty name.\<close>

theorem resolve_recursive_with_paths_listing:
  assumes "ufs_laws (re_ops env)" and "directory_ok (re_murmur3 env) d"
    and "Directory_encode (re_ops env) oc open_file d = map Inr blocks" and "stored (load_data (re_loader env)) blocks"
    and "p_typ p = Ipfs" and "p_root p = PCid (ub_cid (last blocks))" and "walk (EDirectory d) (non_empty (p_tail p)) = Inr e"
    and "raw_laws (re_ipld env)"
    and "\<forall>x \<in> set (listing [(p, e)]). \<forall>c \<in> set (children (snd x)). Entry_name c \<noteq> []"
  shows "\<exists>outs. resolve_recursive_with_paths env 8 p = Some (map Inr outs) \<and>
    list_all2 (lists_result env (file_stored (re_ops env) oc open_file (load_data (re_loader env)))) (listing [(p, e)]) outs"
  by (rule encoded_listing[OF assms])

section \<open>Where the resolver departs from what is asked\<close>

text \<open>A path with a key in place of a content id or domain is never resolved: loading the record panics.\<close>

lemma resolve_ipns_key:
  assumes "p_typ p = Ipns" and "p_root p = PCid key"
  shows "resolve env p = Inl RPanic"
  using assms
  by (simp add: resolve_def resolve_with_ctx_def resolve_root_def resolve_path_to_cid_def MAX_LOOKUPS_def numeral_nat
      load_ipns_record_def)

text \<open>The segments after the root in a DNS link are dropped.\<close>

lemma dnslink_tail_dropped:
  assumes "p_typ p = Ipns" and "p_root p = PDomain domain" and "resolve_dnslink (re_paths env) (re_dns env) domain = Inr (r # rs)"
    and "p_typ r = Ipfs" and "p_root r = PCid cid"
  shows "resolve_path_to_cid env p = Inr cid"
  using assms by (simp add: resolve_path_to_cid_def MAX_LOOKUPS_def numeral_nat)

text \<open>Asking for raw content of a block of another format still decodes the block and gives the other format.\<close>

lemma resolve_raw_keeps_format:
  assumes "p_typ p = Ipfs" and "p_root p = PCid cid" and "p_tail p = []" and "uc_codec (re_ops env) cid = Codec_DagPb"
    and "load_cid env cid = Inr loaded" and "il_decode (re_ipld env) IDagPb (lc_data loaded) = Some i" and "il_link (re_ipld env) i = None"
  shows "\<exists>out. resolve_raw env p = Inr out \<and> o_content out = OutDagPb i (lc_data loaded)"
  using assms resolve_ipfs[OF assms(1,2), of env]
  by (simp add: resolve_raw_def resolve_with_ctx_def resolve_root_def resolve_ipld_def resolve_ipld_path_def follow_link_def
      IpldCodec_try_from_def Codec_Raw_def Codec_DagPb_def Codec_DagCbor_def Codec_DagJson_def non_empty_def ok_or_def Let_def)

text \<open>
  A lookup of another name goes on in a child that is a sharded directory, one byte of the hash further, although the
  child's own lookups start at the first byte.
\<close>

lemma get_value_enters_child:
  assumes "shard_of hn tree" and "sorted_wrt (<) (map fst tree)" and "map_of tree (unat (h ! d)) = Some (HLeaf h' e)"
    and "trees_at ops load F tree (hn_pointers hn)" and "length h = 8" and "d < 8"
    and "e = EDirectory (Hamt name (HBranch sub))" and "key \<noteq> name"
  shows "\<exists>hn'. shard_of hn' sub \<and> get_value ops load key hn (hash_at h d) d = get_value ops load key hn' (hash_at h (Suc d)) (Suc d)"
proof -
  obtain l u where "tree_at ops load F (HLeaf h' e) (l_cid l)" "load_node ops load (l_cid l) = Inr u"
    "get_value ops load key hn (hash_at h d) d =
      (if key = HamtNode_name (HLeaf h' e) then Inr (Some (l, u))
       else case u of HamtShard _ hn' \<Rightarrow> get_value ops load key hn' (hash_at h (Suc d)) (Suc d) | _ \<Rightarrow> Inr None)"
    using get_value_child[OF assms(1-6), of key] by (elim exE conjE) (rule that)
  then show ?thesis using assms(7,8) by auto
qed

section \<open>An instance\<close>

definition demo_ipld :: "(u64 \<times> u64, unit) ipld_ops" where
  "demo_ipld = \<lparr>il_decode = (\<lambda>_ _. Some ()), il_encode = (\<lambda>_ _. Some []), il_link = (\<lambda>_. None), il_take_index = (\<lambda>_ _. None),
     il_take_key = (\<lambda>_ _. None), il_iter = (\<lambda>_. []), il_string = (\<lambda>_. None), il_references = (\<lambda>_. []),
     il_block_links = (\<lambda>_ _. Some []), il_sort_dedup = remdups\<rparr>"

definition demo_res_file :: ufs_file where
  "demo_res_file = \<lparr>f_name = [97], f_content = Reader [Data [1, 2]], f_tree_builder = Balanced 2, f_chunker = ChunkFixed 2\<rparr>"

definition demo_dir :: directory where
  "demo_dir = Basic [] [EFile demo_res_file]"

definition demo_dir_node :: node where
  "demo_dir_node = \<lparr>n_outer = \<lparr>pn_links = [directory_link sum_ufs [97] (demo_leaf [1, 2])],
     pn_data = Some (demo_enc_data directory_data)\<rparr>, n_inner = directory_data\<rparr>"

definition demo_dir_block :: "(u64 \<times> u64) ufs_block" where
  "demo_dir_block = (let out = Node_encode sum_ufs demo_dir_node
     in \<lparr>ub_cid = uc_new sum_ufs Codec_DagPb out, ub_data = out, ub_links = [ub_cid (demo_leaf [1, 2])]\<rparr>)"

definition demo_env :: "(u64 \<times> u64, unit) res_env" where
  "demo_env = \<lparr>re_ops = sum_ufs, re_ipld = demo_ipld,
     re_paths = \<lparr>po_parse = (\<lambda>_. None), po_show = (\<lambda>_. []), po_multihash = (\<lambda>_. None), po_peer_cid = (\<lambda>_. (0, 0))\<rparr>,
     re_dns = \<lparr>dr_default = (\<lambda>_. None), dr_tlds = None\<rparr>, re_murmur3 = (\<lambda>_. 0),
     re_loader = (\<lambda>c. Inr \<lparr>lc_data = (if fst c = Codec_Raw then [1, 2] else ub_data demo_dir_block), lc_source = Bitswap\<rparr>)\<rparr>"

definition demo_res_path :: "bytes list \<Rightarrow> (u64 \<times> u64) path" where
  "demo_res_path tail = \<lparr>p_typ = Ipfs, p_root = PCid (ub_cid demo_dir_block), p_tail = tail\<rparr>"

lemma demo_dir_node_encoded: "directory_node sum_ufs [directory_link sum_ufs [97] (demo_leaf [1, 2])] = Inr demo_dir_block"
proof -
  let ?l = "directory_link sum_ufs [97] (demo_leaf [1, 2])"
  let ?item = "\<lparr>l_cid = ub_cid (demo_leaf [1, 2]), l_name = Some [97], l_tsize = Some (of_nat (length (ub_data (demo_leaf [1, 2]))))\<rparr>"
  have data: "length (demo_enc_data directory_data) \<le> 100"
    by (simp add: demo_enc_data_def directory_data_def unixfs_data_default_def put_option_def put_list_def put_bytes_def)
  have out: "length (Node_encode sum_ufs demo_dir_node) \<le> 1000"
    using data
    by (simp add: Node_encode_def sum_ufs_def demo_dir_node_def demo_enc_node_def put_list_def put_option_def put_bytes_def
        directory_link_def demo_put_link_def demo_leaf_def)
  have enc: "encode_unixfs_pb sum_ufs directory_data [?l] = Inr (n_outer demo_dir_node)"
    using data by (simp add: encode_unixfs_pb_def demo_dir_node_def sum_ufs_def DEFAULT_CHUNK_SIZE_LIMIT_def)
  have node: "\<lparr>n_outer = n_outer demo_dir_node, n_inner = directory_data\<rparr> = demo_dir_node" by (simp add: demo_dir_node_def)
  have "Node_links sum_ufs demo_dir_node = Inr [Inr ?item]"
    using directory_link_item[OF sum_ufs_laws, of "[97]" "demo_leaf [1, 2]"]
    by (simp add: Node_links_def Node_typ_def demo_dir_node_def directory_data_def DataType_try_from_def PbLinks_def)
  then have "UnixfsNode_encode sum_ufs (Directory demo_dir_node) = Inr demo_dir_block"
    using out by (simp add: UnixfsNode_encode_def demo_dir_block_def Let_def DEFAULT_CHUNK_SIZE_LIMIT_def collect_def)
  then show ?thesis using enc node by (simp add: directory_node_def)
qed

lemma demo_dir_encoded: "Directory_encode sum_ufs True open_file demo_dir = map Inr [demo_leaf [1, 2], demo_dir_block]"
proof -
  have "File_encode sum_ufs True open_file demo_res_file = Inr [Inr (demo_leaf [1, 2])]"
    by (simp add: File_encode_def demo_res_file_def Chunker_chunks_def Fixed_chunks_def stream_balanced_tree_def demo_leaf_encode
        stream_simps del: TreeNode_encode.simps)
  then show ?thesis using demo_dir_node_encoded by (simp add: demo_dir_def demo_res_file_def)
qed

lemma demo_dir_hyps:
  "ufs_laws (re_ops demo_env)" "directory_ok (re_murmur3 demo_env) demo_dir"
  "Directory_encode (re_ops demo_env) True open_file demo_dir = map Inr [demo_leaf [1, 2], demo_dir_block]"
  "stored (load_data (re_loader demo_env)) [demo_leaf [1, 2], demo_dir_block]"
  "p_typ (demo_res_path tail) = Ipfs" "p_root (demo_res_path tail) = PCid (ub_cid (last [demo_leaf [1, 2], demo_dir_block]))"
  using sum_ufs_laws demo_dir_encoded
  by (simp_all add: demo_env_def demo_dir_def demo_res_file_def load_data_def demo_leaf_def demo_dir_block_def sum_ufs_def Let_def
      Codec_Raw_def Codec_DagPb_def demo_res_path_def)

theorem resolve_encoded_witness:
  "\<exists>out r. resolve demo_env (demo_res_path [[97], []]) = Inr out \<and> m_unixfs_type (o_metadata out) = Some UFile \<and>
     pretty sum_ufs None out = Inr (PUnixfs r) \<and> read_polls sum_ufs True (load_data (re_loader demo_env)) [1, 1] r = Some [1, 2]"
proof -
  have walk: "walk (EDirectory demo_dir) (non_empty (p_tail (demo_res_path [[97], []]))) = Inr (EFile demo_res_file)"
    by (simp add: demo_res_path_def non_empty_def demo_dir_def child_def demo_res_file_def)
  obtain out where out: "resolve demo_env (demo_res_path [[97], []]) = Inr out"
    "gives_entry demo_env True (\<lambda>_. Inl IoError) (EFile demo_res_file) out"
    using resolve_encoded[OF demo_dir_hyps walk] by blast
  have "stems_fit (re_ops demo_env) 2 \<and> 1 < (2 :: nat) \<and> f_tree_builder demo_res_file = Balanced 2 \<and> chunker_ok (f_chunker demo_res_file) \<and>
    file_reads (\<lambda>_. Inl IoError) demo_res_file = Inr [Data [1, 2]] \<and> reads_ok [Data [1, 2]] \<and> length (data_of [Data [1, 2]]) < 2 ^ 42"
    using sum_stems_fit
    by (simp add: demo_env_def demo_res_file_def chunker_ok_def file_reads_def reads_ok_def data_of_def DEFAULT_CHUNK_SIZE_LIMIT_def)
  then obtain r where "pretty (re_ops demo_env) None out = Inr (PUnixfs r)"
    "delivers (re_ops demo_env) True (load_data (re_loader demo_env)) r (data_of [Data [1, 2] :: ufs_error read_result])"
    using out(2) by (auto simp: gives_entry_def)
  then have "pretty sum_ufs None out = Inr (PUnixfs r)"
    "read_polls sum_ufs True (load_data (re_loader demo_env)) [1, 1] r = Some [1, 2]"
    by (auto simp: delivers_def data_of_def demo_env_def simp del: read_polls.simps)
  then show ?thesis using out by (auto simp: gives_entry_def)
qed


theorem resolve_recursive_with_paths_listing_witness:
  "\<exists>outs. resolve_recursive_with_paths demo_env 8 (demo_res_path []) = Some (map Inr outs) \<and>
     map fst outs = [demo_res_path [], demo_res_path [[97]]]"
proof -
  have list: "listing [(demo_res_path [], EDirectory demo_dir)] =
      [(demo_res_path [], EDirectory demo_dir), (demo_res_path [[97]], EFile demo_res_file)]"
    by (simp add: child_paths_def demo_dir_def demo_res_file_def demo_res_path_def Path_push_def)
  have walk: "walk (EDirectory demo_dir) (non_empty (p_tail (demo_res_path []))) = Inr (EDirectory demo_dir)"
    by (simp add: demo_res_path_def non_empty_def)
  have raw: "raw_laws (re_ipld demo_env)" by (simp add: raw_laws_def demo_env_def demo_ipld_def)
  have names: "\<forall>x \<in> set (listing [(demo_res_path [], EDirectory demo_dir)]). \<forall>c \<in> set (children (snd x)). Entry_name c \<noteq> []"
    unfolding list by (simp add: demo_dir_def demo_res_file_def)
  obtain outs where outs: "resolve_recursive_with_paths demo_env 8 (demo_res_path []) = Some (map Inr outs)"
    "list_all2 (lists_result demo_env (file_stored (re_ops demo_env) True (\<lambda>_. Inl IoError) (load_data (re_loader demo_env))))
      [(demo_res_path [], EDirectory demo_dir), (demo_res_path [[97]], EFile demo_res_file)] outs"
    using resolve_recursive_with_paths_listing[OF demo_dir_hyps walk raw names] unfolding list by blast
  from lists_result_paths[OF outs(2)] outs(1) show ?thesis by auto
qed

end
