(* ===== verification/BlockStore.thy ===== *)
theory BlockStore
  imports Bitfield "HOL-Library.List_Lexorder"
begin

text \<open>
  The block store of \<open>iroh-store/src/store.rs\<close> over the column families of \<open>cf.rs\<close>.

  A column family of the database is the list of its entries, with a lookup by key, a put that replaces the
  entry of its key and an iterator in the order of the keys; a write batch is the list of its puts, which are
  written one after the other when the batch is. Ids are the keys of three column families in their big-endian
  form, whose order is the order of the numbers, so they are kept as numbers. Records that are written to the
  database are read back as they were written (the serialisation is the crate \<open>rkyv\<close>'s). Failures of the
  database are not modelled. The lock around \<open>next_id\<close> makes each operation atomic. \<^const>\<open>None\<close> as
  the result of an operation that writes is its panic, which poisons that lock.
\<close>

declare map_of_eq_Some_iff [simp del]

section \<open>Data\<close>

text \<open>
  Content ids are the crate \<open>cid\<close>'s: the bytes of the multihash, the codec, and the content id of version 1
  that a codec and the bytes of a multihash give, if they are one.
\<close>

record 'cid store_cids =
  sc_hash :: "'cid \<Rightarrow> bytes"
  sc_codec :: "'cid \<Rightarrow> 64 word"
  sc_new_v1 :: "64 word \<Rightarrow> bytes \<Rightarrow> 'cid option"

text \<open>
  A multihash names its own length, so none is a proper prefix of another, and the codec and the multihash
  of a content id are those of a content id of version 1.
\<close>

definition store_cids_laws :: "'cid store_cids \<Rightarrow> bool" where
  "store_cids_laws ops \<longleftrightarrow>
     (\<forall>c c' rest. sc_hash ops c' = sc_hash ops c @ rest \<longrightarrow> rest = []) \<and>
     (\<forall>c. \<exists>c'. sc_new_v1 ops (sc_codec ops c) (sc_hash ops c) = Some c' \<and>
        sc_codec ops c' = sc_codec ops c \<and> sc_hash ops c' = sc_hash ops c)"

record metadata_v0 =
  md_codec :: "64 word"
  md_multihash :: bytes

record graph_v0 =
  gr_children :: "64 word list"

record store_db =
  cf_id :: "(bytes, 64 word) hmap"
  cf_metadata :: "(64 word, metadata_v0) hmap"
  cf_graph :: "(64 word, graph_v0) hmap"
  cf_blobs :: "(64 word, bytes) hmap"

record inner_store =
  st_content :: store_db
  st_next_id :: "64 word"

datatype db_put =
    PutId bytes "64 word"
  | PutMetadata "64 word" metadata_v0
  | PutGraph "64 word" graph_v0
  | PutBlob "64 word" bytes

datatype store_error = InvalidLink "64 word" | InvalidMultihash

datatype store_fault = NonBijective nat nat

fun put_cf :: "db_put \<Rightarrow> store_db \<Rightarrow> store_db" where
  "put_cf (PutId k i) db = db\<lparr>cf_id := hm_insert k i (cf_id db)\<rparr>"
| "put_cf (PutMetadata i m) db = db\<lparr>cf_metadata := hm_insert i m (cf_metadata db)\<rparr>"
| "put_cf (PutGraph i g) db = db\<lparr>cf_graph := hm_insert i g (cf_graph db)\<rparr>"
| "put_cf (PutBlob i b) db = db\<lparr>cf_blobs := hm_insert i b (cf_blobs db)\<rparr>"

definition db_write :: "db_put list \<Rightarrow> inner_store \<Rightarrow> inner_store" where
  "db_write batch s = s\<lparr>st_content := fold put_cf batch (st_content s)\<rparr>"

section \<open>Operations\<close>

definition id_key :: "'cid store_cids \<Rightarrow> 'cid \<Rightarrow> bytes" where
  "id_key ops cid = sc_hash ops cid @ to_be_bytes (sc_codec ops cid)"

definition MetadataV0_of :: "'cid store_cids \<Rightarrow> 'cid \<Rightarrow> metadata_v0" where
  "MetadataV0_of ops cid = \<lparr>md_codec = sc_codec ops cid, md_multihash = sc_hash ops cid\<rparr>"

definition Store_create :: inner_store where
  "Store_create = \<lparr>st_content = \<lparr>cf_id = [], cf_metadata = [], cf_graph = [], cf_blobs = []\<rparr>, st_next_id = 1\<rparr>"

text \<open>The last key of the metadata, and 0 without one.\<close>

definition last_id :: "store_db \<Rightarrow> 64 word" where
  "last_id db = (case rev (sort (map fst (cf_metadata db))) of [] \<Rightarrow> 0 | i # _ \<Rightarrow> i)"

definition Store_open :: "store_db \<Rightarrow> inner_store" where
  "Store_open db = \<lparr>st_content = db, st_next_id = last_id db + 1\<rparr>"

definition next_id :: "inner_store \<Rightarrow> (64 word \<times> inner_store) option" where
  "next_id s = (if st_next_id s = - 1 then None
     else Some (st_next_id s, s\<lparr>st_next_id := st_next_id s + 1\<rparr>))"

definition get_id :: "'cid store_cids \<Rightarrow> inner_store \<Rightarrow> 'cid \<Rightarrow> 64 word option" where
  "get_id ops s cid = map_of (cf_id (st_content s)) (id_key ops cid)"

definition Store_has :: "'cid store_cids \<Rightarrow> inner_store \<Rightarrow> 'cid \<Rightarrow> bool" where
  "Store_has ops s cid = (case get_id ops s cid of
       Some i \<Rightarrow> map_of (cf_blobs (st_content s)) i \<noteq> None
     | None \<Rightarrow> False)"

fun ensure_id_loop ::
    "'cid store_cids \<Rightarrow> 'cid list \<Rightarrow> 64 word list \<Rightarrow> db_put list \<Rightarrow> inner_store \<Rightarrow>
     (64 word list \<times> db_put list \<times> inner_store) option" where
  "ensure_id_loop ops [] ids batch s = Some (ids, batch, s)"
| "ensure_id_loop ops (cid # cids) ids batch s = (case get_id ops s cid of
       Some i \<Rightarrow> ensure_id_loop ops cids (ids @ [i]) batch s
     | None \<Rightarrow> (case next_id s of
         None \<Rightarrow> None
       | Some (i, s') \<Rightarrow> ensure_id_loop ops cids (ids @ [i])
           (batch @ [PutId (id_key ops cid) i, PutMetadata i (MetadataV0_of ops cid)]) s'))"

definition ensure_id_many ::
    "'cid store_cids \<Rightarrow> 'cid list \<Rightarrow> inner_store \<Rightarrow> (64 word list \<times> inner_store) option" where
  "ensure_id_many ops cids s = (case ensure_id_loop ops cids [] [] s of
       None \<Rightarrow> None
     | Some (ids, batch, s') \<Rightarrow> Some (ids, db_write batch s'))"

text \<open>What \<open>put\<close> and \<open>put_many\<close> both add to their batch for a block under a new id.\<close>

definition block_puts :: "'cid store_cids \<Rightarrow> 64 word \<Rightarrow> 'cid \<Rightarrow> bytes \<Rightarrow> 64 word list \<Rightarrow> db_put list" where
  "block_puts ops i cid blob children = [PutId (id_key ops cid) i, PutBlob i blob,
     PutMetadata i (MetadataV0_of ops cid), PutGraph i \<lparr>gr_children = children\<rparr>]"

definition Store_put :: "'cid store_cids \<Rightarrow> 'cid \<Rightarrow> bytes \<Rightarrow> 'cid list \<Rightarrow> inner_store \<Rightarrow> inner_store option" where
  "Store_put ops cid blob links s =
     (if Store_has ops s cid then Some s
      else (case next_id s of
          None \<Rightarrow> None
        | Some (i, s1) \<Rightarrow> (case ensure_id_many ops links s1 of
            None \<Rightarrow> None
          | Some (children, s2) \<Rightarrow> Some (db_write (block_puts ops i cid blob children) s2))))"

fun put_many_loop ::
    "'cid store_cids \<Rightarrow> ('cid \<times> bytes \<times> 'cid list) list \<Rightarrow> 'cid list \<Rightarrow> db_put list \<Rightarrow> inner_store \<Rightarrow>
     (db_put list \<times> inner_store) option" where
  "put_many_loop ops [] cid_tracker batch s = Some (batch, s)"
| "put_many_loop ops ((cid, blob, links) # blocks) cid_tracker batch s =
     (if cid \<in> set cid_tracker \<or> Store_has ops s cid then put_many_loop ops blocks cid_tracker batch s
      else (case next_id s of
          None \<Rightarrow> None
        | Some (i, s1) \<Rightarrow> (case ensure_id_many ops links s1 of
            None \<Rightarrow> None
          | Some (children, s2) \<Rightarrow>
              put_many_loop ops blocks (List.insert cid cid_tracker) (batch @ block_puts ops i cid blob children) s2)))"

definition Store_put_many ::
    "'cid store_cids \<Rightarrow> ('cid \<times> bytes \<times> 'cid list) list \<Rightarrow> inner_store \<Rightarrow> inner_store option" where
  "Store_put_many ops blocks s = (case put_many_loop ops blocks [] [] s of
       None \<Rightarrow> None
     | Some (batch, s') \<Rightarrow> Some (db_write batch s'))"

definition Store_get :: "'cid store_cids \<Rightarrow> inner_store \<Rightarrow> 'cid \<Rightarrow> bytes option" where
  "Store_get ops s cid = (case get_id ops s cid of
       Some i \<Rightarrow> map_of (cf_blobs (st_content s)) i
     | None \<Rightarrow> None)"

definition Store_get_size :: "'cid store_cids \<Rightarrow> inner_store \<Rightarrow> 'cid \<Rightarrow> nat option" where
  "Store_get_size ops s cid = (case get_id ops s cid of
       Some i \<Rightarrow> map_option length (map_of (cf_blobs (st_content s)) i)
     | None \<Rightarrow> None)"

fun links_of :: "'cid store_cids \<Rightarrow> store_db \<Rightarrow> 64 word list \<Rightarrow> store_error + 'cid list" where
  "links_of ops db [] = Inr []"
| "links_of ops db (i # ids) = (case map_of (cf_metadata db) i of
       None \<Rightarrow> Inl (InvalidLink i)
     | Some meta \<Rightarrow> result_bind (ok_or InvalidMultihash (sc_new_v1 ops (md_codec meta) (md_multihash meta)))
         (\<lambda>c. result_bind (links_of ops db ids) (\<lambda>cs. Inr (c # cs))))"

definition get_links_by_id :: "'cid store_cids \<Rightarrow> inner_store \<Rightarrow> 64 word \<Rightarrow> store_error + 'cid list option" where
  "get_links_by_id ops s i = (case map_of (cf_graph (st_content s)) i of
       Some graph \<Rightarrow> result_bind (links_of ops (st_content s) (gr_children graph)) (\<lambda>cs. Inr (Some cs))
     | None \<Rightarrow> Inr None)"

definition Store_get_links :: "'cid store_cids \<Rightarrow> inner_store \<Rightarrow> 'cid \<Rightarrow> store_error + 'cid list option" where
  "Store_get_links ops s cid = (case get_id ops s cid of
       Some i \<Rightarrow> get_links_by_id ops s i
     | None \<Rightarrow> Inr None)"

text \<open>
  The iterator of the column family from the hash on, up to the first key that is not the hash with a codec;
  the codec and the id of each of them.
\<close>

definition get_ids_for_hash :: "inner_store \<Rightarrow> bytes \<Rightarrow> (64 word \<times> 64 word) list" where
  "get_ids_for_hash s hash =
     map (\<lambda>(k, i). (from_be_bytes (drop (length hash) k), i))
       (takeWhile (\<lambda>(k, _). length k = length hash + 8 \<and> take (length hash) k = hash)
         (filter (\<lambda>(k, _). hash \<le> k) (sort_key fst (cf_id (st_content s)))))"

fun first_blob :: "inner_store \<Rightarrow> (64 word \<times> 64 word) list \<Rightarrow> bytes option" where
  "first_blob s [] = None"
| "first_blob s ((_, i) # ids) = (case map_of (cf_blobs (st_content s)) i of
       Some blob \<Rightarrow> Some blob
     | None \<Rightarrow> first_blob s ids)"

definition get_blob_by_hash :: "inner_store \<Rightarrow> bytes \<Rightarrow> bytes option" where
  "get_blob_by_hash s hash = first_blob s (get_ids_for_hash s hash)"

definition has_blob_for_hash :: "inner_store \<Rightarrow> bytes \<Rightarrow> bool" where
  "has_blob_for_hash s hash = list_ex (\<lambda>(_, i). map_of (cf_blobs (st_content s)) i \<noteq> None) (get_ids_for_hash s hash)"

definition consistency_check :: "inner_store \<Rightarrow> store_fault list" where
  "consistency_check s =
     (let n_meta = length (cf_metadata (st_content s)); n_id = length (cf_id (st_content s))
      in if n_meta \<noteq> n_id then [NonBijective n_meta n_id] else [])"

section \<open>Keys and ids\<close>

abbreviation id_at :: "inner_store \<Rightarrow> bytes \<Rightarrow> 64 word option" where
  "id_at s \<equiv> map_of (cf_id (st_content s))"

abbreviation meta_at :: "inner_store \<Rightarrow> 64 word \<Rightarrow> metadata_v0 option" where
  "meta_at s \<equiv> map_of (cf_metadata (st_content s))"

abbreviation graph_at :: "inner_store \<Rightarrow> 64 word \<Rightarrow> graph_v0 option" where
  "graph_at s \<equiv> map_of (cf_graph (st_content s))"

abbreviation blob_at :: "inner_store \<Rightarrow> 64 word \<Rightarrow> bytes option" where
  "blob_at s \<equiv> map_of (cf_blobs (st_content s))"

definition meta_key :: "metadata_v0 \<Rightarrow> bytes" where
  "meta_key m = md_multihash m @ to_be_bytes (md_codec m)"

lemma meta_key_of [simp]: "meta_key (MetadataV0_of ops c) = id_key ops c"
  by (simp add: meta_key_def MetadataV0_of_def id_key_def)

lemma to_be_bytes_inj [simp]: "to_be_bytes v = to_be_bytes w \<longleftrightarrow> v = w"
  by (metis from_to_be_bytes)

lemma meta_key_inj: "meta_key m = meta_key m' \<Longrightarrow> m = m'"
  by (auto simp: meta_key_def)

lemma id_key_eq: "id_key ops c = id_key ops c' \<longleftrightarrow> sc_hash ops c = sc_hash ops c' \<and> sc_codec ops c = sc_codec ops c'"
  by (simp add: id_key_def)

text \<open>
  The invariant: an id in use is smaller than the next one and has metadata, which are those of a content
  id; the id of a key is one whose metadata give the key; the ids with a blob are those with links, and every
  link is an id with metadata.
\<close>

definition store_inv :: "'cid store_cids \<Rightarrow> inner_store \<Rightarrow> bool" where
  "store_inv ops s \<longleftrightarrow>
     hm_wf (cf_id (st_content s)) \<and> hm_wf (cf_metadata (st_content s)) \<and>
     (\<forall>k i. id_at s k = Some i \<longrightarrow> (\<exists>m. meta_at s i = Some m \<and> meta_key m = k)) \<and>
     (\<forall>i m. meta_at s i = Some m \<longrightarrow> 0 < i \<and> i < st_next_id s \<and> (\<exists>c. m = MetadataV0_of ops c)) \<and>
     (\<forall>i. blob_at s i = None \<longleftrightarrow> graph_at s i = None) \<and>
     (\<forall>i g. graph_at s i = Some g \<longrightarrow> meta_at s i \<noteq> None \<and> (\<forall>j\<in>set (gr_children g). meta_at s j \<noteq> None)) \<and>
     0 < st_next_id s"

text \<open>
  What the store promises: a map from the keys to blobs and the keys of their links, to which a block is added
  unless its key is already there.
\<close>

definition link_key :: "inner_store \<Rightarrow> 64 word \<Rightarrow> bytes" where
  "link_key s i = (case meta_at s i of None \<Rightarrow> [] | Some m \<Rightarrow> meta_key m)"

definition store_abs :: "inner_store \<Rightarrow> bytes \<rightharpoonup> bytes \<times> bytes list" where
  "store_abs s k = (case id_at s k of None \<Rightarrow> None | Some i \<Rightarrow>
     (case blob_at s i of None \<Rightarrow> None | Some b \<Rightarrow>
       (case graph_at s i of None \<Rightarrow> None | Some g \<Rightarrow> Some (b, map (link_key s) (gr_children g)))))"

definition spec_put :: "'cid store_cids \<Rightarrow> 'cid \<times> bytes \<times> 'cid list \<Rightarrow>
    (bytes \<rightharpoonup> bytes \<times> bytes list) \<Rightarrow> bytes \<rightharpoonup> bytes \<times> bytes list" where
  "spec_put ops = (\<lambda>(cid, blob, links) m.
     if m (id_key ops cid) = None then m(id_key ops cid \<mapsto> (blob, map (id_key ops) links)) else m)"

lemma store_inv_facts:
  assumes "store_inv ops s"
  shows "id_at s k = Some i \<Longrightarrow> \<exists>m. meta_at s i = Some m \<and> meta_key m = k"
    and "meta_at s i = Some m \<Longrightarrow> 0 < i \<and> i < st_next_id s \<and> (\<exists>c. m = MetadataV0_of ops c)"
    and "blob_at s i = None \<longleftrightarrow> graph_at s i = None"
    and "graph_at s i = Some g \<Longrightarrow> meta_at s i \<noteq> None"
    and "graph_at s i = Some g \<Longrightarrow> j \<in> set (gr_children g) \<Longrightarrow> meta_at s j \<noteq> None"
    and "hm_wf (cf_id (st_content s))" and "hm_wf (cf_metadata (st_content s))"
    and "0 < st_next_id s"
  using assms by (auto simp: store_inv_def)

lemma fresh_meta: "store_inv ops s \<Longrightarrow> st_next_id s \<le> i \<Longrightarrow> meta_at s i = None"
  using store_inv_facts(2) by (metis not_less option.exhaust)

lemma fresh_blob: "store_inv ops s \<Longrightarrow> meta_at s i = None \<Longrightarrow> blob_at s i = None"
  using store_inv_facts(3,4) by (metis option.exhaust)

lemma fresh_id: "store_inv ops s \<Longrightarrow> meta_at s i = None \<Longrightarrow> id_at s k \<noteq> Some i"
  using store_inv_facts(1) by (metis option.distinct(1))

lemma store_abs_has: "store_inv ops s \<Longrightarrow> store_abs s (id_key ops c) \<noteq> None \<longleftrightarrow> Store_has ops s c"
  using store_inv_facts(3)[of ops s]
  by (auto simp: store_abs_def Store_has_def get_id_def split: option.splits)

lemma word_less_succ: "(i :: 64 word) \<noteq> - 1 \<Longrightarrow> i < i + 1"
  using unatSuc[of i] by (simp add: word_less_nat_alt add_eq_0_iff add.commute)

lemma next_id_Some:
  assumes "next_id s = Some (i, s')"
  shows "i = st_next_id s" and "s' = s\<lparr>st_next_id := st_next_id s + 1\<rparr>" and "i < i + 1"
  using assms word_less_succ by (auto simp: next_id_def split: if_splits)

lemma store_inv_next: "store_inv ops s \<Longrightarrow> st_next_id s \<le> n \<Longrightarrow> store_inv ops (s\<lparr>st_next_id := n\<rparr>)"
  unfolding store_inv_def by (force dest: order_less_le_trans)

lemma link_key_next [simp]: "link_key (s\<lparr>st_next_id := n\<rparr>) = link_key s"
  by (simp add: fun_eq_iff link_key_def)

lemma store_abs_next [simp]: "store_abs (s\<lparr>st_next_id := n\<rparr>) = store_abs s"
  by (auto simp: fun_eq_iff store_abs_def split: option.split)

section \<open>Writing\<close>

abbreviation link_puts :: "'cid store_cids \<Rightarrow> 64 word \<Rightarrow> 'cid \<Rightarrow> db_put list" where
  "link_puts ops i c \<equiv> [PutId (id_key ops c) i, PutMetadata i (MetadataV0_of ops c)]"

lemma db_write_append: "db_write (b @ b') s = db_write b' (db_write b s)"
  by (simp add: db_write_def)

lemma db_write_next [simp]: "st_next_id (db_write b s) = st_next_id s"
  by (simp add: db_write_def)

lemma db_write_bump: "db_write b (s\<lparr>st_next_id := n\<rparr>) = (db_write b s)\<lparr>st_next_id := n\<rparr>"
  by (simp add: db_write_def)

lemma write_link_views:
  "id_at (db_write (link_puts ops i c) s) = (id_at s)(id_key ops c \<mapsto> i)"
  "meta_at (db_write (link_puts ops i c) s) = (meta_at s)(i \<mapsto> MetadataV0_of ops c)"
  "graph_at (db_write (link_puts ops i c) s) = graph_at s"
  "blob_at (db_write (link_puts ops i c) s) = blob_at s"
  by (simp_all add: db_write_def)

lemma write_block_views:
  "id_at (db_write (block_puts ops i c b ch) s) = (id_at s)(id_key ops c \<mapsto> i)"
  "meta_at (db_write (block_puts ops i c b ch) s) = (meta_at s)(i \<mapsto> MetadataV0_of ops c)"
  "graph_at (db_write (block_puts ops i c b ch) s) = (graph_at s)(i \<mapsto> \<lparr>gr_children = ch\<rparr>)"
  "blob_at (db_write (block_puts ops i c b ch) s) = (blob_at s)(i \<mapsto> b)"
  by (simp_all add: db_write_def block_puts_def)

lemma db_write_wf:
  assumes "hm_wf (cf_id (st_content s))" and "hm_wf (cf_metadata (st_content s))"
  shows "hm_wf (cf_id (st_content (db_write batch s))) \<and> hm_wf (cf_metadata (st_content (db_write batch s)))"
proof -
  have "hm_wf (cf_id (put_cf p db)) \<and> hm_wf (cf_metadata (put_cf p db))"
    if "hm_wf (cf_id db)" "hm_wf (cf_metadata db)" for p db using that by (cases p) auto
  then have "hm_wf (cf_id (fold put_cf batch db)) \<and> hm_wf (cf_metadata (fold put_cf batch db))"
    if "hm_wf (cf_id db)" "hm_wf (cf_metadata db)" for db using that by (induction batch arbitrary: db) simp_all
  with assms show ?thesis by (simp add: db_write_def)
qed

lemma write_link_inv:
  assumes inv: "store_inv ops s" and fresh: "meta_at s i = None" and "0 < i" "i < st_next_id s"
  shows "store_inv ops (db_write (link_puts ops i c) s)"
  unfolding store_inv_def write_link_views db_write_next
  using db_write_wf[OF store_inv_facts(6,7)[OF inv]] assms store_inv_facts[OF inv]
    fresh_id[OF inv fresh] by (auto split: if_splits)

lemma write_block_inv:
  assumes inv: "store_inv ops s" and fresh: "meta_at s i = None" and "0 < i" "i < st_next_id s"
    and ch: "\<forall>j\<in>set ch. meta_at s j \<noteq> None"
  shows "store_inv ops (db_write (block_puts ops i c b ch) s)"
  unfolding store_inv_def write_block_views db_write_next
  using db_write_wf[OF store_inv_facts(6,7)[OF inv]] assms store_inv_facts[OF inv]
    fresh_id[OF inv fresh] by (auto split: if_splits)

lemma link_key_extend:
  "meta_at s j \<noteq> None \<Longrightarrow> meta_at s i = None \<Longrightarrow> meta_at s' = (meta_at s)(i \<mapsto> m) \<Longrightarrow> link_key s' j = link_key s j"
  by (auto simp: link_key_def)

text \<open>The content ids of the children, and so what a key stands for, stay as they are when an id is added.\<close>

lemma store_abs_extend:
  assumes inv: "store_inv ops s" and "meta_at s i = None" and "meta_at s' = (meta_at s)(i \<mapsto> m)"
    and "id_at s' k = id_at s k" and "\<And>j. j \<noteq> i \<Longrightarrow> graph_at s' j = graph_at s j"
    and "\<And>j. j \<noteq> i \<Longrightarrow> blob_at s' j = blob_at s j"
  shows "store_abs s' k = store_abs s k"
proof (cases "id_at s k")
  case None
  with assms(4) show ?thesis by (simp add: store_abs_def)
next
  case (Some j)
  then have "j \<noteq> i" using store_inv_facts(1)[OF inv Some] assms(2) by auto
  moreover have "map (link_key s') (gr_children g) = map (link_key s) (gr_children g)" if "graph_at s j = Some g" for g
    using store_inv_facts(5)[OF inv that] link_key_extend[OF _ assms(2,3)] by simp
  ultimately show ?thesis using assms Some by (simp add: store_abs_def split: option.splits)
qed

lemma write_link_abs:
  assumes inv: "store_inv ops s" and fresh: "meta_at s i = None" and none: "store_abs s (id_key ops c) = None"
  shows "store_abs (db_write (link_puts ops i c) s) = store_abs s"
proof
  fix k
  show "store_abs (db_write (link_puts ops i c) s) k = store_abs s k"
  proof (cases "k = id_key ops c")
    case True
    have "blob_at s i = None" by (rule fresh_blob[OF inv fresh])
    with True none show ?thesis by (simp only: store_abs_def[of "db_write _ _"] write_link_views) simp
  next
    case False
    then show ?thesis
      by (intro store_abs_extend[OF inv fresh write_link_views(2)]) (simp_all only: write_link_views, simp)
  qed
qed

lemma write_block_abs:
  assumes inv: "store_inv ops s" and fresh: "meta_at s i = None" and ch: "\<forall>j\<in>set ch. meta_at s j \<noteq> None"
  shows "store_abs (db_write (block_puts ops i c b ch) s) = (store_abs s)(id_key ops c \<mapsto> (b, map (link_key s) ch))"
proof
  fix k
  show "store_abs (db_write (block_puts ops i c b ch) s) k = ((store_abs s)(id_key ops c \<mapsto> (b, map (link_key s) ch))) k"
  proof (cases "k = id_key ops c")
    case True
    have "map (link_key (db_write (block_puts ops i c b ch) s)) ch = map (link_key s) ch"
      using ch link_key_extend[OF _ fresh write_block_views(2)[of ops i c b ch s]] by simp
    with True show ?thesis by (simp only: store_abs_def[of "db_write _ _"] write_block_views) simp
  next
    case False
    then have "store_abs (db_write (block_puts ops i c b ch) s) k = store_abs s k"
      by (intro store_abs_extend[OF inv fresh write_block_views(2)]) (simp_all add: write_block_views)
    with False show ?thesis by simp
  qed
qed

text \<open>
  Giving ids to links keeps what is stored, the metadata of every id below the next one, and makes the ids
  it returns those of the links.
\<close>

definition links_ensured :: "'cid store_cids \<Rightarrow> 'cid list \<Rightarrow> inner_store \<Rightarrow> 64 word list \<Rightarrow> inner_store \<Rightarrow> bool" where
  "links_ensured ops cids s ids s' \<longleftrightarrow>
     store_inv ops s' \<and> store_abs s' = store_abs s \<and> st_next_id s \<le> st_next_id s' \<and>
     unat (st_next_id s') \<le> unat (st_next_id s) + length cids \<and>
     (\<forall>i < st_next_id s. meta_at s' i = meta_at s i) \<and>
     map (meta_at s') ids = map (\<lambda>c. Some (MetadataV0_of ops c)) cids"

lemma id_at_meta:
  assumes "store_inv ops s" and "id_at s (id_key ops c) = Some i"
  shows "meta_at s i = Some (MetadataV0_of ops c)"
  using store_inv_facts(1)[OF assms] meta_key_inj[of _ "MetadataV0_of ops c"] by auto

lemma next_id_unat: "next_id s = Some (i, s') \<Longrightarrow> unat (st_next_id s') = Suc (unat (st_next_id s))"
  using unatSuc[of "st_next_id s"] by (auto simp: next_id_def add_eq_0_iff add.commute split: if_splits)

lemma next_id_defined: "unat (st_next_id s) + 1 < 2 ^ 64 \<Longrightarrow> \<exists>i s'. next_id s = Some (i, s')"
  using unat_add_lem[of "st_next_id s" 1] by (auto simp: next_id_def)

lemma links_ensured_refl: "store_inv ops s \<Longrightarrow> links_ensured ops [] s [] s"
  by (simp add: links_ensured_def)

lemma links_ensured_known:
  assumes "links_ensured ops cids s ids v" and "store_inv ops s" and "id_at s (id_key ops c) = Some i"
  shows "links_ensured ops (cids @ [c]) s (ids @ [i]) v"
proof -
  have "meta_at s i = Some (MetadataV0_of ops c)" by (rule id_at_meta[OF assms(2,3)])
  then have "meta_at v i = Some (MetadataV0_of ops c)"
    using assms(1) store_inv_facts(2)[OF assms(2)] by (auto simp: links_ensured_def)
  with assms(1) show ?thesis by (simp add: links_ensured_def)
qed

lemma links_ensured_new:
  assumes ens: "links_ensured ops cids s ids v" and "store_inv ops s" and "id_at s (id_key ops c) = None"
    and next_id: "next_id v = Some (i, v')"
  shows "links_ensured ops (cids @ [c]) s (ids @ [i]) (db_write (link_puts ops i c) v')"
proof -
  have inv: "store_inv ops v" and abs: "store_abs v = store_abs s" using ens by (simp_all add: links_ensured_def)
  note n = next_id_Some[OF next_id]
  have fresh: "meta_at v i = None" using fresh_meta[OF inv] n(1) by simp
  have inv': "store_inv ops v'" using store_inv_next[OF inv, of "i + 1"] n by simp
  have fresh': "meta_at v' i = None" using fresh n(2) by simp
  have "0 < i" using store_inv_facts(8)[OF inv] n(1) by simp
  then have w: "store_inv ops (db_write (link_puts ops i c) v')" using write_link_inv[OF inv' fresh'] n by simp
  have "store_abs s (id_key ops c) = None" using assms(3) by (simp add: store_abs_def)
  then have a: "store_abs (db_write (link_puts ops i c) v') = store_abs s"
    using write_link_abs[OF inv' fresh'] abs n(2) by simp
  have m: "map (meta_at v) ids = map (\<lambda>c. Some (MetadataV0_of ops c)) cids" using ens by (simp add: links_ensured_def)
  have "i \<notin> set ids"
  proof
    assume "i \<in> set ids"
    then have "None \<in> set (map (meta_at v) ids)" using fresh by force
    then show False by (simp only: m) auto
  qed
  then have "map (meta_at (db_write (link_puts ops i c) v')) (ids @ [i]) = map (\<lambda>c. Some (MetadataV0_of ops c)) (cids @ [c])"
    using m n(2) by (simp add: write_link_views)
  moreover have "\<forall>j < st_next_id s. meta_at (db_write (link_puts ops i c) v') j = meta_at s j"
    using ens n by (auto simp: links_ensured_def write_link_views)
  moreover have "st_next_id s \<le> st_next_id v'" "unat (st_next_id v') \<le> unat (st_next_id s) + length (cids @ [c])"
    using ens n next_id_unat[OF next_id] by (auto simp: links_ensured_def)
  ultimately show ?thesis using w a by (simp only: links_ensured_def db_write_next)
qed

lemma ensure_id_loop_ensured:
  assumes "store_inv ops s" and "links_ensured ops seen s ids (db_write batch s')"
    and "st_content s' = st_content s"
    and "ensure_id_loop ops cids ids batch s' = Some (ids', batch', s'')"
  shows "links_ensured ops (seen @ cids) s ids' (db_write batch' s'')"
  using assms
proof (induction ops cids ids batch s' arbitrary: seen rule: ensure_id_loop.induct)
  case (1 ops ids batch s')
  then show ?case by simp
next
  case (2 ops c cids ids batch s')
  show ?case
  proof (cases "get_id ops s' c")
    case (Some i)
    then have "links_ensured ops (seen @ [c]) s (ids @ [i]) (db_write batch s')"
      using links_ensured_known[OF 2(4,3)] 2(5) by (simp add: get_id_def)
    from "2.IH"(2)[OF Some 2(3) this 2(5)] 2(6) Some show ?thesis by simp
  next
    case None
    then obtain i t where n: "next_id s' = Some (i, t)" using 2(6) by (auto split: option.splits)
    note nx = next_id_Some[OF n]
    have "next_id (db_write batch s') = Some (i, db_write batch t)"
      using n by (auto simp: next_id_def db_write_bump split: if_splits)
    from links_ensured_new[OF 2(4,3) _ this] None 2(5)
    have "links_ensured ops (seen @ [c]) s (ids @ [i]) (db_write (batch @ link_puts ops i c) t)"
      by (simp add: get_id_def db_write_append)
    from "2.IH"(1)[OF None n refl 2(3) this] 2(5,6) None n nx(2) show ?thesis by simp
  qed
qed

lemma ensure_id_many_ensured:
  "store_inv ops s \<Longrightarrow> ensure_id_many ops cids s = Some (ids, s') \<Longrightarrow> links_ensured ops cids s ids s'"
  using ensure_id_loop_ensured[of ops s "[]" "[]" "[]" s cids] links_ensured_refl[of ops s]
  by (auto simp: ensure_id_many_def db_write_def split: option.splits)

lemma ensure_id_loop_defined:
  "unat (st_next_id s) + length cids < 2 ^ 64 \<Longrightarrow> ensure_id_loop ops cids ids batch s \<noteq> None"
proof (induction ops cids ids batch s rule: ensure_id_loop.induct)
  case (2 ops c cids ids batch s)
  show ?case
  proof (cases "get_id ops s c")
    case None
    obtain i t where n: "next_id s = Some (i, t)" using next_id_defined[of s] "2.prems" by auto
    then show ?thesis using None "2.IH"(1)[OF None n] next_id_unat[OF n] "2.prems" by simp
  qed (use 2 in simp)
qed simp

lemma ensure_id_many_defined:
  "unat (st_next_id s) + length cids < 2 ^ 64 \<Longrightarrow> \<exists>ids s'. ensure_id_many ops cids s = Some (ids, s')"
  using ensure_id_loop_defined[of s cids ops "[]" "[]"] by (auto simp: ensure_id_many_def split: option.splits)

text \<open>
  The blocks that \<open>put_many\<close> has in its batch, each with its new id and the ids of its links: none of the new
  ids is in use, and the links have their metadata.
\<close>

definition pending_puts :: "'cid store_cids \<Rightarrow> (64 word \<times> 64 word list \<times> 'cid \<times> bytes \<times> 'cid list) list \<Rightarrow> db_put list" where
  "pending_puts ops ps = concat (map (\<lambda>(i, ch, c, b, _). block_puts ops i c b ch) ps)"

definition pending_one ::
    "'cid store_cids \<Rightarrow> inner_store \<Rightarrow> 64 word \<times> 64 word list \<times> 'cid \<times> bytes \<times> 'cid list \<Rightarrow> bool" where
  "pending_one ops s = (\<lambda>(i, ch, c, b, links). meta_at s i = None \<and> 0 < i \<and> i < st_next_id s \<and>
     map (meta_at s) ch = map (\<lambda>c. Some (MetadataV0_of ops c)) links)"

definition pending_ok ::
    "'cid store_cids \<Rightarrow> (64 word \<times> 64 word list \<times> 'cid \<times> bytes \<times> 'cid list) list \<Rightarrow> inner_store \<Rightarrow> bool" where
  "pending_ok ops ps s \<longleftrightarrow> distinct (map fst ps) \<and> (\<forall>p\<in>set ps. pending_one ops s p)"

definition add_block :: "'cid store_cids \<Rightarrow> 'cid \<times> bytes \<times> 'cid list \<Rightarrow>
    (bytes \<rightharpoonup> bytes \<times> bytes list) \<Rightarrow> bytes \<rightharpoonup> bytes \<times> bytes list" where
  "add_block ops = (\<lambda>(c, b, links) m. m(id_key ops c \<mapsto> (b, map (id_key ops) links)))"

lemma metas_of_links:
  assumes "map (meta_at s) ch = map (\<lambda>c. Some (MetadataV0_of ops c)) links"
  shows "\<forall>j\<in>set ch. meta_at s j \<noteq> None" and "map (link_key s) ch = map (id_key ops) links"
proof -
  have "list_all2 (\<lambda>j c. meta_at s j = Some (MetadataV0_of ops c)) ch links"
    using assms by (simp add: list_eq_iff_nth_eq list_all2_conv_all_nth)
  then show "\<forall>j\<in>set ch. meta_at s j \<noteq> None" "map (link_key s) ch = map (id_key ops) links"
    by (induction rule: list_all2_induct) (simp_all add: link_key_def)
qed

lemma pending_one_mono:
  assumes one: "pending_one ops s p" and "\<And>j. meta_at s j \<noteq> None \<Longrightarrow> meta_at s' j = meta_at s j"
    and "meta_at s' (fst p) = None" and "st_next_id s \<le> st_next_id s'"
  shows "pending_one ops s' p"
proof -
  obtain i ch c b links where p: "p = (i, ch, c, b, links)" by (metis prod_cases5)
  have ch: "map (meta_at s) ch = map (\<lambda>c. Some (MetadataV0_of ops c)) links" using one by (simp add: pending_one_def p)
  have "map (meta_at s') ch = map (meta_at s) ch"
    using metas_of_links(1)[OF ch] assms(2) by (intro map_cong) simp_all
  with one assms(3,4) show ?thesis by (auto simp: pending_one_def p)
qed

lemma write_pending:
  assumes "store_inv ops s" and "pending_ok ops ps s"
  shows "store_inv ops (db_write (pending_puts ops ps) s) \<and>
    store_abs (db_write (pending_puts ops ps) s) = fold (add_block ops) (map (\<lambda>p. snd (snd p)) ps) (store_abs s)"
  using assms
proof (induction ps arbitrary: s)
  case Nil
  then show ?case by (simp add: pending_puts_def db_write_def)
next
  case (Cons p ps)
  obtain i ch c b links where p: "p = (i, ch, c, b, links)" by (metis prod_cases5)
  have i: "meta_at s i = None" "0 < i" "i < st_next_id s"
    and ch: "map (meta_at s) ch = map (\<lambda>c. Some (MetadataV0_of ops c)) links"
    using Cons.prems(2) by (auto simp: pending_ok_def pending_one_def p)
  let ?s = "db_write (block_puts ops i c b ch) s"
  have inv: "store_inv ops ?s" by (rule write_block_inv[OF Cons.prems(1) i metas_of_links(1)[OF ch]])
  have abs: "store_abs ?s = add_block ops (c, b, links) (store_abs s)"
    using write_block_abs[OF Cons.prems(1) i(1) metas_of_links(1)[OF ch]] by (simp add: add_block_def metas_of_links(2)[OF ch])
  have "pending_one ops ?s q" if "q \<in> set ps" for q
    by (rule pending_one_mono[of ops s]) (use Cons.prems(2) that i(1) in \<open>auto simp: pending_ok_def pending_one_def write_block_views p image_iff\<close>)
  then have "pending_ok ops ps ?s" using Cons.prems(2) by (simp add: pending_ok_def p)
  from Cons.IH[OF inv this] abs show ?case
    by (simp add: pending_puts_def p db_write_append)
qed

lemma add_block_apply: "add_block ops (c, b, links) m = m(id_key ops c \<mapsto> (b, map (id_key ops) links))"
  by (simp add: add_block_def)

lemma add_blocks_None:
  "fold (add_block ops) bs m k = None \<longleftrightarrow> m k = None \<and> k \<notin> id_key ops ` fst ` set bs"
proof (induction bs arbitrary: m)
  case (Cons b bs)
  show ?case by (cases b) (auto simp: Cons.IH add_block_apply)
qed simp

lemma spec_put_add: "m (id_key ops c) = None \<Longrightarrow> spec_put ops (c, b, links) m = add_block ops (c, b, links) m"
  and spec_put_skip: "m (id_key ops c) \<noteq> None \<Longrightarrow> spec_put ops (c, b, links) m = m"
  by (auto simp: spec_put_def add_block_def)

lemma pending_new:
  assumes inv: "store_inv ops s" and ok: "pending_ok ops ps s"
    and n: "next_id s = Some (i, s1)" and e: "ensure_id_many ops links s1 = Some (ch, s2)"
  shows "store_inv ops s2" and "store_abs s2 = store_abs s" and "pending_ok ops (ps @ [(i, ch, c, b, links)]) s2"
proof -
  note nx = next_id_Some[OF n]
  have inv1: "store_inv ops s1" using store_inv_next[OF inv, of "i + 1"] nx by simp
  have en: "links_ensured ops links s1 ch s2" by (rule ensure_id_many_ensured[OF inv1 e])
  then show "store_inv ops s2" "store_abs s2 = store_abs s" using nx(2) by (simp_all add: links_ensured_def)
  have next_le: "i + 1 \<le> st_next_id s2" using en nx by (simp add: links_ensured_def)
  have same: "meta_at s2 j = meta_at s j" if "j < i + 1" for j using en that nx by (simp add: links_ensured_def)
  have fresh: "meta_at s i = None" using fresh_meta[OF inv] nx(1) by simp
  have "0 < i" using store_inv_facts(8)[OF inv] nx(1) by simp
  then have new: "pending_one ops s2 (i, ch, c, b, links)"
    using en fresh same[OF nx(3)] next_le nx(3) by (auto simp: pending_one_def links_ensured_def)
  have old: "pending_one ops s2 q \<and> fst q \<noteq> i" if q: "q \<in> set ps" for q
  proof -
    have one: "pending_one ops s q" and "fst q < i" "meta_at s (fst q) = None"
      using ok q nx(1) by (auto simp: pending_ok_def pending_one_def)
    moreover have "meta_at s2 j = meta_at s j" if "meta_at s j \<noteq> None" for j
      using that same[of j] store_inv_facts(2)[OF inv, of j] nx by (metis option.exhaust order_less_trans)
    ultimately show ?thesis
      using pending_one_mono[OF one, of s2] same[of "fst q"] next_le nx by auto
  qed
  then have "\<forall>q\<in>set ps. pending_one ops s2 q" by blast
  moreover have "i \<notin> fst ` set ps" using old by blast
  ultimately show "pending_ok ops (ps @ [(i, ch, c, b, links)]) s2"
    using new ok by (simp add: pending_ok_def)
qed

lemma put_many_loop_refines:
  assumes "store_inv ops s" and "pending_ok ops ps s" and "set cid_tracker = fst ` set (map (\<lambda>p. snd (snd p)) ps)"
    and "inj_on (id_key ops) (set cid_tracker \<union> fst ` set blocks)"
    and "put_many_loop ops blocks cid_tracker (pending_puts ops ps) s = Some (batch, s')"
  shows "store_inv ops (db_write batch s') \<and> store_abs (db_write batch s') =
    fold (spec_put ops) blocks (fold (add_block ops) (map (\<lambda>p. snd (snd p)) ps) (store_abs s))"
  using assms
proof (induction blocks arbitrary: ps cid_tracker s)
  case Nil
  then show ?case using write_pending[OF Nil.prems(1,2)] by simp
next
  case (Cons x blocks)
  obtain c b links where x: "x = (c, b, links)" by (cases x)
  let ?m = "fold (add_block ops) (map (\<lambda>p. snd (snd p)) ps) (store_abs s)"
  have "id_key ops c \<in> id_key ops ` set cid_tracker \<longleftrightarrow> c \<in> set cid_tracker"
    using inj_on_image_mem_iff[OF Cons.prems(4), of c "set cid_tracker"] x by auto
  then have known: "?m (id_key ops c) = None \<longleftrightarrow> \<not> (c \<in> set cid_tracker \<or> Store_has ops s c)"
    using store_abs_has[OF Cons.prems(1), of c] by (simp only: add_blocks_None Cons.prems(3)[symmetric]) auto
  show ?case
  proof (cases "c \<in> set cid_tracker \<or> Store_has ops s c")
    case True
    then have "spec_put ops x ?m = ?m" using known by (simp add: x spec_put_skip)
    moreover have "inj_on (id_key ops) (set cid_tracker \<union> fst ` set blocks)"
      by (rule inj_on_subset[OF Cons.prems(4)]) auto
    ultimately show ?thesis using Cons.IH[OF Cons.prems(1-3)] Cons.prems(5) True by (simp add: x)
  next
    case False
    then obtain i s1 ch s2 where n: "next_id s = Some (i, s1)" and e: "ensure_id_many ops links s1 = Some (ch, s2)"
      and rest: "put_many_loop ops blocks (List.insert c cid_tracker) (pending_puts ops (ps @ [(i, ch, c, b, links)])) s2 = Some (batch, s')"
      using Cons.prems(5) by (auto simp: x pending_puts_def split: option.splits)
    note new = pending_new(1,2)[OF Cons.prems(1,2) n e] pending_new(3)[OF Cons.prems(1,2) n e, of c b]
    have "spec_put ops x ?m = add_block ops (c, b, links) ?m" using known False by (simp add: x spec_put_add)
    moreover have "inj_on (id_key ops) (set (List.insert c cid_tracker) \<union> fst ` set blocks)"
      by (rule inj_on_subset[OF Cons.prems(4)]) (auto simp: x)
    ultimately show ?thesis using Cons.IH[OF new(1,3) _ _ rest] Cons.prems(3) new(2) by simp
  qed
qed

text \<open>There is an id for every block and every link as long as there are that many numbers left.\<close>

definition ids_needed :: "('cid \<times> bytes \<times> 'cid list) list \<Rightarrow> nat" where
  "ids_needed blocks = sum_list (map (\<lambda>(_, _, links). 1 + length links) blocks)"

lemma put_many_loop_defined:
  assumes "store_inv ops s" and "unat (st_next_id s) + ids_needed blocks < 2 ^ 64"
  shows "put_many_loop ops blocks cid_tracker batch s \<noteq> None"
  using assms
proof (induction blocks arbitrary: cid_tracker batch s)
  case (Cons x blocks)
  obtain c b links where x: "x = (c, b, links)" by (cases x)
  have room: "unat (st_next_id s) + 1 + length links + ids_needed blocks < 2 ^ 64"
    using Cons.prems(2) by (simp add: x ids_needed_def)
  show ?case
  proof (cases "c \<in> set cid_tracker \<or> Store_has ops s c")
    case True
    have "unat (st_next_id s) + ids_needed blocks < 2 ^ 64" using room by simp
    from Cons.IH[OF Cons.prems(1) this] True show ?thesis by (simp add: x)
  next
    case False
    obtain i s1 where n: "next_id s = Some (i, s1)" using next_id_defined[of s] room by auto
    have u: "unat (st_next_id s1) = Suc (unat (st_next_id s))" by (rule next_id_unat[OF n])
    obtain ch s2 where e: "ensure_id_many ops links s1 = Some (ch, s2)"
      using ensure_id_many_defined[of s1 links ops] u room by auto
    have inv1: "store_inv ops s1" using store_inv_next[OF Cons.prems(1), of "i + 1"] next_id_Some[OF n] by simp
    note en = ensure_id_many_ensured[OF inv1 e]
    have "unat (st_next_id s2) + ids_needed blocks < 2 ^ 64" using en u room by (simp add: links_ensured_def)
    with Cons.IH[of s2] en False n e show ?thesis by (simp add: x links_ensured_def)
  qed
qed simp

lemma put_many_refines:
  assumes inv: "store_inv ops s" and inj: "inj_on (id_key ops) (fst ` set blocks)"
    and put: "Store_put_many ops blocks s = Some s'"
  shows "store_inv ops s'" and "store_abs s' = fold (spec_put ops) blocks (store_abs s)"
proof -
  obtain batch t where l: "put_many_loop ops blocks [] (pending_puts ops []) s = Some (batch, t)" and s': "s' = db_write batch t"
    using put by (auto simp: Store_put_many_def pending_puts_def split: option.splits)
  have "pending_ok ops [] s" by (simp add: pending_ok_def)
  from put_many_loop_refines[OF inv this _ _ l] inj
  show "store_inv ops s'" "store_abs s' = fold (spec_put ops) blocks (store_abs s)" by (simp_all add: s')
qed

lemma put_many_defined:
  "store_inv ops s \<Longrightarrow> unat (st_next_id s) + ids_needed blocks < 2 ^ 64 \<Longrightarrow> \<exists>s'. Store_put_many ops blocks s = Some s'"
  using put_many_loop_defined[of ops s blocks "[]" "[]"] by (auto simp: Store_put_many_def split: option.splits)

lemma put_many_loop_next:
  assumes "store_inv ops s" and "put_many_loop ops blocks cid_tracker batch s = Some (batch', s')"
  shows "unat (st_next_id s') \<le> unat (st_next_id s) + ids_needed blocks"
  using assms
proof (induction blocks arbitrary: cid_tracker batch s)
  case (Cons x blocks)
  obtain c b links where x: "x = (c, b, links)" by (cases x)
  show ?case
  proof (cases "c \<in> set cid_tracker \<or> Store_has ops s c")
    case True
    then show ?thesis using Cons.IH[OF Cons.prems(1)] Cons.prems(2) by (fastforce simp: x ids_needed_def)
  next
    case False
    then obtain i s1 ch s2 where n: "next_id s = Some (i, s1)" and e: "ensure_id_many ops links s1 = Some (ch, s2)"
      and rest: "put_many_loop ops blocks (List.insert c cid_tracker) (batch @ block_puts ops i c b ch) s2 = Some (batch', s')"
      using Cons.prems(2) by (auto simp: x split: option.splits)
    have "store_inv ops s1" using store_inv_next[OF Cons.prems(1), of "i + 1"] next_id_Some[OF n] by simp
    from ensure_id_many_ensured[OF this e] have "store_inv ops s2" "unat (st_next_id s2) \<le> unat (st_next_id s1) + length links"
      by (simp_all add: links_ensured_def)
    then show ?thesis using Cons.IH[OF _ rest] next_id_unat[OF n] by (simp add: x ids_needed_def)
  qed
qed (simp add: ids_needed_def)

lemma put_many_next:
  "store_inv ops s \<Longrightarrow> Store_put_many ops blocks s = Some s' \<Longrightarrow> unat (st_next_id s') \<le> unat (st_next_id s) + ids_needed blocks"
  using put_many_loop_next by (fastforce simp: Store_put_many_def split: option.splits)

lemma ids_needed_append: "ids_needed (xs @ ys) = ids_needed xs + ids_needed ys"
  by (simp add: ids_needed_def)

text \<open>A single put is the put of a list of one block.\<close>

lemma put_as_put_many: "Store_put ops cid blob links s = Store_put_many ops [(cid, blob, links)] s"
  by (simp add: Store_put_def Store_put_many_def db_write_def split: option.split)

section \<open>Opening a database\<close>

lemma last_id_max:
  assumes "i \<in> fst ` set (cf_metadata db)"
  shows "i \<le> last_id db" and "last_id db \<in> fst ` set (cf_metadata db)"
proof -
  let ?l = "sort (map fst (cf_metadata db))"
  have l: "?l \<noteq> []" using assms by (metis empty_iff list.set(1) list.set_map set_sort)
  then have last: "last_id db = last ?l" by (simp add: last_id_def rev_eq_Cons_iff split: list.split)
  have "i \<in> set ?l" using assms by simp
  then obtain n where "n < length ?l" "i = ?l ! n" unfolding in_set_conv_nth by blast
  then show "i \<le> last_id db" using sorted_nth_mono[OF sorted_sort, of n "length ?l - 1" "map fst (cf_metadata db)"] l
    by (simp add: last last_conv_nth)
  show "last_id db \<in> fst ` set (cf_metadata db)" using last_in_set[OF l] by (simp add: last)
qed

lemma open_inv:
  assumes inv: "store_inv ops s"
  shows "store_inv ops (Store_open (st_content s))" and "store_abs (Store_open (st_content s)) = store_abs s"
proof -
  let ?n = "last_id (st_content s) + 1"
  have o: "Store_open (st_content s) = s\<lparr>st_next_id := ?n\<rparr>" by (simp add: Store_open_def)
  have lt: "i < ?n" if "meta_at s i \<noteq> None" for i
  proof -
    have i: "i \<in> fst ` set (cf_metadata (st_content s))" using that by (metis hm_get_notin)
    have "meta_at s (last_id (st_content s)) \<noteq> None" using last_id_max(2)[OF i] by (simp add: hm_get_None)
    then have "last_id (st_content s) < st_next_id s" using store_inv_facts(2)[OF inv] by blast
    then have "last_id (st_content s) \<noteq> - 1" by (metis not_less word_order.extremum)
    with last_id_max(1)[OF i] show ?thesis using word_less_succ by (metis order_le_less_trans)
  qed
  have "0 < ?n"
  proof (cases "cf_metadata (st_content s)")
    case Nil
    then show ?thesis by (simp add: last_id_def)
  next
    case (Cons p ps)
    then have "meta_at s (fst p) \<noteq> None" by (cases p) simp
    from lt[OF this] show ?thesis by (metis word_gt_0 not_less word_zero_le)
  qed
  with inv lt show "store_inv ops (Store_open (st_content s))" by (simp add: o store_inv_def)
  show "store_abs (Store_open (st_content s)) = store_abs s" by (simp add: o)
qed

lemma create_inv: "store_inv ops Store_create" and create_abs: "store_abs Store_create = Map.empty"
  by (simp_all add: store_inv_def Store_create_def store_abs_def fun_eq_iff)

section \<open>Reading\<close>

lemma reads_abs:
  assumes inv: "store_inv ops s"
  shows "Store_get ops s c = map_option fst (store_abs s (id_key ops c)) \<and>
    Store_get_size ops s c = map_option (length \<circ> fst) (store_abs s (id_key ops c))"
proof (cases "id_at s (id_key ops c)")
  case (Some i)
  then show ?thesis using store_inv_facts(3)[OF inv, of i]
    by (cases "blob_at s i") (auto simp: Store_get_def Store_get_size_def get_id_def store_abs_def)
qed (simp add: Store_get_def Store_get_size_def get_id_def store_abs_def)

lemma links_of_ok:
  assumes "store_cids_laws ops" and inv: "store_inv ops s" and "\<forall>i\<in>set ids. meta_at s i \<noteq> None"
  shows "\<exists>cs. links_of ops (st_content s) ids = Inr cs \<and> map (id_key ops) cs = map (link_key s) ids"
  using assms(3)
proof (induction ids)
  case (Cons i ids)
  then obtain cs m where cs: "links_of ops (st_content s) ids = Inr cs" "map (id_key ops) cs = map (link_key s) ids"
    and m: "meta_at s i = Some m" by auto
  obtain c where c: "m = MetadataV0_of ops c" using store_inv_facts(2)[OF inv m] by blast
  obtain c' where "sc_new_v1 ops (sc_codec ops c) (sc_hash ops c) = Some c'"
    "sc_codec ops c' = sc_codec ops c" "sc_hash ops c' = sc_hash ops c"
    using assms(1) unfolding store_cids_laws_def by blast
  moreover from this have "id_key ops c' = link_key s i" using m c by (simp add: link_key_def id_key_eq)
  ultimately show ?case using cs m c by (simp add: MetadataV0_of_def)
qed simp

lemma get_links_abs:
  assumes "store_cids_laws ops" and inv: "store_inv ops s"
  shows "\<exists>ls. Store_get_links ops s c = Inr ls \<and>
    map_option (map (id_key ops)) ls = map_option snd (store_abs s (id_key ops c))"
proof (cases "get_id ops s c")
  case None
  then show ?thesis by (simp add: Store_get_links_def get_id_def store_abs_def)
next
  case (Some i)
  show ?thesis
  proof (cases "graph_at s i")
    case None
    then show ?thesis using Some by (auto simp: Store_get_links_def get_links_by_id_def get_id_def store_abs_def split: option.split)
  next
    case g: (Some g)
    obtain b where b: "blob_at s i = Some b" using store_inv_facts(3)[OF inv, of i] g by auto
    obtain cs where "links_of ops (st_content s) (gr_children g) = Inr cs" "map (id_key ops) cs = map (link_key s) (gr_children g)"
      using links_of_ok[OF assms, of "gr_children g"] store_inv_facts(5)[OF inv g] by blast
    then show ?thesis using Some g b by (simp add: Store_get_links_def get_links_by_id_def get_id_def store_abs_def)
  qed
qed

subsection \<open>Lookup by hash\<close>

lemma sorted_takeWhile:
  assumes "sorted (map f xs)" and "\<And>x y. x \<in> set xs \<Longrightarrow> y \<in> set xs \<Longrightarrow> f x \<le> f y \<Longrightarrow> P y \<Longrightarrow> P x"
  shows "takeWhile P xs = filter P xs"
  using assms
proof (induction xs)
  case (Cons x xs)
  have "P x" if "y \<in> set xs" "P y" for y
    using Cons.prems(2)[of x y] Cons.prems(1) that by simp
  then have "\<not> P x \<Longrightarrow> filter P xs = []" by (auto simp: filter_empty_conv)
  moreover have "takeWhile P xs = filter P xs"
    by (rule Cons.IH) (use Cons.prems in \<open>auto\<close>)
  ultimately show ?case by simp
qed simp

text \<open>Among the lists from a prefix on, those with the prefix come first.\<close>

lemma prefix_first:
  "h \<le> (k :: bytes) \<Longrightarrow> k \<le> h @ t \<Longrightarrow> take (length h) k = h"
proof (induction h arbitrary: k)
  case (Cons a h)
  from Cons.prems(1) obtain b k' where k: "k = b # k'" by (cases k) auto
  with Cons.prems have "a = b" "h \<le> k'" "k' \<le> h @ t" by auto
  with Cons.IH[of k'] k show ?case by simp
qed simp

lemma le_append: "(h :: bytes) \<le> h @ t"
  by (induction h) simp_all

lemma hash_key_form:
  assumes laws: "store_cids_laws ops" and "take (length (sc_hash ops c)) (id_key ops c') = sc_hash ops c"
  shows "sc_hash ops c' = sc_hash ops c"
proof -
  let ?h = "sc_hash ops c" and ?h' = "sc_hash ops c'"
  have free: "rest = []" if "sc_hash ops y = sc_hash ops x @ rest" for x y rest
    using laws that by (simp add: store_cids_laws_def)
  show ?thesis
  proof (cases "length ?h \<le> length ?h'")
    case True
    then have "take (length ?h) ?h' = ?h" using assms(2) by (simp add: id_key_def)
    then have eq: "?h' = ?h @ drop (length ?h) ?h'" by (metis append_take_drop_id)
    then show ?thesis using free[OF eq] by simp
  next
    case False
    then have eq: "?h = ?h' @ take (length ?h - length ?h') (to_be_bytes (sc_codec ops c'))"
      using assms(2) by (simp add: id_key_def)
    then show ?thesis using free[OF eq] by (metis append_Nil2)
  qed
qed

lemma get_ids_for_hash_iff:
  assumes laws: "store_cids_laws ops" and inv: "store_inv ops s"
  shows "(code, i) \<in> set (get_ids_for_hash s (sc_hash ops c)) \<longleftrightarrow>
    (\<exists>c'. sc_hash ops c' = sc_hash ops c \<and> sc_codec ops c' = code \<and> get_id ops s c' = Some i)"
proof -
  let ?h = "sc_hash ops c"
  let ?P = "\<lambda>(k, _ :: 64 word). length k = length ?h + 8 \<and> take (length ?h) k = ?h"
  let ?xs = "filter (\<lambda>(k, _). ?h \<le> k) (sort_key fst (cf_id (st_content s)))"
  have key: "\<exists>c'. k = id_key ops c'" if "(k, j) \<in> set (cf_id (st_content s))" for k j
  proof -
    have "id_at s k = Some j" using that hm_get_mem[OF store_inv_facts(6)[OF inv]] by simp
    then obtain m where m: "meta_at s j = Some m" "meta_key m = k" using store_inv_facts(1)[OF inv] by blast
    then show ?thesis using store_inv_facts(2)[OF inv m(1)] by auto
  qed
  have P: "?P (k, j)" if k: "(k, j) \<in> set ?xs" and t: "take (length ?h) k = ?h" for k j
  proof -
    from k have "(k, j) \<in> set (cf_id (st_content s))" by simp
    from key[OF this] obtain c' where c': "k = id_key ops c'" by blast
    have "sc_hash ops c' = ?h" by (rule hash_key_form[OF laws]) (use t c' in simp)
    then have "length k = length ?h + 8" by (simp add: c' id_key_def)
    with t show ?thesis by simp
  qed
  have while: "takeWhile ?P ?xs = filter ?P ?xs"
  proof (rule sorted_takeWhile[of fst])
    show "sorted (map fst ?xs)" by (rule sorted_filter) simp
    fix x y assume x: "x \<in> set ?xs" and y: "y \<in> set ?xs" "fst x \<le> fst y" "?P y"
    then have "take (length ?h) (fst y) = ?h" by auto
    then have "fst y = ?h @ drop (length ?h) (fst y)" by (metis append_take_drop_id)
    then have "fst x \<le> ?h @ drop (length ?h) (fst y)" using y(2) by simp
    moreover have "?h \<le> fst x" using x by auto
    ultimately have "take (length ?h) (fst x) = ?h" by (intro prefix_first)
    then show "?P x" using P[of "fst x" "snd x"] x by simp
  qed
  have "set (filter ?P ?xs) = {x \<in> set (cf_id (st_content s)). ?h \<le> fst x \<and> ?P x}" by auto
  then have set: "set (get_ids_for_hash s ?h) =
      (\<lambda>(k, j). (from_be_bytes (drop (length ?h) k), j)) ` {x \<in> set (cf_id (st_content s)). ?h \<le> fst x \<and> ?P x}"
    by (simp only: get_ids_for_hash_def set_map while)
  show ?thesis
  proof
    assume "(code, i) \<in> set (get_ids_for_hash s ?h)"
    then obtain k where k: "(k, i) \<in> set (cf_id (st_content s))" "take (length ?h) k = ?h"
      and code: "code = from_be_bytes (drop (length ?h) k)" unfolding set by auto
    obtain c' where c': "k = id_key ops c'" using key[OF k(1)] by blast
    then have h: "sc_hash ops c' = ?h" using hash_key_form[OF laws, of c c'] k(2) by simp
    then have "code = sc_codec ops c'" using code c' by (simp add: id_key_def from_to_be_bytes flip: h)
    moreover have "get_id ops s c' = Some i"
      using k(1) c' hm_get_mem[OF store_inv_facts(6)[OF inv]] by (simp add: get_id_def)
    ultimately show "\<exists>c'. sc_hash ops c' = ?h \<and> sc_codec ops c' = code \<and> get_id ops s c' = Some i"
      using h by blast
  next
    assume "\<exists>c'. sc_hash ops c' = ?h \<and> sc_codec ops c' = code \<and> get_id ops s c' = Some i"
    then obtain c' where c': "sc_hash ops c' = ?h" "sc_codec ops c' = code" "get_id ops s c' = Some i" by blast
    have "(?h @ to_be_bytes code, i) \<in> set (cf_id (st_content s))"
      using c' hm_get_mem[OF store_inv_facts(6)[OF inv]] by (simp add: get_id_def id_key_def)
    moreover have "?h \<le> ?h @ to_be_bytes code" by (rule le_append)
    ultimately show "(code, i) \<in> set (get_ids_for_hash s ?h)" unfolding set
      by (intro image_eqI[where x = "(?h @ to_be_bytes code, i)"]) (auto simp: from_to_be_bytes)
  qed
qed

lemma first_blob_iff:
  "first_blob s ids = None \<longleftrightarrow> (\<forall>(_, i) \<in> set ids. blob_at s i = None)"
  "first_blob s ids = Some b \<Longrightarrow> \<exists>code i. (code, i) \<in> set ids \<and> blob_at s i = Some b"
  by (induction s ids rule: first_blob.induct) (auto split: option.splits)

lemma by_hash:
  assumes laws: "store_cids_laws ops" and inv: "store_inv ops s"
  shows "has_blob_for_hash s (sc_hash ops c) \<longleftrightarrow> (\<exists>c'. sc_hash ops c' = sc_hash ops c \<and> Store_has ops s c')"
    and "get_blob_by_hash s (sc_hash ops c) = None \<longleftrightarrow> (\<forall>c'. sc_hash ops c' = sc_hash ops c \<longrightarrow> \<not> Store_has ops s c')"
    and "get_blob_by_hash s (sc_hash ops c) = Some b \<Longrightarrow> \<exists>c'. sc_hash ops c' = sc_hash ops c \<and> Store_get ops s c' = Some b"
proof -
  note iff = get_ids_for_hash_iff[OF laws inv, of _ _ c]
  have "(\<exists>(_, i) \<in> set (get_ids_for_hash s (sc_hash ops c)). blob_at s i \<noteq> None) \<longleftrightarrow>
      (\<exists>c'. sc_hash ops c' = sc_hash ops c \<and> Store_has ops s c')"
    by (fastforce simp: iff Store_has_def split: option.splits)
  then show "has_blob_for_hash s (sc_hash ops c) \<longleftrightarrow> (\<exists>c'. sc_hash ops c' = sc_hash ops c \<and> Store_has ops s c')"
    and "get_blob_by_hash s (sc_hash ops c) = None \<longleftrightarrow> (\<forall>c'. sc_hash ops c' = sc_hash ops c \<longrightarrow> \<not> Store_has ops s c')"
    by (auto simp: has_blob_for_hash_def get_blob_by_hash_def first_blob_iff(1) list_ex_iff case_prod_beta)
  show "\<exists>c'. sc_hash ops c' = sc_hash ops c \<and> Store_get ops s c' = Some b" if "get_blob_by_hash s (sc_hash ops c) = Some b"
    using first_blob_iff(2)[OF that[unfolded get_blob_by_hash_def]] by (auto simp: iff Store_get_def)
qed

section \<open>The store over its lifetime\<close>

text \<open>
  A store is created, and then blocks are put into it one by one or in lists, and it is closed and opened again,
  with the log of all the blocks. The content ids of one list that have the same multihash and codec are the
  same content id: \<open>put_many\<close> recognises a repeated block by its content id, while the key leaves the
  version out.
\<close>

inductive store_run :: "'cid store_cids \<Rightarrow> inner_store \<Rightarrow> ('cid \<times> bytes \<times> 'cid list) list \<Rightarrow> bool" for ops where
  sr_create: "store_run ops Store_create []"
| sr_put: "store_run ops s log \<Longrightarrow> Store_put ops cid blob links s = Some s' \<Longrightarrow>
    store_run ops s' (log @ [(cid, blob, links)])"
| sr_put_many: "store_run ops s log \<Longrightarrow> inj_on (id_key ops) (fst ` set blocks) \<Longrightarrow>
    Store_put_many ops blocks s = Some s' \<Longrightarrow> store_run ops s' (log @ blocks)"
| sr_open: "store_run ops s log \<Longrightarrow> store_run ops (Store_open (st_content s)) log"

lemma put_refines:
  assumes "store_inv ops s" and "Store_put ops cid blob links s = Some s'"
  shows "store_inv ops s' \<and> store_abs s' = spec_put ops (cid, blob, links) (store_abs s)"
  using put_many_refines[OF assms(1), of "[(cid, blob, links)]" s'] assms(2) by (simp add: put_as_put_many)

lemma store_run_abs:
  "store_run ops s log \<Longrightarrow> store_inv ops s \<and> store_abs s = fold (spec_put ops) log Map.empty"
proof (induction rule: store_run.induct)
  case sr_create
  show ?case by (simp add: create_inv create_abs)
next
  case (sr_put s log cid blob links s')
  then show ?case using put_refines by fastforce
next
  case (sr_put_many s log blocks s')
  then show ?case using put_many_refines by fastforce
next
  case (sr_open s log)
  then show ?case using open_inv by fastforce
qed

text \<open>The block that counts for a content id is the first one that was put under its multihash and codec.\<close>

definition first_put :: "'cid store_cids \<Rightarrow> ('cid \<times> bytes \<times> 'cid list) list \<Rightarrow> 'cid \<Rightarrow> ('cid \<times> bytes \<times> 'cid list) option" where
  "first_put ops log c = find (\<lambda>(c', _). sc_hash ops c' = sc_hash ops c \<and> sc_codec ops c' = sc_codec ops c) log"

lemma first_put_Cons: "first_put ops ((c', b, links) # log) c =
    (if id_key ops c' = id_key ops c then Some (c', b, links) else first_put ops log c)"
  by (simp add: first_put_def id_key_eq)

lemma first_put_SomeD: "first_put cids log c = Some x \<Longrightarrow> x \<in> set log \<and> id_key cids (fst x) = id_key cids c"
proof (induction log)
  case (Cons y log)
  then show ?case by (cases y) (auto simp: first_put_Cons split: if_splits)
qed (simp add: first_put_def)

lemma first_put_None: "first_put ops log c = None \<longleftrightarrow>
    \<not> (\<exists>(c', _) \<in> set log. sc_hash ops c' = sc_hash ops c \<and> sc_codec ops c' = sc_codec ops c)"
  by (induction log) (auto simp: first_put_def)

lemma spec_put_at: "spec_put ops (c', b, links) m k = (case m k of
     Some v \<Rightarrow> Some v
   | None \<Rightarrow> if k = id_key ops c' then Some (b, map (id_key ops) links) else None)"
  by (auto simp: spec_put_def split: option.split)

lemma fold_spec_put:
  "fold (spec_put ops) log m (id_key ops c) = (case m (id_key ops c) of
     Some v \<Rightarrow> Some v
   | None \<Rightarrow> map_option (\<lambda>(_, b, links). (b, map (id_key ops) links)) (first_put ops log c))"
proof (induction log arbitrary: m)
  case Nil
  show ?case by (simp add: first_put_def split: option.split)
next
  case (Cons x log)
  obtain c' b links where x: "x = (c', b, links)" by (cases x)
  show ?case by (auto simp: Cons.IH x spec_put_at first_put_Cons split: option.split)
qed

lemma store_run_first:
  "store_run ops s log \<Longrightarrow> store_abs s (id_key ops c) =
     map_option (\<lambda>(_, b, links). (b, map (id_key ops) links)) (first_put ops log c)"
  using store_run_abs[of ops s log] fold_spec_put[of ops log Map.empty c] by simp

text \<open>
  What a loader relies on in a store: one block at a time is put, the first one under a key stays, and nothing else
  changes.
\<close>

locale block_map =
  fixes inv :: "'s \<Rightarrow> bool" and get :: "'s \<Rightarrow> 'cid \<Rightarrow> bytes option" and key :: "'cid \<Rightarrow> 'k"
    and put :: "'cid \<times> bytes \<times> 'cid list \<Rightarrow> 's \<Rightarrow> 's option"
  assumes put_inv: "inv s \<Longrightarrow> put b s = Some s' \<Longrightarrow> inv s'"
    and get_put: "inv s \<Longrightarrow> put (c, d, links) s = Some s' \<Longrightarrow>
      get s' c' = (if get s c' = None \<and> key c' = key c then Some d else get s c')"
begin

lemma get_kept: "inv s \<Longrightarrow> put b s = Some s' \<Longrightarrow> get s c = Some d \<Longrightarrow> get s' c = Some d"
  by (cases b) (simp add: get_put)

lemma get_new: "inv s \<Longrightarrow> put (c, d, links) s = Some s' \<Longrightarrow> get s c = None \<Longrightarrow> get s' c = Some d"
  by (simp add: get_put)

lemma put_again: "inv s \<Longrightarrow> put (c, d, links) s = Some s' \<Longrightarrow> put (c, d', links') s' = Some s'' \<Longrightarrow> get s'' = get s'"
  using put_inv by (fastforce simp: fun_eq_iff get_put)

end

interpretation stored_blocks: block_map "store_inv ops" "Store_get ops" "id_key ops" "\<lambda>(c, d, links). Store_put ops c d links"
  for ops :: "'cid store_cids"
proof
  fix s b s'
  assume "store_inv ops s" and "(case b of (c, d, links) \<Rightarrow> Store_put ops c d links) s = Some s'"
  then show "store_inv ops s'" by (cases b) (auto dest: put_refines)
next
  fix s c d links s' c'
  assume inv: "store_inv ops s" and "(case (c, d, links) of (c, d, links) \<Rightarrow> Store_put ops c d links) s = Some s'"
  then have "store_inv ops s'" "store_abs s' = spec_put ops (c, d, links) (store_abs s)" by (auto dest: put_refines)
  then show "Store_get ops s' c' = (if Store_get ops s c' = None \<and> id_key ops c' = id_key ops c then Some d else Store_get ops s c')"
    using reads_abs[of ops s' c'] reads_abs[OF inv, of c'] by (auto simp: spec_put_at split: option.split)
qed

lemma store_run_get:
  assumes "store_run ops s log"
  shows "Store_get ops s c = map_option (\<lambda>(_, blob, _). blob) (first_put ops log c)"
    and "Store_get_size ops s c = map_option (\<lambda>(_, blob, _). length blob) (first_put ops log c)"
  using reads_abs[of ops s c] store_run_abs[OF assms] store_run_first[OF assms, of c] by (cases "first_put ops log c"; auto)+

text \<open>
  C6: The store keeps what is put into it. After any sequence of puts, of single blocks and of lists, and
  of closing and opening, \<open>get\<close>, \<open>has\<close>, \<open>get_size\<close> and \<open>get_links\<close> give for every content id the data of
  the first block that was put under its multihash and codec, and nothing if there was none; the links are
  content ids with the multihash and the codec of those of the block. A further put does not panic as long
  as there are numbers left for the blocks and their links.
\<close>

theorem Store_keeps_blocks:
  assumes "store_cids_laws ops" and "store_run ops s log"
  shows "Store_get ops s c = map_option (\<lambda>(_, blob, _). blob) (first_put ops log c) \<and>
    (Store_has ops s c \<longleftrightarrow> first_put ops log c \<noteq> None) \<and>
    Store_get_size ops s c = map_option (\<lambda>(_, blob, _). length blob) (first_put ops log c) \<and>
    (\<exists>links. Store_get_links ops s c = Inr links \<and> map_option (map (id_key ops)) links =
       map_option (\<lambda>(_, _, links). map (id_key ops) links) (first_put ops log c)) \<and>
    (unat (st_next_id s) + ids_needed blocks < 2 ^ 64 \<longrightarrow> (\<exists>s'. Store_put_many ops blocks s = Some s'))"
proof -
  have inv: "store_inv ops s" using store_run_abs[OF assms(2)] by simp
  note first = store_run_first[OF assms(2), of c]
  have "Store_has ops s c \<longleftrightarrow> first_put ops log c \<noteq> None" using store_abs_has[OF inv, of c] by (simp add: first)
  moreover have "\<exists>links. Store_get_links ops s c = Inr links \<and> map_option (map (id_key ops)) links =
      map_option (\<lambda>(_, _, links). map (id_key ops) links) (first_put ops log c)"
    using get_links_abs[OF assms(1) inv, of c] first by (cases "first_put ops log c") auto
  ultimately show ?thesis using put_many_defined[OF inv, of blocks] store_run_get[OF assms(2), of c] by blast
qed

text \<open>A lookup by hash finds a blob exactly if one was put under a content id with this multihash.\<close>

lemma Store_by_hash:
  assumes "store_cids_laws ops" and "store_run ops s log"
  shows "get_blob_by_hash s (sc_hash ops c) \<noteq> None \<longleftrightarrow> (\<exists>(c', _) \<in> set log. sc_hash ops c' = sc_hash ops c)"
proof -
  have inv: "store_inv ops s" using store_run_abs[OF assms(2)] by simp
  have "Store_has ops s c' \<longleftrightarrow> (\<exists>(c'', _) \<in> set log. sc_hash ops c'' = sc_hash ops c' \<and> sc_codec ops c'' = sc_codec ops c')" for c'
    using store_abs_has[OF inv, of c'] store_run_first[OF assms(2), of c'] first_put_None[of ops log c'] by auto
  then show ?thesis using by_hash(2)[OF assms(1) inv, of c] by fastforce
qed

section \<open>The consistency check\<close>

text \<open>An id that no key leads to makes the two column families differ in length.\<close>

lemma orphan_reported:
  assumes inv: "store_inv ops s" and "meta_at s i \<noteq> None" and orphan: "\<forall>k. id_at s k \<noteq> Some i"
  shows "consistency_check s \<noteq> []"
proof -
  let ?ids = "cf_id (st_content s)" and ?meta = "cf_metadata (st_content s)"
  have wf: "hm_wf ?ids" "hm_wf ?meta" using store_inv_facts(6,7)[OF inv] by auto
  have "inj_on (\<lambda>k. the (id_at s k)) (fst ` set ?ids)"
  proof (rule inj_onI)
    fix k k' assume "k \<in> fst ` set ?ids" "k' \<in> fst ` set ?ids" and eq: "the (id_at s k) = the (id_at s k')"
    then obtain j j' where "id_at s k = Some j" "id_at s k' = Some j'" by (metis hm_get_None option.exhaust)
    with eq show "k = k'" using store_inv_facts(1)[OF inv, of k j] store_inv_facts(1)[OF inv, of k' j'] by auto
  qed
  moreover have "(\<lambda>k. the (id_at s k)) ` fst ` set ?ids \<subseteq> fst ` set ?meta - {i}"
  proof
    fix j assume "j \<in> (\<lambda>k. the (id_at s k)) ` fst ` set ?ids"
    then obtain k where "id_at s k = Some j" by (metis (no_types, lifting) hm_get_None image_iff option.collapse)
    then show "j \<in> fst ` set ?meta - {i}"
      using store_inv_facts(1)[OF inv, of k j] orphan hm_get_key[of ?meta j] by auto
  qed
  ultimately have "card (fst ` set ?ids) \<le> card (fst ` set ?meta - {i})" by (rule card_inj_on_le) simp
  also have "\<dots> < card (fst ` set ?meta)"
    using assms(2) by (intro card_Diff1_less) (auto dest: hm_get_key)
  finally have "card (fst ` set ?ids) < card (fst ` set ?meta)" .
  then show ?thesis using hm_size_keys[OF wf(1)] hm_size_keys[OF wf(2)] by (simp add: consistency_check_def Let_def)
qed

text \<open>
  C39: Putting a block that an earlier block links to makes the consistency check fail. The link gave the content
  id an id; the put gives it another one, and the metadata of the first stay. This is what happens when a
  block is stored before the blocks it links to.
\<close>

theorem Store_relinked_reported:
  assumes "store_run ops s log" and "get_id ops s c = Some i" and "\<not> Store_has ops s c"
    and "Store_put ops c blob links s = Some s'"
  shows "consistency_check s' \<noteq> []"
proof -
  have inv: "store_inv ops s" using store_run_abs[OF assms(1)] by simp
  obtain n s1 ch s2 where n: "next_id s = Some (n, s1)" and e: "ensure_id_many ops links s1 = Some (ch, s2)"
    and s': "s' = db_write (block_puts ops n c blob ch) s2"
    using assms(3,4) by (auto simp: Store_put_def split: option.splits)
  note nx = next_id_Some[OF n]
  have meta: "meta_at s i = Some (MetadataV0_of ops c)" using id_at_meta[OF inv] assms(2) by (simp add: get_id_def)
  then have lt: "i < n" using store_inv_facts(2)[OF inv meta] nx(1) by simp
  have "store_inv ops s1" using store_inv_next[OF inv, of "n + 1"] nx by simp
  from ensure_id_many_ensured[OF this e] have "meta_at s2 i = meta_at s i"
    using lt nx by (simp add: links_ensured_def)
  then have m': "meta_at s' i = Some (MetadataV0_of ops c)" using lt meta by (simp add: s' write_block_views)
  have key: "id_at s' (id_key ops c) = Some n" by (simp add: s' write_block_views)
  have inv': "store_inv ops s'" using put_refines[OF inv assms(4)] by simp
  have "id_at s' k \<noteq> Some i" for k
    using store_inv_facts(1)[OF inv', of k i] m' key lt by auto
  then show ?thesis using orphan_reported[OF inv', of i] m' by simp
qed

section \<open>Witnesses\<close>

text \<open>Content ids that are a codec and a number, whose multihash is the number.\<close>

definition num_cids :: "(64 word \<times> 64 word) store_cids" where
  "num_cids = \<lparr>sc_hash = (\<lambda>(_, d). to_be_bytes d), sc_codec = fst,
     sc_new_v1 = (\<lambda>codec h. if length h = 8 then Some (codec, from_be_bytes h) else None)\<rparr>"

lemma num_cids_laws: "store_cids_laws num_cids"
proof -
  have "rest = []" if "to_be_bytes d' = to_be_bytes d @ rest" for d d' rest
    using arg_cong[OF that, of length] by simp
  then show ?thesis by (auto simp: store_cids_laws_def num_cids_def from_to_be_bytes)
qed

lemmas num_store = num_cids_def id_key_def to_be_bytes_def upt_rec Store_put_def Store_create_def Store_has_def
  get_id_def next_id_def ensure_id_many_def db_write_def block_puts_def MetadataV0_of_def

text \<open>A block with one link, and the store that holds it.\<close>

definition num_store1 :: inner_store where
  "num_store1 = the (Store_put num_cids (0x71, 1) [7, 8] [(0x55, 2)] Store_create)"

lemma num_store1_put: "Store_put num_cids (0x71, 1) [7, 8] [(0x55, 2)] Store_create = Some num_store1"
  by (simp add: num_store1_def num_store)

lemma num_store1_run: "store_run num_cids num_store1 [((0x71, 1), [7, 8], [(0x55, 2)])]"
  using sr_put[OF sr_create num_store1_put] by simp

lemma num_store1_room: "unat (st_next_id num_store1) + ids_needed [((0x55 :: 64 word, 2 :: 64 word), [9], [])] < 2 ^ 64"
  by (simp add: num_store1_def num_store ids_needed_def)

theorem Store_keeps_blocks_witness:
  "Store_get num_cids num_store1 (0x71, 1) = Some [7, 8] \<and> Store_get_size num_cids num_store1 (0x71, 1) = Some 2 \<and>
   \<not> Store_has num_cids num_store1 (0x55, 2) \<and>
   (\<exists>s'. Store_put_many num_cids [((0x55, 2), [9], [])] num_store1 = Some s')"
  using num_store1_room Store_keeps_blocks[OF num_cids_laws num_store1_run, of "(0x71, 1)" "[((0x55, 2), [9], [])]"]
    Store_keeps_blocks[OF num_cids_laws num_store1_run, of "(0x55, 2)" "[]"]
  by (simp add: first_put_def num_cids_def)

theorem Store_relinked_reported_witness:
  "\<exists>s'. Store_put num_cids (0x55, 2) [9] [] num_store1 = Some s' \<and> consistency_check s' \<noteq> []"
proof -
  have i: "get_id num_cids num_store1 (0x55, 2) = Some 2" and h: "\<not> Store_has num_cids num_store1 (0x55, 2)"
    by (simp_all add: num_store1_def num_store)
  obtain s' where s': "Store_put num_cids (0x55, 2) [9] [] num_store1 = Some s'"
    using put_many_defined[OF conjunct1[OF store_run_abs[OF num_store1_run]] num_store1_room] by (auto simp: put_as_put_many)
  from Store_relinked_reported[OF num_store1_run i h s'] s' show ?thesis by blast
qed

end
