(* ===== verification/Loader.thy ===== *)
theory Loader
  imports BlockStore ResolveTree
begin

text \<open>
  The content loader of a node, \<open>FullLoader\<close> in \<open>iroh-unixfs/src/content_loader.rs\<close>: the store first, then
  bitswap and an HTTP gateway at the same time, and what was found there is put into the store in the background.

  What other services answer is an input: the fetch of the p2p service, if there is one, the providers
  that the indexer names, the answers of the gateways, which gateway is picked, and which of the two futures is
  ready first. The crate \<open>url\<close> and the text of a content id are parameters. The calls of the store do not fail. Sessions,
  which only stop the p2p service from looking for a block, are not modelled.
\<close>

declare map_of_eq_Some_iff [simp del]

section \<open>Data\<close>

datatype load_error =
    LoP2p | LoBadCid | LoBadUrl | LoHttp | LoStatus | LoTampered | LoOffline | LoNotFound | LoNoService | LoPanicked

datatype 'url gateway_url = GwFull 'url | GwSubdomain bytes

record 'url url_ops =
  ur_parse :: "bytes \<Rightarrow> 'url option"
  ur_join :: "'url \<Rightarrow> bytes \<Rightarrow> 'url option"
  ur_set_query :: "'url \<Rightarrow> bytes \<Rightarrow> 'url"
  ur_to_string :: "'url \<Rightarrow> bytes"

text \<open>
  \<open>ld_cid_v1\<close> is the text of a content id in version 1 and base 32; \<open>ld_choose\<close> picks one of as many
  elements as it is given.
\<close>

record ('cid, 'mh, 'peer, 'url) loader_env =
  ld_cids :: "('cid, 'mh) cid_ops"
  ld_store_cids :: "'cid store_cids"
  ld_has_store :: bool
  ld_p2p :: "('peer list \<Rightarrow> 'cid \<Rightarrow> load_error + bytes) option"
  ld_indexer :: "('cid \<Rightarrow> 'peer list option) option"
  ld_http_gateways :: "'url gateway_url list"
  ld_choose :: "nat \<Rightarrow> nat"
  ld_urls :: "'url url_ops"
  ld_cid_v1 :: "'cid \<Rightarrow> bytes option"
  ld_http :: "'url \<Rightarrow> load_error + bool \<times> bytes"
  ld_gateway_first :: bool

text \<open>The bytes of \<open>iroh-store\<close>, \<open>http\<close>, \<open>https://\<close>, \<open>.ipfs.\<close> and \<open>?format=raw\<close>.\<close>

definition IROH_STORE :: bytes where
  "IROH_STORE = [105, 114, 111, 104, 45, 115, 116, 111, 114, 101]"

abbreviation http_bytes :: bytes where
  "http_bytes \<equiv> [104, 116, 116, 112]"

abbreviation https_prefix :: bytes where
  "https_prefix \<equiv> [104, 116, 116, 112, 115, 58, 47, 47]"

abbreviation ipfs_infix :: bytes where
  "ipfs_infix \<equiv> [46, 105, 112, 102, 115, 46]"

abbreviation format_raw :: bytes where
  "format_raw \<equiv> [102, 111, 114, 109, 97, 116, 61, 114, 97, 119]"

section \<open>Gateways\<close>

definition GatewayUrl_from_str :: "'url url_ops \<Rightarrow> bytes \<Rightarrow> load_error + 'url gateway_url" where
  "GatewayUrl_from_str us input =
     (if take 4 input = http_bytes
      then result_bind (ok_or LoBadUrl (ur_parse us input)) (\<lambda>url. Inr (GwFull url))
      else Inr (GwSubdomain input))"

fun GatewayUrl_as_string :: "'url url_ops \<Rightarrow> 'url gateway_url \<Rightarrow> bytes" where
  "GatewayUrl_as_string us (GwFull url) = ur_to_string us url"
| "GatewayUrl_as_string us (GwSubdomain s) = s"

definition GatewayUrl_as_url ::
    "('cid, 'mh, 'peer, 'url) loader_env \<Rightarrow> 'url gateway_url \<Rightarrow> 'cid \<Rightarrow> load_error + 'url" where
  "GatewayUrl_as_url env gw cid =
     result_bind (ok_or LoBadCid (ld_cid_v1 env cid)) (\<lambda>cid_str.
     case gw of
       GwFull raw \<Rightarrow>
         result_bind (ok_or LoPanicked (ur_join (ld_urls env) raw cid_str)) (\<lambda>url.
         Inr (ur_set_query (ld_urls env) url format_raw))
     | GwSubdomain raw \<Rightarrow>
         ok_or LoBadUrl (ur_parse (ld_urls env) (https_prefix @ cid_str @ ipfs_infix @ raw @ [63] @ format_raw)))"

section \<open>Loading\<close>

definition next_gateway :: "('cid, 'mh, 'peer, 'url) loader_env \<Rightarrow> 'url gateway_url option" where
  "next_gateway env =
     (let gws = ld_http_gateways env
      in if gws = [] then None else Some (gws ! (ld_choose env (length gws) mod length gws)))"

definition fetch_store :: "('cid, 'mh, 'peer, 'url) loader_env \<Rightarrow> inner_store \<Rightarrow> 'cid \<Rightarrow> loaded_cid option" where
  "fetch_store env s cid =
     (if ld_has_store env
      then map_option (\<lambda>data. \<lparr>lc_data = data, lc_source = Store IROH_STORE\<rparr>) (Store_get (ld_store_cids env) s cid)
      else None)"

definition fetch_bitswap :: "('cid, 'mh, 'peer, 'url) loader_env \<Rightarrow> 'cid \<Rightarrow> load_error + loaded_cid option" where
  "fetch_bitswap env cid = (case ld_p2p env of
       Some p2p \<Rightarrow>
         (let providers = (case ld_indexer env of
              Some indexer \<Rightarrow> (case indexer cid of Some providers \<Rightarrow> remdups providers | None \<Rightarrow> [])
            | None \<Rightarrow> [])
          in result_bind (p2p providers cid) (\<lambda>data. Inr (Some \<lparr>lc_data = data, lc_source = Bitswap\<rparr>)))
     | None \<Rightarrow> Inr None)"

definition fetch_gateway :: "('cid, 'mh, 'peer, 'url) loader_env \<Rightarrow> 'cid \<Rightarrow> load_error + loaded_cid option" where
  "fetch_gateway env cid = (case next_gateway env of
       Some url \<Rightarrow>
         result_bind (GatewayUrl_as_url env url cid) (\<lambda>u.
         result_bind (ld_http env u) (\<lambda>(success, data).
         if \<not> success then Inl LoStatus
         else if verify_hash (ld_cids env) cid data = Some True
         then Inr (Some \<lparr>lc_data = data, lc_source = Http (GatewayUrl_as_string (ld_urls env) url)\<rparr>)
         else Inl LoTampered))
     | None \<Rightarrow> Inr None)"

text \<open>The second of the two futures counts only if the first gave no block.\<close>

definition fetch_remote :: "('cid, 'mh, 'peer, 'url) loader_env \<Rightarrow> 'cid \<Rightarrow> load_error + loaded_cid" where
  "fetch_remote env cid =
     (let bitswap = fetch_bitswap env cid; gateway = fetch_gateway env cid;
          first = (if ld_gateway_first env then gateway else bitswap);
          second = (if ld_gateway_first env then bitswap else gateway)
      in case first of
           Inr (Some loaded) \<Rightarrow> Inr loaded
         | _ \<Rightarrow> (case second of
             Inr (Some loaded) \<Rightarrow> Inr loaded
           | _ \<Rightarrow> if bitswap = Inr None \<and> gateway = Inr None then Inl LoOffline else Inl LoNotFound))"

text \<open>What is loaded, and whether \<open>store_data\<close> is started for it.\<close>

definition FullLoader_load_cid ::
    "('cid, 'mh, 'peer, 'url) loader_env \<Rightarrow> inner_store \<Rightarrow> 'cid \<Rightarrow> load_error + loaded_cid \<times> bool" where
  "FullLoader_load_cid env s cid = (case fetch_store env s cid of
       Some loaded \<Rightarrow> Inr (loaded, False)
     | None \<Rightarrow> result_bind (fetch_remote env cid) (\<lambda>loaded. Inr (loaded, True)))"

definition parsed_links :: "'cid ufs_ops \<Rightarrow> ('cid, 'i) ipld_ops \<Rightarrow> 'cid \<Rightarrow> bytes \<Rightarrow> 'cid list" where
  "parsed_links ops il cid data = (case parse_links ops il cid data of Inr links \<Rightarrow> links | Inl _ \<Rightarrow> [])"

text \<open>The store after the background task, and the blocks that bitswap is told of.\<close>

definition store_data ::
    "('cid, 'mh, 'peer, 'url) loader_env \<Rightarrow> 'cid ufs_ops \<Rightarrow> ('cid, 'i) ipld_ops \<Rightarrow> 'cid \<Rightarrow> bytes \<Rightarrow> inner_store \<Rightarrow>
     inner_store \<times> ('cid \<times> bytes) list" where
  "store_data env ops il cid data s =
     (if ld_has_store env
      then (case Store_put (ld_store_cids env) cid data (parsed_links ops il cid data) s of
          Some s' \<Rightarrow> (s', if ld_p2p env = None then [] else [(cid, data)])
        | None \<Rightarrow> (s, []))
      else (s, []))"

definition FullLoader_has_cid :: "('cid, 'mh, 'peer, 'url) loader_env \<Rightarrow> inner_store \<Rightarrow> 'cid \<Rightarrow> load_error + bool" where
  "FullLoader_has_cid env s cid =
     (if ld_has_store env then Inr (Store_has (ld_store_cids env) s cid) else Inl LoNoService)"

text \<open>The loader as the resolver calls it, with the store as it is.\<close>

definition store_loader :: "('cid, 'mh, 'peer, 'url) loader_env \<Rightarrow> inner_store \<Rightarrow> 'cid loader" where
  "store_loader env s cid = (case FullLoader_load_cid env s cid of
       Inr (loaded, _) \<Rightarrow> Inr loaded
     | Inl _ \<Rightarrow> Inl LoadFailed)"

section \<open>What is loaded\<close>

lemma fetch_bitswap_offline: "fetch_bitswap env cid = Inr None \<longleftrightarrow> ld_p2p env = None"
  by (auto simp: fetch_bitswap_def result_bind_def Let_def split: option.splits sum.splits)

lemma fetch_gateway_offline: "fetch_gateway env cid = Inr None \<longleftrightarrow> ld_http_gateways env = []"
  by (auto simp: fetch_gateway_def next_gateway_def result_bind_def Let_def split: option.splits sum.splits)

lemma fetch_gateway_verified:
  "fetch_gateway env cid = Inr (Some l) \<Longrightarrow> verify_hash (ld_cids env) cid (lc_data l) = Some True"
  by (auto simp: fetch_gateway_def result_bind_def split: option.splits sum.splits if_splits)

lemma fetch_remote_offline:
  "fetch_remote env cid = Inl LoOffline \<longleftrightarrow> ld_p2p env = None \<and> ld_http_gateways env = []"
  using fetch_bitswap_offline[of env cid] fetch_gateway_offline[of env cid]
  by (auto simp: fetch_remote_def Let_def split: sum.splits option.splits)

lemma fetch_remote_from:
  "fetch_remote env cid = Inr l \<Longrightarrow> fetch_bitswap env cid = Inr (Some l) \<or> fetch_gateway env cid = Inr (Some l)"
  by (auto simp: fetch_remote_def Let_def split: sum.splits option.splits if_splits)

lemma fetch_bitswap_source: "fetch_bitswap env cid = Inr (Some l) \<Longrightarrow> lc_source l = Bitswap"
  by (auto simp: fetch_bitswap_def Let_def result_bind_def split: option.splits sum.splits)

lemma fetch_remote_fails:
  "fetch_remote env cid = Inl e \<Longrightarrow> fetch_bitswap env cid \<noteq> Inr (Some l) \<and> fetch_gateway env cid \<noteq> Inr (Some l)"
  by (auto simp: fetch_remote_def Let_def split: sum.splits option.splits if_splits)

text \<open>A block that was not in the store and is put into it is found there.\<close>

lemma store_data_kept:
  assumes run: "store_run (ld_store_cids env) s log" and "ld_has_store env" and none: "Store_get (ld_store_cids env) s cid = None"
    and room: "unat (st_next_id s) + 1 + length (parsed_links ops il cid data) < 2 ^ 64"
  shows "Store_get (ld_store_cids env) (fst (store_data env ops il cid data s)) cid = Some data"
proof -
  let ?c = "ld_store_cids env" and ?links = "parsed_links ops il cid data"
  have inv: "store_inv ?c s" using store_run_abs[OF run] by simp
  obtain s' where put: "Store_put ?c cid data ?links s = Some s'"
    using put_many_defined[OF inv, of "[(cid, data, ?links)]"] room by (auto simp: put_as_put_many ids_needed_def)
  have "Store_get ?c s' cid = Some data"
    by (rule stored_blocks.get_new[OF inv _ none, of data ?links]) (simp add: put)
  then show ?thesis using assms(2) put by (simp add: store_data_def)
qed


section \<open>Witnesses\<close>

text \<open>Content ids that are a codec and a digest, and a node with a store, no p2p service and one gateway that has two bytes.\<close>

definition sum_cids :: "(u64 \<times> u64, u64) cid_ops" where
  "sum_cids =
     \<lparr>cid_to_bytes = (\<lambda>(c, d). to_be_bytes c @ to_be_bytes d),
      cid_try_from = (\<lambda>bs. Some (from_be_bytes (take 8 bs), from_be_bytes (drop 8 bs))), cid_version = (\<lambda>_. 1), cid_codec = fst,
      cid_hash = snd, cid_new = (\<lambda>v codec mh. Some (codec, mh)), version_known = (\<lambda>v. v = 1),
      mh_code = (\<lambda>_. 3), mh_digest_len = (\<lambda>_. 8), code_known = (\<lambda>c. c = 3),
      code_digest = (\<lambda>c data. sum_digest data), code_sha2_256 = 3,
      varint_encode = to_be_bytes, varint_decode_u64 = (\<lambda>bs. Some (from_be_bytes (take 8 bs), drop 8 bs)),
      varint_decode_usize = (\<lambda>bs. Some (unat (from_be_bytes (take 8 bs)), drop 8 bs))\<rparr>"

definition gateway_env :: "(u64 \<times> u64, u64, nat, bytes) loader_env" where
  "gateway_env =
     \<lparr>ld_cids = sum_cids, ld_store_cids = num_cids, ld_has_store = True, ld_p2p = None, ld_indexer = None,
      ld_http_gateways = [GwSubdomain [103]], ld_choose = (\<lambda>_. 0),
      ld_urls = \<lparr>ur_parse = Some, ur_join = (\<lambda>u t. Some (u @ t)), ur_set_query = (\<lambda>u q. u @ q), ur_to_string = (\<lambda>u. u)\<rparr>,
      ld_cid_v1 = (\<lambda>c. Some (to_be_bytes (snd c))), ld_http = (\<lambda>_. Inr (True, [1, 2])), ld_gateway_first = False\<rparr>"


end
