(* ===== verification/Api.thy ===== *)
theory Api
  imports Loader
begin

text \<open>
  Adding content to a node and getting it back: \<open>iroh-api/src/store.rs\<close>, \<open>api.rs\<close> and \<open>get_root_path\<close> of \<open>fs.rs\<close>.
  Adding encodes an entry into a stream of blocks and puts them into the store in chunks; getting traverses
  the entries below a path and gives each under its path below this one.

  A stream is the list of its items and ends after the first error. The paths of the crate \<open>relative_path\<close>
  are parameters, with \<open>rel_laws\<close> as what its documentation says of names joined by slashes.
\<close>

declare map_of_eq_Some_iff [simp del]

section \<open>Adding\<close>

datatype add_error = AddBlock ufs_error | AddStore | AddPanic | AddNoCid

text \<open>\<open>raw_data_size\<close> panics on an unknown codec.\<close>

definition Block_raw_data_size :: "'cid ufs_ops \<Rightarrow> 'cid ufs_block \<Rightarrow> add_error + u64 option" where
  "Block_raw_data_size ops b =
     result_bind (ok_or AddPanic (Codec_try_from (uc_codec ops (ub_cid b)))) (\<lambda>codec.
     Inr (if codec = Codec_Raw then Some (of_nat (length (ub_data b))) else None))"

definition Block_into_parts :: "'cid ufs_block \<Rightarrow> 'cid \<times> bytes \<times> 'cid list" where
  "Block_into_parts b = (ub_cid b, ub_data b, ub_links b)"

definition MAX_CHUNK_SIZE :: nat where
  "MAX_CHUNK_SIZE = 1024 * 1024"

definition block_size :: "'cid ufs_block \<Rightarrow> nat" where
  "block_size b = length (ub_data b) + length (ub_links b) * 128"

text \<open>The items of the stream, and the store after it. A put that panics in the store is an error of the call.\<close>

fun add_chunked ::
    "'cid ufs_ops \<Rightarrow> 'cid store_cids \<Rightarrow> (ufs_error + 'cid ufs_block) list \<Rightarrow> 'cid ufs_block list \<Rightarrow> nat \<Rightarrow> inner_store \<Rightarrow>
     (add_error + 'cid \<times> u64) list \<times> inner_store" where
  "add_chunked ops cids [] chunk chunk_size s =
     (case Store_put_many cids (map Block_into_parts chunk) s of
        None \<Rightarrow> ([Inl AddStore], s)
      | Some s' \<Rightarrow> ([], s'))"
| "add_chunked ops cids (Inl e # blocks) chunk chunk_size s = ([Inl (AddBlock e)], s)"
| "add_chunked ops cids (Inr b # blocks) chunk chunk_size s =
     (case Block_raw_data_size ops b of
        Inl e \<Rightarrow> ([Inl e], s)
      | Inr raw_data_size \<Rightarrow>
          (let item = Inr (ub_cid b, case raw_data_size of None \<Rightarrow> 0 | Some n \<Rightarrow> n)
           in if chunk_size + block_size b > MAX_CHUNK_SIZE
              then (case Store_put_many cids (map Block_into_parts chunk) s of
                  None \<Rightarrow> ([Inl AddStore], s)
                | Some s' \<Rightarrow> apfst ((#) item) (add_chunked ops cids blocks [b] (block_size b) s'))
              else apfst ((#) item) (add_chunked ops cids blocks (chunk @ [b]) (chunk_size + block_size b) s)))"

definition add_blocks_to_store ::
    "'cid ufs_ops \<Rightarrow> 'cid store_cids \<Rightarrow> (ufs_error + 'cid ufs_block) list \<Rightarrow> inner_store \<Rightarrow>
     (add_error + 'cid \<times> u64) list \<times> inner_store" where
  "add_blocks_to_store ops cids blocks s = add_chunked ops cids blocks [] 0 s"

definition Api_add_stream ::
    "'cid ufs_ops \<Rightarrow> 'cid store_cids \<Rightarrow> bool \<Rightarrow> (bytes \<Rightarrow> ufs_error + reads) \<Rightarrow> entry \<Rightarrow> inner_store \<Rightarrow>
     add_error + (add_error + 'cid \<times> u64) list \<times> inner_store" where
  "Api_add_stream ops cids oc open_file e s = (case Entry_encode ops oc open_file e of
       Inl err \<Rightarrow> Inl (AddBlock err)
     | Inr blocks \<Rightarrow> Inr (add_blocks_to_store ops cids blocks s))"

text \<open>\<open>try_fold\<close>: the content id of the last item, or the first error.\<close>

fun last_cid :: "(add_error + 'cid \<times> u64) list \<Rightarrow> 'cid option \<Rightarrow> add_error + 'cid option" where
  "last_cid [] acc = Inr acc"
| "last_cid (Inl e # items) acc = Inl e"
| "last_cid (Inr (cid, _) # items) acc = last_cid items (Some cid)"

definition Api_add ::
    "'cid ufs_ops \<Rightarrow> 'cid store_cids \<Rightarrow> bool \<Rightarrow> (bytes \<Rightarrow> ufs_error + reads) \<Rightarrow> entry \<Rightarrow> inner_store \<Rightarrow>
     (add_error + 'cid) \<times> inner_store" where
  "Api_add ops cids oc open_file e s = (case Api_add_stream ops cids oc open_file e s of
       Inl err \<Rightarrow> (Inl err, s)
     | Inr (items, s') \<Rightarrow> (result_bind (last_cid items None) (ok_or AddNoCid), s'))"

section \<open>Getting\<close>

datatype get_error = GetNoCid | GetResolve res_error | GetBadPath | GetRead ufs_error | GetNotUtf8 | GetPanic

text \<open>A reader is given as it is; a symbolic link with its target.\<close>

datatype 'cid out_entry = OtDir | OtReader "'cid pretty_reader" | OtSymlink bytes

record 'rp rel_ops =
  rl_from_path :: "bytes \<Rightarrow> 'rp option"
  rl_starts_with :: "'rp \<Rightarrow> bytes \<Rightarrow> bool"
  rl_strip_prefix :: "'rp \<Rightarrow> bytes \<Rightarrow> 'rp option"
  rl_names :: "'rp \<Rightarrow> bytes list"

text \<open>A name that is one component of a path: not empty, without a slash, and neither of the two special ones.\<close>

definition plain_name :: "bytes \<Rightarrow> bool" where
  "plain_name n \<longleftrightarrow> n \<noteq> [] \<and> 47 \<notin> set n \<and> n \<noteq> [46] \<and> n \<noteq> [46, 46]"

definition rel_laws :: "'rp rel_ops \<Rightarrow> bool" where
  "rel_laws rl \<longleftrightarrow>
     (\<forall>ps ns. list_all plain_name (ps @ ns) \<longrightarrow>
        (\<exists>r r'. rl_from_path rl (join_slash (ps @ ns)) = Some r \<and> rl_starts_with rl r (join_slash ps) \<and>
           rl_strip_prefix rl r (join_slash ps) = Some r' \<and> rl_names rl r' = ns))"

text \<open>
  \<open>read_to_string\<close> polls with buffers of the sizes \<open>ns\<close> until a poll delivers nothing; \<^const>\<open>None\<close> if these
  polls are not enough. A poll that panics is the error \<open>Panicked\<close>; all loads are finished.
\<close>

fun read_to_end ::
    "'cid ufs_ops \<Rightarrow> bool \<Rightarrow> ('cid \<Rightarrow> ufs_error + bytes) \<Rightarrow> nat list \<Rightarrow> 'cid pretty_reader \<Rightarrow> (ufs_error + bytes) option" where
  "read_to_end ops oc load [] r = None"
| "read_to_end ops oc load (n # ns) (PUnixfs r) =
     (case poll_read ops oc load (\<lambda>_. True) n r of
        Some (Ready (Inr _), bs, r') \<Rightarrow>
          if bs = [] then Some (Inr [])
          else map_option (\<lambda>res. result_bind res (\<lambda>rest. Inr (bs @ rest))) (read_to_end ops oc load ns (PUnixfs r'))
      | Some (Ready (Inl e), _, _) \<Rightarrow> Some (Inl e)
      | Some (Pending, _, _) \<Rightarrow> None
      | None \<Rightarrow> Some (Inl Panicked))"
| "read_to_end ops oc load (n # ns) (PBytes t r) =
     (case BytesReader_read oc n r of
        Some (bs, r') \<Rightarrow>
          if bs = [] then Some (Inr [])
          else map_option (\<lambda>res. result_bind res (\<lambda>rest. Inr (bs @ rest))) (read_to_end ops oc load ns (PBytes t r'))
      | None \<Rightarrow> Some (Inl Panicked))"

definition lift_res :: "res_error + 'a \<Rightarrow> get_error + 'a" where
  "lift_res r = (case r of Inl e \<Rightarrow> Inl (GetResolve e) | Inr a \<Rightarrow> Inr a)"

text \<open>
  One result of the traversal: skipped, or given under its path below \<open>sub_path\<close>. The outer \<^const>\<open>None\<close> is that of
  \<open>read_to_end\<close>.
\<close>

definition get_item ::
    "('cid, 'i) res_env \<Rightarrow> 'rp rel_ops \<Rightarrow> bool \<Rightarrow> nat list \<Rightarrow> bytes \<Rightarrow> 'cid path \<times> ('cid, 'i) out \<Rightarrow>
     (get_error + ('rp \<times> 'cid out_entry) option) option" where
  "get_item env rl oc ns sub_path = (\<lambda>(relative_ipfs_path, out).
     case rl_from_path rl (to_relative_string relative_ipfs_path) of
       None \<Rightarrow> Some (Inl GetBadPath)
     | Some relative_path \<Rightarrow>
         if \<not> rl_starts_with rl relative_path sub_path then Some (Inr None)
         else (case rl_strip_prefix rl relative_path sub_path of
             None \<Rightarrow> Some (Inl GetPanic)
           | Some relative_path \<Rightarrow>
               if Out_is_dir out then Some (Inr (Some (relative_path, OtDir)))
               else (case lift_res (pretty (re_ops env) None out) of
                   Inl e \<Rightarrow> Some (Inl e)
                 | Inr reader \<Rightarrow>
                     if Out_is_symlink out
                     then map_option (\<lambda>res. case res of
                         Inl e \<Rightarrow> Inl (GetRead e)
                       | Inr target \<Rightarrow> if utf8_valid target then Inr (Some (relative_path, OtSymlink target)) else Inl GetNotUtf8)
                       (read_to_end (re_ops env) oc (load_data (re_loader env)) ns reader)
                     else Some (Inr (Some (relative_path, OtReader reader))))))"

fun get_items ::
    "('cid, 'i) res_env \<Rightarrow> 'rp rel_ops \<Rightarrow> bool \<Rightarrow> nat list \<Rightarrow> bytes \<Rightarrow> (res_error + 'cid path \<times> ('cid, 'i) out) list \<Rightarrow>
     (get_error + 'rp \<times> 'cid out_entry) list option" where
  "get_items env rl oc ns sub_path [] = Some []"
| "get_items env rl oc ns sub_path (Inl e # results) = Some [Inl (GetResolve e)]"
| "get_items env rl oc ns sub_path (Inr res # results) = (case get_item env rl oc ns sub_path res of
       None \<Rightarrow> None
     | Some (Inl e) \<Rightarrow> Some [Inl e]
     | Some (Inr None) \<Rightarrow> get_items env rl oc ns sub_path results
     | Some (Inr (Some item)) \<Rightarrow> map_option ((#) (Inr item)) (get_items env rl oc ns sub_path results))"

text \<open>
  The stream of the items; \<open>fuel\<close> is that of the traversal.
\<close>

definition Api_get ::
    "('cid, 'i) res_env \<Rightarrow> 'rp rel_ops \<Rightarrow> bool \<Rightarrow> nat list \<Rightarrow> nat \<Rightarrow> 'cid path \<Rightarrow>
     (get_error + (get_error + 'rp \<times> 'cid out_entry) list) option" where
  "Api_get env rl oc ns fuel p =
     (if Path_cid p = None then Some (Inl GetNoCid)
      else Option.bind (resolve_recursive_with_paths env fuel p) (\<lambda>results.
           map_option Inr (get_items env rl oc ns (to_relative_string p) results)))"

text \<open>The directory that a path is written to if none is given: the last name of the path, or its content id.\<close>

definition get_root_path :: "('cid \<Rightarrow> bytes) \<Rightarrow> 'cid path \<Rightarrow> bytes option \<Rightarrow> bytes option" where
  "get_root_path show_cid p output_path = (case output_path of
       Some path \<Rightarrow> Some path
     | None \<Rightarrow> if p_tail p = [] then map_option show_cid (Path_cid p) else Some (last (p_tail p)))"

section \<open>The blocks of an entry\<close>

text \<open>A block of the builders has the content id that its data and its codec give, and one of two codecs.\<close>

definition block_made :: "'cid ufs_ops \<Rightarrow> 'cid ufs_block \<Rightarrow> bool" where
  "block_made ops b \<longleftrightarrow> ub_cid b = uc_new ops Codec_Raw (ub_data b) \<or> ub_cid b = uc_new ops Codec_DagPb (ub_data b)"

definition stream_made :: "'cid ufs_ops \<Rightarrow> (ufs_error + 'cid ufs_block) list \<Rightarrow> bool" where
  "stream_made ops s \<longleftrightarrow> (\<forall>b. Inr b \<in> set s \<longrightarrow> block_made ops b)"

lemma stream_made_simps [simp]:
  "stream_made ops []" "stream_made ops (Inl e # s) \<longleftrightarrow> stream_made ops s"
  "stream_made ops (Inr b # s) \<longleftrightarrow> block_made ops b \<and> stream_made ops s"
  "stream_made ops (s @ s') \<longleftrightarrow> stream_made ops s \<and> stream_made ops s'"
  "stream_made ops (map Inr bs) \<longleftrightarrow> (\<forall>b\<in>set bs. block_made ops b)"
  by (auto simp: stream_made_def)

lemma UnixfsNode_encode_made: "UnixfsNode_encode ops u = Inr b \<Longrightarrow> block_made ops b"
  by (auto simp: UnixfsNode_encode_def block_made_def result_bind_def Let_def split: sum.splits unixfs_node.splits if_splits)

lemma TreeNode_encode_made: "TreeNode_encode ops oc t = Inr (b, l) \<Longrightarrow> block_made ops b"
  using UnixfsNode_encode_made by (cases t) (auto simp: result_bind_def split: sum.splits)

declare TreeNode_encode.simps [simp del]

lemma carry_made: "b \<in> set (fst (carry ops oc degree tree)) \<Longrightarrow> block_made ops b"
proof (induction ops oc degree tree rule: carry.induct)
  case (2 ops oc degree links tree)
  show ?case
  proof (cases "length links < degree \<or> (\<exists>e. TreeNode_encode ops oc (Stem links) = Inl e)")
    case True
    then show ?thesis using "2.prems" by (cases "length links < degree") auto
  next
    case False
    then obtain block l where t: "TreeNode_encode ops oc (Stem links) = Inr (block, l)"
      by (metis old.sum.exhaust prod.exhaust)
    have m: "block_made ops block" by (rule TreeNode_encode_made[OF t])
    show ?thesis
    proof (cases tree)
      case Nil
      then show ?thesis using "2.prems" False t m by simp
    next
      case (Cons parent tree')
      obtain out r where c: "carry ops oc degree ((parent @ [(ub_cid block, l)]) # tree') = (out, r)" by fastforce
      then have "b = block \<or> b \<in> set out" using "2.prems" False t Cons by simp
      then show ?thesis using m "2.IH"[OF _ t refl Cons] False c by auto
    qed
  qed
qed simp

lemma finish_made: "stream_made ops (finish ops oc tree)"
proof (induction ops oc tree rule: finish.induct)
  case (2 ops oc links tree)
  show ?case
  proof (cases "TreeNode_encode ops oc (Stem links)")
    case (Inr x)
    obtain block l where x: "x = (block, l)" by (cases x)
    show ?thesis using "2"[OF Inr x[symmetric]] TreeNode_encode_made Inr x by (cases tree) auto
  qed simp
qed simp

lemma tree_loop_made: "stream_made ops (tree_loop ops oc degree tree chunks)"
proof (induction ops oc degree tree chunks rule: tree_loop.induct)
  case (3 ops oc degree tree chunk chunks)
  show ?case
  proof (cases "TreeNode_encode ops oc (Leaf chunk)")
    case (Inr x)
    obtain block l where x: "x = (block, l)" by (cases x)
    obtain out r where c: "(if length (hd tree) = degree then carry ops oc degree tree else ([], Inr tree)) = (out, r)" by fastforce
    have "\<forall>b\<in>set out. block_made ops b"
      using carry_made[of _ ops oc degree tree] arg_cong[OF c, of fst] by (auto split: if_splits)
    moreover have "block_made ops block" using TreeNode_encode_made Inr x by blast
    ultimately show ?thesis using "3.IH"[OF Inr x[symmetric] c[symmetric]] Inr x c by (cases r) auto
  qed simp
qed (simp_all add: finish_made)

lemma stream_then_made:
  "stream_made ops s \<Longrightarrow> (\<And>bs. stream_made ops (k bs)) \<Longrightarrow> stream_made ops (stream_then s k)"
  by (induction s k rule: stream_then.induct) auto

lemma File_encode_made: "stream_made ops (open_stream (File_encode ops oc open_file f))"
  by (cases "f_tree_builder f")
    (auto simp: File_encode_def result_bind_def open_stream_def stream_balanced_tree_def tree_loop_made split: sum.splits)

lemma node_made:
  "Symlink_encode ops sl = Inr b \<Longrightarrow> block_made ops b"
  "directory_node ops links = Inr b \<Longrightarrow> block_made ops b"
  "shard_node ops bf links = Inr b \<Longrightarrow> block_made ops b"
  using UnixfsNode_encode_made
  by (auto simp: Symlink_encode_def directory_node_def shard_node_def result_bind_def split: sum.splits if_splits)

lemma single_made: "(\<And>b. r = Inr b \<Longrightarrow> block_made ops b) \<Longrightarrow> stream_made ops [r]"
  by (simp add: stream_made_def)

lemma encode_made:
  "stream_made ops (open_stream (Entry_encode ops oc open_file e))"
  "stream_made ops (Directory_encode ops oc open_file d)"
  "stream_made ops (BasicDirectory_encode ops oc open_file links es)"
  "stream_made ops (HamtNode_encode ops oc open_file t)"
  "stream_made ops (HamtBranch_encode ops oc open_file links bf tree)"
proof (induction ops oc open_file e and ops oc open_file d and ops oc open_file links es and ops oc open_file t
    and ops oc open_file links bf tree
    rule: Entry_encode_Directory_encode_BasicDirectory_encode_HamtNode_encode_HamtBranch_encode.induct)
  case (1 ops oc open_file f)
  then show ?case by (simp add: File_encode_made)
next
  case (3 ops oc open_file sl)
  then show ?case using single_made[OF node_made(1)] by simp
next
  case (6 ops oc open_file links)
  then show ?case using single_made[OF node_made(2)] by simp
next
  case (7 ops oc open_file links e es)
  then show ?case by (auto intro!: stream_then_made)
next
  case (10 ops oc open_file links bf)
  then show ?case using single_made[OF node_made(3)] by simp
next
  case (11 ops oc open_file links bf k t tree)
  then show ?case by (auto intro!: stream_then_made split: option.split)
qed simp_all

section \<open>Adding stores the blocks\<close>

text \<open>
  The two interfaces to content ids agree on the codec, and no two blocks at hand have the same multihash and codec but
  different data: the hash function has no collision among them.
\<close>

definition no_collision :: "'cid store_cids \<Rightarrow> ('cid \<times> bytes \<times> 'cid list) list \<Rightarrow> bool" where
  "no_collision cids log \<longleftrightarrow> 
     (\<forall>x\<in>set log. \<forall>y\<in>set log. id_key cids (fst x) = id_key cids (fst y) \<longrightarrow> fst (snd x) = fst (snd y))"

definition codecs_agree :: "'cid ufs_ops \<Rightarrow> 'cid store_cids \<Rightarrow> bool" where
  "codecs_agree ops cids \<longleftrightarrow> (\<forall>c. sc_codec cids c = uc_codec ops c)"

lemma made_inj:
  assumes "ufs_laws ops" and "codecs_agree ops cids" and "\<forall>b\<in>set bs. block_made ops b"
    and "no_collision cids (map Block_into_parts bs)"
  shows "inj_on (id_key cids) (fst ` set (map Block_into_parts bs))"
proof (rule inj_onI)
  fix c c' assume "c \<in> fst ` set (map Block_into_parts bs)" "c' \<in> fst ` set (map Block_into_parts bs)"
    and key: "id_key cids c = id_key cids c'"
  then obtain b b' where b: "b \<in> set bs" "c = ub_cid b" "b' \<in> set bs" "c' = ub_cid b'" by (auto simp: Block_into_parts_def)
  have codec: "uc_codec ops c = uc_codec ops c'" using key assms(2) by (simp add: id_key_eq codecs_agree_def)
  have "id_key cids (fst (Block_into_parts b)) = id_key cids (fst (Block_into_parts b'))"
    using key b by (simp add: Block_into_parts_def)
  then have "fst (snd (Block_into_parts b)) = fst (snd (Block_into_parts b'))"
    using assms(4) b(1,3) unfolding no_collision_def set_map by blast
  then have data: "ub_data b = ub_data b'" by (simp add: Block_into_parts_def)
  have "uc_codec ops (uc_new ops k d) = k" for k d using assms(1) by (simp add: ufs_laws_def)
  moreover have "block_made ops b" "block_made ops b'" using assms(3) b by auto
  ultimately show "c = c'" using b(2,4) codec data by (auto simp: block_made_def)
qed

lemma raw_data_size_made:
  assumes "ufs_laws ops" and "block_made ops b"
  shows "\<exists>n. Block_raw_data_size ops b = Inr n"
  using assms by (auto simp: Block_raw_data_size_def block_made_def ufs_laws_def Codec_try_from_Raw Codec_try_from_DagPb)

text \<open>The items that a stream of blocks without an error gives.\<close>

definition added_item :: "'cid ufs_ops \<Rightarrow> 'cid ufs_block \<Rightarrow> 'cid \<times> u64" where
  "added_item ops b = (ub_cid b, case Block_raw_data_size ops b of Inr (Some n) \<Rightarrow> n | _ \<Rightarrow> 0)"

lemma no_collision_sub: "no_collision cids log \<Longrightarrow> set log' \<subseteq> set log \<Longrightarrow> no_collision cids log'"
  unfolding no_collision_def by blast

lemma add_chunked_stores:
  assumes "ufs_laws ops" and "codecs_agree ops cids" and "store_run cids s log"
    and "\<forall>b\<in>set (chunk @ bs). block_made ops b" and "no_collision cids (map Block_into_parts (chunk @ bs))"
    and "unat (st_next_id s) + ids_needed (map Block_into_parts (chunk @ bs)) < 2 ^ 64"
  shows "\<exists>s'. add_chunked ops cids (map Inr bs) chunk n s = (map (Inr \<circ> added_item ops) bs, s') \<and>
    store_run cids s' (log @ map Block_into_parts (chunk @ bs))"
  using assms(3-)
proof (induction bs arbitrary: chunk n s log)
  case Nil
  have chunk: "inj_on (id_key cids) (fst ` set (map Block_into_parts chunk))"
    using made_inj[OF assms(1,2), of chunk] Nil.prems by simp
  obtain s' where put: "Store_put_many cids (map Block_into_parts chunk) s = Some s'"
    using put_many_defined[OF conjunct1[OF store_run_abs[OF Nil.prems(1)]], of "map Block_into_parts chunk"] Nil.prems(4) by auto
  from sr_put_many[OF Nil.prems(1) chunk put] put show ?case by simp
next
  case (Cons b bs)
  have inv: "store_inv cids s" using store_run_abs[OF Cons.prems(1)] by simp
  obtain raw where raw: "Block_raw_data_size ops b = Inr raw" using raw_data_size_made[OF assms(1)] Cons.prems(2) by auto
  have item: "(ub_cid b, case raw of None \<Rightarrow> 0 | Some n \<Rightarrow> n) = added_item ops b"
    using raw by (simp add: added_item_def split: option.split)
  show ?case
  proof (cases "n + block_size b > MAX_CHUNK_SIZE")
    case True
    have room: "unat (st_next_id s) + ids_needed (map Block_into_parts chunk) + ids_needed (map Block_into_parts (b # bs)) < 2 ^ 64"
      using Cons.prems(4) by (simp add: ids_needed_append)
    have "no_collision cids (map Block_into_parts chunk)" by (rule no_collision_sub[OF Cons.prems(3)]) auto
    then have chunk: "inj_on (id_key cids) (fst ` set (map Block_into_parts chunk))"
      using made_inj[OF assms(1,2), of chunk] Cons.prems(2) by simp
    have "unat (st_next_id s) + ids_needed (map Block_into_parts chunk) < 2 ^ 64" using room by linarith
    from put_many_defined[OF inv this] obtain s' where put: "Store_put_many cids (map Block_into_parts chunk) s = Some s'"
      by blast
    have "no_collision cids (map Block_into_parts ([b] @ bs))" by (rule no_collision_sub[OF Cons.prems(3)]) auto
    moreover have "unat (st_next_id s') + ids_needed (map Block_into_parts ([b] @ bs)) < 2 ^ 64"
      using put_many_next[OF inv put] room by simp
    moreover have "\<forall>x\<in>set ([b] @ bs). block_made ops x" using Cons.prems(2) by simp
    ultimately obtain s'' where
      "add_chunked ops cids (map Inr bs) [b] (block_size b) s' = (map (Inr \<circ> added_item ops) bs, s'')"
      "store_run cids s'' ((log @ map Block_into_parts chunk) @ map Block_into_parts ([b] @ bs))"
      using Cons.IH[OF sr_put_many[OF Cons.prems(1) chunk put], of "[b]" "block_size b"] by blast
    then show ?thesis using True raw item put by simp
  next
    case False
    obtain s'' where
      "add_chunked ops cids (map Inr bs) (chunk @ [b]) (n + block_size b) s = (map (Inr \<circ> added_item ops) bs, s'')"
      "store_run cids s'' (log @ map Block_into_parts ((chunk @ [b]) @ bs))"
      using Cons.IH[OF Cons.prems(1), of "chunk @ [b]" "n + block_size b"] Cons.prems(2-4) by auto
    then show ?thesis using False raw item by simp
  qed
qed

lemma last_cid_items: "last_cid (map (Inr \<circ> added_item ops) bs) acc = Inr (if bs = [] then acc else Some (ub_cid (last bs)))"
  by (induction bs arbitrary: acc) (auto simp: added_item_def)

text \<open>Which blocks can be added: their hashes do not collide with each other or with what is stored, and there are ids left for them.\<close>

definition addable :: "'cid store_cids \<Rightarrow> inner_store \<Rightarrow> ('cid \<times> bytes \<times> 'cid list) list \<Rightarrow> 'cid ufs_block list \<Rightarrow> bool" where
  "addable cids s log bs \<longleftrightarrow> no_collision cids (log @ map Block_into_parts bs) \<and>
     unat (st_next_id s) + ids_needed (map Block_into_parts bs) < 2 ^ 64"

lemma first_put_append:
  "first_put cids (log @ log') c = (case first_put cids log c of Some x \<Rightarrow> Some x | None \<Rightarrow> first_put cids log' c)"
  by (induction log) (simp_all add: first_put_def split: prod.split)

lemma first_put_data:
  assumes "no_collision cids log" and "(c, d, links) \<in> set log"
  shows "map_option (\<lambda>(_, blob, _). blob) (first_put cids log c) = Some d"
proof -
  obtain x where x: "first_put cids log c = Some x" using first_put_None[of cids log c] assms(2) by (cases "first_put cids log c") auto
  from first_put_SomeD[OF this] have "fst (snd x) = d"
    using assms(1)[unfolded no_collision_def, rule_format, of x "(c, d, links)"] assms(2) by simp
  with x show ?thesis by (cases x) auto
qed

lemma added:
  assumes "ufs_laws ops" and "codecs_agree ops cids" and run: "store_run cids s log"
    and enc: "open_stream (Entry_encode ops oc open_file e) = map Inr bs" and ne: "bs \<noteq> []" and add: "addable cids s log bs"
  shows "\<exists>s'. Api_add ops cids oc open_file e s = (Inr (ub_cid (last bs)), s') \<and> store_run cids s' (log @ map Block_into_parts bs)"
proof -
  have made: "\<forall>b\<in>set ([] @ bs). block_made ops b" using encode_made(1)[of ops oc open_file e] enc by simp
  have col: "no_collision cids (map Block_into_parts ([] @ bs))"
    by (rule no_collision_sub[of cids "log @ map Block_into_parts bs"]) (use add in \<open>auto simp: addable_def\<close>)
  have room: "unat (st_next_id s) + ids_needed (map Block_into_parts ([] @ bs)) < 2 ^ 64" using add by (simp add: addable_def)
  have "\<exists>s'. add_chunked ops cids (map Inr bs) [] 0 s = (map (Inr \<circ> added_item ops) bs, s') \<and>
      store_run cids s' (log @ map Block_into_parts ([] @ bs))"
    by (rule add_chunked_stores[OF assms(1,2) run made col room])
  then obtain s' where s': "add_chunked ops cids (map Inr bs) [] 0 s = (map (Inr \<circ> added_item ops) bs, s')"
    "store_run cids s' (log @ map Block_into_parts bs)"
    by (elim exE conjE) simp
  have "Entry_encode ops oc open_file e = Inr (map Inr bs)"
    using enc ne by (cases "Entry_encode ops oc open_file e") (auto simp: open_stream_def map_eq_Cons_conv Cons_eq_map_conv simp del: Entry_encode.simps)
  then have "Api_add ops cids oc open_file e s = (Inr (ub_cid (last bs)), s')"
    using s'(1) ne by (simp add: Api_add_def Api_add_stream_def add_blocks_to_store_def last_cid_items)
  with s'(2) show ?thesis by blast
qed

lemma loader_has_added:
  assumes "store_run cids s (log @ map Block_into_parts bs)" and "no_collision cids (log @ map Block_into_parts bs)"
    and "ld_has_store lenv" and "ld_store_cids lenv = cids"
  shows "stored (load_data (store_loader lenv s)) bs"
  unfolding stored_def
proof
  fix b assume "b \<in> set bs"
  then have "(ub_cid b, ub_data b, ub_links b) \<in> set (log @ map Block_into_parts bs)"
    by (auto simp: Block_into_parts_def image_iff)
  from first_put_data[OF assms(2) this] store_run_get(1)[OF assms(1), of "ub_cid b"]
  have "Store_get cids s (ub_cid b) = Some (ub_data b)" by simp
  then show "load_data (store_loader lenv s) (ub_cid b) = Inr (ub_data b)"
    using assms(3,4) by (simp add: load_data_def store_loader_def FullLoader_load_cid_def fetch_store_def)
qed

section \<open>Getting gives the entries\<close>

text \<open>What a reader gives when it is read to the end.\<close>

definition reads_content ::
    "'cid ufs_ops \<Rightarrow> bool \<Rightarrow> ('cid \<Rightarrow> ufs_error + bytes) \<Rightarrow> 'cid pretty_reader \<Rightarrow> bytes \<Rightarrow> bool" where
  "reads_content ops oc load reader content \<longleftrightarrow>
     (\<forall>ns. (\<forall>n\<in>set ns. 0 < n) \<longrightarrow> length content < length ns \<longrightarrow> read_to_end ops oc load ns reader = Some (Inr content))"

lemma read_to_end_content:
  fixes r :: "'cid content_reader"
  assumes "reader_inv ops load content r" and "\<forall>n \<in> set ns. 0 < n"
    and "length (drop (poll_complete r) (clip (rd_pos_max r) content)) < length ns"
  shows "read_to_end ops oc load ns (PUnixfs r) = Some (Inr (drop (poll_complete r) (clip (rd_pos_max r) content)))"
  using assms
proof (induction ns arbitrary: r)
  case (Cons n ns)
  obtain p bs r' where r': "poll_read ops oc load (\<lambda>_. True) n r = Some (p, bs, r')"
    and ok: "read_ok content (rd_pos_max r) n (\<lambda>_ :: 'cid. True) (poll_complete r) p bs"
    and pos: "poll_complete r' = poll_complete r + length bs" "rd_pos_max r' = rd_pos_max r"
    and inv: "reader_inv ops load content r'"
    using poll_read_ok[OF Cons.prems(1), where oc = oc and ready = "\<lambda>_. True" and remaining = n] by (elim exE conjE) (rule that)
  have n: "0 < n" using Cons.prems(2) by simp
  note split = clip_step[OF ok n]
  show ?case
  proof (cases "bs = []")
    case True
    then show ?thesis using r' read_ok_ready[OF ok] split(2) by simp
  next
    case False
    then have "length (drop (poll_complete r') (clip (rd_pos_max r') content)) < length ns"
      using Cons.prems(3) arg_cong[OF split(1), of length] pos by (cases bs) simp_all
    from Cons.IH[OF inv _ this] Cons.prems(2) have
      "read_to_end ops oc load ns (PUnixfs r') = Some (Inr (drop (poll_complete r + length bs) (clip (rd_pos_max r) content)))"
      by (simp add: pos)
    then show ?thesis using r' read_ok_ready[OF ok] split(1) False by simp
  qed
qed simp

lemma read_to_end_bytes:
  assumes "\<forall>n \<in> set ns. 0 < n" and "length content - pos < length ns" and "pos \<le> length content"
  shows "read_to_end ops oc load ns (PBytes t \<lparr>br_pos = pos, br_bytes = content\<rparr>) = Some (Inr (drop pos content))"
  using assms
proof (induction ns arbitrary: pos)
  case (Cons n ns)
  let ?bs = "take n (drop pos content)"
  have rd: "BytesReader_read oc n \<lparr>br_pos = pos, br_bytes = content\<rparr> = Some (?bs, \<lparr>br_pos = pos + length ?bs, br_bytes = content\<rparr>)"
    using Cons.prems by (simp add: BytesReader_read_def slice_from_def read_data_to_buf_def usize_sub_def min_def)
  show ?case
  proof (cases "?bs = []")
    case True
    then have "pos = length content" using Cons.prems by auto
    then show ?thesis using rd True by simp
  next
    case False
    then have "read_to_end ops oc load ns (PBytes t \<lparr>br_pos = pos + length ?bs, br_bytes = content\<rparr>) = Some (Inr (drop (pos + length ?bs) content))"
      by (intro Cons.IH) (use Cons.prems in auto)
    moreover have "?bs @ drop (pos + length ?bs) content = drop pos content"
      by (metis append_take_drop_id drop_drop add.commute length_take min_def take_all_iff nat_le_linear)
    ultimately show ?thesis using rd False by simp
  qed
qed simp

text \<open>
  What is read for a file that the builder can encode: a tree of degree above one, a chunker that was configured within its
  limits, a source that is read without an error, and content below the limit of the sizes.
\<close>

definition file_ready :: "'cid ufs_ops \<Rightarrow> (bytes \<Rightarrow> ufs_error + reads) \<Rightarrow> ufs_file \<Rightarrow> reads \<Rightarrow> bool" where
  "file_ready ops open_file f reads \<longleftrightarrow>
     (\<exists>degree. stems_fit ops degree \<and> 1 < degree \<and> f_tree_builder f = Balanced degree) \<and>
     chunker_ok (f_chunker f) \<and> file_reads open_file f = Inr reads \<and> reads_ok reads \<and> length (data_of reads) < 2 ^ 42"

definition gets_entry ::
    "('cid, 'i) res_env \<Rightarrow> bool \<Rightarrow> (bytes \<Rightarrow> ufs_error + reads) \<Rightarrow> entry \<Rightarrow> 'cid out_entry \<Rightarrow> bool" where
  "gets_entry env oc open_file e x = (case e of
       EDirectory _ \<Rightarrow> x = OtDir
     | ESymlink sl \<Rightarrow> x = OtSymlink (s_target sl)
     | EFile f \<Rightarrow> \<exists>reader reads. x = OtReader reader \<and> file_reads open_file f = Inr reads \<and>
         reads_content (re_ops env) oc (load_data (re_loader env)) reader (data_of reads))"

text \<open>The files can be encoded, and the buffers are enough for the target of a symbolic link.\<close>

definition entry_ready :: "'cid ufs_ops \<Rightarrow> (bytes \<Rightarrow> ufs_error + reads) \<Rightarrow> nat list \<Rightarrow> entry \<Rightarrow> bool" where
  "entry_ready ops open_file ns e = (case e of
       EFile f \<Rightarrow> \<exists>reads. file_ready ops open_file f reads
     | ESymlink sl \<Rightarrow> length (s_target sl) < length ns \<and> length (s_target sl) < 2 ^ 64
     | EDirectory _ \<Rightarrow> True)"

lemma file_stored_root:
  assumes "ufs_laws ops" and "file_stored ops oc open_file load f cid" and "file_ready ops open_file f reads"
  shows "root_at ops load cid (data_of reads)"
proof -
  obtain blocks where b: "File_encode ops oc open_file f = Inr (map Inr blocks)" "stored load blocks" "cid = ub_cid (last blocks)"
    using assms(2) by (auto simp: file_stored_def)
  obtain degree where d: "stems_fit ops degree" "1 < degree" "f_tree_builder f = Balanced degree"
    and f: "chunker_ok (f_chunker f)" "file_reads open_file f = Inr reads" "reads_ok reads" "length (data_of reads) < 2 ^ 42"
    using assms(3) by (auto simp: file_ready_def)
  from File_encode_root_at[OF assms(1) d f, of oc] obtain blocks' where
    "File_encode ops oc open_file f = Inr (map Inr blocks')"
    "\<forall>load. stored load blocks' \<longrightarrow> root_at ops load (ub_cid (last blocks')) (data_of reads)"
    by (elim exE conjE) (rule that)
  moreover from this(1) b(1) have "blocks' = blocks" by (simp add: inj_map_eq_map[OF inj_Inr])
  ultimately show ?thesis using b(2,3) by simp
qed

lemma reader_reads_content:
  assumes "into_content_reader ops None u = Inr (Some r)" and "root_content ops load u content"
  shows "reads_content ops oc load (PUnixfs r) content"
  using into_content_reader_inv[OF assms] read_to_end_content[of ops load content r]
  by (simp add: reads_content_def clip_def)

lemma file_reader:
  assumes "ufs_laws (re_ops env)" and "file_ready (re_ops env) open_file f reads"
    and "shows_entry env (file_stored (re_ops env) oc open_file (load_data (re_loader env))) (EFile f) out"
  shows "\<exists>reader. pretty (re_ops env) None out = Inr reader \<and>
    reads_content (re_ops env) oc (load_data (re_loader env)) reader (data_of reads)"
proof -
  let ?load = "load_data (re_loader env)"
  obtain cid u where at: "file_stored (re_ops env) oc open_file ?load f cid" and u: "loads (re_ops env) ?load cid u"
    and out: "o_content out = OutUnixfs u \<or> (\<exists>i d. u = Raw d \<and> o_content out = OutRaw i d)"
    using assms(3) unfolding shows_entry_def by auto
  have root: "root_at (re_ops env) ?load cid (data_of reads)" by (rule file_stored_root[OF assms(1) at assms(2)])
  obtain u' r where r: "load_node (re_ops env) ?load cid = Inr u'" "into_content_reader (re_ops env) None u' = Inr (Some r)"
    using root_at_reader[OF root] by blast
  have u': "u' = u" using r(1) u by simp
  have content: "root_content (re_ops env) ?load u (data_of reads)" using root u by (auto simp: root_at_def)
  from out show ?thesis
  proof
    assume "o_content out = OutUnixfs u"
    then show ?thesis
      using r(2) reader_reads_content[OF r(2), of ?load "data_of reads" oc] content
      by (simp add: u' pretty_def lift_ufs_def ok_or_def)
  next
    assume "\<exists>i d. u = Raw d \<and> o_content out = OutRaw i d"
    then obtain i d where d: "u = Raw d" "o_content out = OutRaw i d" by blast
    then have "data_of reads = d" using content by (simp add: root_content_def)
    then show ?thesis using d(2) by (simp add: pretty_def bytes_pretty_def truncated_def reads_content_def read_to_end_bytes)
  qed
qed

lemma symlink_reader:
  assumes "length (s_target sl) < 2 ^ 64" and "shows_entry env F (ESymlink sl) out"
  shows "\<exists>reader. pretty (re_ops env) None out = Inr reader \<and> utf8_valid (s_target sl) \<and>
    reads_content (re_ops env) oc (load_data (re_loader env)) reader (s_target sl)"
proof -
  let ?load = "load_data (re_loader env)"
  obtain cid u n where n: "loads (re_ops env) ?load cid (Symlink n)" "n_inner n = symlink_data (s_target sl)"
    "pn_links (n_outer n) = []" "utf8_valid (s_target sl)" and u: "loads (re_ops env) ?load cid u"
    and out: "o_content out = OutUnixfs u \<or> (\<exists>i d. u = Raw d \<and> o_content out = OutRaw i d)"
    using assms(2) unfolding shows_entry_def by auto
  have "u = Symlink n" using n(1) u by simp
  with out have c: "o_content out = OutUnixfs (Symlink n)" by auto
  have "root_content (re_ops env) ?load (Symlink n) (s_target sl)"
    using assms(1) n(2) by (simp add: root_content_def data_or_empty_def symlink_data_def)
  moreover have "\<exists>r. into_content_reader (re_ops env) None (Symlink n) = Inr (Some r)"
    using n(3) by (simp add: into_content_reader_def links_owned_def UnixfsNode_links_def PbLinks_def collect_def)
  ultimately show ?thesis
    using c n(4) reader_reads_content[of "re_ops env" "Symlink n" _ ?load "s_target sl" oc]
    by (auto simp: pretty_def lift_ufs_def ok_or_def)
qed

lemma get_item_entry:
  assumes "ufs_laws (re_ops env)" and "rel_laws rl" and "\<forall>n\<in>set ns. 0 < n"
    and "shows_entry env (file_stored (re_ops env) oc open_file (load_data (re_loader env))) e out"
    and "entry_ready (re_ops env) open_file ns e" and "p_tail q = ps @ names" and "list_all plain_name (p_tail q)"
  shows "\<exists>r x. get_item env rl oc ns (join_slash ps) (q, out) = Some (Inr (Some (r, x))) \<and> rl_names rl r = names \<and>
    gets_entry env oc open_file e x"
proof -
  obtain r r' where r: "rl_from_path rl (to_relative_string q) = Some r" "rl_starts_with rl r (join_slash ps)"
    "rl_strip_prefix rl r (join_slash ps) = Some r'" "rl_names rl r' = names"
    using assms(2,6,7) unfolding rel_laws_def to_relative_string_def by metis
  note item = r(1-3) shows_entry_dir[OF assms(4)]
  have sym: "Out_is_symlink out \<longleftrightarrow> entry_type e = USymlink" using assms(4) by (simp add: shows_entry_def)
  show ?thesis
  proof (cases e)
    case (EFile f)
    then obtain reads where f: "file_ready (re_ops env) open_file f reads" using assms(5) by (auto simp: entry_ready_def)
    from file_reader[OF assms(1) f] assms(4) EFile obtain reader where "pretty (re_ops env) None out = Inr reader"
      "reads_content (re_ops env) oc (load_data (re_loader env)) reader (data_of reads)" by blast
    then show ?thesis using item sym EFile r(4) f
      by (auto simp: get_item_def lift_res_def gets_entry_def file_ready_def)
  next
    case (EDirectory d)
    then show ?thesis using item r(4) by (simp add: get_item_def gets_entry_def)
  next
    case (ESymlink sl)
    then obtain reader where "pretty (re_ops env) None out = Inr reader" "utf8_valid (s_target sl)"
      "reads_content (re_ops env) oc (load_data (re_loader env)) reader (s_target sl)"
      using symlink_reader[of sl env _ out oc] assms(4,5) by (auto simp: entry_ready_def)
    moreover from this(3) have "read_to_end (re_ops env) oc (load_data (re_loader env)) ns reader = Some (Inr (s_target sl))"
      using assms(3,5) ESymlink by (auto simp: reads_content_def entry_ready_def)
    ultimately show ?thesis using item sym ESymlink r(4) by (simp add: get_item_def lift_res_def gets_entry_def)
  qed
qed

lemma listing_tail:
  "\<forall>x\<in>set queue. \<exists>names. p_tail (fst x) = ps @ names \<Longrightarrow> x \<in> set (listing queue) \<Longrightarrow> \<exists>names. p_tail (fst x) = ps @ names"
proof (induction queue rule: listing.induct)
  case (2 p e queue)
  have "\<forall>x\<in>set (queue @ child_paths p e). \<exists>names. p_tail (fst x) = ps @ names"
    using "2.prems"(1) by (auto simp: child_paths_def Path_push_def)
  with "2.IH" "2.prems" show ?case by auto
qed simp

lemma listing_queue: "set queue \<subseteq> set (listing queue)"
  by (induction queue rule: listing.induct) auto

lemma listing_closed:
  "(p, e) \<in> set (listing queue) \<Longrightarrow> set (child_paths p e) \<subseteq> set (listing queue)"
proof (induction queue rule: listing.induct)
  case (2 q f queue)
  then show ?case using listing_queue[of "queue @ child_paths q f"] by auto
qed simp

lemma listing_names:
  assumes "\<forall>x\<in>set (listing queue). list_all plain_name (p_tail (fst x))"
  shows "\<forall>x\<in>set (listing queue). \<forall>c\<in>set (children (snd x)). Entry_name c \<noteq> []"
proof (intro ballI)
  fix x c assume x: "x \<in> set (listing queue)" "c \<in> set (children (snd x))"
  then have "(Path_push (Entry_name c) (fst x), c) \<in> set (listing queue)"
    using listing_closed[of "fst x" "snd x" queue] by (auto simp: child_paths_def)
  with assms have "list_all plain_name (p_tail (Path_push (Entry_name c) (fst x)))" by fastforce
  then show "Entry_name c \<noteq> []" by (simp add: Path_push_def plain_name_def)
qed

text \<open>What the stream of a path \<open>p\<close> gives for an entry under a path that starts with \<open>p\<close>.\<close>

definition gets_at ::
    "('cid, 'i) res_env \<Rightarrow> 'rp rel_ops \<Rightarrow> bool \<Rightarrow> (bytes \<Rightarrow> ufs_error + reads) \<Rightarrow> 'cid path \<Rightarrow> 'cid path \<times> entry \<Rightarrow>
     'rp \<times> 'cid out_entry \<Rightarrow> bool" where
  "gets_at env rl oc open_file p x y \<longleftrightarrow>
     p_tail (fst x) = p_tail p @ rl_names rl (fst y) \<and> gets_entry env oc open_file (snd x) (snd y)"

lemma get_items_entries:
  assumes "ufs_laws (re_ops env)" and "rel_laws rl" and "\<forall>n\<in>set ns. 0 < n"
    and "list_all2 (lists_result env (file_stored (re_ops env) oc open_file (load_data (re_loader env)))) xs outs"
    and "\<forall>x\<in>set xs. entry_ready (re_ops env) open_file ns (snd x) \<and> list_all plain_name (p_tail (fst x)) \<and>
      (\<exists>names. p_tail (fst x) = p_tail p @ names)"
  shows "\<exists>items. get_items env rl oc ns (to_relative_string p) (map Inr outs) = Some (map Inr items) \<and>
    list_all2 (gets_at env rl oc open_file p) xs items"
  using assms(4,5)
proof (induction rule: list_all2_induct)
  case (Cons x xs y outs)
  obtain names where names: "p_tail (fst x) = p_tail p @ names" using Cons.prems by auto
  have y: "fst y = fst x" "shows_entry env (file_stored (re_ops env) oc open_file (load_data (re_loader env))) (snd x) (snd y)"
    using Cons.hyps(1) by (simp_all add: lists_result_def)
  obtain r o' where item: "get_item env rl oc ns (to_relative_string p) (fst x, snd y) = Some (Inr (Some (r, o')))"
    "rl_names rl r = names" "gets_entry env oc open_file (snd x) o'"
    using get_item_entry[OF assms(1-3) y(2) _ names] Cons.prems unfolding to_relative_string_def by auto
  obtain items where "get_items env rl oc ns (to_relative_string p) (map Inr outs) = Some (map Inr items)"
    "list_all2 (gets_at env rl oc open_file p) xs items" using Cons.IH Cons.prems by auto
  moreover have "gets_at env rl oc open_file p x (r, o')" using item(2,3) names by (simp add: gets_at_def)
  ultimately show ?case using item(1) y(1) by (intro exI[of _ "(r, o') # items"]) (cases y, simp)
qed simp

text \<open>
  C1: What was added can be got back. Adding a directory to a node stores all its blocks and gives the content id of its
  root, and getting a path below this root from the node, with no network at all, gives the entry at the path and
  every entry below it, each under its path below the first: the directories, the files, which are read back byte for
  byte, and the symbolic links with their targets. Whatever was in the store before is kept.
\<close>

theorem Api_add_get:
  assumes "ufs_laws (re_ops env)" and "codecs_agree (re_ops env) cids" and "rel_laws rl" and "raw_laws (re_ipld env)"
    and "store_run cids s log" and "ld_has_store lenv" and "ld_store_cids lenv = cids"
    and "directory_ok (re_murmur3 env) d" and "Directory_encode (re_ops env) oc open_file d = map Inr blocks"
    and "addable cids s log blocks"
    and "p_typ p = Ipfs" and "p_root p = PCid (ub_cid (last blocks))" and "walk (EDirectory d) (non_empty (p_tail p)) = Inr e"
    and "\<forall>x\<in>set (listing [(p, e)]). entry_ready (re_ops env) open_file ns (snd x) \<and> list_all plain_name (p_tail (fst x))"
    and "\<forall>n\<in>set ns. 0 < n"
  shows "\<exists>s'. Api_add (re_ops env) cids oc open_file (EDirectory d) s = (Inr (ub_cid (last blocks)), s') \<and>
    (let env' = env\<lparr>re_loader := store_loader lenv s'\<rparr>
     in \<exists>items. Api_get env' rl oc ns 8 p = Some (Inr (map Inr items)) \<and>
          list_all2 (gets_at env' rl oc open_file p) (listing [(p, e)]) items) \<and>
    (\<forall>c data. Store_get cids s c = Some data \<longrightarrow> Store_get cids s' c = Some data)"
proof -
  have ne: "blocks \<noteq> []" using leavesD(1)[OF encode_leaves(2)[OF assms(1,8,9)]] by simp
  obtain s' where add: "Api_add (re_ops env) cids oc open_file (EDirectory d) s = (Inr (ub_cid (last blocks)), s')"
    and run: "store_run cids s' (log @ map Block_into_parts blocks)"
    using added[OF assms(1,2,5), of oc open_file "EDirectory d" blocks] ne assms(9,10) by auto
  have keep: "Store_get cids s c = Some data \<longrightarrow> Store_get cids s' c = Some data" for c data
    using store_run_get(1)[OF assms(5), of c] store_run_get(1)[OF run, of c]
    by (simp add: first_put_append split: option.splits)
  let ?env = "env\<lparr>re_loader := store_loader lenv s'\<rparr>"
  have "stored (load_data (re_loader ?env)) blocks"
    using loader_has_added[OF run _ assms(6,7)] assms(10) by (simp add: addable_def)
  moreover note names = listing_names[of "[(p, e)]"]
  ultimately obtain outs where outs: "resolve_recursive_with_paths ?env 8 p = Some (map Inr outs)"
    "list_all2 (lists_result ?env (file_stored (re_ops ?env) oc open_file (load_data (re_loader ?env)))) (listing [(p, e)]) outs"
    using encoded_listing[of ?env d oc open_file blocks p e] assms(1,4,8,9,11-14) by auto
  have "\<forall>x\<in>set (listing [(p, e)]). \<exists>names. p_tail (fst x) = p_tail p @ names"
    using listing_tail[of "[(p, e)]" "p_tail p"] by auto
  then obtain items where "get_items ?env rl oc ns (to_relative_string p) (map Inr outs) = Some (map Inr items)"
    "list_all2 (gets_at ?env rl oc open_file p) (listing [(p, e)]) items"
    using get_items_entries[OF _ assms(3,15) outs(2), of p] assms(1,14) by auto
  then show ?thesis using add keep outs(1) assms(12) by (auto simp: Api_get_def Path_cid_def Let_def)
qed

section \<open>Witnesses\<close>

text \<open>A relative path as the list of its components.\<close>

definition comps :: "bytes \<Rightarrow> bytes list" where
  "comps bs = filter (\<lambda>n. n \<noteq> []) (split_on 47 bs)"

definition list_rel :: "bytes list rel_ops" where
  "list_rel = \<lparr>rl_from_path = (\<lambda>bs. Some (comps bs)), rl_starts_with = (\<lambda>r bs. take (length (comps bs)) r = comps bs),
     rl_strip_prefix = (\<lambda>r bs. if take (length (comps bs)) r = comps bs then Some (drop (length (comps bs)) r) else None),
     rl_names = (\<lambda>r. r)\<rparr>"

lemma split_on_plain: "47 \<notin> set n \<Longrightarrow> split_on 47 n = [n]"
  by (induction n) auto

lemma split_on_slash: "47 \<notin> set n \<Longrightarrow> split_on 47 (n @ 47 # rest) = n # split_on 47 rest"
  by (induction n) auto

lemma comps_join: "list_all plain_name ns \<Longrightarrow> comps (join_slash ns) = ns"
  by (induction ns rule: join_slash.induct) (auto simp: comps_def plain_name_def split_on_plain split_on_slash)

lemma list_rel_laws: "rel_laws list_rel"
  by (auto simp: rel_laws_def list_rel_def comps_join list_all_append)

lemma demo_dir_addable: "addable num_cids Store_create [] [demo_leaf [1, 2], demo_dir_block]"
  by (simp add: addable_def no_collision_def Block_into_parts_def ids_needed_def Store_create_def id_key_eq num_cids_def
      demo_leaf_def demo_dir_block_def sum_ufs_def Codec_Raw_def Codec_DagPb_def Let_def)

lemma demo_dir_ready:
  "\<forall>x\<in>set (listing [(demo_res_path [], EDirectory demo_dir)]).
     entry_ready (re_ops demo_env) (\<lambda>_. Inl IoError) [1] (snd x) \<and> list_all plain_name (p_tail (fst x))"
proof -
  have "file_ready sum_ufs (\<lambda>_. Inl IoError) demo_res_file [Data [1, 2]]"
    using sum_stems_fit
    by (simp add: file_ready_def demo_res_file_def chunker_ok_def file_reads_def reads_ok_def data_of_def DEFAULT_CHUNK_SIZE_LIMIT_def)
  then have "entry_ready (re_ops demo_env) (\<lambda>_. Inl IoError) [1] (EFile demo_res_file)"
    by (auto simp: entry_ready_def demo_env_def)
  then show ?thesis
    by (simp add: child_paths_def demo_dir_def demo_res_file_def demo_res_path_def Path_push_def plain_name_def entry_ready_def)
qed

theorem Api_add_get_witness:
  "\<exists>s' items. Api_add sum_ufs num_cids True (\<lambda>_. Inl IoError) (EDirectory demo_dir) Store_create = (Inr (ub_cid demo_dir_block), s') \<and>
     Api_get (demo_env\<lparr>re_loader := store_loader gateway_env s'\<rparr>) list_rel True [1] 8 (demo_res_path []) = Some (Inr (map Inr items)) \<and>
     map fst items = [[], [[97]]]"
proof -
  have walk: "walk (EDirectory demo_dir) (non_empty (p_tail (demo_res_path []))) = Inr (EDirectory demo_dir)"
    by (simp add: demo_res_path_def non_empty_def)
  have raw: "raw_laws (re_ipld demo_env)" by (simp add: raw_laws_def demo_env_def demo_ipld_def)
  have agree: "codecs_agree (re_ops demo_env) num_cids" by (simp add: codecs_agree_def demo_env_def sum_ufs_def num_cids_def)
  have lenv: "ld_has_store gateway_env" "ld_store_cids gateway_env = num_cids" by (simp_all add: gateway_env_def)
  have pos: "\<forall>n\<in>set [1 :: nat]. 0 < n" by simp
  have list: "listing [(demo_res_path [], EDirectory demo_dir)] =
      [(demo_res_path [], EDirectory demo_dir), (demo_res_path [[97]], EFile demo_res_file)]"
    by (simp add: child_paths_def demo_dir_def demo_res_file_def demo_res_path_def Path_push_def)
  obtain s' items where "Api_add (re_ops demo_env) num_cids True (\<lambda>_. Inl IoError) (EDirectory demo_dir) Store_create =
      (Inr (ub_cid (last [demo_leaf [1, 2], demo_dir_block])), s')"
    "Api_get (demo_env\<lparr>re_loader := store_loader gateway_env s'\<rparr>) list_rel True [1] 8 (demo_res_path []) = Some (Inr (map Inr items))"
    "list_all2 (gets_at (demo_env\<lparr>re_loader := store_loader gateway_env s'\<rparr>) list_rel True (\<lambda>_. Inl IoError) (demo_res_path []))
      (listing [(demo_res_path [], EDirectory demo_dir)]) items"
    using Api_add_get[OF demo_dir_hyps(1) agree list_rel_laws raw sr_create lenv demo_dir_hyps(2,3) demo_dir_addable
        demo_dir_hyps(5,6) walk demo_dir_ready pos] unfolding Let_def by blast
  then show ?thesis unfolding list
    by (auto simp: list_all2_Cons1 gets_at_def demo_res_path_def list_rel_def demo_env_def)
qed

end
