(* ===== verification/Car.thy ===== *)
theory Car
  imports Prelude
begin

text \<open>
  Reading and writing CAR files, files of blocks: the crate \<open>iroh-car\<close>.

  The writer's output and the reader's input are lists of bytes in memory, so reads and writes fail only at the end of
  the input. Variable-length integers (the crate \<open>integer_encoding\<close>), the bytes of a content id and the DAG-CBOR
  form of the header are parameters, with \<open>car_laws\<close> as what the format needs of them: an integer and a content id are read
  back with the bytes after them left over, the header is read back, and an integer is not read at the end of the input.
\<close>

section \<open>Data\<close>

datatype car_error = CarParsing | CarInvalidFile | CarCbor | LdReadTooLarge nat

record 'cid car_header_v1 =
  ch_roots :: "'cid list"
  ch_version :: "64 word"

datatype 'cid car_header = V1 "'cid car_header_v1"

text \<open>An integer is read with the input after it, or the input ends too early, or it is not one.\<close>

datatype varint_read = VarintOk nat bytes | VarintEof | VarintBad

record 'cid car_ops =
  ca_varint :: "nat \<Rightarrow> bytes"
  ca_read_varint :: "bytes \<Rightarrow> varint_read"
  ca_cid :: "'cid \<Rightarrow> bytes"
  ca_read_cid :: "bytes \<Rightarrow> ('cid \<times> nat) option"
  ca_encode_header :: "'cid car_header_v1 \<Rightarrow> bytes option"
  ca_decode_header :: "bytes \<Rightarrow> 'cid car_header_v1 option"

definition car_laws :: "'cid car_ops \<Rightarrow> bool" where
  "car_laws ops \<longleftrightarrow>
     (\<forall>n rest. ca_read_varint ops (ca_varint ops n @ rest) = VarintOk n rest) \<and>
     ca_read_varint ops [] = VarintEof \<and>
     (\<forall>c rest. ca_read_cid ops (ca_cid ops c @ rest) = Some (c, length (ca_cid ops c))) \<and>
     (\<forall>h bs. ca_encode_header ops h = Some bs \<longrightarrow> ca_decode_header ops bs = Some h)"

section \<open>Headers\<close>

definition CarHeaderV1_new :: "'cid list \<Rightarrow> 64 word \<Rightarrow> 'cid car_header_v1" where
  "CarHeaderV1_new roots version = \<lparr>ch_roots = roots, ch_version = version\<rparr>"

definition CarHeaderV1_from :: "'cid list \<Rightarrow> 'cid car_header_v1" where
  "CarHeaderV1_from roots = \<lparr>ch_roots = roots, ch_version = 1\<rparr>"

definition CarHeader_new_v1 :: "'cid list \<Rightarrow> 'cid car_header" where
  "CarHeader_new_v1 roots = V1 (CarHeaderV1_from roots)"

definition CarHeader_decode :: "'cid car_ops \<Rightarrow> bytes \<Rightarrow> car_error + 'cid car_header" where
  "CarHeader_decode ops buffer =
     result_bind (ok_or CarParsing (ca_decode_header ops buffer)) (\<lambda>header.
     if ch_roots header = [] then Inl CarParsing
     else if ch_version header \<noteq> 1 then Inl CarInvalidFile
     else Inr (V1 header))"

fun CarHeader_encode :: "'cid car_ops \<Rightarrow> 'cid car_header \<Rightarrow> car_error + bytes" where
  "CarHeader_encode ops (V1 header) = ok_or CarCbor (ca_encode_header ops header)"

fun CarHeader_roots :: "'cid car_header \<Rightarrow> 'cid list" where
  "CarHeader_roots (V1 header) = ch_roots header"

fun CarHeader_version :: "'cid car_header \<Rightarrow> 64 word" where
  "CarHeader_version (V1 _) = 1"

section \<open>Reading\<close>

definition MAX_ALLOC :: nat where
  "MAX_ALLOC = 4 * 1024 * 1024"

text \<open>
  The bytes of a section, the input after it, and the buffer, which only grows: the bytes are its first ones.
  The end of the input in place of the length is no section.
\<close>

definition ld_read :: "'cid car_ops \<Rightarrow> bytes \<Rightarrow> bytes \<Rightarrow> car_error + bytes option \<times> bytes \<times> bytes" where
  "ld_read ops reader buf = (case ca_read_varint ops reader of
       VarintEof \<Rightarrow> Inr (None, [], buf)
     | VarintBad \<Rightarrow> Inl CarParsing
     | VarintOk len reader \<Rightarrow>
         if len > MAX_ALLOC then Inl (LdReadTooLarge len)
         else let buf = (if len > length buf then buf @ replicate (len - length buf) 0 else buf)
              in if length reader < len then Inl CarParsing
                 else let buf = take len reader @ drop len buf
                      in Inr (Some (take len buf), drop len reader, buf))"

definition read_node :: "'cid car_ops \<Rightarrow> bytes \<Rightarrow> bytes \<Rightarrow> car_error + ('cid \<times> bytes) option \<times> bytes \<times> bytes" where
  "read_node ops reader buf =
     result_bind (ld_read ops reader buf) (\<lambda>(section, reader, buf).
     case section of
       None \<Rightarrow> Inr (None, reader, buf)
     | Some bs \<Rightarrow> result_bind (ok_or CarParsing (ca_read_cid ops bs)) (\<lambda>(c, pos). Inr (Some (c, drop pos bs), reader, buf)))"

record 'cid car_reader =
  cr_reader :: bytes
  cr_header :: "'cid car_header"
  cr_buffer :: bytes

definition CarReader_new :: "'cid car_ops \<Rightarrow> bytes \<Rightarrow> car_error + 'cid car_reader" where
  "CarReader_new ops reader =
     result_bind (ld_read ops reader []) (\<lambda>(section, reader, buffer).
     case section of
       Some buf \<Rightarrow>
         result_bind (CarHeader_decode ops buf) (\<lambda>header.
         Inr \<lparr>cr_reader = reader, cr_header = header, cr_buffer = buffer\<rparr>)
     | None \<Rightarrow> Inl CarParsing)"

definition next_block :: "'cid car_ops \<Rightarrow> 'cid car_reader \<Rightarrow> car_error + ('cid \<times> bytes) option \<times> 'cid car_reader" where
  "next_block ops r =
     result_bind (read_node ops (cr_reader r) (cr_buffer r)) (\<lambda>(block, reader, buffer).
     Inr (block, r\<lparr>cr_reader := reader, cr_buffer := buffer\<rparr>))"

text \<open>
  The items of the stream, polled \<open>n\<close> times; nothing comes after an error or the end. This is \<open>try_unfold\<close>, which gives up
  its state in both cases.
\<close>

fun CarReader_stream :: "'cid car_ops \<Rightarrow> nat \<Rightarrow> 'cid car_reader \<Rightarrow> (car_error + 'cid \<times> bytes) list" where
  "CarReader_stream ops 0 r = []"
| "CarReader_stream ops (Suc n) r = (case next_block ops r of
       Inl e \<Rightarrow> [Inl e]
     | Inr (None, r') \<Rightarrow> []
     | Inr (Some b, r') \<Rightarrow> Inr b # CarReader_stream ops n r')"

section \<open>Writing\<close>

record 'cid car_writer =
  cw_header :: "'cid car_header"
  cw_writer :: bytes
  cw_cid_buffer :: bytes
  cw_is_header_written :: bool

definition CarWriter_new :: "'cid car_header \<Rightarrow> bytes \<Rightarrow> 'cid car_writer" where
  "CarWriter_new header writer =
     \<lparr>cw_header = header, cw_writer = writer, cw_cid_buffer = [], cw_is_header_written = False\<rparr>"

definition CarWriter_write :: "'cid car_ops \<Rightarrow> 'cid \<Rightarrow> bytes \<Rightarrow> 'cid car_writer \<Rightarrow> car_error + 'cid car_writer" where
  "CarWriter_write ops cid data w =
     result_bind
       (if cw_is_header_written w then Inr w
        else result_bind (CarHeader_encode ops (cw_header w)) (\<lambda>header_bytes.
             Inr (w\<lparr>cw_writer := cw_writer w @ ca_varint ops (length header_bytes) @ header_bytes,
                    cw_is_header_written := True\<rparr>)))
       (\<lambda>w. let cid_buffer = ca_cid ops cid;
                len = length cid_buffer + length data
            in Inr (w\<lparr>cw_cid_buffer := cid_buffer,
                      cw_writer := cw_writer w @ ca_varint ops len @ cid_buffer @ data\<rparr>))"

definition CarWriter_finish :: "'cid car_writer \<Rightarrow> bytes" where
  "CarWriter_finish w = cw_writer w"

text \<open>A file of some blocks.\<close>

definition car_file :: "'cid car_ops \<Rightarrow> 'cid car_header \<Rightarrow> ('cid \<times> bytes) list \<Rightarrow> car_error + bytes" where
  "car_file ops header blocks =
     result_bind (fold_result (\<lambda>(cid, data). CarWriter_write ops cid data) blocks (CarWriter_new header [])) (\<lambda>w.
     Inr (CarWriter_finish w))"

section \<open>Sections\<close>

lemma ld_read_section:
  assumes "car_laws ops" and "length bs \<le> MAX_ALLOC"
  shows "\<exists>buf'. ld_read ops (ca_varint ops (length bs) @ bs @ rest) buf = Inr (Some bs, rest, buf')"
  using assms by (auto simp: ld_read_def car_laws_def Let_def)

lemma ld_read_too_large:
  assumes "car_laws ops" and "length bs > MAX_ALLOC"
  shows "ld_read ops (ca_varint ops (length bs) @ bs @ rest) buf = Inl (LdReadTooLarge (length bs))"
  using assms by (auto simp: ld_read_def car_laws_def)

lemma ld_read_truncated:
  assumes "car_laws ops" and "length bs < len" and "len \<le> MAX_ALLOC"
  shows "ld_read ops (ca_varint ops len @ bs) buf = Inl CarParsing"
  using assms by (auto simp: ld_read_def car_laws_def Let_def)

definition section_bytes :: "'cid car_ops \<Rightarrow> bytes \<Rightarrow> bytes" where
  "section_bytes ops bs = ca_varint ops (length bs) @ bs"

definition block_bytes :: "'cid car_ops \<Rightarrow> 'cid \<times> bytes \<Rightarrow> bytes" where
  "block_bytes ops b = ca_cid ops (fst b) @ snd b"

definition block_section :: "'cid car_ops \<Rightarrow> 'cid \<times> bytes \<Rightarrow> bytes" where
  "block_section ops b = section_bytes ops (block_bytes ops b)"

text \<open>The writer gives the section of the header, before the first block, and one section per block.\<close>

lemma write_written:
  assumes "cw_is_header_written w"
  shows "\<exists>w'. fold_result (\<lambda>(cid, data). CarWriter_write ops cid data) blocks w = Inr w' \<and>
    cw_writer w' = cw_writer w @ concat (map (block_section ops) blocks)"
  using assms
proof (induction blocks arbitrary: w)
  case (Cons b blocks)
  obtain c d where b: "b = (c, d)" by (cases b)
  obtain w1 where w1: "CarWriter_write ops c d w = Inr w1" "cw_is_header_written w1"
    "cw_writer w1 = cw_writer w @ block_section ops b"
    using Cons.prems by (simp add: CarWriter_write_def Let_def block_section_def section_bytes_def block_bytes_def b)
  from Cons.IH[OF w1(2)] w1 show ?case by (auto simp: b)
qed simp

lemma car_file_sections:
  "car_file ops (V1 header) blocks =
     (if blocks = [] then Inr []
      else result_bind (ok_or CarCbor (ca_encode_header ops header)) (\<lambda>hb.
        Inr (section_bytes ops hb @ concat (map (block_section ops) blocks))))"
proof (cases blocks)
  case Nil
  then show ?thesis by (simp add: car_file_def CarWriter_finish_def CarWriter_new_def)
next
  case (Cons b bs)
  obtain c d where b: "b = (c, d)" by (cases b)
  show ?thesis
  proof (cases "ca_encode_header ops header")
    case None
    then show ?thesis using Cons b by (simp add: car_file_def CarWriter_write_def CarWriter_new_def)
  next
    case (Some hb)
    let ?w = "CarWriter_new (V1 header) []"
    obtain w1 where w1: "CarWriter_write ops c d ?w = Inr w1" "cw_is_header_written w1"
      "cw_writer w1 = section_bytes ops hb @ block_section ops b"
      using Some by (simp add: CarWriter_write_def CarWriter_new_def Let_def block_section_def section_bytes_def block_bytes_def b)
    from write_written[OF w1(2), of ops bs] obtain w2 where
      "fold_result (\<lambda>(cid, data). CarWriter_write ops cid data) bs w1 = Inr w2"
      "cw_writer w2 = cw_writer w1 @ concat (map (block_section ops) bs)" by blast
    then show ?thesis using Cons b w1 Some by (simp add: car_file_def CarWriter_finish_def)
  qed
qed

section \<open>Reading what was written\<close>

lemma next_block_section:
  assumes "car_laws ops" and "length (block_bytes ops b) \<le> MAX_ALLOC"
    and "cr_reader r = block_section ops b @ rest"
  shows "\<exists>buf. next_block ops r = Inr (Some b, r\<lparr>cr_reader := rest, cr_buffer := buf\<rparr>)"
proof -
  obtain buf where "ld_read ops (cr_reader r) (cr_buffer r) = Inr (Some (block_bytes ops b), rest, buf)"
    using ld_read_section[OF assms(1,2)] assms(3) by (auto simp: block_section_def section_bytes_def)
  moreover have "ca_read_cid ops (block_bytes ops b) = Some (fst b, length (ca_cid ops (fst b)))"
    using assms(1) by (simp add: car_laws_def block_bytes_def)
  ultimately show ?thesis by (auto simp: next_block_def read_node_def block_bytes_def)
qed

lemma stream_sections:
  assumes "car_laws ops" and "\<forall>b\<in>set blocks. length (block_bytes ops b) \<le> MAX_ALLOC"
    and "cr_reader r = concat (map (block_section ops) blocks) @ rest" and "length blocks \<le> n"
  shows "\<exists>r'. CarReader_stream ops n r = map Inr blocks @ CarReader_stream ops (n - length blocks) r' \<and> cr_reader r' = rest"
  using assms(2-)
proof (induction blocks arbitrary: r n)
  case (Cons b blocks)
  obtain m where n: "n = Suc m" using Cons.prems(3) by (cases n) auto
  have "cr_reader r = block_section ops b @ concat (map (block_section ops) blocks) @ rest"
    using Cons.prems(2) by simp
  then obtain buf where nb: "next_block ops r = Inr (Some b, r\<lparr>cr_reader := concat (map (block_section ops) blocks) @ rest, cr_buffer := buf\<rparr>)"
    using next_block_section[OF assms(1)] Cons.prems(1) by fastforce
  from Cons.IH[of "r\<lparr>cr_reader := concat (map (block_section ops) blocks) @ rest, cr_buffer := buf\<rparr>" m]
  show ?case using Cons.prems n nb by auto
qed auto

lemma stream_end: "car_laws ops \<Longrightarrow> cr_reader r = [] \<Longrightarrow> CarReader_stream ops n r = []"
  by (cases n) (simp_all add: next_block_def read_node_def ld_read_def car_laws_def)

lemma reader_of_header:
  assumes "car_laws ops" and "ca_encode_header ops header = Some hb" and "length hb \<le> MAX_ALLOC"
    and "ch_roots header \<noteq> []" and "ch_version header = 1"
  shows "\<exists>r. CarReader_new ops (section_bytes ops hb @ rest) = Inr r \<and> cr_header r = V1 header \<and> cr_reader r = rest"
proof -
  obtain buf where "ld_read ops (section_bytes ops hb @ rest) [] = Inr (Some hb, rest, buf)"
    using ld_read_section[OF assms(1,3), of rest "[]"] by (auto simp: section_bytes_def)
  moreover have "ca_decode_header ops hb = Some header" using assms(1,2) by (simp add: car_laws_def)
  ultimately show ?thesis using assms(4,5) by (simp add: CarReader_new_def CarHeader_decode_def)
qed

text \<open>
  C18: A CAR file that was written is read back. With at least one root and one block, and no section above the limit of the
  reader, the file has the header and gives exactly the blocks, in order, and then ends.
\<close>

theorem car_roundtrip:
  assumes "car_laws ops" and "roots \<noteq> []" and "blocks \<noteq> []"
    and "car_file ops (CarHeader_new_v1 roots) blocks = Inr file_bytes"
    and "\<forall>hb. CarHeader_encode ops (CarHeader_new_v1 roots) = Inr hb \<longrightarrow> length hb \<le> MAX_ALLOC"
    and "\<forall>(c, d) \<in> set blocks. length (ca_cid ops c) + length d \<le> MAX_ALLOC"
  shows "\<exists>r. CarReader_new ops file_bytes = Inr r \<and> CarHeader_roots (cr_header r) = roots \<and>
    (\<forall>n \<ge> length blocks. CarReader_stream ops n r = map Inr blocks)"
proof -
  obtain hb where hb: "ca_encode_header ops (CarHeaderV1_from roots) = Some hb"
    and bytes: "file_bytes = section_bytes ops hb @ concat (map (block_section ops) blocks)"
    using assms(3,4) by (auto simp: CarHeader_new_v1_def car_file_sections ok_or_def split: option.splits)
  have len: "length hb \<le> MAX_ALLOC" using assms(5) hb by (simp add: CarHeader_new_v1_def)
  obtain r where r: "CarReader_new ops file_bytes = Inr r" "cr_header r = V1 (CarHeaderV1_from roots)"
    "cr_reader r = concat (map (block_section ops) blocks) @ []"
    using reader_of_header[OF assms(1) hb len] assms(2) bytes by (auto simp: CarHeaderV1_from_def)
  have "\<forall>b\<in>set blocks. length (block_bytes ops b) \<le> MAX_ALLOC" using assms(6) by (auto simp: block_bytes_def)
  from stream_sections[OF assms(1) this r(3)] stream_end[OF assms(1)]
  have "CarReader_stream ops n r = map Inr blocks" if "length blocks \<le> n" for n using that by fastforce
  with r show ?thesis by (auto simp: CarHeaderV1_from_def)
qed

lemma stream_too_large:
  assumes "car_laws ops" and "length (block_bytes ops b) > MAX_ALLOC" and "cr_reader r = block_section ops b @ rest" and "0 < n"
  shows "CarReader_stream ops n r = [Inl (LdReadTooLarge (length (block_bytes ops b)))]"
  using ld_read_too_large[OF assms(1,2), of rest "cr_buffer r"] assms(3,4)
  by (cases n) (simp_all add: next_block_def read_node_def block_section_def section_bytes_def)

lemma no_roots_refused:
  assumes "car_laws ops" and "car_file ops (CarHeader_new_v1 []) blocks = Inr file_bytes"
  shows "\<exists>e. CarReader_new ops file_bytes = Inl e"
proof (cases "blocks = []")
  case True
  then show ?thesis using assms by (auto simp: CarHeader_new_v1_def car_file_sections CarReader_new_def ld_read_def car_laws_def)
next
  case False
  then obtain hb rest where hb: "ca_encode_header ops (CarHeaderV1_from []) = Some hb" "file_bytes = section_bytes ops hb @ rest"
    using assms(2) by (auto simp: CarHeader_new_v1_def car_file_sections ok_or_def split: option.splits)
  show ?thesis
  proof (cases "length hb \<le> MAX_ALLOC")
    case True
    obtain buf where "ld_read ops file_bytes [] = Inr (Some hb, rest, buf)"
      using ld_read_section[OF assms(1) True, of rest "[]"] hb(2) by (auto simp: section_bytes_def)
    moreover have "ca_decode_header ops hb = Some (CarHeaderV1_from [])" using assms(1) hb(1) by (simp add: car_laws_def)
    ultimately show ?thesis by (simp add: CarReader_new_def CarHeader_decode_def CarHeaderV1_from_def)
  next
    case False
    then show ?thesis using ld_read_too_large[OF assms(1), of hb rest "[]"] hb(2)
      by (simp add: CarReader_new_def section_bytes_def)
  qed
qed

lemma large_block_refused:
  assumes laws: "car_laws ops" and "roots \<noteq> []" and wr: "car_file ops (CarHeader_new_v1 roots) (before @ large # after) = Inr file_bytes"
    and hlen: "\<forall>hb. CarHeader_encode ops (CarHeader_new_v1 roots) = Inr hb \<longrightarrow> length hb \<le> MAX_ALLOC"
    and small: "\<forall>b \<in> set before. length (block_bytes ops b) \<le> MAX_ALLOC"
    and large: "length (block_bytes ops large) > MAX_ALLOC"
  shows "\<exists>r. CarReader_new ops file_bytes = Inr r \<and> (\<forall>n > length before. CarReader_stream ops n r =
    map Inr before @ [Inl (LdReadTooLarge (length (block_bytes ops large)))])"
proof -
  obtain hb where hb: "ca_encode_header ops (CarHeaderV1_from roots) = Some hb"
    and bytes: "file_bytes = section_bytes ops hb @ concat (map (block_section ops) (before @ large # after))"
    using wr by (auto simp: CarHeader_new_v1_def car_file_sections ok_or_def split: option.splits)
  have len: "length hb \<le> MAX_ALLOC" using hlen hb by (simp add: CarHeader_new_v1_def)
  obtain r where r: "CarReader_new ops file_bytes = Inr r"
    "cr_reader r = concat (map (block_section ops) before) @ block_section ops large @ concat (map (block_section ops) after)"
    using reader_of_header[OF laws hb len] assms(2) bytes by (auto simp: CarHeaderV1_from_def)
  have "CarReader_stream ops n r = map Inr before @ [Inl (LdReadTooLarge (length (block_bytes ops large)))]" if n: "length before < n" for n
  proof -
    obtain r' where "CarReader_stream ops n r = map Inr before @ CarReader_stream ops (n - length before) r'"
      "cr_reader r' = block_section ops large @ concat (map (block_section ops) after)"
      using stream_sections[OF laws small r(2), of n] n by auto
    with stream_too_large[OF laws large this(2), of "n - length before"] n show ?thesis by simp
  qed
  with r(1) show ?thesis by blast
qed

text \<open>
  C40: What the writer accepts and the reader refuses. Without a block not even the header is written, and the empty file is no
  CAR file. A file without roots is refused. A file with a block above the limit gives the blocks before it and then the error.
\<close>

theorem car_unreadable:
  assumes "car_laws ops"
  shows "car_file ops (CarHeader_new_v1 roots) [] = Inr [] \<and> CarReader_new ops [] = Inl CarParsing \<and>
    (car_file ops (CarHeader_new_v1 []) blocks = Inr file_bytes \<longrightarrow> (\<exists>e. CarReader_new ops file_bytes = Inl e)) \<and>
    (roots \<noteq> [] \<longrightarrow> car_file ops (CarHeader_new_v1 roots) (before @ large # after) = Inr file_bytes \<longrightarrow>
     (\<forall>hb. CarHeader_encode ops (CarHeader_new_v1 roots) = Inr hb \<longrightarrow> length hb \<le> MAX_ALLOC) \<longrightarrow>
     (\<forall>b \<in> set before. length (ca_cid ops (fst b)) + length (snd b) \<le> MAX_ALLOC) \<longrightarrow>
     length (ca_cid ops (fst large)) + length (snd large) > MAX_ALLOC \<longrightarrow>
     (\<exists>r. CarReader_new ops file_bytes = Inr r \<and> (\<forall>n > length before. CarReader_stream ops n r =
        map Inr before @ [Inl (LdReadTooLarge (length (ca_cid ops (fst large)) + length (snd large)))])))"
proof (intro conjI impI)
  show "car_file ops (CarHeader_new_v1 roots) [] = Inr []" by (simp add: CarHeader_new_v1_def car_file_sections)
  show "CarReader_new ops [] = Inl CarParsing" using assms by (simp add: CarReader_new_def ld_read_def car_laws_def)
qed (use no_roots_refused[OF assms] large_block_refused[OF assms] in \<open>simp_all add: block_bytes_def\<close>)

section \<open>Witnesses\<close>

text \<open>Lengths in unary, content ids of one byte, and a header of its roots and version.\<close>

fun unary :: "bytes \<Rightarrow> nat \<Rightarrow> varint_read" where
  "unary [] n = VarintEof"
| "unary (b # bs) n = (if b = 0 then VarintOk n bs else unary bs (Suc n))"

definition toy_car :: "byte car_ops" where
  "toy_car = \<lparr>ca_varint = (\<lambda>n. replicate n 1 @ [0]), ca_read_varint = (\<lambda>bs. unary bs 0), ca_cid = (\<lambda>c. [c]),
     ca_read_cid = (\<lambda>bs. case bs of [] \<Rightarrow> None | c # _ \<Rightarrow> Some (c, 1)),
     ca_encode_header = (\<lambda>h. if ch_version h = 1 then Some (ch_roots h) else None),
     ca_decode_header = (\<lambda>bs. Some \<lparr>ch_roots = bs, ch_version = 1\<rparr>)\<rparr>"

lemma unary_read: "unary (replicate n 1 @ 0 # rest) m = VarintOk (m + n) rest"
  by (induction n arbitrary: m) auto

lemma toy_car_laws: "car_laws toy_car"
  by (auto simp: car_laws_def toy_car_def unary_read split: if_splits)

theorem car_roundtrip_witness:
  "\<exists>file_bytes r. car_file toy_car (CarHeader_new_v1 [5]) [(5, [1, 2]), (6, [])] = Inr file_bytes \<and>
     CarReader_new toy_car file_bytes = Inr r \<and> CarReader_stream toy_car 2 r = map Inr [(5, [1, 2]), (6, [])]"
proof -
  obtain fb where fb: "car_file toy_car (CarHeader_new_v1 [5]) [(5, [1, 2]), (6, [])] = Inr fb"
    by (simp add: CarHeader_new_v1_def car_file_sections CarHeaderV1_from_def toy_car_def)
  have hlen: "\<forall>hb. CarHeader_encode toy_car (CarHeader_new_v1 [5]) = Inr hb \<longrightarrow> length hb \<le> MAX_ALLOC"
    by (simp add: CarHeader_new_v1_def CarHeaderV1_from_def toy_car_def MAX_ALLOC_def)
  have blen: "\<forall>(c, d) \<in> set [(5, [1, 2]), (6, [])]. length (ca_cid toy_car c) + length (d :: bytes) \<le> MAX_ALLOC"
    by (simp add: toy_car_def MAX_ALLOC_def)
  show ?thesis using car_roundtrip[OF toy_car_laws _ _ fb hlen blen] fb by auto
qed

theorem car_unreadable_witness:
  "car_file toy_car (CarHeader_new_v1 [5]) [] = Inr [] \<and> CarReader_new toy_car [] = Inl CarParsing \<and>
   (\<exists>fb e. car_file toy_car (CarHeader_new_v1 []) [(5, [1, 2])] = Inr fb \<and> CarReader_new toy_car fb = Inl e)"
proof -
  obtain fb where fb: "car_file toy_car (CarHeader_new_v1 []) [(5, [1, 2])] = Inr fb"
    by (simp add: CarHeader_new_v1_def car_file_sections CarHeaderV1_from_def toy_car_def)
  then show ?thesis using car_unreadable[OF toy_car_laws, of "[5]" "[(5, [1, 2])]" fb] by blast
qed

end
